(* ===== verification/Xv6_Prelude.thy ===== *)
theory Xv6_Prelude
  imports Main "HOL-Library.Word"
begin

unbundle bit_operations_syntax

text \<open>
  Shared vocabulary of the development: the C types of \<^verbatim>\<open>types.h\<close> as machine words, the
  constants of \<^verbatim>\<open>param.h\<close>, the outcome of a kernel call (a value, a panic, a process that
  stays blocked, or undefined behaviour), and little-endian access to the bytes of a disk block.
\<close>

section \<open>C types and kernel parameters\<close>

type_synonym uint = "32 word"
type_synonym ushort = "16 word"
type_synonym uchar = "8 word"

definition NPROC :: nat where "NPROC = 64"
definition PAGE :: int where "PAGE = 4096"
definition NCPU :: nat where "NCPU = 8"
definition NOFILE :: nat where "NOFILE = 16"
definition NFILE :: nat where "NFILE = 100"
definition NBUF :: nat where "NBUF = 500"
definition NINODE :: nat where "NINODE = 50"
definition NDEV :: int where "NDEV = 10"
definition ROOTDEV :: uint where "ROOTDEV = 1"
definition NJB :: uint where "NJB = 201"

lemmas param_defs = NPROC_def PAGE_def NCPU_def NOFILE_def NFILE_def NBUF_def NINODE_def
  NDEV_def ROOTDEV_def NJB_def

section \<open>Outcomes of kernel code\<close>

text \<open>
  \<open>Ret\<close> is a normal return.  \<open>Panic m\<close> is a call of \<^verbatim>\<open>panic(m)\<close>, which never returns.
  \<open>Blocked m\<close> is a process that sleeps or spins at the named place: it goes on only if another
  process or interrupt changes the state first.  \<open>Fault m\<close> is undefined behaviour of C (an access
  outside an array, a wild pointer).
\<close>

datatype 'a outcome = Ret 'a | Panic string | Blocked string | Fault string

primrec obind :: "'a outcome \<Rightarrow> ('a \<Rightarrow> 'b outcome) \<Rightarrow> 'b outcome" where
  "obind (Ret x) f = f x"
| "obind (Panic m) f = Panic m"
| "obind (Blocked m) f = Blocked m"
| "obind (Fault m) f = Fault m"

lemma obind_cong [fundef_cong]:
  "m = m' \<Longrightarrow> (\<And>x. m' = Ret x \<Longrightarrow> f x = f' x) \<Longrightarrow> obind m f = obind m' f'"
  by (cases m') auto

lemma obind_eq_Ret_iff: "obind m f = Ret y \<longleftrightarrow> (\<exists>x. m = Ret x \<and> f x = Ret y)"
  by (cases m) auto

lemma obind_eq_RetE [elim!]:
  "obind m f = Ret y \<Longrightarrow> (\<And>x. m = Ret x \<Longrightarrow> f x = Ret y \<Longrightarrow> P) \<Longrightarrow> P"
  by (auto simp: obind_eq_Ret_iff)

lemma obind_assoc: "obind (obind m f) g = obind m (\<lambda>x. obind (f x) g)"
  by (cases m) auto

section \<open>Little-endian words in a byte array\<close>

text \<open>
  A byte array is a function from offsets; C code that casts a \<^verbatim>\<open>uchar data[]\<close> to a struct reads
  and writes 2- and 4-byte little-endian words at fixed offsets.
\<close>

type_synonym bytes = "nat \<Rightarrow> uchar"

definition get_u16 :: "bytes \<Rightarrow> nat \<Rightarrow> ushort" where
  "get_u16 d i = ucast (d i) OR push_bit 8 (ucast (d (i + 1)))"

definition put_u16 :: "bytes \<Rightarrow> nat \<Rightarrow> ushort \<Rightarrow> bytes" where
  "put_u16 d i v = d(i := ucast v, i + 1 := ucast (drop_bit 8 v))"

definition get_u32 :: "bytes \<Rightarrow> nat \<Rightarrow> uint" where
  "get_u32 d i = ucast (d i) OR push_bit 8 (ucast (d (i + 1)))
     OR push_bit 16 (ucast (d (i + 2))) OR push_bit 24 (ucast (d (i + 3)))"

definition put_u32 :: "bytes \<Rightarrow> nat \<Rightarrow> uint \<Rightarrow> bytes" where
  "put_u32 d i v = d(i := ucast v, i + 1 := ucast (drop_bit 8 v),
     i + 2 := ucast (drop_bit 16 v), i + 3 := ucast (drop_bit 24 v))"

lemma get_put_u16_same [simp]: "get_u16 (put_u16 d i v) i = v"
  unfolding get_u16_def put_u16_def
  by (rule bit_word_eqI) (auto simp: bit_simps)

lemma get_put_u16_other [simp]:
  "j + 2 \<le> i \<or> i + 2 \<le> j \<Longrightarrow> get_u16 (put_u16 d i v) j = get_u16 d j"
  by (auto simp: get_u16_def put_u16_def)

lemma get_put_u32_same [simp]: "get_u32 (put_u32 d i v) i = v"
proof (rule bit_word_eqI)
  fix n assume n: "n < LENGTH(32)"
  then consider "n < 8" | "8 \<le> n" "n < 16" | "16 \<le> n" "n < 24" | "24 \<le> n" "n < 32"
    by fastforce
  then show "bit (get_u32 (put_u32 d i v) i) n = bit v n"
    using n by cases (auto simp: get_u32_def put_u32_def bit_simps)
qed

lemma get_put_u32_other [simp]:
  "j + 4 \<le> i \<or> i + 4 \<le> j \<Longrightarrow> get_u32 (put_u32 d i v) j = get_u32 d j"
  by (auto simp: get_u32_def put_u32_def)

lemma put_u32_outside: "k < i \<or> i + 4 \<le> k \<Longrightarrow> put_u32 d i v k = d k"
  by (auto simp: put_u32_def)

lemma put_u16_outside: "k < i \<or> i + 2 \<le> k \<Longrightarrow> put_u16 d i v k = d k"
  by (auto simp: put_u16_def)

section \<open>Transition systems and their invariants\<close>

text \<open>
  Several components are state machines whose steps interleave.  The contract of an inductive
  invariant is stated once; each component interprets it on its own step relation.
\<close>

inductive reach :: "('s \<Rightarrow> bool) \<Rightarrow> ('s \<Rightarrow> 's \<Rightarrow> bool) \<Rightarrow> 's \<Rightarrow> bool" for init step where
  reach_init: "init s \<Longrightarrow> reach init step s"
| reach_step: "reach init step s \<Longrightarrow> step s t \<Longrightarrow> reach init step t"

locale inductive_invariant =
  fixes init :: "'s \<Rightarrow> bool" and step :: "'s \<Rightarrow> 's \<Rightarrow> bool" and inv :: "'s \<Rightarrow> bool"
  assumes inv_init: "init s \<Longrightarrow> inv s"
    and inv_step: "inv s \<Longrightarrow> step s t \<Longrightarrow> inv t"
begin

lemma reach_inv: "reach init step s \<Longrightarrow> inv s"
  by (induction rule: reach.induct) (auto intro: inv_init inv_step)

end

section \<open>Word arithmetic\<close>

lemma unat_add_uint: "unat x + unat y < 2 ^ 32 \<Longrightarrow> unat (x + y) = unat x + unat (y :: uint)"
  by (simp add: unat_word_ariths)

lemma unat_inc_less: "x < y \<Longrightarrow> unat (x + 1) = unat x + 1" for x y :: uint
proof -
  assume "x < y"
  then have "unat x < unat y" by (simp add: word_less_nat_alt)
  moreover have "unat y < 2 ^ 32" using unsigned_less [of y, where ?'a = nat] by simp
  ultimately show ?thesis by (subst unat_add_uint) auto
qed

lemma sint_small: "unat x < 2 ^ 31 \<Longrightarrow> sint x = int (unat x)" for x :: uint
proof -
  assume "unat x < 2 ^ 31"
  then have "uint x < 2 ^ 31" by (metis of_nat_less_iff of_nat_numeral of_nat_power uint_nat)
  moreover have "- (2 ^ 31) \<le> uint x" by (rule order_trans [of _ 0]) simp_all
  ultimately have "signed_take_bit 31 (uint x) = uint x" by (intro signed_take_bit_int_eq_self) simp_all
  then show ?thesis by (simp add: sint_uint)
qed

end
