(* ===== verification/Ide.thy ===== *)
theory Ide
  imports Xv6_Prelude
begin

text \<open>
  The IDE driver of \<^verbatim>\<open>ide.c\<close> and the buffers of \<^verbatim>\<open>buf.h\<close> it moves to and from the disk.  The
  controller is modelled by what it does with the port writes of the driver: it latches a command,
  carries it out, and raises an interrupt.  The main result is that \<^verbatim>\<open>ide_rw\<close>, which queues a
  buffer and sleeps until the interrupt handler has served it, is a synchronous transfer.
\<close>

section \<open>Buffers\<close>

text \<open>The bit mask \<^verbatim>\<open>flags\<close> is the set of its bits.\<close>

datatype bflag = B_BUSY | B_VALID | B_DIRTY

record buf =
  b_flags :: "bflag set"
  b_dev :: uint
  b_sector :: uint
  b_faliable :: uint
  b_data :: bytes

section \<open>Driver and controller state\<close>

text \<open>
  A sector of a drive is named by the drive (0 or 1) and a 28-bit block address.  \<open>disk_writes\<close>
  is a history variable of the model: the sector writes that reached the disk, oldest first.
\<close>

type_synonym blkid = "uint \<times> uint"

datatype ide_cmd = Ide_read blkid | Ide_write blkid bytes

record ide_state =
  bufs :: "nat \<Rightarrow> buf"
  ide_queue :: "nat list"
  disk_1_present :: bool
  ide_status :: uchar
  ide_active :: "ide_cmd option"
  ide_datain :: bytes
  disk :: "blkid \<Rightarrow> bytes"
  disk_writes :: "(blkid \<times> bytes) list"

abbreviation buf_of :: "nat \<Rightarrow> 'a ide_state_scheme \<Rightarrow> buf" where
  "buf_of b s \<equiv> bufs s b"

definition upd_buf :: "nat \<Rightarrow> (buf \<Rightarrow> buf) \<Rightarrow> 'a ide_state_scheme \<Rightarrow> 'a ide_state_scheme" where
  "upd_buf b f s = s\<lparr>bufs := (bufs s)(b := f (bufs s b))\<rparr>"

definition IDE_BSY :: uchar where "IDE_BSY = 0x80"
definition IDE_DRDY :: uchar where "IDE_DRDY = 0x40"
definition IDE_DF :: uchar where "IDE_DF = 0x20"
definition IDE_ERR :: uchar where "IDE_ERR = 0x01"

text \<open>
  \<^verbatim>\<open>ide_wait_ready\<close> polls the status register; while the drive is busy or not ready the processor
  spins.
\<close>

definition ide_wait_ready :: "bool \<Rightarrow> 'a ide_state_scheme \<Rightarrow> int outcome" where
  "ide_wait_ready check_error s =
     (let r = ide_status s in
      if r AND IDE_BSY \<noteq> 0 \<or> r AND IDE_DRDY = 0 then Blocked ''ide_wait_ready''
      else if check_error \<and> r AND (IDE_DF OR IDE_ERR) \<noteq> 0 then Ret (-1) else Ret 0)"

text \<open>The address registers as \<^verbatim>\<open>ide_start_request\<close> writes them, and as the drive decodes them.\<close>

definition ide_ports :: "buf \<Rightarrow> (uint \<times> uint) list" where
  "ide_ports b =
     [(0x3f6, 0), (0x1f2, 1),
      (0x1f3, b_sector b AND 0xff),
      (0x1f4, drop_bit 8 (b_sector b) AND 0xff),
      (0x1f5, drop_bit 16 (b_sector b) AND 0xff),
      (0x1f6, 0xe0 OR push_bit 4 (b_dev b AND 1) OR (drop_bit 24 (b_sector b) AND 0x0f))]"

definition port_val :: "(uint \<times> uint) list \<Rightarrow> uint \<Rightarrow> uint" where
  "port_val ps p = (case map_of ps p of None \<Rightarrow> 0 | Some v \<Rightarrow> v)"

definition ide_decode :: "(uint \<times> uint) list \<Rightarrow> blkid" where
  "ide_decode ps =
     (drop_bit 4 (port_val ps 0x1f6) AND 1,
      port_val ps 0x1f3 OR push_bit 8 (port_val ps 0x1f4) OR push_bit 16 (port_val ps 0x1f5)
        OR push_bit 24 (port_val ps 0x1f6 AND 0x0f))"

definition ide_start_request :: "nat \<Rightarrow> 'a ide_state_scheme \<Rightarrow> 'a ide_state_scheme outcome" where
  "ide_start_request b s =
     obind (ide_wait_ready False s) (\<lambda>_.
       let bf = buf_of b s; blk = ide_decode (ide_ports bf) in
       Ret (s\<lparr>ide_active := Some (if B_DIRTY \<in> b_flags bf then Ide_write blk (b_data bf) else Ide_read blk)\<rparr>))"

text \<open>The drive carries out the latched command before it interrupts.\<close>

definition ide_complete :: "'a ide_state_scheme \<Rightarrow> 'a ide_state_scheme" where
  "ide_complete s =
     (case ide_active s of
        None \<Rightarrow> s
      | Some (Ide_read blk) \<Rightarrow> s\<lparr>ide_active := None, ide_datain := disk s blk\<rparr>
      | Some (Ide_write blk d) \<Rightarrow>
          s\<lparr>ide_active := None, disk := (disk s)(blk := d), disk_writes := disk_writes s @ [(blk, d)]\<rparr>)"

definition ide_intr :: "'a ide_state_scheme \<Rightarrow> 'a ide_state_scheme outcome" where
  "ide_intr s =
     (case ide_queue s of
        [] \<Rightarrow> Ret s
      | b # q \<Rightarrow>
          obind (if B_DIRTY \<notin> b_flags (buf_of b s) then
                   obind (ide_wait_ready True s) (\<lambda>r.
                     Ret (if r \<ge> 0 then upd_buf b (\<lambda>bf. bf\<lparr>b_data := ide_datain s\<rparr>) s else s))
                 else Ret s) (\<lambda>s1.
          let s2 = upd_buf b (\<lambda>bf. bf\<lparr>b_flags := insert B_VALID (b_flags bf) - {B_DIRTY}\<rparr>) s1;
              s3 = s2\<lparr>ide_queue := q\<rparr>
          in if q \<noteq> [] then ide_start_request (hd q) s3 else Ret s3))"

lemma ide_start_request_queue: "ide_start_request b s = Ret s' \<Longrightarrow> ide_queue s' = ide_queue s"
  by (auto simp: ide_start_request_def Let_def)

lemma ide_complete_queue [simp]: "ide_queue (ide_complete s) = ide_queue s"
  by (simp add: ide_complete_def split: option.split ide_cmd.split)

lemma ide_intr_queue: "ide_intr s = Ret s' \<Longrightarrow> ide_queue s' = tl (ide_queue s)"
  by (auto simp: ide_intr_def Let_def upd_buf_def split: list.splits if_splits
      dest!: ide_start_request_queue)

text \<open>
  The sleep loop at the end of \<^verbatim>\<open>ide_rw\<close>: the process sleeps until an interrupt, and looks at the
  flags of its buffer again.  With an empty queue no interrupt comes.
\<close>

function ide_wait_buf :: "nat \<Rightarrow> 'a ide_state_scheme \<Rightarrow> 'a ide_state_scheme outcome" where
  "ide_wait_buf b s =
     (if b_flags (buf_of b s) \<inter> {B_VALID, B_DIRTY} = {B_VALID} then Ret s
      else if ide_queue s = [] then Blocked ''ide_rw''
      else obind (ide_intr (ide_complete s)) (\<lambda>s'. ide_wait_buf b s'))"
  by pat_completeness auto
termination
  by (relation "measure (\<lambda>(b, s). length (ide_queue s))") (auto dest: ide_intr_queue)

declare ide_wait_buf.simps [simp del]

definition ide_rw :: "nat \<Rightarrow> 'a ide_state_scheme \<Rightarrow> 'a ide_state_scheme outcome" where
  "ide_rw b s =
     (let bf = buf_of b s in
      if B_BUSY \<notin> b_flags bf then Panic ''ide_rw: buf not busy''
      else if b_flags bf \<inter> {B_VALID, B_DIRTY} = {B_VALID} then Panic ''ide_rw: nothing to do''
      else if b_dev bf \<noteq> 0 \<and> \<not> disk_1_present s then Panic ''ide disk 1 not present''
      else
        (let s1 = s\<lparr>ide_queue := ide_queue s @ [b]\<rparr> in
         obind (if hd (ide_queue s1) = b then ide_start_request b s1 else Ret s1)
           (\<lambda>s2. ide_wait_buf b s2)))"

section \<open>The transfer is synchronous\<close>

text \<open>The block a buffer stands for on disk: the low bit of the device, 28 bits of the sector.\<close>

definition blk_of :: "buf \<Rightarrow> blkid" where
  "blk_of b = (b_dev b AND 1, b_sector b AND 0x0fffffff)"

lemma ide_decode_ports: "ide_decode (ide_ports b) = blk_of b"
proof -
  have p: "port_val (ide_ports b) 0x1f3 = b_sector b AND 0xff"
    "port_val (ide_ports b) 0x1f4 = drop_bit 8 (b_sector b) AND 0xff"
    "port_val (ide_ports b) 0x1f5 = drop_bit 16 (b_sector b) AND 0xff"
    "port_val (ide_ports b) 0x1f6
      = 0xe0 OR push_bit 4 (b_dev b AND 1) OR (drop_bit 24 (b_sector b) AND 0x0f)"
    by (simp_all add: port_val_def ide_ports_def)
  have masks: "(0xff :: uint) = mask 8" "(0x0f :: uint) = mask 4" "(1 :: uint) = mask 1"
    "(0x0fffffff :: uint) = mask 28" "(0xe0 :: uint) = push_bit 5 (mask 3)"
    by (simp_all add: mask_eq_exp_minus_1 push_bit_eq_mult)
  have "fst (ide_decode (ide_ports b)) = b_dev b AND 1"
    unfolding ide_decode_def p fst_conv masks
    by (rule bit_word_eqI) (auto simp: bit_simps)
  moreover have "snd (ide_decode (ide_ports b)) = b_sector b AND 0x0fffffff"
  proof (rule bit_word_eqI)
    fix n assume n: "n < LENGTH(32)"
    then consider "n < 8" | "8 \<le> n" "n < 16" | "16 \<le> n" "n < 24" | "24 \<le> n" "n < 32"
      by fastforce
    then show "bit (snd (ide_decode (ide_ports b))) n = bit (b_sector b AND 0x0fffffff) n"
      unfolding ide_decode_def p snd_conv masks
      by cases (use n in \<open>auto simp: bit_simps\<close>)
  qed
  ultimately show ?thesis by (simp add: blk_of_def prod_eq_iff)
qed

definition ide_idle :: "'a ide_state_scheme \<Rightarrow> bool" where
  "ide_idle s \<longleftrightarrow> ide_queue s = [] \<and> ide_active s = None
     \<and> ide_status s AND IDE_BSY = 0 \<and> ide_status s AND IDE_DRDY \<noteq> 0
     \<and> ide_status s AND (IDE_DF OR IDE_ERR) = 0"

text \<open>The effect of a whole transfer, as the callers of \<^verbatim>\<open>ide_rw\<close> see it.\<close>

definition transfer :: "nat \<Rightarrow> 'a ide_state_scheme \<Rightarrow> 'a ide_state_scheme" where
  "transfer b s =
     (let bf = buf_of b s; fl = insert B_VALID (b_flags bf) - {B_DIRTY} in
      if B_DIRTY \<in> b_flags bf then
        upd_buf b (\<lambda>bf. bf\<lparr>b_flags := fl\<rparr>)
          (s\<lparr>disk := (disk s)(blk_of bf := b_data bf), disk_writes := disk_writes s @ [(blk_of bf, b_data bf)]\<rparr>)
      else upd_buf b (\<lambda>bf. bf\<lparr>b_data := disk s (blk_of bf), b_flags := fl\<rparr>)
          (s\<lparr>ide_datain := disk s (blk_of bf)\<rparr>))"

lemma ide_rw_transfer:
  assumes "ide_idle s" "B_BUSY \<in> b_flags (buf_of b s)"
    and "b_flags (buf_of b s) \<inter> {B_VALID, B_DIRTY} \<noteq> {B_VALID}"
    and "b_dev (buf_of b s) = 0 \<or> disk_1_present s"
  shows "ide_rw b s = Ret (transfer b s)"
proof -
  let ?bf = "buf_of b s"
  let ?cmd = "if B_DIRTY \<in> b_flags ?bf then Ide_write (blk_of ?bf) (b_data ?bf) else Ide_read (blk_of ?bf)"
  let ?s2 = "s\<lparr>ide_queue := [b], ide_active := Some ?cmd\<rparr>"
  have wait: "ide_wait_ready c s' = Ret 0" if "ide_status s' = ide_status s" for c and s' :: "'a ide_state_scheme"
    using assms(1) that by (simp add: ide_wait_ready_def ide_idle_def Let_def)
  have idle: "ide_queue s = []" "ide_active s = None" using assms(1) by (auto simp: ide_idle_def)
  have eta: "s\<lparr>ide_queue := [], ide_active := None\<rparr> = s" using idle by simp
  have "ide_rw b s = ide_wait_buf b ?s2"
    using assms idle by (auto simp: ide_rw_def Let_def ide_start_request_def wait ide_decode_ports)
  also have "\<dots> = obind (ide_intr (ide_complete ?s2)) (ide_wait_buf b)"
    by (subst ide_wait_buf.simps) (use assms(3) in simp)
  also have "ide_intr (ide_complete ?s2) = Ret (transfer b s)"
    using idle
    by (cases s) (simp add: ide_intr_def ide_complete_def wait Let_def upd_buf_def transfer_def)
  also have "obind \<dots> (ide_wait_buf b) = Ret (transfer b s)"
    by (simp, subst ide_wait_buf.simps) (auto simp: transfer_def Let_def upd_buf_def)
  finally show ?thesis .
qed

end
