(* ===== verification/Bio.thy ===== *)
theory Bio
  imports Ide
begin

text \<open>
  The buffer cache and the journal of \<^verbatim>\<open>bio.c\<close>, with the journal structures of \<^verbatim>\<open>pbj.h\<close> and the
  spin locks of \<^verbatim>\<open>schedspinlock.c\<close> that guard them.  The state extends the driver's.  A call is
  made by one process; where it would sleep for another process the outcome is \<open>Blocked\<close>.
  Memory from \<^verbatim>\<open>kmalloc\<close> (not part of the sources) is assumed to be available, and what a
  pointer field of fresh memory holds is a parameter where the code reads it before writing it.
\<close>

section \<open>State\<close>

text \<open>
  A transaction in memory is the list of the buffers its \<^verbatim>\<open>t_data_node\<close> chain names, first node
  first; \<open>mt_wild\<close> says that the \<^verbatim>\<open>next\<close> field of the last node is not null.
\<close>

record mem_trans =
  mt_bufs :: "nat list"
  mt_size :: uint
  mt_wild :: bool

record mem_trans_node =
  mtn_trans :: mem_trans
  mtn_next :: "nat option"

text \<open>
  \<open>lru\<close> is the doubly linked list from \<^verbatim>\<open>bufhead.next\<close> to \<^verbatim>\<open>bufhead.prev\<close>; \<open>jsblock_buf\<close> and
  \<open>jtrans_header_buf\<close> are the buffers into whose data \<^verbatim>\<open>jsb\<close> and \<^verbatim>\<open>jt\<close> point; \<open>mtns\<close> is the
  store of \<^verbatim>\<open>mem_trans_node\<close> objects and \<open>mtn_fresh\<close> the next unused address in it; \<open>curmt\<close> is
  the transaction of the running process, \<^verbatim>\<open>curproc()->ct\<close>.
\<close>

record bio_state = ide_state +
  lru :: "nat list"
  jsblock_buf :: "nat option"
  jtrans_header_buf :: "nat option"
  jtail_bnum :: uint
  mtn_head :: "nat option"
  mtn_tail :: "nat option"
  mtns :: "nat \<Rightarrow> mem_trans_node"
  mtn_fresh :: nat
  trans_write_lock :: bool
  curmt :: mem_trans
  should_panic :: uint

definition empty_trans :: mem_trans where
  "empty_trans = \<lparr>mt_bufs = [], mt_size = 0, mt_wild = False\<rparr>"

definition resetcurtrans :: "'a bio_state_scheme \<Rightarrow> 'a bio_state_scheme" where
  "resetcurtrans s = s\<lparr>curmt := empty_trans\<rparr>"

section \<open>Buffer cache\<close>

definition binit :: "'a bio_state_scheme \<Rightarrow> 'a bio_state_scheme" where
  "binit s = s\<lparr>lru := fold (\<lambda>b l. b # l) [0 ..< NBUF] [], trans_write_lock := False\<rparr>"

definition cached :: "uint \<Rightarrow> uint \<Rightarrow> 'a bio_state_scheme \<Rightarrow> nat \<Rightarrow> bool" where
  "cached dev sector s b \<longleftrightarrow> b_flags (bufs s b) \<inter> {B_BUSY, B_VALID} \<noteq> {}
     \<and> b_dev (bufs s b) = dev \<and> b_sector (bufs s b) = sector"

definition bcheck :: "uint \<Rightarrow> uint \<Rightarrow> 'a bio_state_scheme \<Rightarrow> int" where
  "bcheck dev sector s = (if \<exists>b \<in> set (lru s). cached dev sector s b then 1 else 0)"

definition bget :: "uint \<Rightarrow> uint \<Rightarrow> 'a bio_state_scheme \<Rightarrow> (nat \<times> 'a bio_state_scheme) outcome" where
  "bget dev sector s =
     (case List.find (cached dev sector s) (lru s) of
        Some b \<Rightarrow>
          if B_BUSY \<in> b_flags (bufs s b) then Blocked ''bget''
          else Ret (b, upd_buf b (\<lambda>bf. bf\<lparr>b_flags := insert B_BUSY (b_flags bf)\<rparr>) s)
      | None \<Rightarrow>
          (case List.find (\<lambda>b. B_BUSY \<notin> b_flags (bufs s b)) (rev (lru s)) of
             Some b \<Rightarrow> Ret (b, upd_buf b (\<lambda>bf. bf\<lparr>b_flags := {B_BUSY}, b_dev := dev, b_sector := sector\<rparr>) s)
           | None \<Rightarrow> Panic ''bget: no buffers''))"

definition bread :: "uint \<Rightarrow> uint \<Rightarrow> 'a bio_state_scheme \<Rightarrow> (nat \<times> 'a bio_state_scheme) outcome" where
  "bread dev sector s =
     obind (bget dev sector s) (\<lambda>(b, s1).
       if B_VALID \<notin> b_flags (bufs s1 b) then obind (ide_rw b s1) (\<lambda>s2. Ret (b, s2))
       else Ret (b, s1))"

definition bwrite :: "nat \<Rightarrow> 'a bio_state_scheme \<Rightarrow> 'a bio_state_scheme outcome" where
  "bwrite b s =
     (if B_BUSY \<notin> b_flags (bufs s b) then Panic ''bwrite''
      else
        (let s1 = upd_buf b (\<lambda>bf. bf\<lparr>b_flags := insert B_DIRTY (b_flags bf)\<rparr>) s; t = curmt s1 in
         Ret (s1\<lparr>curmt := t\<lparr>mt_bufs := b # mt_bufs t, mt_size := mt_size t + 1\<rparr>\<rparr>)))"

definition jbrelse :: "nat \<Rightarrow> 'a bio_state_scheme \<Rightarrow> 'a bio_state_scheme outcome" where
  "jbrelse b s =
     (if B_BUSY \<notin> b_flags (bufs s b) then Panic ''brelse''
      else Ret (upd_buf b (\<lambda>bf. bf\<lparr>b_flags := b_flags bf - {B_BUSY}\<rparr>) (s\<lparr>lru := b # remove1 b (lru s)\<rparr>)))"

definition brelse :: "nat \<Rightarrow> 'a bio_state_scheme \<Rightarrow> 'a bio_state_scheme outcome" where
  "brelse b s =
     (if B_BUSY \<notin> b_flags (bufs s b) then Panic ''brelse''
      else if mt_size (curmt s) = 0 \<or> B_DIRTY \<notin> b_flags (bufs s b) then jbrelse b s
      else Ret s)"

section \<open>Journal\<close>

subsection \<open>Layout of the journal blocks (pbj.h)\<close>

definition jsb_size :: "bytes \<Rightarrow> uint" where "jsb_size d = get_u32 d 0"
definition jsb_head :: "bytes \<Rightarrow> uint" where "jsb_head d = get_u32 d 4"
definition jsb_tail :: "bytes \<Rightarrow> uint" where "jsb_tail d = get_u32 d 8"
definition jt_checksum :: "bytes \<Rightarrow> uint" where "jt_checksum d = get_u32 d 0"
definition jt_num :: "bytes \<Rightarrow> uint" where "jt_num d = get_u32 d 4"
definition jt_blocklist :: "bytes \<Rightarrow> nat \<Rightarrow> uint" where "jt_blocklist d i = get_u32 d (8 + 4 * i)"

text \<open>Entries of \<^verbatim>\<open>blocklist\<close> that lie within the 512 bytes of the header block.\<close>

definition JT_MAX :: nat where "JT_MAX = 126"

definition upd_data :: "nat \<Rightarrow> (bytes \<Rightarrow> bytes) \<Rightarrow> 'a ide_state_scheme \<Rightarrow> 'a ide_state_scheme" where
  "upd_data b f s = upd_buf b (\<lambda>bf. bf\<lparr>b_data := f (b_data bf)\<rparr>) s"

definition set_flags :: "nat \<Rightarrow> bflag set \<Rightarrow> 'a ide_state_scheme \<Rightarrow> 'a ide_state_scheme" where
  "set_flags b fs s = upd_buf b (\<lambda>bf. bf\<lparr>b_flags := b_flags bf \<union> fs\<rparr>) s"

definition set_sector :: "nat \<Rightarrow> uint \<Rightarrow> 'a ide_state_scheme \<Rightarrow> 'a ide_state_scheme" where
  "set_sector b n s = upd_buf b (\<lambda>bf. bf\<lparr>b_sector := n\<rparr>) s"

subsection \<open>Locks that may be held across a sleep (schedspinlock.c)\<close>

definition acquire_sl :: "'a bio_state_scheme \<Rightarrow> 'a bio_state_scheme outcome" where
  "acquire_sl s =
     (if trans_write_lock s then Blocked ''trans_write_lock'' else Ret (s\<lparr>trans_write_lock := True\<rparr>))"

definition release_sl :: "'a bio_state_scheme \<Rightarrow> 'a bio_state_scheme" where
  "release_sl s = s\<lparr>trans_write_lock := False\<rparr>"

subsection \<open>Checkpointing: jfull\_flush\<close>

primrec flush_bufs :: "nat list \<Rightarrow> 'a bio_state_scheme \<Rightarrow> 'a bio_state_scheme outcome" where
  "flush_bufs [] s = Ret s"
| "flush_bufs (b # bs) s =
     (if b_faliable (bufs s b) \<noteq> 0 then Panic ''Testing PBj0!''
      else obind (ide_rw b s) (\<lambda>s1. obind (jbrelse b s1) (\<lambda>s2. flush_bufs bs s2)))"

text \<open>
  The loop over the committed transactions from \<open>cur\<close> up to \<open>stop\<close> (\<^verbatim>\<open>curr_tail->next\<close>).  A chain
  of the store without a cycle has at most \<open>mtn_fresh\<close> nodes, which is the fuel given by the caller;
  only a cyclic chain, on which the code loops forever, runs out of it.
\<close>

fun flush_nodes :: "nat \<Rightarrow> nat option \<Rightarrow> nat option \<Rightarrow> 'a bio_state_scheme \<Rightarrow> 'a bio_state_scheme outcome" where
  "flush_nodes 0 cur stop s = (if cur = stop then Ret s else Blocked ''jfull_flush'')"
| "flush_nodes (Suc k) cur stop s =
     (if cur = stop then Ret s
      else
        (case cur of
           None \<Rightarrow> Fault ''curr_mtn''
         | Some n \<Rightarrow>
             (let t = mtn_trans (mtns s n) in
              obind (flush_bufs (mt_bufs t) s) (\<lambda>s1.
                if mt_wild t then Fault ''curr_buf''
                else flush_nodes k (mtn_next (mtns s1 n)) stop s1))))"

definition jfull_flush :: "'a bio_state_scheme \<Rightarrow> 'a bio_state_scheme outcome" where
  "jfull_flush s =
     (if mtn_head s = None then Ret s
      else
        obind (acquire_sl s) (\<lambda>s1.
          case mtn_tail s of
            None \<Rightarrow> Fault ''curr_tail''
          | Some tn \<Rightarrow>
              obind (flush_nodes (mtn_fresh s1) (mtn_head s1) (mtn_next (mtns s1 tn)) s1) (\<lambda>s2.
                case jsblock_buf s2 of
                  None \<Rightarrow> Fault ''jsb''
                | Some jb \<Rightarrow>
                    obind (ide_rw jb (set_flags jb {B_DIRTY, B_BUSY}
                        (upd_data jb (\<lambda>d. put_u32 (put_u32 (put_u32 d 8 3) 4 3) 12 0) s2))) (\<lambda>s3.
                      Ret (release_sl (s3\<lparr>mtn_head := mtn_next (mtns s3 tn), jtail_bnum := 3\<rparr>))))))"

subsection \<open>Committing: jbwrite and end\_trans\<close>

definition jbwrite :: "nat \<Rightarrow> 'a bio_state_scheme \<Rightarrow> 'a bio_state_scheme outcome" where
  "jbwrite b s =
     (let orig_sector = b_sector (bufs s b) in
      obind (ide_rw b (set_flags b {B_DIRTY} (set_sector b (jtail_bnum s) s))) (\<lambda>s1.
        let s2 = set_flags b {B_BUSY} (set_sector b orig_sector s1);
            s3 = s2\<lparr>jtail_bnum := jtail_bnum s2 + 1\<rparr>
        in case jsblock_buf s3 of
             None \<Rightarrow> Fault ''jsb''
           | Some jb \<Rightarrow>
               if jtail_bnum s3 > jsb_size (b_data (bufs s3 jb)) + 2 then jfull_flush s3 else Ret s3))"

primrec fill_blocklist :: "nat \<Rightarrow> nat \<Rightarrow> nat list \<Rightarrow> 'a bio_state_scheme \<Rightarrow> 'a bio_state_scheme outcome" where
  "fill_blocklist hb i [] s = Ret s"
| "fill_blocklist hb i (b # bs) s =
     (if i < JT_MAX
      then fill_blocklist hb (Suc i) bs
        (upd_data hb (\<lambda>d. put_u32 d (8 + 4 * i) (b_sector (bufs s b))) s)
      else Fault ''blocklist'')"

primrec jwrite_bufs :: "nat list \<Rightarrow> 'a bio_state_scheme \<Rightarrow> 'a bio_state_scheme outcome" where
  "jwrite_bufs [] s = Ret s"
| "jwrite_bufs (b # bs) s =
     obind (jbwrite b s) (\<lambda>s1.
       jwrite_bufs bs (upd_buf b (\<lambda>bf. bf\<lparr>b_flags := insert B_DIRTY (b_flags bf), b_faliable := should_panic s1\<rparr>) s1))"

definition append_trans :: "mem_trans \<Rightarrow> 'a bio_state_scheme \<Rightarrow> 'a bio_state_scheme outcome" where
  "append_trans t s =
     (let n = mtn_fresh s;
          s1 = s\<lparr>mtn_fresh := Suc n, mtns := (mtns s)(n := \<lparr>mtn_trans = t, mtn_next = None\<rparr>)\<rparr>
      in case mtn_head s1 of
           None \<Rightarrow> Ret (resetcurtrans (release_sl (s1\<lparr>mtn_head := Some n, mtn_tail := Some n\<rparr>)))
         | Some h \<Rightarrow>
             (case mtn_tail s1 of
                None \<Rightarrow> Fault ''mtn_tail''
              | Some tn \<Rightarrow>
                  Ret (resetcurtrans (release_sl
                    (s1\<lparr>mtns := (mtns s1)(tn := (mtns s1 tn)\<lparr>mtn_next := Some n\<rparr>)\<rparr>)))))"

definition end_trans :: "'a bio_state_scheme \<Rightarrow> 'a bio_state_scheme outcome" where
  "end_trans s =
     (let t = curmt s in
      if mt_size t = 0 then Ret s
      else
        obind (acquire_sl s) (\<lambda>s1.
        case (jtrans_header_buf s1, jsblock_buf s1) of
          (Some hb, Some jb) \<Rightarrow>
            obind (fill_blocklist hb 0 (mt_bufs t)
              (upd_data hb (\<lambda>d. put_u32 (put_u32 d 0 106) 4 (mt_size t)) s1)) (\<lambda>s2.
            obind (jbwrite hb (set_flags hb {B_DIRTY, B_BUSY} s2)) (\<lambda>s3.
            obind (jwrite_bufs (mt_bufs t) s3) (\<lambda>s4.
            obind (ide_rw jb (set_flags jb {B_DIRTY}
              (upd_data jb (\<lambda>d. put_u32 (put_u32 d 8 (jtail_bnum s4 - 1)) 12 0) s4))) (\<lambda>s5.
            append_trans t s5))))
        | _ \<Rightarrow> Fault ''jt''))"

subsection \<open>Recovery: pbjFSck\<close>

text \<open>
  \<open>fresh\<close> is what a pointer field holds in memory just returned by \<^verbatim>\<open>kmalloc\<close>: \<open>None\<close> for null.
\<close>

fun fsck_read :: "nat \<Rightarrow> uint \<Rightarrow> uint \<Rightarrow> 'a bio_state_scheme \<Rightarrow> (nat list \<times> 'a bio_state_scheme) outcome" where
  "fsck_read 0 bnum dev s = Ret ([], s)"
| "fsck_read (Suc k) bnum dev s =
     obind (bread dev (bnum + 3) s) (\<lambda>(b, s1).
     obind (fsck_read k (bnum + 1) dev s1) (\<lambda>(bs, s2). Ret (b # bs, s2)))"

definition journal_block :: "nat list \<Rightarrow> uint \<Rightarrow> nat outcome" where
  "journal_block jbs i = (if unat i < length jbs then Ret (jbs ! unat i) else Fault ''journal_blocks'')"

definition fsck_item :: "nat list \<Rightarrow> bytes \<Rightarrow> uint \<Rightarrow> uint \<Rightarrow> 'a bio_state_scheme
    \<Rightarrow> (nat \<times> 'a bio_state_scheme) outcome" where
  "fsck_item jbs hdr t i s =
     obind (journal_block jbs t) (\<lambda>b.
       if unat i < JT_MAX
       then Ret (b, set_flags b {B_DIRTY} (set_sector b (jt_blocklist hdr (unat i)) s))
       else Fault ''blocklist'')"

text \<open>
  The loop over the data blocks after the first, \<open>t\<close> from \<^verbatim>\<open>bnum+2\<close> to \<open>lim\<close>.  Each round uses
  the journal block numbered \<open>t\<close>, so more rounds than there are journal blocks end in a fault.
\<close>

fun fsck_items :: "nat \<Rightarrow> nat list \<Rightarrow> bytes \<Rightarrow> uint \<Rightarrow> uint \<Rightarrow> uint \<Rightarrow> 'a bio_state_scheme
    \<Rightarrow> (nat list \<times> 'a bio_state_scheme) outcome" where
  "fsck_items k jbs hdr bnum t lim s =
     (if t \<le> lim then
        (case k of
           0 \<Rightarrow> Fault ''journal_blocks''
         | Suc k' \<Rightarrow>
             obind (fsck_item jbs hdr t (t - bnum - 1) s) (\<lambda>(b, s1).
             obind (fsck_items k' jbs hdr bnum (t + 1) lim s1) (\<lambda>(bs, s2). Ret (b # bs, s2))))
      else Ret ([], s))"

definition append_mtn :: "nat option \<Rightarrow> mem_trans \<Rightarrow> 'a bio_state_scheme \<Rightarrow> 'a bio_state_scheme" where
  "append_mtn fresh t s =
     (let n = mtn_fresh s; s1 = s\<lparr>mtn_fresh := Suc n\<rparr> in
      case mtn_tail s of
        None \<Rightarrow> s1\<lparr>mtns := (mtns s1)(n := \<lparr>mtn_trans = t, mtn_next = None\<rparr>),
                   mtn_head := Some n, mtn_tail := Some n\<rparr>
      | Some tn \<Rightarrow>
          (let m = (mtns s1)(n := \<lparr>mtn_trans = t, mtn_next = fresh\<rparr>) in
           s1\<lparr>mtns := m(tn := (m tn)\<lparr>mtn_next := Some n\<rparr>), mtn_tail := Some n\<rparr>))"

text \<open>
  One round of the recovery loop, for the transaction whose header is journal block \<open>bnum\<close>:
  \<open>None\<close> stands for the early return on a wrong checksum, \<open>Some n\<close> for the header of the next one.
\<close>

definition fsck_trans :: "nat option \<Rightarrow> nat list \<Rightarrow> uint \<Rightarrow> 'a bio_state_scheme
    \<Rightarrow> (uint option \<times> 'a bio_state_scheme) outcome" where
  "fsck_trans fresh jbs bnum s =
     obind (journal_block jbs bnum) (\<lambda>h.
     let hdr = b_data (bufs s h); size = jt_num hdr in
     obind (fsck_item jbs hdr (bnum + 1) 0 s) (\<lambda>(b, s1).
     obind (fsck_items (length jbs) jbs hdr bnum (bnum + 2) (bnum + size) s1) (\<lambda>(bs, s2).
     if jt_checksum hdr = 106 then
       Ret (Some (bnum + size + 1),
         append_mtn fresh \<lparr>mt_bufs = b # bs, mt_size = size, mt_wild = bs = [] \<and> fresh \<noteq> None\<rparr> s2)
     else Ret (None, s2))))"

text \<open>
  The recovery loop.  Which transaction follows depends only on the header blocks, so a run that
  visits more transactions than there are journal blocks repeats itself forever.
\<close>

fun fsck_loop :: "nat \<Rightarrow> nat option \<Rightarrow> nat list \<Rightarrow> uint \<Rightarrow> uint \<Rightarrow> 'a bio_state_scheme
    \<Rightarrow> (bool \<times> 'a bio_state_scheme) outcome" where
  "fsck_loop k fresh jbs bnum lim s =
     (if bnum < lim then
        (case k of
           0 \<Rightarrow> Blocked ''pbjFSck''
         | Suc k' \<Rightarrow>
             obind (fsck_trans fresh jbs bnum s) (\<lambda>(nxt, s1).
               case nxt of
                 None \<Rightarrow> Ret (False, s1)
               | Some bnum' \<Rightarrow> fsck_loop k' fresh jbs bnum' lim s1))
      else Ret (True, s))"

primrec fsck_release :: "nat list \<Rightarrow> 'a bio_state_scheme \<Rightarrow> 'a bio_state_scheme outcome" where
  "fsck_release [] s = Ret s"
| "fsck_release (b # bs) s =
     obind (if B_BUSY \<in> b_flags (bufs s b) then jbrelse b s else Ret s) (\<lambda>s1. fsck_release bs s1)"

definition pbjFSck :: "nat option \<Rightarrow> uint \<Rightarrow> 'a bio_state_scheme \<Rightarrow> 'a bio_state_scheme outcome" where
  "pbjFSck fresh dev s =
     obind (bread dev 2 s) (\<lambda>(jb, s1).
     let s2 = s1\<lparr>jsblock_buf := Some jb\<rparr>; jsb = b_data (bufs s2 jb) in
     obind (fsck_read (unat (jsb_size jsb)) 0 dev s2) (\<lambda>(jbs, s3).
     obind (if jsb_head jsb < jsb_tail jsb
            then fsck_loop (Suc (length jbs)) fresh jbs (jsb_head jsb - 3) (jsb_tail jsb - 3) s3
            else Ret (True, s3\<lparr>mtn_head := None, mtn_tail := None\<rparr>)) (\<lambda>(ok, s4).
     if \<not> ok then Ret s4
     else
       obind (jfull_flush s4) (\<lambda>s5.
       obind (fsck_release jbs s5) (\<lambda>s6.
       obind (bread dev 3 s6) (\<lambda>(hb, s7).
       Ret (s7\<lparr>jtrans_header_buf := Some hb\<rparr>)))))))"

end
