(* ===== verification/Journal.thy ===== *)
theory Journal
  imports Bio
begin

text \<open>
  What the journal of \<^verbatim>\<open>bio.c\<close> writes, and in which order: closed forms of
  \<^const>\<open>jbwrite\<close>, \<^const>\<open>end_trans\<close> and \<^const>\<open>jfull_flush\<close> on a machine that is ready to
  commit, and from them that a crash between any two sector writes leaves either the old or the new
  contents of the blocks of a transaction after recovery.
\<close>

section \<open>What a transfer changes\<close>

lemma flags_after_write [simp]:
  "B_BUSY \<in> F \<Longrightarrow> insert B_VALID F - {B_DIRTY} = {B_BUSY, B_VALID}"
  "insert B_BUSY (insert B_VALID F - {B_DIRTY}) = {B_BUSY, B_VALID}"
  using bflag.exhaust by auto

definition apply_writes :: "(blkid \<times> bytes) list \<Rightarrow> (blkid \<Rightarrow> bytes) \<Rightarrow> blkid \<Rightarrow> bytes" where
  "apply_writes ws d = fold (\<lambda>(k, v) d. d(k := v)) ws d"

lemma apply_writes_simps [simp]:
  "apply_writes [] d = d"
  "apply_writes ((k, v) # ws) d = apply_writes ws (d(k := v))"
  "apply_writes (xs @ ys) d = apply_writes ys (apply_writes xs d)"
  by (simp_all add: apply_writes_def)

text \<open>A process that holds the buffer and has dirtied it.\<close>

definition writable :: "nat \<Rightarrow> 'a ide_state_scheme \<Rightarrow> bool" where
  "writable b s \<longleftrightarrow> B_BUSY \<in> b_flags (bufs s b) \<and> (b_dev (bufs s b) = 0 \<or> disk_1_present s)"

definition written :: "nat \<Rightarrow> 'a ide_state_scheme \<Rightarrow> 'a ide_state_scheme" where
  "written b s = s\<lparr>bufs := (bufs s)(b := (bufs s b)\<lparr>b_flags := insert B_VALID (b_flags (bufs s b)) - {B_DIRTY}\<rparr>),
     disk := (disk s)(blk_of (bufs s b) := b_data (bufs s b)),
     disk_writes := disk_writes s @ [(blk_of (bufs s b), b_data (bufs s b))]\<rparr>"

lemma ide_rw_dirty:
  "ide_idle s \<Longrightarrow> writable b s \<Longrightarrow> B_DIRTY \<in> b_flags (bufs s b) \<Longrightarrow> ide_rw b s = Ret (written b s)"
  by (subst ide_rw_transfer)
    (auto simp: writable_def written_def transfer_def Let_def upd_buf_def)

lemma ide_idle_cong:
  "ide_queue s' = ide_queue s \<Longrightarrow> ide_active s' = ide_active s \<Longrightarrow> ide_status s' = ide_status s \<Longrightarrow>
    ide_idle s' = ide_idle s"
  by (simp add: ide_idle_def)

lemma blk_of_upd [simp]:
  "blk_of (b\<lparr>b_flags := f\<rparr>) = blk_of b" "blk_of (b\<lparr>b_data := d\<rparr>) = blk_of b"
  "blk_of (b\<lparr>b_faliable := x\<rparr>) = blk_of b"
  "blk_of (b\<lparr>b_sector := n\<rparr>) = (b_dev b AND 1, n AND 0x0fffffff)"
  by (simp_all add: blk_of_def)

section \<open>jbwrite\<close>

definition jslot :: "buf \<Rightarrow> uint \<Rightarrow> blkid" where
  "jslot bf t = (b_dev bf AND 1, t AND 0x0fffffff)"

lemma jbwrite_room:
  assumes "ide_idle s" "writable b s" "jsblock_buf s = Some jb" "b \<noteq> jb"
    and "jtail_bnum s + 1 \<le> jsb_size (b_data (bufs s jb)) + 2"
  shows "jbwrite b s = Ret (s\<lparr>bufs := (bufs s)(b := (bufs s b)\<lparr>b_flags := {B_BUSY, B_VALID}\<rparr>),
     disk := (disk s)(jslot (bufs s b) (jtail_bnum s) := b_data (bufs s b)),
     disk_writes := disk_writes s @ [(jslot (bufs s b) (jtail_bnum s), b_data (bufs s b))],
     jtail_bnum := jtail_bnum s + 1\<rparr>)"
proof -
  let ?s = "set_flags b {B_DIRTY} (set_sector b (jtail_bnum s) s)"
  have "ide_rw b ?s = Ret (written b ?s)"
    using assms(1,2) by (intro ide_rw_dirty)
      (auto simp: set_flags_def set_sector_def upd_buf_def writable_def ide_idle_def)
  moreover have "\<not> jsb_size (b_data (bufs s jb)) + 2 < jtail_bnum s + 1" using assms(5) by simp
  ultimately show ?thesis
    using assms(2-4)
    by (auto simp: jbwrite_def Let_def written_def set_flags_def set_sector_def upd_buf_def jslot_def
        writable_def intro!: bio_state.equality)
qed

section \<open>jwrite\_bufs\<close>

primrec jlog :: "uint \<Rightarrow> nat list \<Rightarrow> (nat \<Rightarrow> buf) \<Rightarrow> (blkid \<times> bytes) list" where
  "jlog t [] bf = []"
| "jlog t (b # bs) bf = (jslot (bf b) t, b_data (bf b)) # jlog (t + 1) bs bf"

lemma jlog_cong:
  "\<forall>b \<in> set bs. b_dev (f b) = b_dev (g b) \<and> b_data (f b) = b_data (g b) \<Longrightarrow> jlog t bs f = jlog t bs g"
  by (induction bs arbitrary: t) (auto simp: jslot_def)

lemma length_jlog [simp]: "length (jlog t bs f) = length bs"
  by (induction bs arbitrary: t) auto

definition committed :: "uint \<Rightarrow> buf \<Rightarrow> buf" where
  "committed x bf = bf\<lparr>b_flags := {B_BUSY, B_VALID, B_DIRTY}, b_faliable := x\<rparr>"

lemma jwrite_bufs_room:
  assumes "ide_idle s" "\<forall>b \<in> set bs. writable b s" "jsblock_buf s = Some jb" "jb \<notin> set bs" "distinct bs"
    and "unat (jtail_bnum s) + length bs \<le> unat (jsb_size (b_data (bufs s jb)) + 2)"
  shows "jwrite_bufs bs s = Ret (s\<lparr>
     bufs := (\<lambda>b. if b \<in> set bs then committed (should_panic s) (bufs s b) else bufs s b),
     disk := apply_writes (jlog (jtail_bnum s) bs (bufs s)) (disk s),
     disk_writes := disk_writes s @ jlog (jtail_bnum s) bs (bufs s),
     jtail_bnum := jtail_bnum s + of_nat (length bs)\<rparr>)"
  using assms
proof (induction bs arbitrary: s)
  case Nil
  then show ?case by (auto intro!: bio_state.equality)
next
  case (Cons b bs)
  let ?t = "jtail_bnum s" and ?lim = "jsb_size (b_data (bufs s jb)) + 2"
  let ?s1 = "s\<lparr>bufs := (bufs s)(b := (bufs s b)\<lparr>b_flags := {B_BUSY, B_VALID}\<rparr>),
     disk := (disk s)(jslot (bufs s b) ?t := b_data (bufs s b)),
     disk_writes := disk_writes s @ [(jslot (bufs s b) ?t, b_data (bufs s b))],
     jtail_bnum := ?t + 1\<rparr>"
  let ?s2 = "upd_buf b (\<lambda>bf. bf\<lparr>b_flags := insert B_DIRTY (b_flags bf), b_faliable := should_panic ?s1\<rparr>) ?s1"
  have "?t < ?lim" using Cons.prems(6) by (simp add: word_less_nat_alt)
  then have le: "?t + 1 \<le> ?lim" and u: "unat (?t + 1) = unat ?t + 1"
    by (simp_all add: inc_le unat_inc_less)
  have step: "jbwrite b s = Ret ?s1"
    using Cons.prems le by (intro jbwrite_room) auto
  have jb: "bufs ?s2 jb = bufs s jb" using Cons.prems(4) by (auto simp: upd_buf_def)
  have "jwrite_bufs bs ?s2 = Ret (?s2\<lparr>
     bufs := (\<lambda>b. if b \<in> set bs then committed (should_panic ?s2) (bufs ?s2 b) else bufs ?s2 b),
     disk := apply_writes (jlog (jtail_bnum ?s2) bs (bufs ?s2)) (disk ?s2),
     disk_writes := disk_writes ?s2 @ jlog (jtail_bnum ?s2) bs (bufs ?s2),
     jtail_bnum := jtail_bnum ?s2 + of_nat (length bs)\<rparr>)"
  proof (rule Cons.IH)
    show "unat (jtail_bnum ?s2) + length bs \<le> unat (jsb_size (b_data (bufs ?s2 jb)) + 2)"
      using Cons.prems(6) u jb by (simp add: upd_buf_def)
  qed (use Cons.prems in \<open>auto simp: ide_idle_def writable_def upd_buf_def\<close>)
  moreover have "jlog (?t + 1) bs (bufs ?s2) = jlog (?t + 1) bs (bufs s)"
    by (rule jlog_cong) (auto simp: upd_buf_def)
  ultimately show ?case
    using step Cons.prems(5)
    by (auto simp: upd_buf_def committed_def fun_eq_iff insert_commute intro!: bio_state.equality)
qed


section \<open>The header block\<close>

primrec blocklist_bytes :: "nat \<Rightarrow> uint list \<Rightarrow> bytes \<Rightarrow> bytes" where
  "blocklist_bytes i [] d = d"
| "blocklist_bytes i (n # ns) d = blocklist_bytes (Suc i) ns (put_u32 d (8 + 4 * i) n)"

definition jhdr :: "bytes \<Rightarrow> uint list \<Rightarrow> bytes" where
  "jhdr d secs = blocklist_bytes 0 secs (put_u32 (put_u32 d 0 106) 4 (of_nat (length secs)))"

lemma blocklist_bytes_before:
  "j + 4 \<le> 8 + 4 * i \<Longrightarrow> get_u32 (blocklist_bytes i ns d) j = get_u32 d j"
  by (induction ns arbitrary: i d) auto

lemma blocklist_bytes_nth:
  "k < length ns \<Longrightarrow> get_u32 (blocklist_bytes i ns d) (8 + 4 * (i + k)) = ns ! k"
proof (induction ns arbitrary: i d k)
  case (Cons n ns)
  show ?case
  proof (cases k)
    case 0
    then show ?thesis by (simp add: blocklist_bytes_before)
  next
    case (Suc k')
    then show ?thesis using Cons.IH [of k' "Suc i"] Cons.prems by simp
  qed
qed simp

lemma jhdr_fields [simp]:
  "jt_checksum (jhdr d secs) = 106"
  "jt_num (jhdr d secs) = of_nat (length secs)"
  "i < length secs \<Longrightarrow> jt_blocklist (jhdr d secs) i = secs ! i"
  using blocklist_bytes_nth [of i secs 0]
  by (auto simp: jt_checksum_def jt_num_def jt_blocklist_def jhdr_def blocklist_bytes_before)

lemma upd_data_sector [simp]: "b_sector (bufs (upd_data hb f s) b) = b_sector (bufs s b)"
  by (simp add: upd_data_def upd_buf_def)

lemma fill_blocklist_fits:
  "i + length bs \<le> JT_MAX \<Longrightarrow> fill_blocklist hb i bs s
    = Ret (upd_data hb (blocklist_bytes i (map (\<lambda>b. b_sector (bufs s b)) bs)) s)"
proof (induction bs arbitrary: i s)
  case (Cons b bs)
  let ?s = "upd_data hb (\<lambda>d. put_u32 d (8 + 4 * i) (b_sector (bufs s b))) s"
  have sec: "b_sector (bufs ?s c) = b_sector (bufs s c)" for c
    by (simp add: upd_data_def upd_buf_def)
  show ?case
    using Cons.IH [of "Suc i" ?s] Cons.prems unfolding sec by (simp add: upd_data_def upd_buf_def)
qed (simp add: upd_data_def upd_buf_def)

section \<open>end\_trans\<close>

definition commit_ready :: "nat \<Rightarrow> nat \<Rightarrow> 'a bio_state_scheme \<Rightarrow> bool" where
  "commit_ready hb jb s \<longleftrightarrow> ide_idle s \<and> \<not> trans_write_lock s
     \<and> jtrans_header_buf s = Some hb \<and> jsblock_buf s = Some jb
     \<and> mt_bufs (curmt s) \<noteq> [] \<and> \<not> mt_wild (curmt s) \<and> distinct (hb # jb # mt_bufs (curmt s))
     \<and> mt_size (curmt s) = of_nat (length (mt_bufs (curmt s))) \<and> length (mt_bufs (curmt s)) \<le> JT_MAX
     \<and> (\<forall>b \<in> set (jb # mt_bufs (curmt s)). writable b s)
     \<and> (b_dev (bufs s hb) = 0 \<or> disk_1_present s)
     \<and> unat (jtail_bnum s) + 1 + length (mt_bufs (curmt s)) \<le> unat (jsb_size (b_data (bufs s jb)) + 2)"

definition commit_hdr :: "nat \<Rightarrow> 'a bio_state_scheme \<Rightarrow> bytes" where
  "commit_hdr hb s = jhdr (b_data (bufs s hb)) (map (\<lambda>b. b_sector (bufs s b)) (mt_bufs (curmt s)))"

definition commit_jsb :: "nat \<Rightarrow> 'a bio_state_scheme \<Rightarrow> bytes" where
  "commit_jsb jb s = put_u32 (put_u32 (b_data (bufs s jb)) 8 (jtail_bnum s + of_nat (length (mt_bufs (curmt s))))) 12 0"

text \<open>The sector writes of a commit: header, data, and last the journal superblock.\<close>

definition commit_writes :: "nat \<Rightarrow> nat \<Rightarrow> 'a bio_state_scheme \<Rightarrow> (blkid \<times> bytes) list" where
  "commit_writes hb jb s =
     (jslot (bufs s hb) (jtail_bnum s), commit_hdr hb s)
     # jlog (jtail_bnum s + 1) (mt_bufs (curmt s)) (bufs s)
     @ [(blk_of (bufs s jb), commit_jsb jb s)]"

definition commit_bufs :: "nat \<Rightarrow> nat \<Rightarrow> 'a bio_state_scheme \<Rightarrow> nat \<Rightarrow> buf" where
  "commit_bufs hb jb s =
     (\<lambda>b. if b \<in> set (mt_bufs (curmt s)) then committed (should_panic s) (bufs s b)
          else if b = hb then (bufs s b)\<lparr>b_flags := {B_BUSY, B_VALID}, b_data := commit_hdr hb s\<rparr>
          else if b = jb then (bufs s b)\<lparr>b_flags := {B_BUSY, B_VALID}, b_data := commit_jsb jb s\<rparr>
          else bufs s b)"

definition link_mtn :: "'a bio_state_scheme \<Rightarrow> nat \<Rightarrow> mem_trans_node" where
  "link_mtn s =
     (let m = (mtns s)(mtn_fresh s := \<lparr>mtn_trans = curmt s, mtn_next = None\<rparr>) in
      if mtn_head s = None then m
      else m(the (mtn_tail s) := (m (the (mtn_tail s)))\<lparr>mtn_next := Some (mtn_fresh s)\<rparr>))"

definition commit_state :: "nat \<Rightarrow> nat \<Rightarrow> 'a bio_state_scheme \<Rightarrow> 'a bio_state_scheme" where
  "commit_state hb jb s = s\<lparr>
     bufs := commit_bufs hb jb s,
     disk := apply_writes (commit_writes hb jb s) (disk s),
     disk_writes := disk_writes s @ commit_writes hb jb s,
     jtail_bnum := jtail_bnum s + 1 + of_nat (length (mt_bufs (curmt s))),
     mtn_head := (if mtn_head s = None then Some (mtn_fresh s) else mtn_head s),
     mtn_tail := (if mtn_head s = None then Some (mtn_fresh s) else mtn_tail s),
     mtns := link_mtn s,
     mtn_fresh := Suc (mtn_fresh s),
     curmt := empty_trans\<rparr>"

definition commit_start :: "nat \<Rightarrow> 'a bio_state_scheme \<Rightarrow> 'a bio_state_scheme" where
  "commit_start hb s = s\<lparr>trans_write_lock := True, bufs := (bufs s)(hb := (bufs s hb)\<lparr>b_data := commit_hdr hb s,
     b_flags := b_flags (bufs s hb) \<union> {B_DIRTY, B_BUSY}\<rparr>)\<rparr>"

lemma end_trans_start:
  assumes "\<not> trans_write_lock s" "jtrans_header_buf s = Some hb" "jsblock_buf s = Some jb" "mt_bufs (curmt s) \<noteq> []"
    and size: "mt_size (curmt s) = of_nat (length (mt_bufs (curmt s)))" and len: "length (mt_bufs (curmt s)) \<le> JT_MAX"
  shows "end_trans s =
     obind (jbwrite hb (commit_start hb s)) (\<lambda>s3.
     obind (jwrite_bufs (mt_bufs (curmt s)) s3) (\<lambda>s4.
     obind (ide_rw jb (set_flags jb {B_DIRTY}
       (upd_data jb (\<lambda>d. put_u32 (put_u32 d 8 (jtail_bnum s4 - 1)) 12 0) s4))) (\<lambda>s5.
     append_trans (curmt s) s5)))"
proof -
  let ?t = "curmt s" and ?bs = "mt_bufs (curmt s)"
  let ?s1 = "s\<lparr>trans_write_lock := True\<rparr>"
  let ?s2 = "s\<lparr>trans_write_lock := True, bufs := (bufs s)(hb := (bufs s hb)\<lparr>b_data := commit_hdr hb s\<rparr>)\<rparr>"
  have "unat (mt_size ?t) = length ?bs" using size len by (simp add: unat_of_nat JT_MAX_def)
  then have ne: "mt_size ?t \<noteq> 0" using assms(4) by force
  have acq: "acquire_sl s = Ret ?s1" and ptrs: "jtrans_header_buf ?s1 = Some hb" "jsblock_buf ?s1 = Some jb"
    using assms by (auto simp: acquire_sl_def)
  have fill: "fill_blocklist hb 0 ?bs (upd_data hb (\<lambda>d. put_u32 (put_u32 d 0 106) 4 (mt_size ?t)) ?s1) = Ret ?s2"
    using len size by (simp add: fill_blocklist_fits commit_hdr_def jhdr_def) (simp add: upd_data_def upd_buf_def)
  have start: "set_flags hb {B_DIRTY, B_BUSY} ?s2 = commit_start hb s"
    by (simp add: set_flags_def upd_buf_def commit_start_def)
  show ?thesis
    by (simp only: end_trans_def Let_def if_not_P [OF ne] acq obind.simps ptrs prod.case option.case fill start)
qed

lemma end_trans_commits:
  assumes "commit_ready hb jb s" "mtn_head s = None \<or> mtn_tail s \<noteq> None"
  shows "end_trans s = Ret (commit_state hb jb s)"
proof -
  let ?t = "curmt s" and ?bs = "mt_bufs (curmt s)"
  let ?n = "length ?bs" and ?jt = "jtail_bnum s"
  note ready = assms(1) [unfolded commit_ready_def]
  have hb: "hb \<noteq> jb" "hb \<notin> set ?bs" "jb \<notin> set ?bs" "distinct ?bs" using ready by auto
  let ?h3 = "(bufs s hb)\<lparr>b_data := commit_hdr hb s, b_flags := {B_BUSY, B_VALID}\<rparr>"
  let ?s3 = "s\<lparr>trans_write_lock := True, bufs := (bufs s)(hb := ?h3),
     disk := (disk s)(jslot (bufs s hb) ?jt := commit_hdr hb s),
     disk_writes := disk_writes s @ [(jslot (bufs s hb) ?jt, commit_hdr hb s)], jtail_bnum := ?jt + 1\<rparr>"
  have lt: "?jt < jsb_size (b_data (bufs s jb)) + 2" using ready by (simp add: word_less_nat_alt)
  have hdr: "jbwrite hb (commit_start hb s) = Ret ?s3"
    using ready hb(1) inc_le [OF lt]
    by (subst jbwrite_room [where jb = jb])
      (auto simp: ide_idle_def writable_def commit_start_def jslot_def intro!: bio_state.equality)
  have j3: "jlog (?jt + 1) ?bs (bufs ?s3) = jlog (?jt + 1) ?bs (bufs s)"
    using hb by (intro jlog_cong) auto
  define s4 where "s4 = s\<lparr>trans_write_lock := True,
     bufs := \<lambda>b. if b \<in> set ?bs then committed (should_panic s) (bufs s b)
                 else if b = hb then ?h3 else bufs s b,
     disk := apply_writes ((jslot (bufs s hb) ?jt, commit_hdr hb s) # jlog (?jt + 1) ?bs (bufs s)) (disk s),
     disk_writes := disk_writes s @ (jslot (bufs s hb) ?jt, commit_hdr hb s) # jlog (?jt + 1) ?bs (bufs s),
     jtail_bnum := ?jt + 1 + of_nat ?n\<rparr>"
  have body: "jwrite_bufs ?bs ?s3 = Ret s4"
    using ready hb unat_inc_less [OF lt] j3
    by (subst jwrite_bufs_room [where jb = jb])
      (auto simp: s4_def ide_idle_def writable_def intro!: bio_state.equality)
  define s5 where "s5 = s\<lparr>trans_write_lock := True, bufs := commit_bufs hb jb s,
     disk := apply_writes (commit_writes hb jb s) (disk s),
     disk_writes := disk_writes s @ commit_writes hb jb s, jtail_bnum := ?jt + 1 + of_nat ?n\<rparr>"
  have super: "ide_rw jb (set_flags jb {B_DIRTY}
      (upd_data jb (\<lambda>d. put_u32 (put_u32 d 8 (jtail_bnum s4 - 1)) 12 0) s4)) = Ret s5"
    using ready hb
    by (subst ide_rw_dirty)
      (auto simp: s4_def s5_def ide_idle_def writable_def written_def set_flags_def upd_data_def upd_buf_def
        commit_bufs_def commit_writes_def commit_jsb_def fun_eq_iff intro!: bio_state.equality)
  have "end_trans s = append_trans ?t s5"
    by (subst end_trans_start [where hb = hb and jb = jb])
      (use ready in \<open>auto simp only: hdr obind.simps body super\<close>)
  also have "\<dots> = Ret (commit_state hb jb s)"
    using assms(2) ready
    by (auto simp: append_trans_def s5_def commit_state_def resetcurtrans_def release_sl_def link_mtn_def Let_def
      intro!: bio_state.equality)
  finally show ?thesis .
qed

section \<open>Checkpointing\<close>

definition flushable :: "nat \<Rightarrow> 'a bio_state_scheme \<Rightarrow> bool" where
  "flushable b s \<longleftrightarrow> writable b s \<and> B_DIRTY \<in> b_flags (bufs s b) \<and> b_faliable (bufs s b) = 0"

definition hlog :: "nat list \<Rightarrow> (nat \<Rightarrow> buf) \<Rightarrow> (blkid \<times> bytes) list" where
  "hlog bs bf = map (\<lambda>b. (blk_of (bf b), b_data (bf b))) bs"

definition flushed :: "nat list \<Rightarrow> 'a bio_state_scheme \<Rightarrow> 'a bio_state_scheme" where
  "flushed bs s = s\<lparr>
     bufs := (\<lambda>b. if b \<in> set bs then (bufs s b)\<lparr>b_flags := {B_VALID}\<rparr> else bufs s b),
     lru := fold (\<lambda>b l. b # remove1 b l) bs (lru s),
     disk := apply_writes (hlog bs (bufs s)) (disk s),
     disk_writes := disk_writes s @ hlog bs (bufs s)\<rparr>"

lemma flushed_simps [simp]:
  "ide_idle (flushed bs s) = ide_idle s"
  "mtns (flushed bs s) = mtns s"
  "disk_1_present (flushed bs s) = disk_1_present s"
  "jsblock_buf (flushed bs s) = jsblock_buf s"
  "b \<notin> set bs \<Longrightarrow> bufs (flushed bs s) b = bufs s b"
  by (simp_all add: flushed_def ide_idle_def)

lemma flushable_flushed [simp]: "b \<notin> set bs \<Longrightarrow> flushable b (flushed bs s) = flushable b s"
  by (simp add: flushable_def writable_def)

lemma flush_buf:
  assumes "ide_idle s" "flushable b s"
  shows "flush_bufs (b # bs) s = flush_bufs bs (flushed [b] s)"
proof -
  have "ide_rw b s = Ret (written b s)" using assms by (simp add: ide_rw_dirty flushable_def)
  moreover have "jbrelse b (written b s) = Ret (flushed [b] s)"
    using assms(2) by (auto simp: jbrelse_def written_def flushed_def flushable_def writable_def hlog_def upd_buf_def
        fun_eq_iff intro!: bio_state.equality)
  ultimately show ?thesis using assms(2) by (simp add: flushable_def)
qed

lemma hlog_flushed [simp]: "hlog cs (bufs (flushed bs s)) = hlog cs (bufs s)"
  by (auto simp: hlog_def flushed_def)

lemma hlog_append: "hlog (bs @ cs) bf = hlog bs bf @ hlog cs bf"
  by (simp add: hlog_def)

lemma flushed_append:
  "set bs \<inter> set cs = {} \<Longrightarrow> flushed cs (flushed bs s) = flushed (bs @ cs) s"
proof -
  have "hlog cs (bufs (flushed bs s)) = hlog cs (bufs s)" by simp
  then show ?thesis
    by (subst (1) flushed_def, simp only:)
      (auto simp: flushed_def hlog_append fun_eq_iff intro!: bio_state.equality)
qed

lemma flush_bufs_flushable:
  "ide_idle s \<Longrightarrow> distinct bs \<Longrightarrow> \<forall>b \<in> set bs. flushable b s \<Longrightarrow> flush_bufs bs s = Ret (flushed bs s)"
proof (induction bs arbitrary: s)
  case Nil
  then show ?case by (auto simp: flushed_def hlog_def intro!: bio_state.equality)
next
  case (Cons b bs)
  then have "flushable c (flushed [b] s)" if "c \<in> set bs" for c
    using that by (cases "c = b") auto
  then have "flush_bufs bs (flushed [b] s) = Ret (flushed bs (flushed [b] s))"
    using Cons.prems by (intro Cons.IH) auto
  then show ?case using Cons.prems by (simp add: flush_buf flushed_append del: flush_bufs.simps)
qed

fun mtn_chain :: "(nat \<Rightarrow> mem_trans_node) \<Rightarrow> nat option \<Rightarrow> nat list \<Rightarrow> nat option \<Rightarrow> bool" where
  "mtn_chain m p [] q \<longleftrightarrow> p = q"
| "mtn_chain m p (n # ns) q \<longleftrightarrow> p = Some n \<and> p \<noteq> q \<and> \<not> mt_wild (mtn_trans (m n)) \<and> mtn_chain m (mtn_next (m n)) ns q"

definition chain_bufs :: "(nat \<Rightarrow> mem_trans_node) \<Rightarrow> nat list \<Rightarrow> nat list" where
  "chain_bufs m ns = concat (map (\<lambda>n. mt_bufs (mtn_trans (m n))) ns)"

lemma chain_bufs_simps [simp]:
  "chain_bufs m [] = []" "chain_bufs m (n # ns) = mt_bufs (mtn_trans (m n)) @ chain_bufs m ns"
  by (simp_all add: chain_bufs_def)

lemma flush_nodes_chain:
  "mtn_chain (mtns s) cur ns stop \<Longrightarrow> length ns \<le> k \<Longrightarrow> ide_idle s \<Longrightarrow> distinct (chain_bufs (mtns s) ns)
    \<Longrightarrow> \<forall>b \<in> set (chain_bufs (mtns s) ns). flushable b s
    \<Longrightarrow> flush_nodes k cur stop s = Ret (flushed (chain_bufs (mtns s) ns) s)"
proof (induction ns arbitrary: k cur s)
  case Nil
  then show ?case by (cases k) (auto simp: flushed_def hlog_def intro!: bio_state.equality)
next
  case (Cons n ns)
  let ?bs = "mt_bufs (mtn_trans (mtns s n))" and ?cs = "chain_bufs (mtns s) ns"
  obtain k' where k: "k = Suc k'" "length ns \<le> k'" using Cons.prems(2) by (cases k) auto
  have dis: "set ?bs \<inter> set ?cs = {}" using Cons.prems(4) by auto
  have "flush_bufs ?bs s = Ret (flushed ?bs s)"
    using Cons.prems by (intro flush_bufs_flushable) auto
  moreover have "\<forall>b \<in> set ?cs. flushable b (flushed ?bs s)"
    using Cons.prems(5) dis by (metis Un_iff chain_bufs_simps(2) disjoint_iff flushable_flushed set_append)
  then have "flush_nodes k' (mtn_next (mtns s n)) stop (flushed ?bs s) = Ret (flushed ?cs (flushed ?bs s))"
    using Cons.prems k dis Cons.IH [of "flushed ?bs s" "mtn_next (mtns s n)" k']
    by simp
  ultimately show ?case
    using Cons.prems k dis by (auto simp: flushed_append)
qed

lemma mtn_chain_bound:
  "mtn_chain m p ns q \<Longrightarrow> \<forall>n \<in> set ns. n < lim \<Longrightarrow> distinct ns \<Longrightarrow> length ns \<le> lim"
  using card_mono [of "{..<lim}" "set ns"] by (auto simp: distinct_card)

definition flush_jsb :: "bytes \<Rightarrow> bytes" where
  "flush_jsb d = put_u32 (put_u32 (put_u32 d 8 3) 4 3) 12 0"

lemma jsb_fields_flush [simp]:
  "jsb_size (flush_jsb d) = jsb_size d" "jsb_head (flush_jsb d) = 3" "jsb_tail (flush_jsb d) = 3"
  by (simp_all add: flush_jsb_def jsb_size_def jsb_head_def jsb_tail_def)

definition flush_state :: "nat \<Rightarrow> nat list \<Rightarrow> nat option \<Rightarrow> 'a bio_state_scheme \<Rightarrow> 'a bio_state_scheme" where
  "flush_state jb bs stop s = s\<lparr>
     bufs := (bufs (flushed bs s))(jb := (bufs s jb)\<lparr>b_flags := {B_BUSY, B_VALID}, b_data := flush_jsb (b_data (bufs s jb))\<rparr>),
     lru := lru (flushed bs s),
     disk := apply_writes (hlog bs (bufs s) @ [(blk_of (bufs s jb), flush_jsb (b_data (bufs s jb)))]) (disk s),
     disk_writes := disk_writes s @ hlog bs (bufs s) @ [(blk_of (bufs s jb), flush_jsb (b_data (bufs s jb)))],
     mtn_head := stop, jtail_bnum := 3\<rparr>"

lemma jfull_flush_chain:
  assumes idle: "ide_idle s" "\<not> trans_write_lock s"
    and head: "mtn_head s \<noteq> None" "mtn_tail s = Some tn"
    and chain: "mtn_chain (mtns s) (mtn_head s) ns (mtn_next (mtns s tn))" "distinct ns" "\<forall>n \<in> set ns. n < mtn_fresh s"
    and bs: "distinct (chain_bufs (mtns s) ns)" "\<forall>b \<in> set (chain_bufs (mtns s) ns). flushable b s"
    and jb: "jsblock_buf s = Some jb" "jb \<notin> set (chain_bufs (mtns s) ns)" "b_dev (bufs s jb) = 0 \<or> disk_1_present s"
  shows "jfull_flush s = Ret (flush_state jb (chain_bufs (mtns s) ns) (mtn_next (mtns s tn)) s)"
proof -
  let ?bs = "chain_bufs (mtns s) ns"
  define s1 where "s1 = s\<lparr>trans_write_lock := True\<rparr>"
  have acq: "acquire_sl s = Ret s1" using idle by (simp add: acquire_sl_def s1_def)
  have "flush_nodes (mtn_fresh s1) (mtn_head s1) (mtn_next (mtns s1 tn)) s1 = Ret (flushed (chain_bufs (mtns s1) ns) s1)"
    using idle chain bs mtn_chain_bound [OF chain(1,3,2)]
    by (intro flush_nodes_chain) (auto simp: s1_def ide_idle_def flushable_def writable_def)
  then have nodes: "flush_nodes (mtn_fresh s1) (mtn_head s1) (mtn_next (mtns s1 tn)) s1 = Ret (flushed ?bs s1)"
    by (simp add: s1_def)
  define s2 where "s2 = flushed ?bs s1"
  define s3 where "s3 = set_flags jb {B_DIRTY, B_BUSY} (upd_data jb (\<lambda>d. put_u32 (put_u32 (put_u32 d 8 3) 4 3) 12 0) s2)"
  have js: "jsblock_buf s2 = Some jb" using jb by (simp add: s2_def s1_def)
  have "ide_rw jb s3 = Ret (written jb s3)"
    using idle jb by (intro ide_rw_dirty)
      (auto simp: s3_def s2_def s1_def flushed_def ide_idle_def writable_def set_flags_def upd_data_def upd_buf_def)
  then have "jfull_flush s = Ret (release_sl ((written jb s3)\<lparr>mtn_head := mtn_next (mtns (written jb s3) tn), jtail_bnum := 3\<rparr>))"
    by (simp only: jfull_flush_def head acq obind.simps nodes s2_def [symmetric] js option.case s3_def [symmetric] if_False)
  then show ?thesis
    using idle(2) jb(2)
    by (auto simp: s3_def s2_def s1_def flush_state_def flushed_def written_def release_sl_def set_flags_def upd_data_def upd_buf_def
        flush_jsb_def fun_eq_iff intro!: bio_state.equality)
qed


end
