(* ===== verification/Crash.thy ===== *)
theory Crash
  imports Journal
begin

text \<open>
  Crash consistency of the journal of \<^verbatim>\<open>bio.c\<close> at the level of the disk.  \<open>recover_writes\<close> says which
  block writes replaying the journal of a disk performs; every prefix of the sector writes of \<^const>\<open>end_trans\<close>
  followed by \<^const>\<open>jfull_flush\<close> is taken to the blocks as they were before the transaction, or to
  the blocks as the transaction leaves them.  That \<^verbatim>\<open>pbjFSck\<close> performs them is shown in
  the theory \<open>Recovery\<close>.
\<close>

section \<open>Recovery, seen from the disk\<close>

lemma and_sector_mask: "n < 2 ^ 28 \<Longrightarrow> n AND 0x0fffffff = (n :: uint)"
proof -
  assume "n < 2 ^ 28"
  then have "unat (take_bit 28 n) = unat n"
    by (simp add: unsigned_take_bit_eq take_bit_nat_eq_self word_less_nat_alt)
  then have "take_bit 28 n = n" by (simp only: unsigned_word_eqI)
  then show ?thesis by (simp add: take_bit_eq_mask mask_eq_exp_minus_1)
qed

definition blkno :: "uint \<Rightarrow> uint \<Rightarrow> blkid" where
  "blkno dev n = (dev AND 1, n AND 0x0fffffff)"

lemma blkno_eq: "m < 2 ^ 28 \<Longrightarrow> n < 2 ^ 28 \<Longrightarrow> blkno dev m = blkno dev n \<longleftrightarrow> m = n"
  by (simp add: blkno_def and_sector_mask)

lemma blkno_of_nat: "m < 2 ^ 28 \<Longrightarrow> n < 2 ^ 28 \<Longrightarrow> blkno dev (of_nat m) = blkno dev (of_nat n) \<longleftrightarrow> m = n"
proof -
  assume le: "m < 2 ^ 28" "n < 2 ^ 28"
  have w: "(of_nat i :: uint) < 2 ^ 28" "unat (of_nat i :: uint) = i" if "i < 2 ^ 28" for i
    using that by (simp_all add: word_less_nat_alt unat_of_nat)
  show ?thesis
    unfolding blkno_eq [OF w(1) [OF le(1)] w(1) [OF le(2)]] using w(2) [OF le(1)] w(2) [OF le(2)] by metis
qed

lemma apply_writes_map_of:
  "apply_writes ws d x = (case map_of (rev ws) x of Some v \<Rightarrow> v | None \<Rightarrow> d x)"
  by (induction ws arbitrary: d) (auto simp: map_add_def split: option.splits)

lemma apply_writes_other: "x \<notin> fst ` set ws \<Longrightarrow> apply_writes ws d x = d x"
  by (simp add: apply_writes_map_of map_of_eq_None_iff [THEN iffD2])

lemma apply_writes_nth:
  "i < length ws \<Longrightarrow> distinct (map fst ws) \<Longrightarrow> apply_writes ws d (fst (ws ! i)) = snd (ws ! i)"
proof -
  assume "i < length ws" "distinct (map fst ws)"
  then have "map_of (rev ws) (fst (ws ! i)) = Some (snd (ws ! i))"
    by (subst map_of_eq_Some_iff) (auto simp: rev_map [symmetric] distinct_rev)
  then show ?thesis by (simp add: apply_writes_map_of)
qed

text \<open>Writes redone over a prefix of themselves: a crash in the middle of replaying does no harm.\<close>

lemma apply_writes_redo:
  "apply_writes ws (apply_writes (take k ws) d) = apply_writes ws d"
proof
  fix x
  show "apply_writes ws (apply_writes (take k ws) d) x = apply_writes ws d x"
  proof (cases "x \<in> fst ` set ws")
    case True
    then obtain v where "map_of (rev ws) x = Some v"
      by (metis (no_types) list.set_map map_of_eq_None_iff not_Some_eq set_rev)
    then show ?thesis by (simp add: apply_writes_map_of)
  next
    case False
    then have "x \<notin> fst ` set (take k ws)" by (meson image_mono set_take_subset subsetD)
    then show ?thesis using False by (simp add: apply_writes_other)
  qed
qed

definition tx_ok :: "(nat \<Rightarrow> bytes) \<Rightarrow> nat \<Rightarrow> nat \<Rightarrow> bool" where
  "tx_ok j sz b \<longleftrightarrow> jt_checksum (j b) = 106 \<and> 0 < unat (jt_num (j b)) \<and> unat (jt_num (j b)) \<le> JT_MAX
     \<and> b + unat (jt_num (j b)) < sz"

definition tx_writes :: "(nat \<Rightarrow> bytes) \<Rightarrow> nat \<Rightarrow> (uint \<times> bytes) list" where
  "tx_writes j b = map (\<lambda>i. (jt_blocklist (j b) i, j (Suc (b + i)))) [0..<unat (jt_num (j b))]"

function replay :: "(nat \<Rightarrow> bytes) \<Rightarrow> nat \<Rightarrow> nat \<Rightarrow> nat \<Rightarrow> ((uint \<times> bytes) list \<times> nat) option" where
  "replay j sz b lim =
     (if b < lim then
        if tx_ok j sz b then
          (case replay j sz (Suc (b + unat (jt_num (j b)))) lim of
             None \<Rightarrow> None
           | Some (ws, e) \<Rightarrow> Some (tx_writes j b @ ws, e))
        else None
      else Some ([], b))"

  by pat_completeness auto
termination by (relation "measure (\<lambda>(j, sz, b, lim). lim - b)") auto

declare replay.simps [simp del]

lemma replay_done [simp]: "lim \<le> b \<Longrightarrow> replay j sz b lim = Some ([], b)"
  by (simp add: replay.simps)

lemma replay_step:
  "b < lim \<Longrightarrow> tx_ok j sz b \<Longrightarrow> replay j sz b lim =
     (case replay j sz (Suc (b + unat (jt_num (j b)))) lim of
        None \<Rightarrow> None | Some (ws, e) \<Rightarrow> Some (tx_writes j b @ ws, e))"
  by (subst replay.simps) simp

lemma replay_mono: "replay j sz b lim = Some (ws, e) \<Longrightarrow> b \<le> e"
proof (induction j sz b lim arbitrary: ws e rule: replay.induct)
  case (1 j sz b lim)
  show ?case
    using 1(2) 1(1) by (subst (asm) replay.simps) (fastforce split: if_splits option.splits)
qed

lemma replay_cong:
  "replay j sz b lim = Some (ws, e) \<Longrightarrow> \<forall>i < e. j' i = j i \<Longrightarrow> replay j' sz b lim = Some (ws, e)"
proof (induction j sz b lim arbitrary: ws e rule: replay.induct)
  case (1 j sz b lim)
  show ?case
  proof (cases "b < lim")
    case True
    let ?n = "unat (jt_num (j b))"
    obtain ws' where ok: "tx_ok j sz b" and rest: "replay j sz (Suc (b + ?n)) lim = Some (ws', e)"
      and ws: "ws = tx_writes j b @ ws'"
      using 1(2) True by (subst (asm) replay.simps) (auto split: if_splits option.splits)
    have "Suc (b + ?n) \<le> e" using rest by (rule replay_mono)
    then have same: "j' b = j b" "tx_writes j' b = tx_writes j b"
      using 1(3) by (auto simp: tx_writes_def)
    then have "tx_ok j' sz b" using ok by (simp add: tx_ok_def)
    then show ?thesis
      using 1(1) [OF True ok rest 1(3)] True same ws by (simp add: replay_step)
  qed (use 1(2) in simp)
qed

lemma replay_extend:
  "replay j sz b lim = Some (ws, e) \<Longrightarrow> lim \<le> lim' \<Longrightarrow> replay j sz e lim' = Some (ws', e')
    \<Longrightarrow> replay j sz b lim' = Some (ws @ ws', e')"
proof (induction j sz b lim arbitrary: ws e rule: replay.induct)
  case (1 j sz b lim)
  show ?case
  proof (cases "b < lim")
    case True
    let ?n = "unat (jt_num (j b))"
    obtain ws1 where ok: "tx_ok j sz b" and rest: "replay j sz (Suc (b + ?n)) lim = Some (ws1, e)"
      and ws: "ws = tx_writes j b @ ws1"
      using 1(2) True by (subst (asm) replay.simps) (auto split: if_splits option.splits)
    show ?thesis
      using 1(1) [OF True ok rest 1(3,4)] True ok ws 1(3) by (simp add: replay_step)
  qed (use 1 in simp)
qed

definition jblocks :: "uint \<Rightarrow> (blkid \<Rightarrow> bytes) \<Rightarrow> nat \<Rightarrow> bytes" where
  "jblocks dev d i = d (blkno dev (of_nat (i + 3)))"

definition recover_writes :: "uint \<Rightarrow> (blkid \<Rightarrow> bytes) \<Rightarrow> ((uint \<times> bytes) list \<times> nat) option" where
  "recover_writes dev d =
     (let jsb = d (blkno dev 2) in
      replay (jblocks dev d) (unat (jsb_size jsb)) (unat (jsb_head jsb) - 3) (unat (jsb_tail jsb) - 3))"

definition home_writes :: "uint \<Rightarrow> (uint \<times> bytes) list \<Rightarrow> (blkid \<times> bytes) list" where
  "home_writes dev ws = map (\<lambda>(n, v). (blkno dev n, v)) ws"

definition journal_area :: "uint \<Rightarrow> nat \<Rightarrow> blkid set" where
  "journal_area dev sz = (\<lambda>n. blkno dev (of_nat n)) ` {2..sz + 2}"


lemma journal_area_mem: "2 \<le> n \<Longrightarrow> n \<le> sz + 2 \<Longrightarrow> blkno dev (of_nat n) \<in> journal_area dev sz"
  unfolding journal_area_def by (rule imageI) simp

lemma journal_area_2 [simp]: "blkno dev 2 \<in> journal_area dev sz"
  using journal_area_mem [of 2 sz dev] by simp

text \<open>A journal as \<^const>\<open>end_trans\<close> and \<^const>\<open>jfull_flush\<close> leave it, with the writes it holds.\<close>

definition journal_wf :: "uint \<Rightarrow> (uint \<times> bytes) list \<Rightarrow> (blkid \<Rightarrow> bytes) \<Rightarrow> bool" where
  "journal_wf dev ws d \<longleftrightarrow> (\<exists>e. recover_writes dev d = Some (ws, e)) \<and> jsb_head (d (blkno dev 2)) = 3
     \<and> 0 < unat (jsb_size (d (blkno dev 2))) \<and> unat (jsb_size (d (blkno dev 2))) + 3 < 2 ^ 28
     \<and> fst ` set (home_writes dev ws) \<inter> journal_area dev (unat (jsb_size (d (blkno dev 2)))) = {}"

section \<open>What a crash leaves of a transaction\<close>

definition journal_inv :: "uint \<Rightarrow> nat \<Rightarrow> (uint \<times> bytes) list \<Rightarrow> 'a bio_state_scheme \<Rightarrow> bool" where
  "journal_inv dev jb ws s \<longleftrightarrow>
     b_dev (bufs s jb) = dev \<and> b_sector (bufs s jb) = 2
     \<and> disk s (blkno dev 2) = b_data (bufs s jb) \<and> jsb_head (b_data (bufs s jb)) = 3
     \<and> unat (jsb_size (b_data (bufs s jb))) + 3 < 2 ^ 28 \<and> 3 \<le> unat (jtail_bnum s)
     \<and> recover_writes dev (disk s) = Some (ws, unat (jtail_bnum s) - 3)"

definition on_dev :: "uint \<Rightarrow> nat \<Rightarrow> 'a bio_state_scheme \<Rightarrow> bool" where
  "on_dev dev hb s \<longleftrightarrow> (\<forall>b \<in> set (hb # mt_bufs (curmt s)). b_dev (bufs s b) = dev)"

definition tx_list :: "nat list \<Rightarrow> (nat \<Rightarrow> buf) \<Rightarrow> (uint \<times> bytes) list" where
  "tx_list bs bf = map (\<lambda>b. (b_sector (bf b), b_data (bf b))) bs"

lemma hlog_tx_list: "\<forall>b \<in> set bs. b_dev (bf b) = dev \<Longrightarrow> hlog bs bf = home_writes dev (tx_list bs bf)"
  by (simp add: hlog_def home_writes_def tx_list_def blk_of_def blkno_def)

lemma jlog_nth: "i < length bs \<Longrightarrow> jlog t bs f ! i = (jslot (f (bs ! i)) (t + of_nat i), b_data (f (bs ! i)))"
  by (induction bs arbitrary: t i) (auto simp: nth_Cons' of_nat_diff)

definition commit_block :: "nat \<Rightarrow> 'a bio_state_scheme \<Rightarrow> nat \<Rightarrow> bytes" where
  "commit_block hb s i =
     (case i of 0 \<Rightarrow> commit_hdr hb s | Suc k \<Rightarrow> b_data (bufs s (mt_bufs (curmt s) ! k)))"

lemma length_commit_writes: "length (commit_writes hb jb s) = length (mt_bufs (curmt s)) + 2"
  by (simp add: commit_writes_def)

lemma commit_writes_eq:
  assumes "on_dev dev hb s" "journal_inv dev jb ws s"
  shows "commit_writes hb jb s =
     map (\<lambda>i. (blkno dev (of_nat (unat (jtail_bnum s) + i)), commit_block hb s i)) [0..<Suc (length (mt_bufs (curmt s)))]
     @ [(blkno dev 2, commit_jsb jb s)]"
proof -
  let ?bs = "mt_bufs (curmt s)" and ?t = "jtail_bnum s"
  have slot: "jslot (bufs s b) n = blkno dev n" if "b \<in> set (hb # ?bs)" for b n
    using that assms(1) unfolding on_dev_def jslot_def blkno_def by metis
  have "jlog (?t + 1) ?bs (bufs s)
     = map (\<lambda>i. (blkno dev (of_nat (unat ?t + i)), commit_block hb s i)) [1..<Suc (length ?bs)]"
    by (rule nth_equalityI) (auto simp: jlog_nth slot commit_block_def algebra_simps simp del: upt_Suc)
  then show ?thesis
    using assms(2) slot [of hb]
    by (simp add: commit_writes_def upt_conv_Cons commit_block_def journal_inv_def blk_of_def blkno_def del: upt_Suc)
qed


lemma replay_lim: "replay j sz b lim = Some (ws, e) \<Longrightarrow> lim \<le> e"
proof (induction j sz b lim arbitrary: ws e rule: replay.induct)
  case (1 j sz b lim)
  show ?case
    using 1(2) 1(1) by (subst (asm) replay.simps) (fastforce split: if_splits option.splits)
qed

lemma jsb_fields_commit [simp]:
  "jsb_size (commit_jsb jb s) = jsb_size (b_data (bufs s jb))"
  "jsb_head (commit_jsb jb s) = jsb_head (b_data (bufs s jb))"
  "jsb_tail (commit_jsb jb s) = jtail_bnum s + of_nat (length (mt_bufs (curmt s)))"
  by (simp_all add: commit_jsb_def jsb_size_def jsb_head_def jsb_tail_def)

lemma commit_bounds:
  assumes "commit_ready hb jb s" "journal_inv dev jb ws s"
  defines "n \<equiv> length (mt_bufs (curmt s))" and "t \<equiv> unat (jtail_bnum s)"
    and "sz \<equiv> unat (jsb_size (b_data (bufs s jb)))"
  shows "0 < n" "n \<le> JT_MAX" "3 \<le> t" "t + 1 + n \<le> sz + 2" "sz + 3 < 2 ^ 28"
    "unat (jtail_bnum s + of_nat n) = t + n" "unat (jtail_bnum s + 1 + of_nat n) = t + n + 1"
proof -
  have "unat (jsb_size (b_data (bufs s jb)) + 2) = sz + 2"
    using assms(2) by (subst unat_add_uint) (auto simp: journal_inv_def sz_def)
  then show b: "0 < n" "n \<le> JT_MAX" "3 \<le> t" "t + 1 + n \<le> sz + 2" "sz + 3 < 2 ^ 28"
    using assms(1,2) by (auto simp: commit_ready_def journal_inv_def n_def t_def sz_def)
  have n: "unat (of_nat n :: uint) = n" using b(2) by (simp add: JT_MAX_def unat_of_nat)
  show tn: "unat (jtail_bnum s + of_nat n) = t + n"
    using b n by (subst unat_add_uint) (auto simp: t_def)
  have "unat (jtail_bnum s + of_nat n + 1) = t + n + 1"
    using b tn by (subst unat_add_uint) auto
  then show "unat (jtail_bnum s + 1 + of_nat n) = t + n + 1" by (simp add: algebra_simps)
qed

lemma commit_prefix:
  assumes "commit_ready hb jb s" "on_dev dev hb s" "journal_inv dev jb ws s"
    and k: "k \<le> Suc (length (mt_bufs (curmt s)))"
    and m: "m < 2 ^ 28" "m < unat (jtail_bnum s)"
  shows "apply_writes (take k (commit_writes hb jb s)) d (blkno dev (of_nat m)) = d (blkno dev (of_nat m))"
proof -
  note b = commit_bounds [OF assms(1,3)]
  have "blkno dev (of_nat m) \<noteq> blkno dev (of_nat (unat (jtail_bnum s) + i))" if "i < k" for i
    using that k b m by (subst blkno_of_nat) auto
  moreover have "fst ` set (take k (commit_writes hb jb s)) = (\<lambda>i. blkno dev (of_nat (unat (jtail_bnum s) + i))) ` {0..<k}"
    using k by (simp add: commit_writes_eq [OF assms(2,3)] take_map take_upt image_image del: upt_Suc of_nat_add)
  ultimately show ?thesis
    by (intro apply_writes_other) (simp only: image_iff Bex_def atLeastLessThan_iff, blast)
qed

lemma commit_home:
  assumes "commit_ready hb jb s" "on_dev dev hb s" "journal_inv dev jb ws s"
    and x: "x \<notin> journal_area dev (unat (jsb_size (b_data (bufs s jb))))"
  shows "apply_writes (take k (commit_writes hb jb s)) d x = d x"
proof -
  note b = commit_bounds [OF assms(1,3)]
  have "fst ` set (commit_writes hb jb s) = insert (blkno dev (of_nat 2))
    ((\<lambda>i. blkno dev (of_nat (unat (jtail_bnum s) + i))) ` {0..<Suc (length (mt_bufs (curmt s)))})"
    by (simp add: commit_writes_eq [OF assms(2,3)] image_image del: upt_Suc of_nat_add)
  also have "\<dots> \<subseteq> journal_area dev (unat (jsb_size (b_data (bufs s jb))))"
    using b unfolding journal_area_def by (auto simp del: of_nat_add of_nat_numeral)
  finally have "fst ` set (commit_writes hb jb s) \<subseteq> journal_area dev (unat (jsb_size (b_data (bufs s jb))))" .
  then show ?thesis
    using x set_take_subset [of k "commit_writes hb jb s"] by (intro apply_writes_other) auto
qed


lemma commit_complete:
  fixes d :: "blkid \<Rightarrow> bytes"
  assumes "commit_ready hb jb s" "on_dev dev hb s" "journal_inv dev jb ws s"
  defines "d' \<equiv> apply_writes (commit_writes hb jb s) d" and "e \<equiv> unat (jtail_bnum s) - 3"
  shows "d' (blkno dev 2) = commit_jsb jb s"
    and "i < e \<Longrightarrow> jblocks dev d' i = jblocks dev d i"
    and "i \<le> length (mt_bufs (curmt s)) \<Longrightarrow> jblocks dev d' (e + i) = commit_block hb s i"
proof -
  let ?n = "length (mt_bufs (curmt s))" and ?W = "commit_writes hb jb s" and ?t = "unat (jtail_bnum s)"
  note b = commit_bounds [OF assms(1,3)]
  have d': "d' = (apply_writes (take (Suc ?n) ?W) d)(blkno dev 2 := commit_jsb jb s)"
    unfolding d'_def commit_writes_eq [OF assms(2,3)] by simp
  then show "d' (blkno dev 2) = commit_jsb jb s" by simp
  have two: "blkno dev (of_nat m) \<noteq> blkno dev 2" if "2 < m" "m < 2 ^ 28" for m
    using that blkno_of_nat [of m 2 dev] by simp
  {
    assume "i < e"
    then have "i + 3 < ?t" "i + 3 < 2 ^ 28" using b by (auto simp: e_def)
    then show "jblocks dev d' i = jblocks dev d i"
      using two [of "i + 3"] commit_prefix [OF assms(1-3), where k = "Suc ?n" and m = "i + 3" and d = d]
      unfolding jblocks_def d' by simp
  next
    assume i: "i \<le> ?n"
    have slot: "e + i + 3 = ?t + i" using b by (simp add: e_def)
    have "distinct (map fst (take (Suc ?n) ?W))"
      using b by (auto simp: commit_writes_eq [OF assms(2,3)] distinct_map inj_on_def blkno_of_nat
          simp del: upt_Suc of_nat_add)
    then have "apply_writes (take (Suc ?n) ?W) d (fst (take (Suc ?n) ?W ! i)) = snd (take (Suc ?n) ?W ! i)"
      using i by (intro apply_writes_nth) (auto simp: commit_writes_eq [OF assms(2,3)])
    moreover have "take (Suc ?n) ?W ! i = (blkno dev (of_nat (?t + i)), commit_block hb s i)"
      using i by (simp add: commit_writes_eq [OF assms(2,3)] nth_append del: upt_Suc of_nat_add)
    ultimately show "jblocks dev d' (e + i) = commit_block hb s i"
      using two [of "?t + i"] b i unfolding jblocks_def d' slot by (simp del: of_nat_add)
  }
qed

lemma commit_replay:
  assumes "commit_ready hb jb s" "on_dev dev hb s" "journal_inv dev jb ws s"
  defines "n \<equiv> length (mt_bufs (curmt s))" and "e \<equiv> unat (jtail_bnum s) - 3"
  defines "j \<equiv> jblocks dev (apply_writes (commit_writes hb jb s) (disk s))"
  shows "replay j (unat (jsb_size (b_data (bufs s jb)))) e (e + n)
    = Some (tx_list (mt_bufs (curmt s)) (bufs s), Suc (e + n))"
proof -
  let ?bs = "mt_bufs (curmt s)"
  note b = commit_bounds [OF assms(1,3), folded n_def]
  have j: "j (e + i) = commit_block hb s i" if "i \<le> n" for i
    using that commit_complete(3) [OF assms(1-3)] by (simp add: j_def e_def n_def)
  then have h: "j e = commit_hdr hb s" and body: "j (Suc (e + i)) = b_data (bufs s (?bs ! i))" if "i < n" for i
    using j [of 0] j [of "Suc i"] that by (auto simp: commit_block_def)
  have num: "unat (jt_num (j e)) = n"
    using b h by (simp add: commit_hdr_def n_def [symmetric] unat_of_nat JT_MAX_def)
  have ok: "tx_ok j (unat (jsb_size (b_data (bufs s jb)))) e"
    using b h num by (auto simp: tx_ok_def commit_hdr_def e_def)
  have "tx_writes j e = tx_list ?bs (bufs s)"
    unfolding tx_writes_def num
    by (rule nth_equalityI) (use b h body in \<open>auto simp: tx_list_def n_def commit_hdr_def\<close>)
  then show ?thesis using b ok num by (simp add: replay_step)
qed

lemma crash_commit:
  assumes "commit_ready hb jb s" "on_dev dev hb s" "journal_inv dev jb ws s"
  defines "n \<equiv> length (mt_bufs (curmt s))" and "e \<equiv> unat (jtail_bnum s) - 3"
  shows "recover_writes dev (apply_writes (take k (commit_writes hb jb s)) (disk s))
    = Some (if k \<le> Suc n then (ws, e) else (ws @ tx_list (mt_bufs (curmt s)) (bufs s), Suc (e + n)))"
proof -
  let ?bs = "mt_bufs (curmt s)" and ?W = "commit_writes hb jb s" and ?jsb = "b_data (bufs s jb)"
  note b = commit_bounds [OF assms(1,3), folded n_def] and inv = assms(3) [unfolded journal_inv_def]
  have old: "replay (jblocks dev (disk s)) (unat (jsb_size ?jsb)) 0 (unat (jsb_tail ?jsb) - 3) = Some (ws, e)"
    using inv by (auto simp: recover_writes_def Let_def e_def)
  show ?thesis
  proof (cases "k \<le> Suc n")
    case True
    let ?d = "apply_writes (take k ?W) (disk s)"
    have pre: "?d (blkno dev (of_nat m)) = disk s (blkno dev (of_nat m))" if "m < unat (jtail_bnum s)" for m
      using that True b by (intro commit_prefix [OF assms(1-3)]) (auto simp: n_def)
    have "replay (jblocks dev ?d) (unat (jsb_size ?jsb)) 0 (unat (jsb_tail ?jsb) - 3) = Some (ws, e)"
      by (rule replay_cong [OF old]) (auto simp: jblocks_def e_def pre simp del: of_nat_add)
    moreover have "?d (blkno dev 2) = ?jsb" using pre [of 2] b inv by auto
    ultimately show ?thesis using True inv by (auto simp: recover_writes_def Let_def)
  next
    case False
    let ?d = "apply_writes ?W (disk s)"
    have all: "take k ?W = ?W" using False by (simp add: commit_writes_def n_def)
    have "replay (jblocks dev ?d) (unat (jsb_size ?jsb)) 0 (unat (jsb_tail ?jsb) - 3) = Some (ws, e)"
      by (rule replay_cong [OF old]) (auto simp: commit_complete(2) [OF assms(1-3)] e_def)
    then have "replay (jblocks dev ?d) (unat (jsb_size ?jsb)) 0 (e + n) = Some (ws @ tx_list ?bs (bufs s), Suc (e + n))"
      using replay_lim [OF old] commit_replay [OF assms(1-3), folded n_def e_def]
      by (intro replay_extend) auto
    moreover have "unat (jsb_tail (commit_jsb jb s)) - 3 = e + n" using b by (simp add: e_def n_def)
    ultimately show ?thesis
      using False all inv commit_complete(1) [OF assms(1-3)] by (auto simp: recover_writes_def Let_def)
  qed
qed


section \<open>Crashes during a checkpoint\<close>

lemma commit_state_simps [simp]:
  "curmt (commit_state hb jb s) = empty_trans"
  "jsblock_buf (commit_state hb jb s) = jsblock_buf s"
  "jtrans_header_buf (commit_state hb jb s) = jtrans_header_buf s"
  "trans_write_lock (commit_state hb jb s) = trans_write_lock s"
  "disk_1_present (commit_state hb jb s) = disk_1_present s"
  "disk (commit_state hb jb s) = apply_writes (commit_writes hb jb s) (disk s)"
  "disk_writes (commit_state hb jb s) = disk_writes s @ commit_writes hb jb s"
  "bufs (commit_state hb jb s) = commit_bufs hb jb s"
  "ide_idle (commit_state hb jb s) = ide_idle s"
  by (simp_all add: commit_state_def ide_idle_def)

lemma journal_inv_commit:
  assumes "commit_ready hb jb s" "on_dev dev hb s" "journal_inv dev jb ws s"
  shows "journal_inv dev jb (ws @ tx_list (mt_bufs (curmt s)) (bufs s)) (commit_state hb jb s)"
proof -
  note b = commit_bounds [OF assms(1,3)]
  have jb: "bufs (commit_state hb jb s) jb = (bufs s jb)\<lparr>b_flags := {B_BUSY, B_VALID}, b_data := commit_jsb jb s\<rparr>"
    using assms(1) by (auto simp: commit_bufs_def commit_ready_def)
  have tl: "unat (jtail_bnum (commit_state hb jb s)) - 3 = Suc (unat (jtail_bnum s) - 3 + length (mt_bufs (curmt s)))"
    "3 \<le> unat (jtail_bnum (commit_state hb jb s))"
    using b by (simp_all add: commit_state_def)
  show ?thesis
    using assms(3) crash_commit [OF assms(1-3), of "length (commit_writes hb jb s)"]
    unfolding journal_inv_def jb tl
    by (auto simp: commit_complete(1) [OF assms(1-3)] length_commit_writes tl)
qed

lemma replay_size: "replay j sz b lim = Some (ws, e) \<Longrightarrow> b \<le> sz \<Longrightarrow> e \<le> sz"
proof (induction j sz b lim arbitrary: ws e rule: replay.induct)
  case (1 j sz b lim)
  show ?case
    using 1(2) 1(1,3) by (subst (asm) (1) replay.simps) (auto simp: tx_ok_def split: if_splits option.splits)
qed

lemma recover_writes_cong:
  assumes "recover_writes dev d = Some we" "jsb_head (d (blkno dev 2)) = 3"
    and same: "\<And>x. x \<in> journal_area dev (unat (jsb_size (d (blkno dev 2)))) \<Longrightarrow> d' x = d x"
  shows "recover_writes dev d' = Some we"
proof -
  obtain ws e where we: "we = (ws, e)" by (cases we)
  let ?jsb = "d (blkno dev 2)"
  have old: "replay (jblocks dev d) (unat (jsb_size ?jsb)) 0 (unat (jsb_tail ?jsb) - 3) = Some (ws, e)"
    using assms(1,2) we by (simp add: recover_writes_def Let_def)
  have "e \<le> unat (jsb_size ?jsb)" using replay_size [OF old] by simp
  then have "jblocks dev d' i = jblocks dev d i" if "i < e" for i
    using that unfolding jblocks_def by (intro same journal_area_mem) auto
  then have "replay (jblocks dev d') (unat (jsb_size ?jsb)) 0 (unat (jsb_tail ?jsb) - 3) = Some (ws, e)"
    by (intro replay_cong [OF old]) auto
  moreover have "d' (blkno dev 2) = ?jsb" by (rule same) simp
  ultimately show ?thesis using assms(2) we by (simp add: recover_writes_def Let_def)
qed

text \<open>The sector writes of a checkpoint: the blocks at their home, then the emptied journal.\<close>

definition checkpoint_writes :: "uint \<Rightarrow> (uint \<times> bytes) list \<Rightarrow> (blkid \<Rightarrow> bytes) \<Rightarrow> (blkid \<times> bytes) list" where
  "checkpoint_writes dev ws d = home_writes dev ws @ [(blkno dev 2, flush_jsb (d (blkno dev 2)))]"

lemma crash_checkpoint:
  fixes k :: nat
  assumes wf: "journal_wf dev ws d"
  defines "d' \<equiv> apply_writes (take k (checkpoint_writes dev ws d)) d"
  shows "\<exists>ws'. journal_wf dev ws' d' \<and> (\<forall>x. x \<noteq> blkno dev 2 \<longrightarrow>
         apply_writes (home_writes dev ws') d' x = apply_writes (home_writes dev ws) d x)"
proof (cases "k \<le> length (home_writes dev ws)")
  case True
  then have d': "d' = apply_writes (take k (home_writes dev ws)) d"
    by (simp add: checkpoint_writes_def d'_def)
  note w = wf [unfolded journal_wf_def]
  have same: "d' x = d x" if "x \<in> journal_area dev (unat (jsb_size (d (blkno dev 2))))" for x
    using that w set_take_subset [of k "home_writes dev ws"] unfolding d'
    by (intro apply_writes_other) auto
  obtain e where e: "recover_writes dev d = Some (ws, e)" using w by blast
  have "recover_writes dev d' = Some (ws, e)"
    by (rule recover_writes_cong [where d = d]) (fact e, use w in simp, rule same)
  then have "journal_wf dev ws d'"
    using w same [OF journal_area_2] by (simp add: journal_wf_def)
  then show ?thesis by (intro exI [of _ ws]) (simp add: d' apply_writes_redo)
next
  case False
  then have d': "d' = apply_writes (checkpoint_writes dev ws d) d"
    by (simp add: checkpoint_writes_def d'_def)
  then have "d' (blkno dev 2) = flush_jsb (d (blkno dev 2))" by (simp add: checkpoint_writes_def)
  then have "journal_wf dev [] d'"
    using wf by (simp add: journal_wf_def recover_writes_def home_writes_def)
  then show ?thesis by (intro exI [of _ "[]"]) (simp add: d' home_writes_def checkpoint_writes_def)
qed

lemma journal_inv_wf:
  assumes "journal_inv dev jb ws s" "0 < unat (jsb_size (b_data (bufs s jb)))"
    and "fst ` set (home_writes dev ws) \<inter> journal_area dev (unat (jsb_size (b_data (bufs s jb)))) = {}"
  shows "journal_wf dev ws (disk s)"
  using assms by (simp add: journal_inv_def journal_wf_def)

lemma commit_bufs_tx:
  assumes "commit_ready hb jb s" "b \<in> set (mt_bufs (curmt s))"
  shows "commit_bufs hb jb s b = committed (should_panic s) (bufs s b)"
  using assms by (simp add: commit_bufs_def)

lemma flush_after_commit:
  assumes "commit_ready hb jb s" "mtn_head s = None" "should_panic s = 0"
  shows "jfull_flush (commit_state hb jb s) = Ret (flush_state jb (mt_bufs (curmt s)) None (commit_state hb jb s))"
proof -
  let ?s1 = "commit_state hb jb s" and ?bs = "mt_bufs (curmt s)"
  note ready = assms(1) [unfolded commit_ready_def]
  have node: "mtns ?s1 (mtn_fresh s) = \<lparr>mtn_trans = curmt s, mtn_next = None\<rparr>"
    "mtn_head ?s1 = Some (mtn_fresh s)" "mtn_tail ?s1 = Some (mtn_fresh s)" "mtn_fresh ?s1 = Suc (mtn_fresh s)"
    using assms(2) by (simp_all add: commit_state_def link_mtn_def)
  have chain: "chain_bufs (mtns ?s1) [mtn_fresh s] = ?bs" by (simp add: node)
  have "flushable b ?s1" if "b \<in> set ?bs" for b
    using that ready assms(3) commit_bufs_tx [OF assms(1) that]
    by (auto simp: flushable_def writable_def committed_def)
  then have "jfull_flush ?s1 = Ret (flush_state jb (chain_bufs (mtns ?s1) [mtn_fresh s]) (mtn_next (mtns ?s1 (mtn_fresh s))) ?s1)"
    using ready node by (intro jfull_flush_chain) (auto simp: chain commit_bufs_def writable_def)
  then show ?thesis by (simp only: chain node mem_trans_node.select_convs)
qed

lemma crash_points:
  fixes k :: nat
  assumes "commit_ready hb jb s" "on_dev dev hb s" "journal_inv dev jb [] s"
    and home: "\<forall>b \<in> set (mt_bufs (curmt s)). blk_of (bufs s b) \<notin> journal_area dev (unat (jsb_size (b_data (bufs s jb))))"
  defines "d \<equiv> apply_writes (take k (commit_writes hb jb s @ checkpoint_writes dev (tx_list (mt_bufs (curmt s)) (bufs s)) (disk (commit_state hb jb s)))) (disk s)"
  shows "\<exists>ws. journal_wf dev ws d \<and> (\<forall>x. x \<notin> journal_area dev (unat (jsb_size (b_data (bufs s jb)))) \<longrightarrow>
         apply_writes (home_writes dev ws) d x = (if k \<le> Suc (length (mt_bufs (curmt s))) then disk s x
                else apply_writes (hlog (mt_bufs (curmt s)) (bufs s)) (disk s) x))"
proof (cases "k \<le> Suc (length (mt_bufs (curmt s)))")
  case True
  then have d: "d = apply_writes (take k (commit_writes hb jb s)) (disk s)" by (simp add: d_def length_commit_writes)
  note b = commit_bounds [OF assms(1,3)]
  have "d (blkno dev (of_nat 2)) = disk s (blkno dev (of_nat 2))"
    unfolding d using True b by (intro commit_prefix [OF assms(1-3)]) auto
  moreover have "recover_writes dev d = Some ([], unat (jtail_bnum s) - 3)"
    using True crash_commit [OF assms(1-3), of k] by (simp add: d)
  ultimately have "journal_wf dev [] d"
    using assms(3) b by (auto simp: journal_wf_def journal_inv_def home_writes_def)
  then show ?thesis
    using True commit_home [OF assms(1-3)] by (intro exI [of _ "[]"]) (simp add: d home_writes_def)
next
  case False
  let ?bs = "mt_bufs (curmt s)" and ?s1 = "commit_state hb jb s" and ?ws = "tx_list (mt_bufs (curmt s)) (bufs s)"
  have d: "d = apply_writes (take (k - length (commit_writes hb jb s)) (checkpoint_writes dev ?ws (disk ?s1))) (disk ?s1)"
    using False by (simp add: d_def length_commit_writes)
  have dev: "\<forall>b \<in> set ?bs. b_dev (bufs s b) = dev" using assms(2) by (simp add: on_dev_def)
  have hw: "hlog ?bs (bufs s) = home_writes dev ?ws" using hlog_tx_list [OF dev] by simp
  have sz: "jsb_size (b_data (bufs ?s1 jb)) = jsb_size (b_data (bufs s jb))"
    using assms(1) by (auto simp: commit_bufs_def commit_ready_def)
  have "journal_inv dev jb ?ws ?s1" using journal_inv_commit [OF assms(1-3)] by simp
  moreover have "0 < unat (jsb_size (b_data (bufs ?s1 jb)))" using commit_bounds [OF assms(1,3)] sz by simp
  moreover have "fst ` set (home_writes dev ?ws) \<inter> journal_area dev (unat (jsb_size (b_data (bufs ?s1 jb)))) = {}"
    using home unfolding sz hw [symmetric] by (auto simp: hlog_def)
  ultimately have wf: "journal_wf dev ?ws (disk ?s1)" by (rule journal_inv_wf)
  obtain ws' where
    ws': "journal_wf dev ws' d"
    "\<And>x. x \<noteq> blkno dev 2 \<Longrightarrow> apply_writes (home_writes dev ws') d x = apply_writes (hlog ?bs (bufs s)) (disk ?s1) x"
    using crash_checkpoint [OF wf, of "k - length (commit_writes hb jb s)"] unfolding d hw by blast
  have "apply_writes (hlog ?bs (bufs s)) (disk ?s1) x = apply_writes (hlog ?bs (bufs s)) (disk s) x"
    if "x \<notin> journal_area dev (unat (jsb_size (b_data (bufs s jb))))" for x
    using commit_home [OF assms(1-3) that, of "length (commit_writes hb jb s)" "disk s"]
    by (simp add: apply_writes_map_of split: option.splits)
  moreover have "x \<noteq> blkno dev 2" if "x \<notin> journal_area dev sz" for x sz using that by auto
  ultimately show ?thesis using ws' False by auto
qed

end
