(* ===== verification/Recovery.thy ===== *)
theory Recovery
  imports Crash
begin

text \<open>
  \<^const>\<open>pbjFSck\<close> implements the recovery of the theory \<open>Crash\<close>: run on the state of a machine that
  has just booted from a disk with a well-formed journal it returns, it has replayed every complete
  transaction on the disk, and the journal is empty.
\<close>

section \<open>Reading the journal\<close>

definition loaded :: "uint \<Rightarrow> uint \<Rightarrow> (blkid \<Rightarrow> bytes) \<Rightarrow> buf \<Rightarrow> buf" where
  "loaded dev n d bf = bf\<lparr>b_flags := {B_BUSY, B_VALID}, b_dev := dev, b_sector := n, b_data := d (blkno dev n)\<rparr>"

lemma find_append_free:
  "\<forall>u \<in> set us. \<not> P u \<Longrightarrow> P b \<Longrightarrow> List.find P (us @ b # fs) = Some b"
  by (induction us) auto

lemma bread_miss:
  assumes "ide_idle s" "dev = 0 \<or> disk_1_present s"
    and "rev (lru s) = us @ b # fs" "\<forall>u \<in> set us. B_BUSY \<in> b_flags (bufs s u)" "b_flags (bufs s b) = {}"
    and "\<forall>u \<in> set (lru s). \<not> cached dev n s u"
  shows "bread dev n s = Ret (b, s\<lparr>ide_datain := disk s (blkno dev n), bufs := (bufs s)(b := loaded dev n (disk s) (bufs s b))\<rparr>)"
proof -
  let ?s1 = "upd_buf b (\<lambda>bf. bf\<lparr>b_flags := {B_BUSY}, b_dev := dev, b_sector := n\<rparr>) s"
  have "List.find (cached dev n s) (lru s) = None" using assms(6) by (auto simp: find_None_iff)
  moreover have "List.find (\<lambda>b. B_BUSY \<notin> b_flags (bufs s b)) (rev (lru s)) = Some b"
    unfolding assms(3) using assms(4,5) by (intro find_append_free) auto
  ultimately have "bget dev n s = Ret (b, ?s1)" by (simp add: bget_def)
  moreover have "ide_rw b ?s1 = Ret (s\<lparr>ide_datain := disk s (blkno dev n), bufs := (bufs s)(b := loaded dev n (disk s) (bufs s b))\<rparr>)"
    using assms(1,2) by (subst ide_rw_transfer)
      (auto simp: upd_buf_def transfer_def Let_def loaded_def blk_of_def blkno_def ide_idle_def
        insert_commute intro!: bio_state.equality)
  ultimately show ?thesis by (simp add: bread_def upd_buf_def)
qed

lemma fsck_read_ok:
  assumes "ide_idle s" "dev = 0 \<or> disk_1_present s" "distinct (lru s)"
    and "rev (lru s) = us @ fs" "k \<le> length fs"
    and "\<forall>u \<in> set us. B_BUSY \<in> b_flags (bufs s u)" "\<forall>u \<in> set fs. b_flags (bufs s u) = {}"
    and "\<forall>u \<in> set us. \<forall>i < k. b_sector (bufs s u) \<noteq> bnum + 3 + of_nat i" "k < 2 ^ 28"
  shows "\<exists>bf x. fsck_read k bnum dev s = Ret (take k fs, s\<lparr>ide_datain := x, bufs := bf\<rparr>)
    \<and> (\<forall>i < k. bf (fs ! i) = loaded dev (bnum + 3 + of_nat i) (disk s) (bufs s (fs ! i)))
    \<and> (\<forall>b. b \<notin> set (take k fs) \<longrightarrow> bf b = bufs s b)"
  using assms
proof (induction k arbitrary: bnum s us fs)
  case 0
  show ?case by (intro exI [of _ "bufs s"] exI [of _ "ide_datain s"]) simp
next
  case (Suc k)
  obtain b fs' where fs: "fs = b # fs'" using Suc.prems(5) by (cases fs) auto
  define s1 where "s1 = s\<lparr>ide_datain := disk s (blkno dev (bnum + 3)), bufs := (bufs s)(b := loaded dev (bnum + 3) (disk s) (bufs s b))\<rparr>"
  have b: "b \<notin> set us" "b \<notin> set fs'"
    using Suc.prems(3,4) fs by (metis distinct_append distinct.simps(2) distinct_rev disjoint_iff list.set_intros(1))+
  have "bread dev (bnum + 3) s = Ret (b, s1)"
    unfolding s1_def
  proof (rule bread_miss [OF Suc.prems(1,2)])
    show "rev (lru s) = us @ b # fs'" using Suc.prems(4) fs by simp
    have "set (lru s) = set us \<union> set fs" using Suc.prems(4) by (metis set_append set_rev)
    moreover have "\<forall>u \<in> set us. b_sector (bufs s u) \<noteq> bnum + 3" using Suc.prems(8) by force
    ultimately show "\<forall>u \<in> set (lru s). \<not> cached dev (bnum + 3) s u"
      using Suc.prems(7) by (auto simp: cached_def)
  qed (use Suc.prems fs in auto)
  moreover have "\<exists>bf x. fsck_read k (bnum + 1) dev s1 = Ret (take k fs', s1\<lparr>ide_datain := x, bufs := bf\<rparr>)
    \<and> (\<forall>i < k. bf (fs' ! i) = loaded dev (bnum + 1 + 3 + of_nat i) (disk s1) (bufs s1 (fs' ! i)))
    \<and> (\<forall>b. b \<notin> set (take k fs') \<longrightarrow> bf b = bufs s1 b)"
  proof (rule Suc.IH [where us = "us @ [b]"])
    have ne: "(0 :: uint) \<noteq> 1 + of_nat i" if "i < k" for i
    proof
      assume "0 = (1 + of_nat i :: uint)"
      then have "(0 :: uint) = of_nat (Suc i)" by simp
      then have "0 = unat (of_nat (Suc i) :: uint)" by simp
      then show False using that Suc.prems(9) by (simp only: unat_of_nat) simp
    qed
    show "\<forall>u \<in> set (us @ [b]). \<forall>i < k. b_sector (bufs s1 u) \<noteq> bnum + 1 + 3 + of_nat i"
    proof (intro ballI allI impI)
      fix u i assume "u \<in> set (us @ [b])" "i < k"
      then show "b_sector (bufs s1 u) \<noteq> bnum + 1 + 3 + of_nat i"
        using Suc.prems(8) [rule_format, of u "Suc i"] b ne [of i]
        by (auto simp: s1_def loaded_def algebra_simps split: if_splits)
    qed
  qed (use Suc.prems fs b in \<open>auto simp: s1_def ide_idle_def loaded_def\<close>)
  ultimately obtain bf x where
    read: "fsck_read (Suc k) bnum dev s = Ret (take (Suc k) fs, s1\<lparr>ide_datain := x, bufs := bf\<rparr>)"
    and at: "\<And>i. i < k \<Longrightarrow> bf (fs' ! i) = loaded dev (bnum + 1 + 3 + of_nat i) (disk s1) (bufs s1 (fs' ! i))"
    and other: "\<And>b. b \<notin> set (take k fs') \<Longrightarrow> bf b = bufs s1 b"
    using fs by auto
  have "bf (fs ! i) = loaded dev (bnum + 3 + of_nat i) (disk s) (bufs s (fs ! i))" if i: "i < Suc k" for i
  proof (cases i)
    case 0
    have "b \<notin> set (take k fs')" using b by (meson in_set_takeD)
    then show ?thesis using 0 other fs by (simp add: s1_def)
  next
    case (Suc i')
    then have "i' < length fs'" using i Suc.prems(5) fs by simp
    then have "fs' ! i' \<noteq> b" using b by (metis nth_mem)
    then show ?thesis using Suc i at [of i'] fs by (simp add: s1_def algebra_simps)
  qed
  moreover have "s1\<lparr>ide_datain := x, bufs := bf\<rparr> = s\<lparr>ide_datain := x, bufs := bf\<rparr>" by (simp add: s1_def)
  moreover have "bf c = bufs s c" if "c \<notin> set (take (Suc k) fs)" for c
    using that other [of c] fs by (auto simp: s1_def)
  ultimately show ?case using read by auto
qed


section \<open>Collecting the transactions\<close>

lemma unat_small: "n < 2 ^ 28 \<Longrightarrow> unat (of_nat n :: uint) = n"
  by (simp add: unat_of_nat)

lemma of_nat_small:
  "m < 2 ^ 28 \<Longrightarrow> n < 2 ^ 28 \<Longrightarrow> (of_nat m :: uint) \<le> of_nat n \<longleftrightarrow> m \<le> n"
  "m < 2 ^ 28 \<Longrightarrow> n < 2 ^ 28 \<Longrightarrow> (of_nat m :: uint) < of_nat n \<longleftrightarrow> m < n"
  by (simp_all add: word_le_nat_alt word_less_nat_alt unat_small)

primrec renamed :: "nat list \<Rightarrow> bytes \<Rightarrow> nat \<Rightarrow> nat list \<Rightarrow> (nat \<Rightarrow> buf) \<Rightarrow> nat \<Rightarrow> buf" where
  "renamed jbs hdr b [] bf = bf"
| "renamed jbs hdr b (i # is) bf = renamed jbs hdr b is
     (bf(jbs ! i := (bf (jbs ! i))\<lparr>b_sector := jt_blocklist hdr (i - b - 1),
        b_flags := b_flags (bf (jbs ! i)) \<union> {B_DIRTY}\<rparr>))"

lemma renamed_other: "x \<notin> (!) jbs ` set is \<Longrightarrow> renamed jbs hdr b is bf x = bf x"
  by (induction "is" arbitrary: bf) auto

lemma renamed_at:
  "distinct jbs \<Longrightarrow> distinct is \<Longrightarrow> \<forall>i \<in> set is. i < length jbs \<Longrightarrow> i \<in> set is \<Longrightarrow>
    renamed jbs hdr b is bf (jbs ! i) =
      (bf (jbs ! i))\<lparr>b_sector := jt_blocklist hdr (i - b - 1), b_flags := b_flags (bf (jbs ! i)) \<union> {B_DIRTY}\<rparr>"
proof (induction "is" arbitrary: bf)
  case (Cons a as)
  show ?case
  proof (cases "i = a")
    case True
    then have "jbs ! i \<notin> (!) jbs ` set as" using Cons.prems by (auto simp: nth_eq_iff_index_eq)
    then show ?thesis using True by (simp add: renamed_other)
  next
    case False
    then have "jbs ! i \<noteq> jbs ! a" using Cons.prems by (auto simp: nth_eq_iff_index_eq)
    then show ?thesis using Cons False by simp
  qed
qed simp

lemma fsck_item_ok:
  assumes "i < length jbs" "length jbs < 2 ^ 28" "i - b - 1 < JT_MAX"
  shows "fsck_item jbs hdr (of_nat i) (of_nat (i - b - 1)) s = Ret (jbs ! i, s\<lparr>bufs := renamed jbs hdr b [i] (bufs s)\<rparr>)"
proof -
  have "unat (of_nat i :: uint) = i" "unat (of_nat (i - b - 1) :: uint) = i - b - 1"
    using assms by (simp_all add: unat_small del: of_nat_diff)
  then show ?thesis
    using assms by (simp add: fsck_item_def journal_block_def set_flags_def set_sector_def upd_buf_def)
qed

declare fsck_items.simps [simp del]

lemma fsck_items_ok:
  assumes "b < t" "l < length jbs" "length jbs < 2 ^ 28" "l - b \<le> JT_MAX" "Suc l - t \<le> k" "t \<le> Suc l"
  shows "fsck_items k jbs hdr (of_nat b) (of_nat t) (of_nat l) s
    = Ret (map ((!) jbs) [t..<Suc l], s\<lparr>bufs := renamed jbs hdr b [t..<Suc l] (bufs s)\<rparr>)"
  using assms
proof (induction k arbitrary: t s)
  case 0
  then have "t = Suc l" by simp
  moreover have "\<not> (of_nat (Suc l) :: uint) \<le> of_nat l"
    using 0 by (subst of_nat_small) auto
  ultimately show ?case by (subst fsck_items.simps) simp
next
  case (Suc k)
  have le: "(of_nat t :: uint) \<le> of_nat l \<longleftrightarrow> t \<le> l"
    using Suc.prems by (subst of_nat_small) auto
  show ?case
  proof (cases "t \<le> l")
    case True
    have idx: "(of_nat t - of_nat b - 1 :: uint) = of_nat (t - b - 1)"
      using Suc.prems(1) by (simp add: of_nat_diff)
    have up: "[t..<Suc l] = t # [Suc t..<Suc l]" using True by (simp add: upt_rec)
    have "fsck_item jbs hdr (of_nat t) (of_nat (t - b - 1)) s = Ret (jbs ! t, s\<lparr>bufs := renamed jbs hdr b [t] (bufs s)\<rparr>)"
      using Suc.prems True by (intro fsck_item_ok) auto
    moreover have "fsck_items k jbs hdr (of_nat b) (of_nat (Suc t)) (of_nat l) (s\<lparr>bufs := renamed jbs hdr b [t] (bufs s)\<rparr>)
      = Ret (map ((!) jbs) [Suc t..<Suc l], s\<lparr>bufs := renamed jbs hdr b [Suc t..<Suc l] (renamed jbs hdr b [t] (bufs s))\<rparr>)"
      by (subst Suc.IH) (use Suc.prems True in simp_all)
    ultimately show ?thesis
      using True unfolding up by (subst fsck_items.simps) (simp add: le idx add.commute del: upt_Suc of_nat_diff)
  next
    case False
    then have "t = Suc l" using Suc.prems by simp
    then show ?thesis using False le by (subst fsck_items.simps) simp
  qed
qed

lemma fsck_trans_ok:
  assumes "tx_ok j sz b" "length jbs = sz" "sz < 2 ^ 28" and h: "b_data (bufs s (jbs ! b)) = j b"
  defines "n \<equiv> unat (jt_num (j b))"
  shows "fsck_trans None jbs (of_nat b) s = Ret (Some (of_nat (Suc (b + n))),
     append_mtn None \<lparr>mt_bufs = map ((!) jbs) [Suc b..<Suc (b + n)], mt_size = of_nat n, mt_wild = False\<rparr>
       (s\<lparr>bufs := renamed jbs (j b) b [Suc b..<Suc (b + n)] (bufs s)\<rparr>))"
proof -
  have n: "0 < n" "n \<le> JT_MAX" "b + n < sz" "jt_checksum (j b) = 106" "jt_num (j b) = of_nat n"
    using assms(1) by (auto simp: tx_ok_def n_def)
  have b: "unat (of_nat b :: uint) = b" using n(3) assms(3) by (intro unat_small) linarith
  have blk: "journal_block jbs (of_nat b) = Ret (jbs ! b)"
    using n(3) assms(2) b by (simp add: journal_block_def)
  have up: "[Suc b..<Suc (b + n)] = Suc b # [b + 2..<Suc (b + n)]" using n(1) by (simp add: upt_rec)
  define s1 where "s1 = s\<lparr>bufs := renamed jbs (j b) b [Suc b] (bufs s)\<rparr>"
  define s2 where "s2 = s\<lparr>bufs := renamed jbs (j b) b [Suc b..<Suc (b + n)] (bufs s)\<rparr>"
  have "fsck_item jbs (j b) (of_nat (Suc b)) (of_nat (Suc b - b - 1)) s = Ret (jbs ! Suc b, s1)"
    unfolding s1_def using n(1-3) assms(2,3) by (intro fsck_item_ok) (auto simp: JT_MAX_def)
  then have first: "fsck_item jbs (j b) (of_nat b + 1) 0 s = Ret (jbs ! Suc b, s1)"
    by (simp add: add.commute)
  have "fsck_items (length jbs) jbs (j b) (of_nat b) (of_nat (b + 2)) (of_nat (b + n)) s1
    = Ret (map ((!) jbs) [b + 2..<Suc (b + n)], s1\<lparr>bufs := renamed jbs (j b) b [b + 2..<Suc (b + n)] (bufs s1)\<rparr>)"
    using n(1-3) assms(2,3) by (intro fsck_items_ok) auto
  moreover have "s1\<lparr>bufs := renamed jbs (j b) b [b + 2..<Suc (b + n)] (bufs s1)\<rparr> = s2"
    unfolding s1_def s2_def up by (simp del: upt_Suc)
  ultimately have rest: "fsck_items (length jbs) jbs (j b) (of_nat b) (of_nat b + 2) (of_nat b + of_nat n) s1
    = Ret (map ((!) jbs) [b + 2..<Suc (b + n)], s2)"
    by (simp add: add.commute)
  show ?thesis
    unfolding s2_def [symmetric]
    by (simp add: fsck_trans_def blk h Let_def n(4,5) first rest up del: upt_Suc)
qed


definition tx_chain :: "'a bio_state_scheme \<Rightarrow> nat list \<Rightarrow> bool" where
  "tx_chain s ns \<longleftrightarrow> mtn_chain (mtns s) (mtn_head s) ns None \<and> distinct ns \<and> (\<forall>n \<in> set ns. n < mtn_fresh s)
     \<and> mtn_tail s = (if ns = [] then None else Some (last ns))"

lemma mtn_chain_snoc:
  assumes "mtn_chain m p ns None" "ns \<noteq> []" "distinct ns"
    and "\<forall>n \<in> set ns. mtn_trans (m' n) = mtn_trans (m n)"
    and "\<forall>n \<in> set (butlast ns). mtn_next (m' n) = mtn_next (m n)"
    and "mtn_next (m' (last ns)) = Some f" "mtn_next (m' f) = None" "\<not> mt_wild (mtn_trans (m' f))"
  shows "mtn_chain m' p (ns @ [f]) None"
  using assms
proof (induction ns arbitrary: p)
  case (Cons n ns)
  show ?case
  proof (cases "ns = []")
    case False
    then have "mtn_chain m' (mtn_next (m n)) (ns @ [f]) None"
      using Cons.prems by (intro Cons.IH) auto
    then show ?thesis using Cons.prems False by auto
  qed (use Cons.prems in auto)
qed simp

lemma mtn_chain_last: "mtn_chain m p ns None \<Longrightarrow> ns \<noteq> [] \<Longrightarrow> mtn_next (m (last ns)) = None"
  by (induction ns arbitrary: p) auto

lemma append_mtn_chain:
  assumes "tx_chain s ns" "\<not> mt_wild t"
  shows "tx_chain (append_mtn None t s) (ns @ [mtn_fresh s])"
    and "chain_bufs (mtns (append_mtn None t s)) (ns @ [mtn_fresh s]) = chain_bufs (mtns s) ns @ mt_bufs t"
proof -
  let ?s = "append_mtn None t s" and ?f = "mtn_fresh s"
  note c = assms(1) [unfolded tx_chain_def]
  have f: "?f \<notin> set ns" using c by auto
  show "tx_chain ?s (ns @ [?f])"
  proof (cases "ns = []")
    case True
    then show ?thesis using c assms(2) by (simp add: tx_chain_def append_mtn_def Let_def)
  next
    case False
    then have tail: "mtn_tail s = Some (last ns)" and ne: "last ns \<noteq> ?f"
      using c f by (simp, metis last_in_set)
    have "mtn_chain (mtns ?s) (mtn_head s) (ns @ [?f]) None"
    proof (rule mtn_chain_snoc [where m = "mtns s"])
      have "last ns \<notin> set (butlast ns)" using c False
        by (metis append_butlast_last_id distinct_append disjoint_insert(1) list.simps(15) not_distinct_conv_prefix)
      then show "\<forall>n \<in> set (butlast ns). mtn_next (mtns ?s n) = mtn_next (mtns s n)"
        using f by (auto simp: append_mtn_def Let_def tail dest: in_set_butlastD)
    qed (use c f False ne assms(2) in \<open>auto simp: append_mtn_def Let_def tail\<close>)
    moreover have "mtn_head ?s = mtn_head s" "mtn_tail ?s = Some ?f" "mtn_fresh ?s = Suc ?f"
      by (simp_all add: append_mtn_def Let_def tail)
    ultimately show ?thesis using c f by (auto simp: tx_chain_def less_SucI)
  qed
  have "mtn_trans (mtns ?s n) = (if n = ?f then t else mtn_trans (mtns s n))" for n
    by (auto simp: append_mtn_def Let_def split: option.split)
  then show "chain_bufs (mtns ?s) (ns @ [?f]) = chain_bufs (mtns s) ns @ mt_bufs t"
    using f by (auto simp: chain_bufs_def intro!: arg_cong [of _ _ concat] map_cong)
qed

text \<open>Only the cached buffers and the list of transactions differ.\<close>

definition cache_only :: "'a bio_state_scheme \<Rightarrow> 'a bio_state_scheme \<Rightarrow> bool" where
  "cache_only s s' \<longleftrightarrow> s' = s\<lparr>bufs := bufs s', mtns := mtns s', mtn_head := mtn_head s', mtn_tail := mtn_tail s',
     mtn_fresh := mtn_fresh s'\<rparr>"

lemma cache_onlyI:
  "cache_only s s" "cache_only s s1 \<Longrightarrow> cache_only s1 s2 \<Longrightarrow> cache_only s s2"
  "cache_only s (s\<lparr>bufs := bf\<rparr>)" "cache_only s (append_mtn fr t s)"
  by (cases s; cases s1; cases s2; auto simp: cache_only_def append_mtn_def Let_def split: option.splits)+


definition collected :: "(nat \<Rightarrow> buf) \<Rightarrow> (nat \<Rightarrow> buf) \<Rightarrow> nat list \<Rightarrow> (uint \<times> bytes) list \<Rightarrow> bool" where
  "collected bf bf' bs ws \<longleftrightarrow> distinct bs \<and> tx_list bs bf' = ws
     \<and> (\<forall>x \<in> set bs. b_flags (bf' x) = {B_BUSY, B_VALID, B_DIRTY} \<and> b_dev (bf' x) = b_dev (bf x)
          \<and> b_faliable (bf' x) = b_faliable (bf x))
     \<and> (\<forall>x. x \<notin> set bs \<longrightarrow> bf' x = bf x)"

lemma tx_list_cong: "\<forall>x \<in> set bs. f x = g x \<Longrightarrow> tx_list bs f = tx_list bs g"
  by (simp add: tx_list_def)

lemma collected_append:
  assumes "collected bf bf1 bs1 ws1" "collected bf1 bf2 bs2 ws2" "set bs1 \<inter> set bs2 = {}"
  shows "collected bf bf2 (bs1 @ bs2) (ws1 @ ws2)"
proof -
  have "\<forall>x \<in> set bs1. bf2 x = bf1 x" "\<forall>x \<in> set bs2. bf1 x = bf x"
    using assms unfolding collected_def by blast+
  moreover from this have "tx_list bs1 bf2 = ws1" using assms(1) tx_list_cong unfolding collected_def by metis
  ultimately show ?thesis using assms unfolding collected_def by (auto simp: tx_list_def)
qed

lemma collected_tx:
  assumes "distinct jbs" "length jbs = sz" "tx_ok j sz b"
    and jb: "\<forall>i. b \<le> i \<and> i < sz \<longrightarrow> b_data (bf (jbs ! i)) = j i \<and> b_flags (bf (jbs ! i)) = {B_BUSY, B_VALID}"
  defines "n \<equiv> unat (jt_num (j b))"
  shows "collected bf (renamed jbs (j b) b [Suc b..<Suc (b + n)] bf) (map ((!) jbs) [Suc b..<Suc (b + n)]) (tx_writes j b)"
proof -
  let ?is = "[Suc b..<Suc (b + n)]"
  have bn: "b + n < sz" using assms(3) by (simp add: tx_ok_def n_def)
  have at: "renamed jbs (j b) b ?is bf (jbs ! i) =
      (bf (jbs ! i))\<lparr>b_sector := jt_blocklist (j b) (i - b - 1), b_flags := {B_BUSY, B_VALID, B_DIRTY}\<rparr>"
    if "i \<in> set ?is" for i
  proof -
    have "b_flags (bf (jbs ! i)) \<union> {B_DIRTY} = {B_BUSY, B_VALID, B_DIRTY}" using jb that bn by auto
    moreover have "renamed jbs (j b) b ?is bf (jbs ! i) =
      (bf (jbs ! i))\<lparr>b_sector := jt_blocklist (j b) (i - b - 1), b_flags := b_flags (bf (jbs ! i)) \<union> {B_DIRTY}\<rparr>"
      using that bn assms(1,2) by (intro renamed_at) auto
    ultimately show ?thesis by (simp only:)
  qed
  have "distinct (map ((!) jbs) ?is)"
    using assms(1,2) bn by (auto simp: distinct_map inj_on_def nth_eq_iff_index_eq simp del: upt_Suc)
  moreover have "tx_list (map ((!) jbs) ?is) (renamed jbs (j b) b ?is bf) = tx_writes j b"
  proof (rule nth_equalityI)
    fix k assume "k < length (tx_list (map ((!) jbs) ?is) (renamed jbs (j b) b ?is bf))"
    then have k: "k < n" by (simp add: tx_list_def del: upt_Suc)
    then have "b_data (bf (jbs ! (Suc b + k))) = j (Suc b + k)" using jb bn by simp
    then show "tx_list (map ((!) jbs) ?is) (renamed jbs (j b) b ?is bf) ! k = tx_writes j b ! k"
      using k at [of "Suc b + k"] by (simp add: tx_list_def tx_writes_def n_def [symmetric] del: upt_Suc)
  qed (simp add: tx_list_def tx_writes_def n_def del: upt_Suc)
  ultimately show ?thesis
    using at renamed_other [of _ jbs ?is] unfolding collected_def by auto
qed

lemma fsck_loop_ok:
  assumes "replay j sz b lim = Some (ws, e)" "lim - b \<le> k" "b \<le> sz"
    and "length jbs = sz" "sz < 2 ^ 28" "lim < 2 ^ 28" "distinct jbs" "tx_chain s ns"
    and "\<forall>i. b \<le> i \<and> i < sz \<longrightarrow> b_data (bufs s (jbs ! i)) = j i \<and> b_flags (bufs s (jbs ! i)) = {B_BUSY, B_VALID}"
  shows "\<exists>s' ns' bs. fsck_loop k None jbs (of_nat b) (of_nat lim) s = Ret (True, s') \<and> cache_only s s'
    \<and> tx_chain s' (ns @ ns') \<and> chain_bufs (mtns s') (ns @ ns') = chain_bufs (mtns s) ns @ bs
    \<and> set bs \<subseteq> (!) jbs ` {Suc b..<sz} \<and> collected (bufs s) (bufs s') bs ws"
  using assms
proof (induction k arbitrary: b s ns ws)
  case 0
  then have b: "lim \<le> b" "\<not> (of_nat b :: uint) < of_nat lim" by (simp_all add: of_nat_small)
  then show ?case
    using 0 by (intro exI [of _ s] exI [of _ "[]"]) (auto simp: fsck_loop.simps cache_onlyI collected_def tx_list_def)
next
  case (Suc k)
  have lt: "(of_nat b :: uint) < of_nat lim \<longleftrightarrow> b < lim" using Suc.prems by (intro of_nat_small) auto
  show ?case
  proof (cases "b < lim")
    case False
    then show ?thesis
      using Suc.prems lt by (intro exI [of _ s] exI [of _ "[]"]) (auto simp: fsck_loop.simps cache_onlyI collected_def tx_list_def)
  next
    case True
    define n where "n = unat (jt_num (j b))"
    obtain ws' where ok: "tx_ok j sz b" and rest: "replay j sz (Suc (b + n)) lim = Some (ws', e)"
      and ws: "ws = tx_writes j b @ ws'"
      using Suc.prems(1) True by (subst (asm) replay.simps) (auto simp: n_def split: if_splits option.splits)
    have bn: "b + n < sz" "0 < n" using ok by (auto simp: tx_ok_def n_def)
    let ?bs = "map ((!) jbs) [Suc b..<Suc (b + n)]"
    define s0 where "s0 = s\<lparr>bufs := renamed jbs (j b) b [Suc b..<Suc (b + n)] (bufs s)\<rparr>"
    define t where "t = \<lparr>mt_bufs = ?bs, mt_size = of_nat n, mt_wild = False\<rparr>"
    define s1 where "s1 = append_mtn None t s0"
    have step: "fsck_trans None jbs (of_nat b) s = Ret (Some (of_nat (Suc (b + n))), s1)"
      unfolding s1_def s0_def t_def n_def
      using Suc.prems(4,5,9) bn ok by (intro fsck_trans_ok) (auto simp: n_def)
    have chain: "tx_chain s1 (ns @ [mtn_fresh s])"
      "chain_bufs (mtns s1) (ns @ [mtn_fresh s]) = chain_bufs (mtns s) ns @ ?bs"
      using append_mtn_chain [of s0 ns t] Suc.prems(8) by (simp_all add: s1_def s0_def t_def tx_chain_def del: upt_Suc)
    have bufs1: "bufs s1 = renamed jbs (j b) b [Suc b..<Suc (b + n)] (bufs s)"
      by (simp add: s1_def append_mtn_def Let_def s0_def split: option.split del: upt_Suc)
    then have coll: "collected (bufs s) (bufs s1) ?bs (tx_writes j b)"
      unfolding n_def using Suc.prems ok by (simp only:) (rule collected_tx)
    have "\<exists>s' ns' bs. fsck_loop k None jbs (of_nat (Suc (b + n))) (of_nat lim) s1 = Ret (True, s') \<and> cache_only s1 s'
      \<and> tx_chain s' ((ns @ [mtn_fresh s]) @ ns')
      \<and> chain_bufs (mtns s') ((ns @ [mtn_fresh s]) @ ns') = chain_bufs (mtns s1) (ns @ [mtn_fresh s]) @ bs
      \<and> set bs \<subseteq> (!) jbs ` {Suc (Suc (b + n))..<sz} \<and> collected (bufs s1) (bufs s') bs ws'"
    proof (rule Suc.IH [OF rest])
      show "\<forall>i. Suc (b + n) \<le> i \<and> i < sz \<longrightarrow> b_data (bufs s1 (jbs ! i)) = j i \<and> b_flags (bufs s1 (jbs ! i)) = {B_BUSY, B_VALID}"
      proof (intro allI impI)
        fix i assume i: "Suc (b + n) \<le> i \<and> i < sz"
        then have "jbs ! i \<notin> (!) jbs ` set [Suc b..<Suc (b + n)]"
          using Suc.prems(4,7) by (auto simp: nth_eq_iff_index_eq)
        then show "b_data (bufs s1 (jbs ! i)) = j i \<and> b_flags (bufs s1 (jbs ! i)) = {B_BUSY, B_VALID}"
          using i Suc.prems(9) bufs1 by (simp add: renamed_other del: upt_Suc)
      qed
    qed (use Suc.prems bn chain in auto)
    then obtain s' ns' bs where loop: "fsck_loop k None jbs (of_nat (Suc (b + n))) (of_nat lim) s1 = Ret (True, s')"
      and IH: "cache_only s1 s'" "tx_chain s' (ns @ mtn_fresh s # ns')"
      "chain_bufs (mtns s') (ns @ mtn_fresh s # ns') = chain_bufs (mtns s) ns @ ?bs @ bs"
      "set bs \<subseteq> (!) jbs ` {Suc (Suc (b + n))..<sz}" "collected (bufs s1) (bufs s') bs ws'"
      unfolding chain by auto
    have dis: "set ?bs \<inter> set bs = {}"
      using IH(4) Suc.prems(4,7) bn by (auto simp: nth_eq_iff_index_eq)
    have sub: "set (?bs @ bs) \<subseteq> (!) jbs ` {Suc b..<sz}" using IH(4) bn by auto
    have "cache_only s s'"
      using IH(1) cache_onlyI(2-4) unfolding s1_def s0_def by metis
    moreover have "fsck_loop (Suc k) None jbs (of_nat b) (of_nat lim) s = Ret (True, s')"
      using True lt step loop by (simp add: fsck_loop.simps [of "Suc k"])
    ultimately show ?thesis
      using IH(2,3) sub collected_append [OF coll IH(5) dis] ws by blast
  qed
qed

section \<open>pbjFSck\<close>

lemma bread_hit:
  assumes "\<exists>b \<in> set (lru s). cached dev n s b" "\<forall>b \<in> set (lru s). cached dev n s b \<longrightarrow> B_BUSY \<notin> b_flags (bufs s b)"
  shows "\<exists>b \<in> set (lru s). cached dev n s b
    \<and> bread dev n s = Ret (b, upd_buf b (\<lambda>bf. bf\<lparr>b_flags := insert B_BUSY (b_flags bf)\<rparr>) s)"
proof -
  obtain b where f: "List.find (cached dev n s) (lru s) = Some b"
    using assms(1) by (metis find_None_iff not_None_eq)
  then have b: "b \<in> set (lru s)" "cached dev n s b" by (auto simp: find_Some_iff)
  then have "B_BUSY \<notin> b_flags (bufs s b)" using assms(2) by blast
  moreover from this have "B_VALID \<in> b_flags (bufs s b)" using b by (auto simp: cached_def)
  ultimately show ?thesis using f b by (intro bexI [of _ b]) (auto simp: bread_def bget_def upd_buf_def)
qed

lemma set_move_to_front: "b \<in> set l \<Longrightarrow> set (b # remove1 b l) = set l"
  by (induction l) auto

lemma set_moves_to_front: "set bs \<subseteq> set l \<Longrightarrow> set (fold (\<lambda>b l. b # remove1 b l) bs l) = set l"
proof (induction bs arbitrary: l)
  case (Cons b bs)
  then have "set (b # remove1 b l) = set l" by (intro set_move_to_front) simp
  then show ?case using Cons by auto
qed simp

lemma fsck_release_ok:
  assumes "set bs \<subseteq> set (lru s)"
  shows "\<exists>l. set l = set (lru s) \<and> fsck_release bs s = Ret (s\<lparr>lru := l,
     bufs := (\<lambda>b. if b \<in> set bs then (bufs s b)\<lparr>b_flags := b_flags (bufs s b) - {B_BUSY}\<rparr> else bufs s b)\<rparr>)"
  using assms
proof (induction bs arbitrary: s)
  case Nil
  then show ?case by (intro exI [of _ "lru s"]) simp
next
  case (Cons b bs)
  show ?case
  proof (cases "B_BUSY \<in> b_flags (bufs s b)")
    case True
    define s1 where "s1 = s\<lparr>lru := b # remove1 b (lru s), bufs := (bufs s)(b := (bufs s b)\<lparr>b_flags := b_flags (bufs s b) - {B_BUSY}\<rparr>)\<rparr>"
    have "jbrelse b s = Ret s1" using True by (simp add: jbrelse_def s1_def upd_buf_def)
    moreover have l: "set (lru s1) = set (lru s)"
      using Cons.prems set_move_to_front [of b "lru s"] by (simp add: s1_def)
    moreover obtain l where "set l = set (lru s1)" "fsck_release bs s1 = Ret (s1\<lparr>lru := l,
        bufs := (\<lambda>b. if b \<in> set bs then (bufs s1 b)\<lparr>b_flags := b_flags (bufs s1 b) - {B_BUSY}\<rparr> else bufs s1 b)\<rparr>)"
      using Cons.IH [of s1] Cons.prems l by auto
    ultimately show ?thesis
      using True by (intro exI [of _ l]) (auto simp: s1_def fun_eq_iff intro!: bio_state.equality)
  next
    case False
    have flags: "b_flags (bufs s b) - {B_BUSY} = b_flags (bufs s b)" using False by simp
    obtain l where "set l = set (lru s)" "fsck_release bs s = Ret (s\<lparr>lru := l,
        bufs := (\<lambda>b. if b \<in> set bs then (bufs s b)\<lparr>b_flags := b_flags (bufs s b) - {B_BUSY}\<rparr> else bufs s b)\<rparr>)"
      using Cons.IH [of s] Cons.prems by auto
    then show ?thesis
      using False flags by (intro exI [of _ l]) (auto simp: fun_eq_iff intro!: bio_state.equality)
  qed
qed

text \<open>The cache once the journal has been replayed: the journal blocks are still held.\<close>

definition replayed :: "uint \<Rightarrow> nat \<Rightarrow> nat list \<Rightarrow> 'a bio_state_scheme \<Rightarrow> bool" where
  "replayed dev jb jbs s \<longleftrightarrow> ide_idle s \<and> \<not> trans_write_lock s \<and> mtn_head s = None \<and> jsblock_buf s = Some jb
     \<and> journal_inv dev jb [] s \<and> insert jb (set jbs) \<subseteq> set (lru s) \<and> jb \<notin> set jbs \<and> jbs \<noteq> []
     \<and> B_VALID \<in> b_flags (bufs s (hd jbs)) \<and> b_dev (bufs s (hd jbs)) = dev \<and> b_sector (bufs s (hd jbs)) = 3
     \<and> (\<forall>b. b \<notin> insert jb (set jbs) \<longrightarrow> b_flags (bufs s b) = {})"

lemma fsck_finish:
  assumes "replayed dev jb jbs s"
  shows "\<exists>hb s'. obind (fsck_release jbs s) (\<lambda>s6. obind (bread dev 3 s6) (\<lambda>(hb, s7).
       Ret (s7\<lparr>jtrans_header_buf := Some hb\<rparr>))) = Ret s'
    \<and> disk s' = disk s \<and> disk_writes s' = disk_writes s \<and> ide_idle s' \<and> \<not> trans_write_lock s' \<and> mtn_head s' = None
    \<and> jsblock_buf s' = Some jb \<and> jtrans_header_buf s' = Some hb \<and> hb \<noteq> jb \<and> journal_inv dev jb [] s'
    \<and> b_dev (bufs s' hb) = dev \<and> b_sector (bufs s' hb) = 3"
proof -
  note r = assms [unfolded replayed_def]
  obtain l where l: "set l = set (lru s)" and rel: "fsck_release jbs s = Ret (s\<lparr>lru := l,
     bufs := (\<lambda>b. if b \<in> set jbs then (bufs s b)\<lparr>b_flags := b_flags (bufs s b) - {B_BUSY}\<rparr> else bufs s b)\<rparr>)"
    using fsck_release_ok [of jbs s] r by auto
  define s6 where "s6 = s\<lparr>lru := l,
     bufs := (\<lambda>b. if b \<in> set jbs then (bufs s b)\<lparr>b_flags := b_flags (bufs s b) - {B_BUSY}\<rparr> else bufs s b)\<rparr>"
  have hd: "hd jbs \<in> set jbs" using r by simp
  have two: "b_sector (bufs s jb) = 2" using r by (simp add: journal_inv_def)
  have hit: "cached dev 3 s6 b \<Longrightarrow> b \<in> set jbs" for b
    using r two by (cases "b = jb") (auto simp: cached_def s6_def split: if_splits)
  have "\<exists>b \<in> set (lru s6). cached dev 3 s6 b
    \<and> bread dev 3 s6 = Ret (b, upd_buf b (\<lambda>bf. bf\<lparr>b_flags := insert B_BUSY (b_flags bf)\<rparr>) s6)"
  proof (rule bread_hit)
    have "cached dev 3 s6 (hd jbs)" using r hd by (auto simp: cached_def s6_def)
    moreover have "hd jbs \<in> set (lru s6)" using r hd l by (auto simp: s6_def)
    ultimately show "\<exists>b \<in> set (lru s6). cached dev 3 s6 b" by blast
  qed (use hit in \<open>auto simp: s6_def\<close>)
  then obtain hb where hb: "cached dev 3 s6 hb"
    and read: "bread dev 3 s6 = Ret (hb, upd_buf hb (\<lambda>bf. bf\<lparr>b_flags := insert B_BUSY (b_flags bf)\<rparr>) s6)"
    by blast
  have "hb \<in> set jbs" using hit hb by blast
  then have ne: "hb \<noteq> jb" using r by auto
  let ?s' = "(upd_buf hb (\<lambda>bf. bf\<lparr>b_flags := insert B_BUSY (b_flags bf)\<rparr>) s6)\<lparr>jtrans_header_buf := Some hb\<rparr>"
  have "bufs ?s' jb = bufs s jb" using r ne by (simp add: upd_buf_def s6_def)
  then have "journal_inv dev jb [] ?s'" using r by (simp add: journal_inv_def upd_buf_def s6_def)
  then show ?thesis
    using r hb ne unfolding rel s6_def [symmetric] obind.simps read
    by (intro exI [of _ hb] exI [of _ ?s']) (auto simp: upd_buf_def s6_def cached_def ide_idle_def split: if_splits)
qed


text \<open>A machine that has just booted: nothing is cached, no transaction is known.\<close>

definition booted :: "uint \<Rightarrow> 'a bio_state_scheme \<Rightarrow> bool" where
  "booted dev s \<longleftrightarrow> ide_idle s \<and> (dev = 0 \<or> disk_1_present s) \<and> distinct (lru s) \<and> \<not> trans_write_lock s
     \<and> mtn_head s = None \<and> mtn_tail s = None \<and> jtail_bnum s = 3
     \<and> (\<forall>b. b_flags (bufs s b) = {} \<and> b_faliable (bufs s b) = 0)
     \<and> unat (jsb_size (disk s (blkno dev 2))) < length (lru s)"

definition journal_read :: "uint \<Rightarrow> nat \<Rightarrow> nat list \<Rightarrow> 'a bio_state_scheme \<Rightarrow> bool" where
  "journal_read dev jb jbs s \<longleftrightarrow> ide_idle s \<and> (dev = 0 \<or> disk_1_present s) \<and> \<not> trans_write_lock s
     \<and> mtn_head s = None \<and> mtn_tail s = None \<and> jtail_bnum s = 3 \<and> jsblock_buf s = Some jb
     \<and> length jbs = unat (jsb_size (disk s (blkno dev 2))) \<and> distinct (jb # jbs) \<and> insert jb (set jbs) \<subseteq> set (lru s)
     \<and> b_dev (bufs s jb) = dev \<and> b_sector (bufs s jb) = 2 \<and> b_data (bufs s jb) = disk s (blkno dev 2)
     \<and> (\<forall>b. b_faliable (bufs s b) = 0) \<and> (\<forall>b. b \<notin> insert jb (set jbs) \<longrightarrow> b_flags (bufs s b) = {})
     \<and> (\<forall>i < length jbs. b_flags (bufs s (jbs ! i)) = {B_BUSY, B_VALID} \<and> b_dev (bufs s (jbs ! i)) = dev
          \<and> b_sector (bufs s (jbs ! i)) = of_nat (i + 3) \<and> b_data (bufs s (jbs ! i)) = jblocks dev (disk s) i)"

lemma fsck_reads_journal:
  assumes "booted dev s" "journal_wf dev ws (disk s)"
  shows "\<exists>jb s1 jbs s3. bread dev 2 s = Ret (jb, s1) \<and> b_data (bufs s1 jb) = disk s (blkno dev 2)
    \<and> fsck_read (unat (jsb_size (disk s (blkno dev 2)))) 0 dev (s1\<lparr>jsblock_buf := Some jb\<rparr>) = Ret (jbs, s3)
    \<and> journal_read dev jb jbs s3 \<and> disk s3 = disk s \<and> disk_writes s3 = disk_writes s"
proof -
  define sz where "sz = unat (jsb_size (disk s (blkno dev 2)))"
  note b = assms(1) [unfolded booted_def, folded sz_def] and w = assms(2) [unfolded journal_wf_def, folded sz_def]
  obtain jb fs where fs: "rev (lru s) = jb # fs" using b by (cases "rev (lru s)") auto
  have "distinct (rev (lru s))" using b by simp
  then have dis: "jb \<notin> set fs" "distinct fs" unfolding fs by auto
  have len: "sz \<le> length fs" using b arg_cong [OF fs, of length] by simp
  have mem: "insert jb (set fs) = set (lru s)" using arg_cong [OF fs, of set] by simp
  define s1 where "s1 = s\<lparr>ide_datain := disk s (blkno dev 2), bufs := (bufs s)(jb := loaded dev 2 (disk s) (bufs s jb))\<rparr>"
  have read: "bread dev 2 s = Ret (jb, s1)"
    unfolding s1_def using b fs by (intro bread_miss [where us = "[]" and fs = fs]) (auto simp: cached_def)
  define s2 where "s2 = s1\<lparr>jsblock_buf := Some jb\<rparr>"
  have sec: "(2 :: uint) \<noteq> 0 + 3 + of_nat i" if "i < sz" for i
  proof
    assume "(2 :: uint) = 0 + 3 + of_nat i"
    moreover have "(0 + 3 + of_nat i :: uint) = of_nat (i + 3)" by simp
    ultimately have "unat (of_nat (i + 3) :: uint) = unat (2 :: uint)" by (simp only:)
    then show False using that w unat_small [of "i + 3"] by (simp del: of_nat_add)
  qed
  have "\<exists>bf x. fsck_read sz 0 dev s2 = Ret (take sz fs, s2\<lparr>ide_datain := x, bufs := bf\<rparr>)
    \<and> (\<forall>i < sz. bf (fs ! i) = loaded dev (0 + 3 + of_nat i) (disk s2) (bufs s2 (fs ! i)))
    \<and> (\<forall>b. b \<notin> set (take sz fs) \<longrightarrow> bf b = bufs s2 b)"
    using b w fs dis len sec
    by (intro fsck_read_ok [where us = "[jb]"]) (auto simp: s2_def s1_def loaded_def ide_idle_def)
  then obtain bf x where rd: "fsck_read sz 0 dev s2 = Ret (take sz fs, s2\<lparr>ide_datain := x, bufs := bf\<rparr>)"
    and at: "\<And>i. i < sz \<Longrightarrow> bf (fs ! i) = loaded dev (0 + 3 + of_nat i) (disk s2) (bufs s2 (fs ! i))"
    and other: "\<And>b. b \<notin> set (take sz fs) \<Longrightarrow> bf b = bufs s2 b"
    by auto
  let ?s3 = "s2\<lparr>ide_datain := x, bufs := bf\<rparr>" and ?jbs = "take sz fs"
  have jb: "bf jb = loaded dev 2 (disk s) (bufs s jb)"
    using other [of jb] dis in_set_takeD [of jb sz fs] by (auto simp: s2_def s1_def)
  have ent: "?jbs ! i = fs ! i" "fs ! i \<noteq> jb" if "i < sz" for i
    using that len dis by (auto simp: nth_mem)
  have fal: "b_faliable (bf c) = 0" for c
  proof (cases "c \<in> set ?jbs")
    case True
    then obtain i where "i < sz" "c = fs ! i" using len by (auto simp: in_set_conv_nth)
    then show ?thesis using at b by (simp add: loaded_def s2_def s1_def)
  qed (use other b in \<open>auto simp: s2_def s1_def loaded_def\<close>)
  have "journal_read dev jb ?jbs ?s3"
    unfolding journal_read_def
  proof (intro conjI allI impI)
    fix i assume "i < length ?jbs"
    then have i: "i < sz" using len by simp
    have e: "bf (?jbs ! i) = loaded dev (of_nat (i + 3)) (disk s) (bufs s (fs ! i))"
      using at [OF i] ent [OF i] by (simp add: s2_def s1_def add.commute)
    show "b_flags (bufs ?s3 (?jbs ! i)) = {B_BUSY, B_VALID}" "b_dev (bufs ?s3 (?jbs ! i)) = dev"
      "b_sector (bufs ?s3 (?jbs ! i)) = of_nat (i + 3)" "b_data (bufs ?s3 (?jbs ! i)) = jblocks dev (disk ?s3) i"
      using e by (simp_all add: loaded_def jblocks_def s2_def s1_def)
  next
    show "insert jb (set ?jbs) \<subseteq> set (lru ?s3)"
      using mem set_take_subset [of sz fs] by (auto simp: s2_def s1_def)
    show "distinct (jb # ?jbs)" using dis in_set_takeD [of jb sz fs] by auto
  qed (use b len jb fal other in \<open>auto simp: s2_def s1_def loaded_def ide_idle_def sz_def\<close>)
  then show ?thesis
    using read rd unfolding s2_def sz_def [symmetric]
    by (intro exI [of _ jb] exI [of _ s1] exI [of _ ?jbs] exI [of _ ?s3]) (auto simp: s2_def s1_def loaded_def)
qed


lemma empty_journal_inv:
  assumes "b_dev (bufs s jb) = dev" "b_sector (bufs s jb) = 2" "disk s (blkno dev 2) = b_data (bufs s jb)"
    and "jsb_head (b_data (bufs s jb)) = 3" "jsb_tail (b_data (bufs s jb)) \<le> 3"
    and "unat (jsb_size (b_data (bufs s jb))) + 3 < 2 ^ 28" "jtail_bnum s = 3"
  shows "journal_inv dev jb [] s"
proof -
  have "unat (jsb_tail (b_data (bufs s jb))) - 3 = 0" using assms(5) by (simp add: word_le_nat_alt)
  then show ?thesis using assms by (simp add: journal_inv_def recover_writes_def Let_def)
qed

lemma fsck_replays_empty:
  assumes "journal_read dev jb jbs s" "journal_wf dev ws (disk s)"
    and "\<not> jsb_head (disk s (blkno dev 2)) < jsb_tail (disk s (blkno dev 2))"
  shows "jfull_flush (s\<lparr>mtn_head := None, mtn_tail := None\<rparr>) = Ret s" "replayed dev jb jbs s" "ws = []"
proof -
  note r = assms(1) [unfolded journal_read_def] and w = assms(2) [unfolded journal_wf_def]
  show "jfull_flush (s\<lparr>mtn_head := None, mtn_tail := None\<rparr>) = Ret s"
    using r by (auto simp: jfull_flush_def intro!: bio_state.equality)
  have tail: "jsb_tail (disk s (blkno dev 2)) \<le> 3" using assms(3) w by simp
  then have "unat (jsb_tail (disk s (blkno dev 2))) - 3 = 0" by (simp add: word_le_nat_alt)
  then show "ws = []" using w by (simp add: recover_writes_def Let_def)
  have "jbs \<noteq> []" using r w by auto
  then have "hd jbs = jbs ! 0" "0 < length jbs" by (simp_all add: hd_conv_nth)
  then have hd: "b_flags (bufs s (hd jbs)) = {B_BUSY, B_VALID}" "b_dev (bufs s (hd jbs)) = dev" "b_sector (bufs s (hd jbs)) = 3"
    using r by (metis add_0 of_nat_numeral)+
  have "journal_inv dev jb [] s" using r w tail by (intro empty_journal_inv) auto
  then show "replayed dev jb jbs s" using r hd \<open>jbs \<noteq> []\<close> by (auto simp: replayed_def)
qed

lemma fsck_collects:
  assumes "journal_read dev jb jbs s" "journal_wf dev ws (disk s)"
    and lt: "jsb_head (disk s (blkno dev 2)) < jsb_tail (disk s (blkno dev 2))"
  shows "\<exists>s4 ns. fsck_loop (Suc (length jbs)) None jbs (jsb_head (disk s (blkno dev 2)) - 3) (jsb_tail (disk s (blkno dev 2)) - 3) s
      = Ret (True, s4) \<and> cache_only s s4 \<and> ws \<noteq> [] \<and> ns \<noteq> [] \<and> tx_chain s4 ns
    \<and> set (chain_bufs (mtns s4) ns) \<subseteq> (!) jbs ` {Suc 0..<length jbs}
    \<and> collected (bufs s) (bufs s4) (chain_bufs (mtns s4) ns) ws"
proof -
  let ?jsb = "disk s (blkno dev 2)"
  define sz where "sz = unat (jsb_size ?jsb)"
  define lim where "lim = unat (jsb_tail ?jsb) - 3"
  note r = assms(1) [unfolded journal_read_def] and w = assms(2) [unfolded journal_wf_def, folded sz_def]
  obtain e where rep: "replay (jblocks dev (disk s)) sz 0 lim = Some (ws, e)"
    using w by (auto simp: recover_writes_def Let_def sz_def lim_def)
  have t3: "3 < unat (jsb_tail ?jsb)" using lt w by (simp add: word_less_nat_alt)
  have lim: "lim \<le> sz" "0 < lim" "lim < 2 ^ 28"
    using replay_lim [OF rep] replay_size [OF rep] t3 w by (auto simp: lim_def)
  have "of_nat lim = (of_nat (unat (jsb_tail ?jsb)) - of_nat 3 :: uint)"
    unfolding lim_def using t3 by (intro of_nat_diff) simp
  then have tl: "jsb_tail ?jsb - 3 = of_nat lim" by simp
  have hd: "jsb_head ?jsb - 3 = of_nat 0" using w by simp
  have "\<exists>s' ns' bs. fsck_loop (Suc (length jbs)) None jbs (of_nat 0) (of_nat lim) s = Ret (True, s') \<and> cache_only s s'
    \<and> tx_chain s' ([] @ ns') \<and> chain_bufs (mtns s') ([] @ ns') = chain_bufs (mtns s) [] @ bs
    \<and> set bs \<subseteq> (!) jbs ` {Suc 0..<sz} \<and> collected (bufs s) (bufs s') bs ws"
    using r w lim by (intro fsck_loop_ok [OF rep]) (auto simp: tx_chain_def sz_def)
  then obtain s' ns where s': "fsck_loop (Suc (length jbs)) None jbs (of_nat 0) (of_nat lim) s = Ret (True, s')"
    "cache_only s s'" "tx_chain s' ns" "set (chain_bufs (mtns s') ns) \<subseteq> (!) jbs ` {Suc 0..<sz}"
    "collected (bufs s) (bufs s') (chain_bufs (mtns s') ns) ws" by auto
  have ne: "ws \<noteq> []"
  proof
    assume ws: "ws = []"
    have ok: "tx_ok (jblocks dev (disk s)) sz 0" "tx_writes (jblocks dev (disk s)) 0 = []"
      using rep lim ws by (subst (asm) replay.simps, auto split: if_splits option.splits)+
    then show False by (auto simp: tx_ok_def tx_writes_def)
  qed
  then have "ns \<noteq> []" using s'(5) by (auto simp: collected_def tx_list_def)
  moreover have "length jbs = sz" using r by (simp add: sz_def)
  ultimately show ?thesis using s' ne unfolding hd tl by blast
qed


lemma cache_only_frame:
  assumes "cache_only s s'"
  shows "lru s' = lru s" "disk s' = disk s" "jsblock_buf s' = jsblock_buf s" "trans_write_lock s' = trans_write_lock s"
    "disk_1_present s' = disk_1_present s" "jtail_bnum s' = jtail_bnum s" "ide_idle s' = ide_idle s"
    "disk_writes s' = disk_writes s"
  using arg_cong [OF assms [unfolded cache_only_def], of lru] arg_cong [OF assms [unfolded cache_only_def], of disk]
    arg_cong [OF assms [unfolded cache_only_def], of jsblock_buf]
    arg_cong [OF assms [unfolded cache_only_def], of trans_write_lock]
    arg_cong [OF assms [unfolded cache_only_def], of disk_1_present]
    arg_cong [OF assms [unfolded cache_only_def], of jtail_bnum]
    arg_cong [OF assms [unfolded cache_only_def], of ide_idle]
    arg_cong [OF assms [unfolded cache_only_def], of disk_writes]
  by (simp_all add: ide_idle_def)

lemma fsck_replays:
  assumes "journal_read dev jb jbs s" "journal_wf dev ws (disk s)" "cache_only s s4" "ns \<noteq> []" "tx_chain s4 ns"
    and sub: "set (chain_bufs (mtns s4) ns) \<subseteq> (!) jbs ` {Suc 0..<length jbs}"
    and coll: "collected (bufs s) (bufs s4) (chain_bufs (mtns s4) ns) ws"
  shows "\<exists>s5. jfull_flush s4 = Ret s5 \<and> replayed dev jb jbs s5
    \<and> disk s5 = apply_writes (checkpoint_writes dev ws (disk s)) (disk s)
    \<and> disk_writes s5 = disk_writes s @ checkpoint_writes dev ws (disk s)"
proof -
  define bs where "bs = chain_bufs (mtns s4) ns"
  note r = assms(1) [unfolded journal_read_def] and w = assms(2) [unfolded journal_wf_def]
    and c = coll [folded bs_def, unfolded collected_def] and t = assms(5) [unfolded tx_chain_def]
  note same = cache_only_frame [OF assms(3)]
  have d0: "distinct jbs" "jb \<notin> set jbs" "jbs \<noteq> []" using r w by auto
  have hd0: "hd jbs = jbs ! 0" using d0(3) by (rule hd_conv_nth)
  have sub': "set bs \<subseteq> set jbs" "hd jbs \<notin> set bs" "jb \<notin> set bs"
    using sub d0 by (auto simp: bs_def hd0 nth_eq_iff_index_eq dest!: subsetD)
  have dev: "\<forall>b \<in> set bs. b_dev (bufs s4 b) = dev" using c r sub'(1) by (metis in_set_conv_nth subsetD)
  have hlog: "hlog bs (bufs s4) = home_writes dev ws" using hlog_tx_list [OF dev] c by simp
  have jb: "bufs s4 jb = bufs s jb" using c sub'(3) by blast
  have flush: "jfull_flush s4 = Ret (flush_state jb bs None s4)"
  proof -
    have next_last: "mtn_next (mtns s4 (last ns)) = None" using t assms(4) by (blast intro: mtn_chain_last)
    have "mtn_head s4 \<noteq> None" using t assms(4) by (cases ns) auto
    moreover have "flushable b s4" if "b \<in> set bs" for b
      using that c r dev same by (auto simp: flushable_def writable_def)
    ultimately have "jfull_flush s4 = Ret (flush_state jb (chain_bufs (mtns s4) ns) (mtn_next (mtns s4 (last ns))) s4)"
      using r t same sub'(3) jb c assms(4) next_last
      by (intro jfull_flush_chain) (auto simp: bs_def)
    then show ?thesis by (simp add: next_last bs_def)
  qed
  define s5 where "s5 = flush_state jb bs None s4"
  have blk: "blk_of (bufs s4 jb) = blkno dev 2" using r jb by (simp add: blk_of_def blkno_def)
  have disk: "disk s5 = (apply_writes (home_writes dev ws) (disk s))(blkno dev 2 := flush_jsb (disk s (blkno dev 2)))"
    using hlog blk jb r same by (simp add: flush_state_def s5_def)
  have at: "bufs s5 b = (if b = jb then (bufs s jb)\<lparr>b_flags := {B_BUSY, B_VALID}, b_data := flush_jsb (disk s (blkno dev 2))\<rparr>
      else if b \<in> set bs then (bufs s4 b)\<lparr>b_flags := {B_VALID}\<rparr> else bufs s b)" for b
    using c jb r by (simp add: flush_state_def flushed_def s5_def)
  have fields: "jtail_bnum s5 = 3" "mtn_head s5 = None" "trans_write_lock s5 = trans_write_lock s4"
    "jsblock_buf s5 = jsblock_buf s4" "ide_idle s5 = ide_idle s4"
    by (simp_all add: s5_def flush_state_def ide_idle_def)
  have inv: "journal_inv dev jb [] s5"
    by (rule empty_journal_inv) (use r w in \<open>simp_all add: at disk fields\<close>)
  have lru: "set (lru s5) = set (lru s)"
    using set_moves_to_front [of bs "lru s"] sub'(1) r same by (auto simp: flush_state_def flushed_def s5_def)
  have "hd jbs \<noteq> jb" using d0 hd_in_set [of jbs] by auto
  then have hd: "bufs s5 (hd jbs) = bufs s (jbs ! 0)" using sub'(2) by (simp add: at hd0)
  have "b_flags (bufs s (jbs ! 0)) = {B_BUSY, B_VALID}" "b_dev (bufs s (jbs ! 0)) = dev" "b_sector (bufs s (jbs ! 0)) = 3"
    using r d0(3) by (metis add_0 of_nat_numeral length_greater_0_conv)+
  moreover have "\<forall>b. b \<notin> insert jb (set jbs) \<longrightarrow> b_flags (bufs s5 b) = {}"
    using r sub'(1) by (auto simp: at)
  ultimately have "replayed dev jb jbs s5"
    using r same d0 inv lru fields unfolding replayed_def hd by simp
  moreover have "disk_writes s5 = disk_writes s @ checkpoint_writes dev ws (disk s)"
    using hlog blk jb r same by (simp add: flush_state_def s5_def checkpoint_writes_def)
  ultimately show ?thesis using flush disk by (auto simp: s5_def checkpoint_writes_def)
qed


lemma pbjFSck_replays:
  assumes "booted dev s" "journal_wf dev ws (disk s)"
  defines "W \<equiv> if ws = [] then [] else checkpoint_writes dev ws (disk s)"
  shows "\<exists>s' jb hb. pbjFSck None dev s = Ret s'
    \<and> disk s' = apply_writes W (disk s) \<and> disk_writes s' = disk_writes s @ W
    \<and> ide_idle s' \<and> \<not> trans_write_lock s' \<and> mtn_head s' = None
    \<and> jsblock_buf s' = Some jb \<and> jtrans_header_buf s' = Some hb \<and> hb \<noteq> jb \<and> journal_inv dev jb [] s'
    \<and> b_dev (bufs s' hb) = dev \<and> b_sector (bufs s' hb) = 3"
proof -
  let ?jsb = "disk s (blkno dev 2)"
  obtain jb s1 jbs s3 where read: "bread dev 2 s = Ret (jb, s1)" and data: "b_data (bufs s1 jb) = ?jsb"
    and reads: "fsck_read (unat (jsb_size ?jsb)) 0 dev (s1\<lparr>jsblock_buf := Some jb\<rparr>) = Ret (jbs, s3)"
    and s3: "journal_read dev jb jbs s3" "disk s3 = disk s" "disk_writes s3 = disk_writes s"
    using fsck_reads_journal [OF assms(1,2)] by blast
  have data2: "b_data (bufs (s1\<lparr>jsblock_buf := Some jb\<rparr>) jb) = ?jsb" using data by simp
  have wf: "journal_wf dev ws (disk s3)" using assms(2) s3(2) by simp
  obtain s4 s5 where loop: "(if jsb_head ?jsb < jsb_tail ?jsb
       then fsck_loop (Suc (length jbs)) None jbs (jsb_head ?jsb - 3) (jsb_tail ?jsb - 3) s3
       else Ret (True, s3\<lparr>mtn_head := None, mtn_tail := None\<rparr>)) = Ret (True, s4)"
    and flush: "jfull_flush s4 = Ret s5" and s5: "replayed dev jb jbs s5"
    "disk s5 = apply_writes W (disk s)" "disk_writes s5 = disk_writes s @ W"
  proof (cases "jsb_head ?jsb < jsb_tail ?jsb")
    case True
    then obtain s4 ns where s4: "fsck_loop (Suc (length jbs)) None jbs (jsb_head ?jsb - 3) (jsb_tail ?jsb - 3) s3 = Ret (True, s4)"
      and c: "cache_only s3 s4" "ns \<noteq> []" "tx_chain s4 ns"
      and ne: "ws \<noteq> []"
      and c2: "set (chain_bufs (mtns s4) ns) \<subseteq> (!) jbs ` {Suc 0..<length jbs}"
      "collected (bufs s3) (bufs s4) (chain_bufs (mtns s4) ns) ws"
      using fsck_collects [OF s3(1) wf] unfolding s3(2) by blast
    show ?thesis
      using fsck_replays [OF s3(1) wf c c2] that [of s4] s4 True ne unfolding s3(2,3) W_def by auto
  next
    case False
    then have "jfull_flush (s3\<lparr>mtn_head := None, mtn_tail := None\<rparr>) = Ret s3" "replayed dev jb jbs s3" "ws = []"
      using fsck_replays_empty [OF s3(1) wf] by (simp_all add: s3(2))
    then show ?thesis using that False s3(2,3) by (simp add: W_def)
  qed
  obtain hb s' where fin: "obind (fsck_release jbs s5) (\<lambda>s6. obind (bread dev 3 s6) (\<lambda>(hb, s7).
       Ret (s7\<lparr>jtrans_header_buf := Some hb\<rparr>))) = Ret s'" "disk s' = disk s5" "disk_writes s' = disk_writes s5"
    and s': "ide_idle s' \<and> \<not> trans_write_lock s' \<and> mtn_head s' = None \<and> jsblock_buf s' = Some jb
       \<and> jtrans_header_buf s' = Some hb \<and> hb \<noteq> jb \<and> journal_inv dev jb [] s'
       \<and> b_dev (bufs s' hb) = dev \<and> b_sector (bufs s' hb) = 3"
    using fsck_finish [OF s5(1)] by (elim exE conjE) (rule that, simp_all)
  have "pbjFSck None dev s = Ret s'"
    by (simp only: pbjFSck_def Let_def read obind.simps prod.case data2 reads loop flush fin(1) simp_thms if_False)
  then show ?thesis using s5(2,3) fin(2,3) s' by (intro exI [of _ s'] exI [of _ jb] exI [of _ hb]) simp
qed


end
