(* ===== verification/Pbj.thy ===== *)
theory Pbj
  imports Recovery
begin

text \<open>
  The properties of the journal of \<^verbatim>\<open>bio.c\<close> as a whole: a committed transaction survives a crash
  at any point in one piece, recovery can itself be interrupted, and two situations in which the
  journal fails: a second transaction committed before the first is checkpointed, and a transaction
  that does not fit into the rest of the journal.
\<close>

section \<open>A journal that is full\<close>

text \<open>
  What \<^const>\<open>end_trans\<close> needs of a transaction that does not fit into the rest of the journal while an
  earlier one has not been checkpointed.
\<close>

definition commit_overflow :: "nat \<Rightarrow> nat \<Rightarrow> 'a bio_state_scheme \<Rightarrow> bool" where
  "commit_overflow hb jb s \<longleftrightarrow> ide_idle s \<and> \<not> trans_write_lock s \<and> mtn_head s \<noteq> None
     \<and> jtrans_header_buf s = Some hb \<and> jsblock_buf s = Some jb
     \<and> mt_bufs (curmt s) \<noteq> [] \<and> distinct (hb # jb # mt_bufs (curmt s))
     \<and> mt_size (curmt s) = of_nat (length (mt_bufs (curmt s))) \<and> length (mt_bufs (curmt s)) \<le> JT_MAX
     \<and> (\<forall>b \<in> set (mt_bufs (curmt s)). writable b s) \<and> (b_dev (bufs s hb) = 0 \<or> disk_1_present s)
     \<and> unat (jsb_size (b_data (bufs s jb)) + 2) < 2 ^ 28
     \<and> unat (jtail_bnum s) \<le> unat (jsb_size (b_data (bufs s jb)) + 2)
     \<and> unat (jsb_size (b_data (bufs s jb)) + 2) < unat (jtail_bnum s) + 1 + length (mt_bufs (curmt s))"

lemma jbwrite_full:
  assumes "ide_idle s" "writable b s" "jsblock_buf s = Some jb" "b \<noteq> jb" "mtn_head s \<noteq> None" "trans_write_lock s"
    and "jtail_bnum s = jsb_size (b_data (bufs s jb)) + 2" "unat (jtail_bnum s) < 2 ^ 28"
  shows "jbwrite b s = Blocked ''trans_write_lock''"
proof -
  let ?s = "set_flags b {B_DIRTY} (set_sector b (jtail_bnum s) s)"
  have rw: "ide_rw b ?s = Ret (written b ?s)"
    using assms(1,2) by (intro ide_rw_dirty)
      (auto simp: set_flags_def set_sector_def upd_buf_def writable_def ide_idle_def)
  have "unat (jtail_bnum s + 1) = unat (jtail_bnum s) + 1" using assms(8) by (subst unat_add_uint) auto
  then have "jsb_size (b_data (bufs s jb)) + 2 < jtail_bnum s + 1"
    unfolding assms(7) [symmetric] by (simp add: word_less_nat_alt)
  then show ?thesis
    using assms(3-6) rw by (auto simp: jbwrite_def Let_def written_def set_flags_def set_sector_def upd_buf_def
        jfull_flush_def acquire_sl_def)
qed

lemma jwrite_bufs_full:
  assumes "ide_idle s" "\<forall>b \<in> set bs. writable b s" "jsblock_buf s = Some jb" "jb \<notin> set bs" "distinct bs"
    and "mtn_head s \<noteq> None" "trans_write_lock s"
    and "unat (jtail_bnum s) \<le> unat (jsb_size (b_data (bufs s jb)) + 2)"
    and "unat (jsb_size (b_data (bufs s jb)) + 2) < unat (jtail_bnum s) + length bs"
    and "unat (jsb_size (b_data (bufs s jb)) + 2) < 2 ^ 28"
  shows "jwrite_bufs bs s = Blocked ''trans_write_lock''"
  using assms
proof (induction bs arbitrary: s)
  case (Cons b bs)
  let ?t = "jtail_bnum s" and ?lim = "jsb_size (b_data (bufs s jb)) + 2"
  show ?case
  proof (cases "?t = ?lim")
    case True
    have "jbwrite b s = Blocked ''trans_write_lock''"
      using Cons.prems True by (intro jbwrite_full [where jb = jb]) auto
    then show ?thesis by simp
  next
    case False
    then have lt: "?t < ?lim" using Cons.prems(8) by (metis unsigned_word_eqI le_neq_implies_less word_less_nat_alt)
    let ?s1 = "s\<lparr>bufs := (bufs s)(b := (bufs s b)\<lparr>b_flags := {B_BUSY, B_VALID}\<rparr>),
       disk := (disk s)(jslot (bufs s b) ?t := b_data (bufs s b)),
       disk_writes := disk_writes s @ [(jslot (bufs s b) ?t, b_data (bufs s b))],
       jtail_bnum := ?t + 1\<rparr>"
    let ?s2 = "upd_buf b (\<lambda>bf. bf\<lparr>b_flags := insert B_DIRTY (b_flags bf), b_faliable := should_panic ?s1\<rparr>) ?s1"
    have step: "jbwrite b s = Ret ?s1"
      using Cons.prems inc_le [OF lt] by (intro jbwrite_room) auto
    have jb: "bufs ?s2 jb = bufs s jb" using Cons.prems(4) by (auto simp: upd_buf_def)
    have "jwrite_bufs bs ?s2 = Blocked ''trans_write_lock''"
    proof (rule Cons.IH)
      show "unat (jtail_bnum ?s2) \<le> unat (jsb_size (b_data (bufs ?s2 jb)) + 2)"
        "unat (jsb_size (b_data (bufs ?s2 jb)) + 2) < unat (jtail_bnum ?s2) + length bs"
        using Cons.prems(8,9) lt unat_inc_less [OF lt] unfolding jb by (simp_all add: upd_buf_def word_less_nat_alt)
      show "unat (jsb_size (b_data (bufs ?s2 jb)) + 2) < 2 ^ 28" using Cons.prems(10) unfolding jb .
    qed (use Cons.prems in \<open>auto simp: ide_idle_def writable_def upd_buf_def\<close>)
    then show ?thesis using step by simp
  qed
qed simp

section \<open>A checkpoint\<close>

lemma flush_state_writes:
  assumes "journal_inv dev jb ws s" "hlog bs (bufs s) = home_writes dev ws'"
  shows "disk_writes (flush_state jb bs stop s) = disk_writes s @ checkpoint_writes dev ws' (disk s)"
    and "disk (flush_state jb bs stop s) = apply_writes (checkpoint_writes dev ws' (disk s)) (disk s)"
proof -
  have "blk_of (bufs s jb) = blkno dev 2" "b_data (bufs s jb) = disk s (blkno dev 2)"
    using assms(1) by (simp_all add: journal_inv_def blk_of_def blkno_def)
  then show "disk_writes (flush_state jb bs stop s) = disk_writes s @ checkpoint_writes dev ws' (disk s)"
    "disk (flush_state jb bs stop s) = apply_writes (checkpoint_writes dev ws' (disk s)) (disk s)"
    using assms(2) by (simp_all add: flush_state_def checkpoint_writes_def)
qed

lemma hlog_commit:
  assumes "commit_ready hb jb s" "on_dev dev hb s"
  shows "hlog (mt_bufs (curmt s)) (bufs (commit_state hb jb s)) = home_writes dev (tx_list (mt_bufs (curmt s)) (bufs s))"
    and "hlog (mt_bufs (curmt s)) (bufs s) = home_writes dev (tx_list (mt_bufs (curmt s)) (bufs s))"
proof -
  have "\<forall>b \<in> set (mt_bufs (curmt s)). b_dev (bufs s b) = dev" using assms(2) by (simp add: on_dev_def)
  then show *: "hlog (mt_bufs (curmt s)) (bufs s) = home_writes dev (tx_list (mt_bufs (curmt s)) (bufs s))"
    by (rule hlog_tx_list)
  have "hlog (mt_bufs (curmt s)) (bufs (commit_state hb jb s)) = hlog (mt_bufs (curmt s)) (bufs s)"
    by (simp add: hlog_def commit_bufs_tx [OF assms(1)] committed_def)
  then show "hlog (mt_bufs (curmt s)) (bufs (commit_state hb jb s)) = home_writes dev (tx_list (mt_bufs (curmt s)) (bufs s))"
    using * by simp
qed

section \<open>A second transaction\<close>

text \<open>
  One committed transaction, \<open>n0\<close>, waits for its checkpoint.
\<close>

definition one_pending :: "nat \<Rightarrow> nat \<Rightarrow> 'a bio_state_scheme \<Rightarrow> bool" where
  "one_pending n0 jb s \<longleftrightarrow> mtn_head s = Some n0 \<and> mtn_tail s = Some n0 \<and> mtn_next (mtns s n0) = None \<and> n0 < mtn_fresh s
     \<and> \<not> mt_wild (mtn_trans (mtns s n0)) \<and> distinct (mt_bufs (mtn_trans (mtns s n0)))
     \<and> (\<forall>b \<in> set (mt_bufs (mtn_trans (mtns s n0))). flushable b s \<and> b \<noteq> jb \<and> Some b \<noteq> jtrans_header_buf s
          \<and> b \<notin> set (mt_bufs (curmt s)))"

lemma flush_after_second:
  assumes "commit_ready hb jb s" "one_pending n0 jb s"
  shows "jfull_flush (commit_state hb jb s)
    = Ret (flush_state jb (mt_bufs (mtn_trans (mtns s n0))) (Some (mtn_fresh s)) (commit_state hb jb s))"
proof -
  let ?s1 = "commit_state hb jb s"
  note ready = assms(1) [unfolded commit_ready_def] and one = assms(2) [unfolded one_pending_def]
  have node: "mtns ?s1 n0 = \<lparr>mtn_trans = mtn_trans (mtns s n0), mtn_next = Some (mtn_fresh s)\<rparr>"
    "mtn_head ?s1 = Some n0" "mtn_tail ?s1 = Some n0" "mtn_fresh ?s1 = Suc (mtn_fresh s)"
    using one by (auto simp: commit_state_def link_mtn_def Let_def)
  have chain: "chain_bufs (mtns ?s1) [n0] = mt_bufs (mtn_trans (mtns s n0))" by (simp add: node)
  have "flushable b ?s1" if "b \<in> set (mt_bufs (mtn_trans (mtns s n0)))" for b
    using that one ready by (auto simp: flushable_def writable_def commit_bufs_def)
  then have "jfull_flush ?s1 = Ret (flush_state jb (chain_bufs (mtns ?s1) [n0]) (mtn_next (mtns ?s1 n0)) ?s1)"
    using ready node one by (intro jfull_flush_chain) (auto simp: chain commit_bufs_def writable_def)
  then show ?thesis by (simp only: chain node mem_trans_node.select_convs)
qed


section \<open>A small machine\<close>

lemma home_sector:
  "sz + 2 < m \<Longrightarrow> m < 2 ^ 28 \<Longrightarrow> blkno dev (of_nat m) \<notin> journal_area dev sz"
  by (auto simp: journal_area_def blkno_of_nat simp del: of_nat_numeral)

text \<open>A small machine, used to show that the hypotheses of the theorems can hold.\<close>

definition demo_jsb :: bytes where
  "demo_jsb = put_u32 (put_u32 (put_u32 (\<lambda>_. 0) 0 6) 4 3) 8 3"

definition demo_disk :: "blkid \<Rightarrow> bytes" where
  "demo_disk = (\<lambda>_ _. 0)(blkno 0 2 := demo_jsb)"

definition demo_boot :: "(blkid \<Rightarrow> bytes) \<Rightarrow> bio_state" where
  "demo_boot d = \<lparr>bufs = \<lambda>_. \<lparr>b_flags = {}, b_dev = 0, b_sector = 0, b_faliable = 0, b_data = \<lambda>_. 0\<rparr>,
     ide_queue = [], disk_1_present = False, ide_status = IDE_DRDY, ide_active = None, ide_datain = (\<lambda>_. 0),
     disk = d, disk_writes = [], lru = rev [0..<8], jsblock_buf = None, jtrans_header_buf = None, jtail_bnum = 3,
     mtn_head = None, mtn_tail = None, mtns = \<lambda>_. \<lparr>mtn_trans = empty_trans, mtn_next = None\<rparr>, mtn_fresh = 0,
     trans_write_lock = False, curmt = empty_trans, should_panic = 0\<rparr>"

definition demo_state :: bio_state where
  "demo_state = (demo_boot demo_disk)\<lparr>
     bufs := (bufs (demo_boot demo_disk))(
       0 := \<lparr>b_flags = {B_BUSY, B_VALID}, b_dev = 0, b_sector = 2, b_faliable = 0, b_data = demo_jsb\<rparr>,
       1 := \<lparr>b_flags = {B_BUSY, B_VALID}, b_dev = 0, b_sector = 3, b_faliable = 0, b_data = \<lambda>_. 0\<rparr>,
       2 := \<lparr>b_flags = {B_BUSY, B_VALID, B_DIRTY}, b_dev = 0, b_sector = 100, b_faliable = 0, b_data = \<lambda>_. 7\<rparr>),
     jsblock_buf := Some 0, jtrans_header_buf := Some 1, curmt := \<lparr>mt_bufs = [2], mt_size = 1, mt_wild = False\<rparr>\<rparr>"

lemmas demo_defs = demo_state_def demo_boot_def demo_disk_def

lemma demo_jsb_fields [simp]: "jsb_size demo_jsb = 6" "jsb_head demo_jsb = 3" "jsb_tail demo_jsb = 3"
  by (simp_all add: demo_jsb_def jsb_size_def jsb_head_def jsb_tail_def)

lemma demo_fields [simp]:
  "jsb_size (b_data (bufs demo_state 0)) = 6" "curmt demo_state = \<lparr>mt_bufs = [2], mt_size = 1, mt_wild = False\<rparr>"
  by (simp_all add: demo_defs)

lemma demo_ready: "commit_ready 1 0 demo_state" "on_dev 0 1 demo_state" "journal_inv 0 0 [] demo_state"
  by (simp_all add: demo_defs commit_ready_def ide_idle_def writable_def JT_MAX_def on_dev_def journal_inv_def
    recover_writes_def IDE_DRDY_def IDE_BSY_def IDE_DF_def IDE_ERR_def)

lemma demo_booted: "unat (jsb_size (d (blkno 0 2))) < 8 \<Longrightarrow> booted 0 (demo_boot d)"
  by (simp add: demo_defs booted_def ide_idle_def IDE_DRDY_def IDE_BSY_def IDE_DF_def IDE_ERR_def)


lemma demo_home: "m < 2 ^ 28 \<Longrightarrow> 8 < m \<Longrightarrow> blkno 0 (of_nat m) \<notin> journal_area 0 6"
  by (rule home_sector) simp_all

text \<open>The same machine with one more transaction, after the first has been committed.\<close>

definition demo_second :: "nat list \<Rightarrow> bio_state" where
  "demo_second bs = (commit_state 1 0 demo_state)\<lparr>
     bufs := (\<lambda>b. if b \<in> set bs
        then \<lparr>b_flags = {B_BUSY, B_VALID, B_DIRTY}, b_dev = 0, b_sector = 101, b_faliable = 0, b_data = \<lambda>_. 9\<rparr>
        else bufs (commit_state 1 0 demo_state) b),
     curmt := \<lparr>mt_bufs = bs, mt_size = of_nat (length bs), mt_wild = False\<rparr>\<rparr>"

lemma demo_second_fields [simp]:
  "curmt (demo_second bs) = \<lparr>mt_bufs = bs, mt_size = of_nat (length bs), mt_wild = False\<rparr>"
  "disk (demo_second bs) = disk (commit_state 1 0 demo_state)" "jtail_bnum (demo_second bs) = 5"
  "ide_idle (demo_second bs)" "\<not> trans_write_lock (demo_second bs)" "jsblock_buf (demo_second bs) = Some 0"
  "jtrans_header_buf (demo_second bs) = Some 1" "mtn_head (demo_second bs) = Some 0" "mtn_tail (demo_second bs) = Some 0"
  "mtn_fresh (demo_second bs) = 1" "mtns (demo_second bs) 0 = \<lparr>mtn_trans = curmt demo_state, mtn_next = None\<rparr>"
  using demo_ready(1)
  by (simp_all add: demo_second_def commit_state_def demo_defs ide_idle_def commit_ready_def link_mtn_def)

lemma demo_second_bufs:
  "b \<in> set bs \<Longrightarrow> bufs (demo_second bs) b
     = \<lparr>b_flags = {B_BUSY, B_VALID, B_DIRTY}, b_dev = 0, b_sector = 101, b_faliable = 0, b_data = \<lambda>_. 9\<rparr>"
  "0 \<notin> set bs \<Longrightarrow> bufs (demo_second bs) 0
     = \<lparr>b_flags = {B_BUSY, B_VALID}, b_dev = 0, b_sector = 2, b_faliable = 0, b_data = commit_jsb 0 demo_state\<rparr>"
  "1 \<notin> set bs \<Longrightarrow> b_dev (bufs (demo_second bs) 1) = 0"
  "2 \<notin> set bs \<Longrightarrow> bufs (demo_second bs) 2
     = \<lparr>b_flags = {B_BUSY, B_VALID, B_DIRTY}, b_dev = 0, b_sector = 100, b_faliable = 0, b_data = \<lambda>_. 7\<rparr>"
  by (simp_all add: demo_second_def commit_bufs_def demo_defs committed_def)

lemma demo_second_inv:
  assumes "0 \<notin> set bs"
  shows "journal_inv 0 0 (tx_list [2] (bufs demo_state)) (demo_second bs)"
proof -
  have "journal_inv 0 0 ([] @ tx_list (mt_bufs (curmt demo_state)) (bufs demo_state)) (commit_state 1 0 demo_state)"
    by (rule journal_inv_commit) (fact demo_ready)+
  moreover have "mt_bufs (curmt demo_state) = [2]" by (simp add: demo_defs)
  moreover have "bufs (demo_second bs) 0 = bufs (commit_state 1 0 demo_state) 0" "jtail_bnum (commit_state 1 0 demo_state) = 5"
    using assms by (simp_all add: demo_second_def) (simp_all add: commit_state_def demo_defs)
  ultimately show ?thesis by (simp add: journal_inv_def)
qed

lemma demo_committed:
  "journal_wf 0 (tx_list [2] (bufs demo_state)) (disk (commit_state 1 0 demo_state))"
  "booted 0 (demo_boot (disk (commit_state 1 0 demo_state)))"
proof -
  have inv: "journal_inv 0 0 (tx_list [2] (bufs demo_state)) (demo_second [])" by (rule demo_second_inv) simp
  have home: "home_writes 0 (tx_list [2] (bufs demo_state)) = [(blkno 0 100, \<lambda>_. 7)]"
    by (simp add: home_writes_def tx_list_def demo_defs)
  have "journal_wf 0 (tx_list [2] (bufs demo_state)) (disk (demo_second []))"
    using demo_home [of 100] demo_second_bufs(2) [of "[]"]
    by (intro journal_inv_wf [OF inv]) (simp_all add: home)
  then show "journal_wf 0 (tx_list [2] (bufs demo_state)) (disk (commit_state 1 0 demo_state))" by simp
  have "disk (commit_state 1 0 demo_state) (blkno 0 2) = commit_jsb 0 demo_state"
    using inv demo_second_bufs(2) [of "[]"] by (simp add: journal_inv_def)
  then show "booted 0 (demo_boot (disk (commit_state 1 0 demo_state)))"
    by (intro demo_booted) simp
qed

section \<open>Properties\<close>








text \<open>
  C6: only the first of two pending transactions is checkpointed.  If a transaction is committed while
  an earlier one waits for its checkpoint, \<^const>\<open>end_trans\<close> leaves \<^verbatim>\<open>mtn_tail\<close> at the earlier one,
  so \<^const>\<open>jfull_flush\<close> stops after it, and still empties the journal.  The blocks of the second
  transaction, which were in the journal, are then neither there nor at their home.
\<close>

theorem second_transaction_lost:
  assumes "commit_ready hb jb s" "on_dev dev hb s" "journal_inv dev jb ws s" "one_pending n0 jb s"
    and b: "b \<in> set (mt_bufs (curmt s))" "blk_of (bufs s b) \<notin> journal_area dev (unat (jsb_size (b_data (bufs s jb))))"
    and other: "\<forall>c \<in> set (mt_bufs (mtn_trans (mtns s n0))). blk_of (bufs s c) \<noteq> blk_of (bufs s b)"
  shows "\<exists>s1 s2. end_trans s = Ret s1 \<and> jfull_flush s1 = Ret s2
    \<and> recover_writes dev (disk s1)
        = Some (ws @ tx_list (mt_bufs (curmt s)) (bufs s), unat (jtail_bnum s) - 3 + length (mt_bufs (curmt s)) + 1)
    \<and> recover_writes dev (disk s2) = Some ([], 0)
    \<and> disk s2 (blk_of (bufs s b)) = disk s (blk_of (bufs s b))"
proof -
  let ?s1 = "commit_state hb jb s" and ?bs = "mt_bufs (mtn_trans (mtns s n0))"
  let ?s2 = "flush_state jb ?bs (Some (mtn_fresh s)) ?s1"
  note one = assms(4) [unfolded one_pending_def]
  have inv: "journal_inv dev jb (ws @ tx_list (mt_bufs (curmt s)) (bufs s)) ?s1"
    using journal_inv_commit [OF assms(1-3)] .
  have jb: "blk_of (bufs ?s1 jb) = blkno dev 2" using inv by (simp add: journal_inv_def blk_of_def blkno_def)
  have hl: "hlog ?bs (bufs ?s1) = hlog ?bs (bufs s)"
    using one assms(1) by (auto simp: hlog_def commit_bufs_def commit_ready_def)
  have disk2: "disk ?s2 = (apply_writes (hlog ?bs (bufs s)) (disk ?s1))(blkno dev 2 := flush_jsb (b_data (bufs ?s1 jb)))"
    using hl jb by (simp add: flush_state_def)
  have rec: "recover_writes dev (disk ?s1)
      = Some (ws @ tx_list (mt_bufs (curmt s)) (bufs s), unat (jtail_bnum s) - 3 + length (mt_bufs (curmt s)) + 1)"
    using crash_commit [OF assms(1-3), of "length (commit_writes hb jb s)"] by (simp add: length_commit_writes)
  have "recover_writes dev (disk ?s2) = Some ([], 0)"
    by (simp add: recover_writes_def disk2)
  moreover have "disk ?s2 (blk_of (bufs s b)) = disk s (blk_of (bufs s b))"
  proof -
    have ne: "blk_of (bufs s b) \<noteq> blkno dev 2" using b(2) by auto
    have "disk ?s2 (blk_of (bufs s b)) = apply_writes (hlog ?bs (bufs s)) (disk ?s1) (blk_of (bufs s b))"
      using ne by (simp add: disk2)
    also have "\<dots> = disk ?s1 (blk_of (bufs s b))"
      using other by (intro apply_writes_other) (auto simp: hlog_def)
    also have "\<dots> = disk s (blk_of (bufs s b))"
      using commit_home [OF assms(1-3) b(2), of "length (commit_writes hb jb s)" "disk s"] by simp
    finally show ?thesis .
  qed
  moreover have "end_trans s = Ret ?s1" using assms(1) one by (intro end_trans_commits) auto
  moreover have "jfull_flush ?s1 = Ret ?s2" using assms(1,4) by (rule flush_after_second)
  ultimately show ?thesis using rec by blast
qed

theorem second_transaction_lost_witness:
  "\<exists>s1 s2 ws e. end_trans (demo_second [3]) = Ret s1 \<and> jfull_flush s1 = Ret s2
    \<and> recover_writes 0 (disk s1) = Some (ws, e) \<and> (101, \<lambda>_. 9) \<in> set ws
    \<and> recover_writes 0 (disk s2) = Some ([], 0)
    \<and> disk s2 (blkno 0 101) = disk (demo_second [3]) (blkno 0 101)"
proof -
  let ?s = "demo_second [3]"
  have tx: "mt_bufs (curmt ?s) = [3]" by simp
  have first: "mt_bufs (mtn_trans (mtns ?s 0)) = [2]" "\<not> mt_wild (mtn_trans (mtns ?s 0))"
    by simp_all
  have "commit_ready 1 0 ?s" "on_dev 0 1 ?s" "one_pending 0 0 ?s"
    using demo_second_bufs [where bs = "[3]"] first
    by (simp_all add: commit_ready_def on_dev_def one_pending_def writable_def flushable_def JT_MAX_def)
  moreover have blk: "blk_of (bufs ?s 3) = blkno 0 101" "blk_of (bufs ?s 2) = blkno 0 100"
    using demo_second_bufs [where bs = "[3]"] by (simp_all add: blk_of_def blkno_def)
  moreover have "journal_inv 0 0 (tx_list [2] (bufs demo_state)) ?s" by (rule demo_second_inv) simp
  moreover have "blkno 0 101 \<notin> journal_area 0 (unat (jsb_size (b_data (bufs ?s 0))))"
    using demo_home [of 101] demo_second_bufs(2) [of "[3]"] by simp
  moreover have "\<forall>c \<in> set (mt_bufs (mtn_trans (mtns ?s 0))). blk_of (bufs ?s c) \<noteq> blk_of (bufs ?s 3)"
    unfolding first(1) using blk by (simp add: blkno_def)
  ultimately have "\<exists>s1 s2. end_trans ?s = Ret s1 \<and> jfull_flush s1 = Ret s2
    \<and> recover_writes 0 (disk s1) = Some (tx_list [2] (bufs demo_state) @ tx_list [3] (bufs ?s), unat (jtail_bnum ?s) - 3 + length [3 :: nat] + 1)
    \<and> recover_writes 0 (disk s2) = Some ([], 0) \<and> disk s2 (blkno 0 101) = disk ?s (blkno 0 101)"
    using second_transaction_lost [of 1 0 ?s 0 "tx_list [2] (bufs demo_state)" 0 3] unfolding tx by simp
  moreover have "(101, \<lambda>_. 9) \<in> set (tx_list [2] (bufs demo_state) @ tx_list [3] (bufs ?s))"
    using demo_second_bufs(1) [of 3 "[3]"] by (simp add: tx_list_def)
  ultimately show ?thesis by blast
qed

text \<open>
  C7: a transaction that does not fit into the rest of the journal, while an earlier one waits for its
  checkpoint, blocks for good: \<^verbatim>\<open>jbwrite\<close> calls \<^const>\<open>jfull_flush\<close>, which acquires the lock that
  \<^const>\<open>end_trans\<close> already holds.
\<close>

theorem end_trans_journal_full:
  assumes "commit_overflow hb jb s"
  shows "end_trans s = Blocked ''trans_write_lock''"
proof -
  note c = assms [unfolded commit_overflow_def]
  let ?s = "commit_start hb s" and ?bs = "mt_bufs (curmt s)" and ?lim = "jsb_size (b_data (bufs s jb)) + 2"
  have ne: "hb \<noteq> jb" "hb \<notin> set ?bs" using c by auto
  have start: "end_trans s = obind (jbwrite hb ?s) (\<lambda>s3.
     obind (jwrite_bufs ?bs s3) (\<lambda>s4.
     obind (ide_rw jb (set_flags jb {B_DIRTY}
       (upd_data jb (\<lambda>d. put_u32 (put_u32 d 8 (jtail_bnum s4 - 1)) 12 0) s4))) (\<lambda>s5.
     append_trans (curmt s) s5)))"
    using c by (intro end_trans_start) auto
  show ?thesis
  proof (cases "jtail_bnum s = ?lim")
    case True
    have "jbwrite hb ?s = Blocked ''trans_write_lock''"
      using c ne True by (intro jbwrite_full [where jb = jb]) (auto simp: commit_start_def ide_idle_def writable_def)
    then show ?thesis using start by simp
  next
    case False
    then have lt: "jtail_bnum s < ?lim" using c by (metis unsigned_word_eqI le_neq_implies_less word_less_nat_alt)
    define s3 where "s3 = s\<lparr>trans_write_lock := True,
       bufs := (bufs s)(hb := (bufs s hb)\<lparr>b_data := commit_hdr hb s, b_flags := {B_BUSY, B_VALID}\<rparr>),
       disk := (disk s)(jslot (bufs s hb) (jtail_bnum s) := commit_hdr hb s),
       disk_writes := disk_writes s @ [(jslot (bufs s hb) (jtail_bnum s), commit_hdr hb s)],
       jtail_bnum := jtail_bnum s + 1\<rparr>"
    have "jbwrite hb ?s = Ret s3"
      using c ne inc_le [OF lt]
      by (subst jbwrite_room [where jb = jb])
        (auto simp: s3_def ide_idle_def writable_def commit_start_def jslot_def intro!: bio_state.equality)
    moreover have "jwrite_bufs ?bs s3 = Blocked ''trans_write_lock''"
      using c ne lt unat_inc_less [OF lt]
      by (intro jwrite_bufs_full [where jb = jb]) (auto simp: s3_def ide_idle_def writable_def word_less_nat_alt)
    ultimately show ?thesis using start by simp
  qed
qed

theorem end_trans_journal_full_witness:
  "end_trans (demo_second [3, 4, 5]) = Blocked ''trans_write_lock''"
proof (rule end_trans_journal_full)
  show "commit_overflow 1 0 (demo_second [3, 4, 5])"
    using demo_second_bufs [where bs = "[3, 4, 5]"]
    by (simp add: commit_overflow_def writable_def JT_MAX_def)
qed

end
