(* ===== verification/Bcache.thy ===== *)
theory Bcache
  imports Pbj
begin

text \<open>
  The block cache of \<^verbatim>\<open>bio.c\<close> under its callers: what \<^const>\<open>bread\<close> returns on every branch, that no
  block is ever cached twice, and that a block written in the current transaction stays in the cache,
  held and dirty, until the transaction is committed.
\<close>

section \<open>Invariant\<close>

definition active :: "'a bio_state_scheme \<Rightarrow> nat \<Rightarrow> bool" where
  "active s b \<longleftrightarrow> B_BUSY \<in> b_flags (bufs s b) \<or> B_VALID \<in> b_flags (bufs s b)"

definition cache_inv :: "'a bio_state_scheme \<Rightarrow> bool" where
  "cache_inv s \<longleftrightarrow> distinct (lru s)
     \<and> (\<forall>b \<in> set (lru s). \<forall>c \<in> set (lru s). active s b \<and> active s c
          \<and> b_dev (bufs s b) = b_dev (bufs s c) \<and> b_sector (bufs s b) = b_sector (bufs s c) \<longrightarrow> b = c)"

definition trans_inv :: "'a bio_state_scheme \<Rightarrow> bool" where
  "trans_inv s \<longleftrightarrow> mt_size (curmt s) = of_nat (length (mt_bufs (curmt s)))
     \<and> (\<forall>b \<in> set (mt_bufs (curmt s)). b \<in> set (lru s) \<and> {B_BUSY, B_DIRTY} \<subseteq> b_flags (bufs s b))"

lemma cached_active: "cached dev n s b \<longleftrightarrow> active s b \<and> b_dev (bufs s b) = dev \<and> b_sector (bufs s b) = n"
  by (auto simp: cached_def active_def)

text \<open>The contents of a block as the callers of the cache see it.\<close>

definition block_contents :: "uint \<Rightarrow> uint \<Rightarrow> 'a bio_state_scheme \<Rightarrow> bytes" where
  "block_contents dev n s =
     (case List.find (\<lambda>b. cached dev n s b \<and> B_VALID \<in> b_flags (bufs s b)) (lru s) of
        Some b \<Rightarrow> b_data (bufs s b)
      | None \<Rightarrow> disk s (blkno dev n))"

lemma cache_inv_upd:
  assumes "cache_inv s" "lru s' = lru s"
    and "\<forall>c \<in> set (lru s). c \<noteq> b \<longrightarrow> bufs s' c = bufs s c"
    and "active s' b \<longrightarrow> (\<forall>c \<in> set (lru s). c \<noteq> b \<longrightarrow> \<not> cached (b_dev (bufs s' b)) (b_sector (bufs s' b)) s c)"
  shows "cache_inv s'"
  unfolding cache_inv_def
proof (intro conjI ballI impI)
  show "distinct (lru s')" using assms(1,2) by (simp add: cache_inv_def)
  fix c d assume cd: "c \<in> set (lru s')" "d \<in> set (lru s')"
    "active s' c \<and> active s' d \<and> b_dev (bufs s' c) = b_dev (bufs s' d) \<and> b_sector (bufs s' c) = b_sector (bufs s' d)"
  have same: "active s' e = active s e" "bufs s' e = bufs s e" if "e \<in> set (lru s)" "e \<noteq> b" for e
    using that assms(3) by (auto simp: active_def)
  show "c = d"
  proof (cases "c = b \<or> d = b")
    case True
    then show ?thesis using cd assms(2,4) same unfolding cached_active by metis
  next
    case False
    then show ?thesis using cd assms(1,2) same unfolding cache_inv_def by metis
  qed
qed

section \<open>bread\<close>

datatype bget_result = Hit nat | Busy nat | Miss nat | Full

definition bget_case :: "uint \<Rightarrow> uint \<Rightarrow> 'a bio_state_scheme \<Rightarrow> bget_result" where
  "bget_case dev n s =
     (case List.find (cached dev n s) (lru s) of
        Some b \<Rightarrow> if B_BUSY \<in> b_flags (bufs s b) then Busy b else Hit b
      | None \<Rightarrow>
          (case List.find (\<lambda>b. B_BUSY \<notin> b_flags (bufs s b)) (rev (lru s)) of
             Some b \<Rightarrow> Miss b | None \<Rightarrow> Full))"

lemma bread_cases:
  assumes "ide_idle s" "dev = 0 \<or> disk_1_present s"
  shows "bread dev n s =
     (case bget_case dev n s of
        Hit b \<Rightarrow> Ret (b, s\<lparr>bufs := (bufs s)(b := (bufs s b)\<lparr>b_flags := insert B_BUSY (b_flags (bufs s b))\<rparr>)\<rparr>)
      | Busy b \<Rightarrow> Blocked ''bget''
      | Miss b \<Rightarrow> Ret (b, s\<lparr>ide_datain := disk s (blkno dev n), bufs := (bufs s)(b := loaded dev n (disk s) (bufs s b))\<rparr>)
      | Full \<Rightarrow> Panic ''bget: no buffers'')"
proof (cases "bget_case dev n s")
  case (Hit b)
  then have f: "List.find (cached dev n s) (lru s) = Some b" "B_BUSY \<notin> b_flags (bufs s b)"
    by (auto simp: bget_case_def split: option.splits if_splits)
  then have "cached dev n s b" by (auto simp: find_Some_iff)
  then have "B_VALID \<in> b_flags (bufs s b)" using f(2) by (auto simp: cached_def)
  then show ?thesis using f Hit by (simp add: bread_def bget_def upd_buf_def)
next
  case (Miss b)
  then have f: "List.find (cached dev n s) (lru s) = None"
    "List.find (\<lambda>b. B_BUSY \<notin> b_flags (bufs s b)) (rev (lru s)) = Some b"
    by (auto simp: bget_case_def split: option.splits if_splits)
  let ?s1 = "upd_buf b (\<lambda>bf. bf\<lparr>b_flags := {B_BUSY}, b_dev := dev, b_sector := n\<rparr>) s"
  have "ide_rw b ?s1 = Ret (s\<lparr>ide_datain := disk s (blkno dev n), bufs := (bufs s)(b := loaded dev n (disk s) (bufs s b))\<rparr>)"
    using assms by (subst ide_rw_transfer)
      (auto simp: upd_buf_def transfer_def Let_def loaded_def blk_of_def blkno_def ide_idle_def
        insert_commute intro!: bio_state.equality)
  then show ?thesis using f Miss by (simp add: bread_def bget_def) (simp add: upd_buf_def)
qed (auto simp: bget_case_def bread_def bget_def split: option.splits if_splits)

lemma bget_case_Hit:
  "bget_case dev n s = Hit b \<Longrightarrow> b \<in> set (lru s) \<and> cached dev n s b \<and> B_BUSY \<notin> b_flags (bufs s b)"
  by (auto simp: bget_case_def find_Some_iff split: option.splits if_splits)

lemma bget_case_Miss:
  "bget_case dev n s = Miss b \<Longrightarrow> b \<in> set (lru s) \<and> (\<forall>c \<in> set (lru s). \<not> cached dev n s c) \<and> B_BUSY \<notin> b_flags (bufs s b)"
proof -
  assume "bget_case dev n s = Miss b"
  then have f: "List.find (cached dev n s) (lru s) = None"
    "List.find (\<lambda>b. B_BUSY \<notin> b_flags (bufs s b)) (rev (lru s)) = Some b"
    by (auto simp: bget_case_def split: option.splits if_splits)
  then have "b \<in> set (rev (lru s))" by (metis (no_types, lifting) find_Some_iff nth_mem)
  then show ?thesis using f by (auto simp: find_None_iff find_Some_iff)
qed

lemma bread_ok:
  assumes "ide_idle s" "dev = 0 \<or> disk_1_present s" "cache_inv s" and read: "bread dev n s = Ret (b, s')"
  shows "cache_inv s' \<and> ide_idle s' \<and> lru s' = lru s \<and> disk s' = disk s \<and> curmt s' = curmt s
    \<and> b \<in> set (lru s) \<and> B_BUSY \<notin> b_flags (bufs s b) \<and> {B_BUSY, B_VALID} \<subseteq> b_flags (bufs s' b)
    \<and> b_dev (bufs s' b) = dev \<and> b_sector (bufs s' b) = n \<and> b_data (bufs s' b) = block_contents dev n s
    \<and> (\<forall>c. c \<noteq> b \<longrightarrow> bufs s' c = bufs s c)"
proof (cases "bget_case dev n s")
  case (Hit c)
  note h = bget_case_Hit [OF Hit]
  have c: "c = b" and s': "s' = s\<lparr>bufs := (bufs s)(b := (bufs s b)\<lparr>b_flags := insert B_BUSY (b_flags (bufs s b))\<rparr>)\<rparr>"
    using read bread_cases [OF assms(1,2)] Hit by auto
  have v: "B_VALID \<in> b_flags (bufs s b)" using h c by (auto simp: cached_def)
  have "\<forall>e \<in> set (lru s). cached dev n s e \<longrightarrow> e = b"
    using assms(3) h c unfolding cache_inv_def cached_active by metis
  then have "cache_inv s'"
    using h c by (intro cache_inv_upd [OF assms(3), where b = b]) (auto simp: s' cached_def)
  moreover have "block_contents dev n s = b_data (bufs s b)"
  proof -
    have "List.find (\<lambda>e. cached dev n s e \<and> B_VALID \<in> b_flags (bufs s e)) (lru s) = Some b"
    proof -
      have "List.find (\<lambda>e. cached dev n s e \<and> B_VALID \<in> b_flags (bufs s e)) (lru s) \<noteq> None"
        using h c v by (auto simp: find_None_iff)
      then show ?thesis
        using \<open>\<forall>e \<in> set (lru s). cached dev n s e \<longrightarrow> e = b\<close>
        by (metis (no_types, lifting) find_Some_iff nth_mem option.exhaust)
    qed
    then show ?thesis by (simp add: block_contents_def)
  qed
  ultimately show ?thesis using h c v assms(1) by (auto simp: s' ide_idle_def cached_def)
next
  case (Miss c)
  note h = bget_case_Miss [OF Miss]
  have c: "c = b" and s': "s' = s\<lparr>ide_datain := disk s (blkno dev n), bufs := (bufs s)(b := loaded dev n (disk s) (bufs s b))\<rparr>"
    using read bread_cases [OF assms(1,2)] Miss by auto
  have "cache_inv s'"
    using h c by (intro cache_inv_upd [OF assms(3), where b = b]) (auto simp: s' loaded_def)
  moreover have "List.find (\<lambda>e. cached dev n s e \<and> B_VALID \<in> b_flags (bufs s e)) (lru s) = None"
    using h by (auto simp: find_None_iff)
  then have "block_contents dev n s = disk s (blkno dev n)" by (simp add: block_contents_def)
  ultimately show ?thesis using h c assms(1) by (auto simp: s' ide_idle_def loaded_def)
qed (use read bread_cases [OF assms(1,2)] in auto)


section \<open>The operations of a transaction\<close>

text \<open>
  What the file system does with the cache before it commits: read a block, change the contents of a
  block it holds, write it, release it.  A transaction has fewer than \<open>2 ^ 32\<close> writes.
\<close>

inductive bcache_step :: "'a bio_state_scheme \<Rightarrow> 'a bio_state_scheme \<Rightarrow> bool" where
  step_read: "dev = 0 \<or> disk_1_present s \<Longrightarrow> bread dev n s = Ret (b, s') \<Longrightarrow> bcache_step s s'"
| step_modify: "b \<in> set (lru s) \<Longrightarrow> B_BUSY \<in> b_flags (bufs s b) \<Longrightarrow> bcache_step s (upd_data b f s)"
| step_write: "b \<in> set (lru s) \<Longrightarrow> bwrite b s = Ret s' \<Longrightarrow> bcache_step s s'"
| step_release: "b \<in> set (lru s) \<Longrightarrow> length (mt_bufs (curmt s)) < 2 ^ 32 \<Longrightarrow> brelse b s = Ret s' \<Longrightarrow> bcache_step s s'"

definition bcache_init :: "'a bio_state_scheme \<Rightarrow> bool" where
  "bcache_init s \<longleftrightarrow> ide_idle s \<and> distinct (lru s) \<and> curmt s = empty_trans \<and> (\<forall>b. b_flags (bufs s b) = {})"

definition bcache_inv :: "'a bio_state_scheme \<Rightarrow> bool" where
  "bcache_inv s \<longleftrightarrow> ide_idle s \<and> cache_inv s \<and> trans_inv s"

lemma active_kept:
  assumes "cache_inv s" "lru s' = lru s" "\<forall>c. active s' c \<longrightarrow> active s c"
    and "\<forall>c. b_dev (bufs s' c) = b_dev (bufs s c) \<and> b_sector (bufs s' c) = b_sector (bufs s c)"
  shows "cache_inv s'"
  using assms unfolding cache_inv_def by metis

lemma bcache_inv_bwrite:
  assumes "bcache_inv s" "b \<in> set (lru s)" "bwrite b s = Ret s'"
  shows "bcache_inv s'"
proof -
  have busy: "B_BUSY \<in> b_flags (bufs s b)" using assms(3) by (auto simp: bwrite_def split: if_splits)
  then have s': "s' = s\<lparr>bufs := (bufs s)(b := (bufs s b)\<lparr>b_flags := insert B_DIRTY (b_flags (bufs s b))\<rparr>),
     curmt := (curmt s)\<lparr>mt_bufs := b # mt_bufs (curmt s), mt_size := mt_size (curmt s) + 1\<rparr>\<rparr>"
    using assms(3) by (auto simp: bwrite_def upd_buf_def Let_def)
  have "cache_inv s'"
    by (rule active_kept [of s]) (use assms(1) in \<open>auto simp: s' bcache_inv_def active_def\<close>)
  then show ?thesis
    using assms(1,2) busy by (auto simp: s' bcache_inv_def trans_inv_def ide_idle_def algebra_simps)
qed

lemma bcache_inv_brelse:
  assumes "bcache_inv s" "b \<in> set (lru s)" "length (mt_bufs (curmt s)) < 2 ^ 32" "brelse b s = Ret s'"
  shows "bcache_inv s'"
proof (cases "s' = s")
  case False
  then have rel: "jbrelse b s = Ret s'" and ok: "mt_size (curmt s) = 0 \<or> B_DIRTY \<notin> b_flags (bufs s b)"
    using assms(4) by (auto simp: brelse_def split: if_splits)
  then have s': "s' = s\<lparr>bufs := (bufs s)(b := (bufs s b)\<lparr>b_flags := b_flags (bufs s b) - {B_BUSY}\<rparr>),
     lru := b # remove1 b (lru s)\<rparr>"
    by (auto simp: jbrelse_def upd_buf_def split: if_splits)
  let ?s1 = "s\<lparr>bufs := (bufs s)(b := (bufs s b)\<lparr>b_flags := b_flags (bufs s b) - {B_BUSY}\<rparr>)\<rparr>"
  have l: "set (lru s') = set (lru s)" "distinct (lru s')"
    using assms(1,2) set_move_to_front [of b "lru s"] by (auto simp: s' bcache_inv_def cache_inv_def)
  have "cache_inv ?s1"
    by (rule active_kept [of s]) (use assms(1) in \<open>auto simp: bcache_inv_def active_def\<close>)
  then have "cache_inv s'" using l by (auto simp: cache_inv_def active_def s')
  moreover have "b \<notin> set (mt_bufs (curmt s))"
  proof
    assume b: "b \<in> set (mt_bufs (curmt s))"
    then have "mt_size (curmt s) = 0" using ok assms(1) by (auto simp: bcache_inv_def trans_inv_def)
    then have "unat (of_nat (length (mt_bufs (curmt s))) :: uint) = 0"
      using assms(1) by (simp add: bcache_inv_def trans_inv_def)
    then show False using assms(3) b by (auto simp: unat_of_nat)
  qed
  ultimately show ?thesis
    using assms(1) l by (auto simp: bcache_inv_def trans_inv_def ide_idle_def s')
qed (use assms in simp)

lemma bcache_inv_step:
  assumes "bcache_step s s'" "bcache_inv s"
  shows "bcache_inv s'"
  using assms
proof cases
  case (step_read dev n b)
  note r = bread_ok [OF _ step_read(1) _ step_read(2)]
  have "bufs s' c = bufs s c" if "c \<in> set (mt_bufs (curmt s))" for c
    using that r assms(2) by (auto simp: bcache_inv_def trans_inv_def)
  then show ?thesis using r assms(2) by (auto simp: bcache_inv_def trans_inv_def)
next
  case (step_modify b f)
  have "cache_inv s'"
    by (rule active_kept [of s]) (use assms(2) in \<open>auto simp: step_modify bcache_inv_def active_def upd_data_def upd_buf_def\<close>)
  then show ?thesis
    using assms(2) by (auto simp: step_modify bcache_inv_def trans_inv_def ide_idle_def upd_data_def upd_buf_def)
qed (use assms bcache_inv_bwrite bcache_inv_brelse in blast)+

interpretation bcache: inductive_invariant bcache_init bcache_step bcache_inv
proof
  fix s :: "'a bio_state_scheme"
  assume "bcache_init s"
  then show "bcache_inv s"
    by (simp add: bcache_init_def bcache_inv_def cache_inv_def trans_inv_def active_def empty_trans_def)
qed (rule bcache_inv_step)

text \<open>The first read of block 100 on the small machine.\<close>

lemma demo_init: "bcache_init (demo_boot d)" "cache_inv (demo_boot d)" "ide_idle (demo_boot d)"
  by (simp_all add: bcache_init_def cache_inv_def active_def demo_boot_def ide_idle_def
    IDE_DRDY_def IDE_BSY_def IDE_DF_def IDE_ERR_def)

lemma demo_lru:
  "lru (demo_boot d) = [7, 6, 5, 4, 3, 2, 1, 0]" "b_flags (bufs (demo_boot d) b) = {}"
  by (simp_all add: demo_boot_def upt_rec)

lemma demo_bread:
  "bread 0 100 (demo_boot d) = Ret (0, (demo_boot d)\<lparr>ide_datain := d (blkno 0 100),
     bufs := (bufs (demo_boot d))(0 := loaded 0 100 d (bufs (demo_boot d) 0))\<rparr>)"
proof -
  have "bget_case 0 100 (demo_boot d) = Miss 0"
    using demo_lru [of d] by (simp add: bget_case_def cached_def)
  then show ?thesis by (subst bread_cases) (simp_all add: demo_init, simp add: demo_boot_def)
qed

section \<open>Properties\<close>



text \<open>
  C5: \<^const>\<open>bread\<close> on every branch.  If the block is cached and held, the caller sleeps; if it is cached
  and free, or not cached and some buffer is free, the caller gets a held, valid buffer of that block
  with its current contents, and nothing else changes; if all buffers are held, the kernel panics.
\<close>

theorem bread_outcome:
  assumes "ide_idle s" "dev = 0 \<or> disk_1_present s" "cache_inv s"
  shows "case bread dev n s of
      Ret (b, s') \<Rightarrow> B_BUSY \<notin> b_flags (bufs s b) \<and> {B_BUSY, B_VALID} \<subseteq> b_flags (bufs s' b)
        \<and> b_dev (bufs s' b) = dev \<and> b_sector (bufs s' b) = n \<and> b_data (bufs s' b) = block_contents dev n s
        \<and> (\<forall>c. c \<noteq> b \<longrightarrow> bufs s' c = bufs s c) \<and> lru s' = lru s \<and> disk s' = disk s \<and> cache_inv s'
    | Blocked w \<Rightarrow> \<exists>b \<in> set (lru s). cached dev n s b \<and> B_BUSY \<in> b_flags (bufs s b)
    | Panic p \<Rightarrow> \<forall>b \<in> set (lru s). B_BUSY \<in> b_flags (bufs s b) \<and> \<not> cached dev n s b
    | Fault f \<Rightarrow> False"
proof (cases "bread dev n s")
  case (Ret r)
  obtain b s' where r: "r = (b, s')" by (cases r)
  then show ?thesis using Ret bread_ok [OF assms, of n b s'] by simp
next
  case (Blocked w)
  then obtain b where "bget_case dev n s = Busy b"
    using bread_cases [OF assms(1,2), of n] by (cases "bget_case dev n s") auto
  then have "b \<in> set (lru s) \<and> cached dev n s b \<and> B_BUSY \<in> b_flags (bufs s b)"
    by (auto simp: bget_case_def find_Some_iff split: option.splits if_splits)
  then show ?thesis using Blocked by auto
next
  case (Panic p)
  then have "bget_case dev n s = Full"
    using bread_cases [OF assms(1,2), of n] by (cases "bget_case dev n s") auto
  then show ?thesis
    using Panic by (auto simp: bget_case_def find_None_iff split: option.splits if_splits)
next
  case (Fault f)
  then show ?thesis using bread_cases [OF assms(1,2), of n] by (cases "bget_case dev n s") auto
qed

theorem bread_outcome_witness:
  "\<exists>b s'. bread 0 100 (demo_boot demo_disk) = Ret (b, s') \<and> b_sector (bufs s' b) = 100
     \<and> b_data (bufs s' b) = block_contents 0 100 (demo_boot demo_disk) \<and> cache_inv s'"
  using bread_outcome [of "demo_boot demo_disk" 0 100] demo_init [of demo_disk] demo_bread [of demo_disk] by simp

text \<open>
  A block written in the current transaction cannot be read again in it.  \<^const>\<open>brelse\<close> keeps the
  buffer of a dirty block held, so the next \<^const>\<open>bread\<close> of the block sleeps on a buffer that only this
  process, by committing, could release.
\<close>

theorem reread_blocks:
  assumes "ide_idle s" "dev = 0 \<or> disk_1_present s" "cache_inv s" "mt_size (curmt s) + 1 \<noteq> 0"
    and "bread dev n s = Ret (b, s1)"
  shows "\<exists>s2 s3. bwrite b s1 = Ret s2 \<and> brelse b s2 = Ret s3 \<and> bread dev n s3 = Blocked ''bget''"
proof -
  note r = bread_ok [OF assms(1-3,5)]
  define s2 where "s2 = s1\<lparr>bufs := (bufs s1)(b := (bufs s1 b)\<lparr>b_flags := insert B_DIRTY (b_flags (bufs s1 b))\<rparr>),
     curmt := (curmt s1)\<lparr>mt_bufs := b # mt_bufs (curmt s1), mt_size := mt_size (curmt s1) + 1\<rparr>\<rparr>"
  have w: "bwrite b s1 = Ret s2" using r by (simp add: bwrite_def s2_def upd_buf_def Let_def)
  have rel: "brelse b s2 = Ret s2" using r assms(4) by (auto simp: brelse_def s2_def)
  have mine: "cached dev n s2 b" "B_BUSY \<in> b_flags (bufs s2 b)" "b \<in> set (lru s2)"
    using r by (auto simp: cached_def s2_def)
  have "cache_inv s2"
    by (rule active_kept [of s1]) (use r in \<open>auto simp: s2_def active_def\<close>)
  then have "\<forall>c \<in> set (lru s2). cached dev n s2 c \<longrightarrow> c = b"
    using mine unfolding cache_inv_def cached_active by metis
  then have "List.find (cached dev n s2) (lru s2) = Some b"
    using mine by (metis (no_types, lifting) find_None_iff find_Some_iff nth_mem option.exhaust)
  then have "bread dev n s2 = Blocked ''bget''" using mine by (simp add: bread_def bget_def)
  then show ?thesis using w rel by blast
qed


theorem reread_blocks_witness:
  "\<exists>b s1 s2 s3. bread 0 100 (demo_boot demo_disk) = Ret (b, s1) \<and> bwrite b s1 = Ret s2 \<and> brelse b s2 = Ret s3
     \<and> bread 0 100 s3 = Blocked ''bget''"
proof -
  have "mt_size (curmt (demo_boot demo_disk)) + 1 \<noteq> 0" by (simp add: demo_boot_def empty_trans_def)
  from reread_blocks [OF demo_init(3) _ demo_init(2) this demo_bread] show ?thesis
    using demo_bread [of demo_disk] by blast
qed

end
