(* ===== verification/Fs.thy ===== *)
theory Fs
  imports Bcache
begin

text \<open>
  The file system of \<^verbatim>\<open>fs.c\<close> over the buffer cache: block allocation, the inode cache, the contents
  of inodes, directories and path names, with the on-disk formats of \<^verbatim>\<open>fs.h\<close>.  The state extends the
  one of the buffer cache by the inode cache.  As there, a call is made by one process and a point where it
  would wait for another process is the outcome \<open>Blocked\<close>; the console messages of \<^verbatim>\<open>cprintf\<close> and the
  wakeups of other processes are not represented.  Data a caller passes or receives through a pointer
  is a list of bytes, and a C string the list of its bytes before the terminating zero.
\<close>

section \<open>On-disk format (fs.h)\<close>

definition BSIZE :: uint where "BSIZE = 512"
definition NDIRECT :: uint where "NDIRECT = 12"
definition INDIRECT :: nat where "INDIRECT = 12"
definition NADDRS :: nat where "NADDRS = 13"
definition NININDIRECT :: uint where "NININDIRECT = 128 * 128"
definition MAXFILE :: uint where "MAXFILE = NDIRECT + NININDIRECT"
definition IPB :: uint where "IPB = 8"
definition BPB :: uint where "BPB = 4096"
definition DIRSIZ :: nat where "DIRSIZ = 14"

definition T_DIR :: ushort where "T_DIR = 1"
definition T_FILE :: ushort where "T_FILE = 2"
definition T_DEV :: ushort where "T_DEV = 3"

definition IBLOCK :: "uint \<Rightarrow> uint" where "IBLOCK i = i div IPB + 2 + NJB"
definition BBLOCK :: "uint \<Rightarrow> uint \<Rightarrow> uint" where "BBLOCK b ninodes = b div BPB + ninodes div IPB + 3 + NJB"

lemmas fs_h_defs = BSIZE_def NDIRECT_def INDIRECT_def NADDRS_def NININDIRECT_def MAXFILE_def IPB_def BPB_def
  DIRSIZ_def T_DIR_def T_FILE_def T_DEV_def

record superblock =
  sb_size :: uint
  sb_nblocks :: uint
  sb_ninodes :: uint

definition superblock_of :: "bytes \<Rightarrow> superblock" where
  "superblock_of d = \<lparr>sb_size = get_u32 d 0, sb_nblocks = get_u32 d 4, sb_ninodes = get_u32 d 8\<rparr>"

record dinode =
  d_type :: ushort
  d_major :: ushort
  d_minor :: ushort
  d_nlink :: ushort
  d_size :: uint
  d_addrs :: "nat \<Rightarrow> uint"

text \<open>The \<^verbatim>\<open>struct dinode\<close> at byte \<open>p\<close> of a block.\<close>

definition get_dinode :: "bytes \<Rightarrow> nat \<Rightarrow> dinode" where
  "get_dinode d p = \<lparr>d_type = get_u16 d p, d_major = get_u16 d (p + 2), d_minor = get_u16 d (p + 4),
     d_nlink = get_u16 d (p + 6), d_size = get_u32 d (p + 8), d_addrs = (\<lambda>i. get_u32 d (p + 12 + 4 * i))\<rparr>"

primrec put_addrs :: "nat \<Rightarrow> nat \<Rightarrow> (nat \<Rightarrow> uint) \<Rightarrow> bytes \<Rightarrow> bytes" where
  "put_addrs 0 p a d = d"
| "put_addrs (Suc k) p a d = put_u32 (put_addrs k p a d) (p + 4 * k) (a k)"

definition put_dinode :: "bytes \<Rightarrow> nat \<Rightarrow> dinode \<Rightarrow> bytes" where
  "put_dinode d p di =
     put_addrs NADDRS (p + 12) (d_addrs di)
       (put_u32 (put_u16 (put_u16 (put_u16 (put_u16 d p (d_type di)) (p + 2) (d_major di)) (p + 4) (d_minor di))
          (p + 6) (d_nlink di)) (p + 8) (d_size di))"

definition dinode_off :: "uint \<Rightarrow> nat" where
  "dinode_off inum = 64 * unat (inum mod IPB)"

section \<open>Inodes in memory (fsvar.h)\<close>

datatype iflag = I_BUSY | I_VALID

record inode =
  i_dev :: uint
  i_inum :: uint
  i_ref :: int
  i_flags :: "iflag set"
  i_type :: ushort
  i_major :: ushort
  i_minor :: ushort
  i_nlink :: ushort
  i_size :: uint
  i_addrs :: "nat \<Rightarrow> uint"

record fs_state = bio_state +
  icache :: "nat \<Rightarrow> inode"

definition upd_inode :: "nat \<Rightarrow> (inode \<Rightarrow> inode) \<Rightarrow> 'a fs_state_scheme \<Rightarrow> 'a fs_state_scheme" where
  "upd_inode ip f s = s\<lparr>icache := (icache s)(ip := f (icache s ip))\<rparr>"

definition to_dinode :: "inode \<Rightarrow> dinode" where
  "to_dinode i = \<lparr>d_type = i_type i, d_major = i_major i, d_minor = i_minor i, d_nlink = i_nlink i,
     d_size = i_size i, d_addrs = i_addrs i\<rparr>"

definition load_dinode :: "dinode \<Rightarrow> inode \<Rightarrow> inode" where
  "load_dinode di i = i\<lparr>i_type := d_type di, i_major := d_major di, i_minor := d_minor di, i_nlink := d_nlink di,
     i_size := d_size di, i_addrs := (\<lambda>k. if k < NADDRS then d_addrs di k else i_addrs i k)\<rparr>"

section \<open>Blocks\<close>

definition readsb :: "uint \<Rightarrow> 'a fs_state_scheme \<Rightarrow> (superblock \<times> 'a fs_state_scheme) outcome" where
  "readsb dev s =
     obind (bread dev 1 s) (\<lambda>(b, s1). obind (brelse b s1) (\<lambda>s2. Ret (superblock_of (b_data (bufs s1 b)), s2)))"

definition bzero :: "uint \<Rightarrow> uint \<Rightarrow> 'a fs_state_scheme \<Rightarrow> 'a fs_state_scheme outcome" where
  "bzero dev bno s =
     obind (bread dev bno s) (\<lambda>(b, s1).
     obind (bwrite b (upd_data b (\<lambda>d i. if i < unat BSIZE then 0 else d i) s1)) (\<lambda>s2. brelse b s2))"

definition bit_used :: "bytes \<Rightarrow> nat \<Rightarrow> bool" where
  "bit_used d bi \<longleftrightarrow> d (bi div 8) AND push_bit (bi mod 8) 1 \<noteq> 0"

definition mark_used :: "nat \<Rightarrow> bytes \<Rightarrow> bytes" where
  "mark_used bi d = d(bi div 8 := d (bi div 8) OR push_bit (bi mod 8) 1)"

definition mark_free :: "nat \<Rightarrow> bytes \<Rightarrow> bytes" where
  "mark_free bi d = d(bi div 8 := d (bi div 8) AND NOT (push_bit (bi mod 8) 1))"

text \<open>\<^verbatim>\<open>end_trans(); jfull_flush();\<close>\<close>

definition commit_flush :: "'a bio_state_scheme \<Rightarrow> 'a bio_state_scheme outcome" where
  "commit_flush s = obind (end_trans s) jfull_flush"

text \<open>
  The outer loop runs at most \<^verbatim>\<open>sb.size / BPB + 1\<close> times, the fuel \<open>balloc\<close> gives it, unless \<open>b\<close> wraps around
  at \<open>2 ^ 32\<close>, when it does not end.
\<close>

primrec balloc_loop :: "nat \<Rightarrow> uint \<Rightarrow> superblock \<Rightarrow> uint \<Rightarrow> 'a fs_state_scheme \<Rightarrow> (uint \<times> 'a fs_state_scheme) outcome" where
  "balloc_loop 0 b sb dev s = (if b < sb_size sb then Blocked ''balloc'' else Panic ''balloc: out of blocks'')"
| "balloc_loop (Suc k) b sb dev s =
     (if b < sb_size sb then
        obind (bread dev (BBLOCK b (sb_ninodes sb)) s) (\<lambda>(bp, s1).
          case List.find (\<lambda>bi. \<not> bit_used (b_data (bufs s1 bp)) bi) [0 ..< unat BPB] of
            Some bi \<Rightarrow>
              obind (bwrite bp (upd_data bp (mark_used bi) s1)) (\<lambda>s2.
              obind (brelse bp s2) (\<lambda>s3.
              obind (commit_flush s3) (\<lambda>s4.
                if b + of_nat bi = 1 then Panic ''b+bi is 1'' else Ret (b + of_nat bi, s4))))
          | None \<Rightarrow> obind (brelse bp s1) (\<lambda>s2. balloc_loop k (b + BPB) sb dev s2))
      else Panic ''balloc: out of blocks'')"

definition balloc :: "uint \<Rightarrow> 'a fs_state_scheme \<Rightarrow> (uint \<times> 'a fs_state_scheme) outcome" where
  "balloc dev s =
     obind (readsb dev s) (\<lambda>(sb, s1). balloc_loop (unat (sb_size sb div BPB) + 1) 0 sb dev s1)"

definition bfree :: "uint \<Rightarrow> uint \<Rightarrow> 'a fs_state_scheme \<Rightarrow> 'a fs_state_scheme outcome" where
  "bfree dev b s =
     obind (bzero dev b s) (\<lambda>s1.
     obind (readsb dev s1) (\<lambda>(sb, s2).
     obind (bread dev (BBLOCK b (sb_ninodes sb)) s2) (\<lambda>(bp, s3).
     let bi = unat (b mod BPB) in
     if \<not> bit_used (b_data (bufs s3 bp)) bi then Panic ''freeing free block''
     else
       obind (bwrite bp (upd_data bp (mark_free bi) s3)) (\<lambda>s4.
       obind (brelse bp s4) commit_flush))))"

section \<open>The inode cache\<close>

definition iget :: "uint \<Rightarrow> uint \<Rightarrow> 'a fs_state_scheme \<Rightarrow> (nat \<times> 'a fs_state_scheme) outcome" where
  "iget dev inum s =
     (case List.find (\<lambda>k. 0 < i_ref (icache s k) \<and> i_dev (icache s k) = dev \<and> i_inum (icache s k) = inum) [0 ..< NINODE] of
        Some k \<Rightarrow> Ret (k, upd_inode k (\<lambda>i. i\<lparr>i_ref := i_ref i + 1\<rparr>) s)
      | None \<Rightarrow>
          (case List.find (\<lambda>k. i_ref (icache s k) = 0) [0 ..< NINODE] of
             None \<Rightarrow> Panic ''iget: no inodes''
           | Some k \<Rightarrow> Ret (k, upd_inode k (\<lambda>i. i\<lparr>i_dev := dev, i_inum := inum, i_ref := 1, i_flags := {}\<rparr>) s)))"

definition idup :: "nat \<Rightarrow> 'a fs_state_scheme \<Rightarrow> nat \<times> 'a fs_state_scheme" where
  "idup ip s = (ip, upd_inode ip (\<lambda>i. i\<lparr>i_ref := i_ref i + 1\<rparr>) s)"

definition ilock :: "nat option \<Rightarrow> 'a fs_state_scheme \<Rightarrow> 'a fs_state_scheme outcome" where
  "ilock p s =
     (case p of
        None \<Rightarrow> Panic ''ilock''
      | Some ip \<Rightarrow>
          if i_ref (icache s ip) < 1 then Panic ''ilock''
          else if I_BUSY \<in> i_flags (icache s ip) then Blocked ''ilock''
          else
            (let s1 = upd_inode ip (\<lambda>i. i\<lparr>i_flags := insert I_BUSY (i_flags i)\<rparr>) s; i = icache s1 ip in
             if I_VALID \<in> i_flags i then Ret s1
             else
               obind (bread (i_dev i) (IBLOCK (i_inum i)) s1) (\<lambda>(bp, s2).
               let di = get_dinode (b_data (bufs s2 bp)) (dinode_off (i_inum i)) in
               obind (brelse bp (upd_inode ip (load_dinode di) s2)) (\<lambda>s3.
               let s4 = upd_inode ip (\<lambda>i. i\<lparr>i_flags := insert I_VALID (i_flags i)\<rparr>) s3 in
               if i_type (icache s4 ip) = 0 then Panic ''ilock: no type'' else Ret s4))))"

definition iunlock :: "nat option \<Rightarrow> 'a fs_state_scheme \<Rightarrow> 'a fs_state_scheme outcome" where
  "iunlock p s =
     (case p of
        None \<Rightarrow> Panic ''iunlock''
      | Some ip \<Rightarrow>
          if I_BUSY \<notin> i_flags (icache s ip) \<or> i_ref (icache s ip) < 1 then Panic ''iunlock''
          else Ret (upd_inode ip (\<lambda>i. i\<lparr>i_flags := i_flags i - {I_BUSY}\<rparr>) s))"

definition iupdate :: "nat \<Rightarrow> 'a fs_state_scheme \<Rightarrow> 'a fs_state_scheme outcome" where
  "iupdate ip s =
     (let i = icache s ip in
      obind (bread (i_dev i) (IBLOCK (i_inum i)) s) (\<lambda>(bp, s1).
      obind (bwrite bp (upd_data bp (\<lambda>d. put_dinode d (dinode_off (i_inum i)) (to_dinode i)) s1)) (\<lambda>s2.
      brelse bp s2)))"

section \<open>Contents of inodes\<close>

subsection \<open>bmap and itrunc\<close>

text \<open>The entry of an indirect block, loaded with \<^verbatim>\<open>bread\<close> and filled with a fresh block when it is zero.\<close>

definition bmap_entry :: "uint \<Rightarrow> uint \<Rightarrow> nat \<Rightarrow> bool \<Rightarrow> 'a fs_state_scheme
    \<Rightarrow> (uint option \<times> 'a fs_state_scheme) outcome" where
  "bmap_entry dev addr loc alloc s =
     obind (bread dev addr s) (\<lambda>(bp, s1).
     let a = get_u32 (b_data (bufs s1 bp)) (4 * loc) in
     if a = 0 then
       if \<not> alloc then obind (brelse bp s1) (\<lambda>s2. Ret (None, s2))
       else
         obind (balloc dev s1) (\<lambda>(na, s2).
         obind (bwrite bp (upd_data bp (\<lambda>d. put_u32 d (4 * loc) na) s2)) (\<lambda>s3.
         obind (brelse bp s3) (\<lambda>s4. Ret (Some na, s4))))
     else obind (brelse bp s1) (\<lambda>s2. Ret (Some a, s2)))"

definition bmap_slot :: "nat \<Rightarrow> nat \<Rightarrow> bool \<Rightarrow> 'a fs_state_scheme \<Rightarrow> (uint option \<times> 'a fs_state_scheme) outcome" where
  "bmap_slot ip k alloc s =
     (let addr = i_addrs (icache s ip) k in
      if addr = 0 then
        if \<not> alloc then Ret (None, s)
        else obind (balloc (i_dev (icache s ip)) s) (\<lambda>(na, s1).
          Ret (Some na, upd_inode ip (\<lambda>i. i\<lparr>i_addrs := (i_addrs i)(k := na)\<rparr>) s1))
      else Ret (Some addr, s))"

text \<open>A missing block is the value \<open>-1\<close>.\<close>

definition bmap :: "nat \<Rightarrow> uint \<Rightarrow> bool \<Rightarrow> 'a fs_state_scheme \<Rightarrow> (uint \<times> 'a fs_state_scheme) outcome" where
  "bmap ip bn alloc s =
     (let dev = i_dev (icache s ip) in
      if bn < NDIRECT then
        obind (bmap_slot ip (unat bn) alloc s) (\<lambda>(r, s1). Ret (case r of None \<Rightarrow> -1 | Some a \<Rightarrow> a, s1))
      else if bn - NDIRECT < NININDIRECT then
        obind (bmap_slot ip INDIRECT alloc s) (\<lambda>(r, s1).
          case r of
            None \<Rightarrow> Ret (-1, s1)
          | Some ind \<Rightarrow>
              obind (bmap_entry dev ind (unat ((bn - NDIRECT) div 128)) alloc s1) (\<lambda>(r2, s2).
                case r2 of
                  None \<Rightarrow> Ret (-1, s2)
                | Some ind2 \<Rightarrow>
                    obind (bmap_entry dev ind2 (unat ((bn - NDIRECT) mod 128)) alloc s2) (\<lambda>(r3, s3).
                      Ret (case r3 of None \<Rightarrow> -1 | Some a \<Rightarrow> a, s3))))
      else Panic ''bmap: out of range'')"

primrec free_direct :: "nat list \<Rightarrow> nat \<Rightarrow> 'a fs_state_scheme \<Rightarrow> 'a fs_state_scheme outcome" where
  "free_direct [] ip s = Ret s"
| "free_direct (k # ks) ip s =
     (if i_addrs (icache s ip) k \<noteq> 0 then
        obind (bfree (i_dev (icache s ip)) (i_addrs (icache s ip) k) s) (\<lambda>s1.
          free_direct ks ip (upd_inode ip (\<lambda>i. i\<lparr>i_addrs := (i_addrs i)(k := 0)\<rparr>) s1))
      else free_direct ks ip s)"

text \<open>\<open>bp\<close> and \<open>ibp\<close> stay locked while the entries they hold are freed; each entry is read when it is reached.\<close>

primrec free_entries :: "nat list \<Rightarrow> nat \<Rightarrow> 'a fs_state_scheme \<Rightarrow> 'a fs_state_scheme outcome" where
  "free_entries [] ibp s = Ret s"
| "free_entries (k # ks) ibp s =
     obind (bfree (b_dev (bufs s ibp)) (get_u32 (b_data (bufs s ibp)) (4 * k)) s) (\<lambda>s1. free_entries ks ibp s1)"

primrec free_indirect :: "nat list \<Rightarrow> nat \<Rightarrow> nat \<Rightarrow> 'a fs_state_scheme \<Rightarrow> 'a fs_state_scheme outcome" where
  "free_indirect [] ip bp s = Ret s"
| "free_indirect (j # js) ip bp s =
     (let a = get_u32 (b_data (bufs s bp)) (4 * j); dev = i_dev (icache s ip) in
      if a \<noteq> 0 then
        obind (bread dev a s) (\<lambda>(ibp, s1).
        obind (free_entries [0 ..< 128] ibp s1) (\<lambda>s2.
        obind (bfree dev (get_u32 (b_data (bufs s2 bp)) (4 * j)) s2) (\<lambda>s3.
        obind (brelse ibp s3) (\<lambda>s4. free_indirect js ip bp s4))))
      else free_indirect js ip bp s)"

text \<open>
  \<^verbatim>\<open>ip->addrs[NDIRECT + 1]\<close> is one past the end of \<^verbatim>\<open>addrs\<close>.  With the layout of \<^verbatim>\<open>struct inode\<close>, which has
  no padding, the word there is the first field, \<^verbatim>\<open>dev\<close>, of the next entry of the inode cache; past the last
  entry it is outside the array.
\<close>

definition addrs_past :: "nat \<Rightarrow> 'a fs_state_scheme \<Rightarrow> uint outcome" where
  "addrs_past ip s = (if ip + 1 < NINODE then Ret (i_dev (icache s (ip + 1))) else Fault ''addrs[NDIRECT+1]'')"

definition itrunc :: "nat \<Rightarrow> 'a fs_state_scheme \<Rightarrow> 'a fs_state_scheme outcome" where
  "itrunc ip s =
     obind (free_direct [0 ..< unat NDIRECT] ip s) (\<lambda>s1.
     obind (addrs_past ip s1) (\<lambda>past.
     obind (if past \<noteq> 0 then
              obind (bread (i_dev (icache s1 ip)) (i_addrs (icache s1 ip) INDIRECT) s1) (\<lambda>(bp, s2).
              obind (free_indirect [0 ..< 128] ip bp s2) (\<lambda>s3.
              obind (addrs_past ip s3) (\<lambda>past3.
              obind (bfree (i_dev (icache s3 ip)) past3 s3) (\<lambda>s4.
              obind (brelse bp s4) (\<lambda>s5.
              Ret (upd_inode ip (\<lambda>i. i\<lparr>i_addrs := (i_addrs i)(INDIRECT := 0)\<rparr>) s5))))))
            else Ret s1) (\<lambda>s6.
     iupdate ip (upd_inode ip (\<lambda>i. i\<lparr>i_size := 0\<rparr>) s6))))"

definition iput :: "nat \<Rightarrow> 'a fs_state_scheme \<Rightarrow> 'a fs_state_scheme outcome" where
  "iput ip s =
     (let i = icache s ip in
      obind (if i_ref i = 1 \<and> I_VALID \<in> i_flags i \<and> i_nlink i = 0 then
               if I_BUSY \<in> i_flags i then Panic ''iput busy''
               else
                 obind (itrunc ip (upd_inode ip (\<lambda>i. i\<lparr>i_flags := insert I_BUSY (i_flags i)\<rparr>) s)) (\<lambda>s1.
                 obind (commit_flush s1) (\<lambda>s2.
                 obind (iupdate ip (upd_inode ip (\<lambda>i. i\<lparr>i_type := 0\<rparr>) s2)) (\<lambda>s3.
                 Ret (upd_inode ip (\<lambda>i. i\<lparr>i_flags := i_flags i - {I_BUSY}\<rparr>) s3))))
             else Ret s) (\<lambda>s4.
      Ret (upd_inode ip (\<lambda>i. i\<lparr>i_ref := i_ref i - 1\<rparr>) s4)))"

definition iunlockput :: "nat \<Rightarrow> 'a fs_state_scheme \<Rightarrow> 'a fs_state_scheme outcome" where
  "iunlockput ip s = obind (iunlock (Some ip) s) (iput ip)"

text \<open>The search for a free inode starts at 1 and ends before \<^verbatim>\<open>sb.ninodes\<close>; the fuel is the number of inodes.\<close>

primrec icreate_loop :: "nat \<Rightarrow> uint \<Rightarrow> superblock \<Rightarrow> uint \<Rightarrow> dinode \<Rightarrow> 'a fs_state_scheme
    \<Rightarrow> (nat \<times> 'a fs_state_scheme) outcome" where
  "icreate_loop 0 inum sb dev di s = Panic ''ialloc: no inodes''"
| "icreate_loop (Suc k) inum sb dev di s =
     (if inum < sb_ninodes sb then
        obind (bread dev (IBLOCK inum) s) (\<lambda>(bp, s1).
        if d_type (get_dinode (b_data (bufs s1 bp)) (dinode_off inum)) = 0 then
          obind (bwrite bp (upd_data bp (\<lambda>d. put_dinode d (dinode_off inum) di) s1)) (\<lambda>s2.
          obind (brelse bp s2) (\<lambda>s3.
          obind (commit_flush s3) (\<lambda>s4. iget dev inum s4)))
        else obind (brelse bp s1) (\<lambda>s2. icreate_loop k (inum + 1) sb dev di s2))
      else Panic ''ialloc: no inodes'')"

definition icreate :: "uint \<Rightarrow> ushort \<Rightarrow> ushort \<Rightarrow> ushort \<Rightarrow> ushort \<Rightarrow> 'a fs_state_scheme
    \<Rightarrow> (nat \<times> 'a fs_state_scheme) outcome" where
  "icreate dev type major minor nlink s =
     obind (readsb dev s) (\<lambda>(sb, s1).
       icreate_loop (unat (sb_ninodes sb)) 1 sb dev
         \<lparr>d_type = type, d_major = major, d_minor = minor, d_nlink = nlink, d_size = 0, d_addrs = (\<lambda>_. 0)\<rparr> s1)"

subsection \<open>stati, readi, writei\<close>

record stat =
  st_dev :: uint
  st_ino :: uint
  st_type :: ushort
  st_nlink :: ushort
  st_size :: uint

definition stati :: "nat \<Rightarrow> 'a fs_state_scheme \<Rightarrow> stat" where
  "stati ip s = (let i = icache s ip in
     \<lparr>st_dev = i_dev i, st_ino = i_inum i, st_type = i_type i, st_nlink = i_nlink i, st_size = i_size i\<rparr>)"

text \<open>
  The device switch \<^verbatim>\<open>devsw\<close> is an argument: for each major number the read and the write function of
  the device, when it has one.
\<close>

record 's devsw =
  devread :: "nat \<Rightarrow> (nat \<Rightarrow> uint \<Rightarrow> 's \<Rightarrow> (int \<times> uchar list \<times> 's) outcome) option"
  devwrite :: "nat \<Rightarrow> (nat \<Rightarrow> uchar list \<Rightarrow> 's \<Rightarrow> (int \<times> 's) outcome) option"

definition major_ok :: "ushort \<Rightarrow> bool" where
  "major_ok m \<longleftrightarrow> 0 \<le> sint m \<and> sint m < NDEV"

definition chunk :: "uint \<Rightarrow> uint \<Rightarrow> uint \<Rightarrow> uint" where
  "chunk off tot n = min (n - tot) (BSIZE - off mod BSIZE)"

lemma unat_chunk: "tot < n \<Longrightarrow> unat (chunk off tot n) = min (unat n - unat tot) (512 - unat off mod 512)"
proof -
  assume "tot < n"
  then have 1: "unat (n - tot) = unat n - unat tot" by (intro unat_sub) simp
  have "off mod BSIZE \<le> BSIZE" using word_mod_less_divisor [of BSIZE off] by (simp add: BSIZE_def)
  then have 2: "unat (BSIZE - off mod BSIZE) = 512 - unat off mod 512"
    by (simp add: unat_sub) (simp add: BSIZE_def unat_mod)
  show ?thesis unfolding chunk_def using 1 2 by (simp add: min_def word_le_nat_alt)
qed

lemma chunk_progress:
  assumes "tot < n"
  shows "0 < unat (chunk off tot n)" "unat (tot + chunk off tot n) = unat tot + unat (chunk off tot n)"
    "unat tot + unat (chunk off tot n) \<le> unat n"
proof -
  have lt: "unat tot < unat n" using assms by (simp add: word_less_nat_alt)
  have "unat off mod 512 < 512" by simp
  then show "0 < unat (chunk off tot n)" using lt unfolding unat_chunk [OF assms] by linarith
  show le: "unat tot + unat (chunk off tot n) \<le> unat n" using lt unfolding unat_chunk [OF assms] by linarith
  have "unat n < 2 ^ 32" using unsigned_less [of n, where ?'a = nat] by simp
  then show "unat (tot + chunk off tot n) = unat tot + unat (chunk off tot n)"
    using le by (intro unat_add_uint) linarith
qed

function readi_loop :: "nat \<Rightarrow> uint \<Rightarrow> uint \<Rightarrow> uint \<Rightarrow> 'a fs_state_scheme \<Rightarrow> (uchar list \<times> 'a fs_state_scheme) outcome" where
  "readi_loop ip off tot n s =
     (if tot < n then
        obind (bmap ip (off div BSIZE) False s) (\<lambda>(bn, s1).
        obind (bread (i_dev (icache s1 ip)) bn s1) (\<lambda>(bp, s2).
        let m = chunk off tot n; o' = unat (off mod BSIZE) in
        obind (brelse bp s2) (\<lambda>s3.
        obind (readi_loop ip (off + m) (tot + m) n s3) (\<lambda>(cs, s4).
        Ret (map (b_data (bufs s2 bp)) [o' ..< o' + unat m] @ cs, s4)))))
      else Ret ([], s))"
  by auto
termination
proof (relation "measure (\<lambda>(ip, off, tot, n, s). unat n - unat tot)", goal_cases)
  case (2 ip off tot n s _ _ _ _ m)
  then show ?case using chunk_progress [of tot n off] by simp
qed simp

declare readi_loop.simps [simp del]

definition readi :: "('a fs_state_scheme) devsw \<Rightarrow> nat \<Rightarrow> uint \<Rightarrow> uint \<Rightarrow> 'a fs_state_scheme
    \<Rightarrow> (int \<times> uchar list \<times> 'a fs_state_scheme) outcome" where
  "readi dv ip off n s =
     (let i = icache s ip in
      if i_type i = T_DEV then
        (if \<not> major_ok (i_major i) then Ret (-1, [], s)
         else case devread dv (unat (i_major i)) of
             None \<Rightarrow> Ret (-1, [], s)
           | Some f \<Rightarrow> f ip n s)
      else if off > i_size i \<or> off + n < off then Ret (-1, [], s)
      else
        (let n1 = (if off + n > i_size i then i_size i - off else n) in
         obind (readi_loop ip off 0 n1 s) (\<lambda>(cs, s1). Ret (sint n1, cs, s1))))"

definition put_bytes :: "nat \<Rightarrow> uchar list \<Rightarrow> bytes \<Rightarrow> bytes" where
  "put_bytes p cs d = (\<lambda>i. if p \<le> i \<and> i < p + length cs then cs ! (i - p) else d i)"

text \<open>The result is the offset at which the loop ends.\<close>

function writei_loop :: "nat \<Rightarrow> uchar list \<Rightarrow> uint \<Rightarrow> uint \<Rightarrow> uint \<Rightarrow> 'a fs_state_scheme
    \<Rightarrow> (uint \<times> 'a fs_state_scheme) outcome" where
  "writei_loop ip src off tot n s =
     (if tot < n then
        obind (bmap ip (off div BSIZE) True s) (\<lambda>(bn, s1).
        obind (bread (i_dev (icache s1 ip)) bn s1) (\<lambda>(bp, s2).
        let m = chunk off tot n in
        obind (bwrite bp (upd_data bp (put_bytes (unat (off mod BSIZE)) (take (unat m) src)) s2)) (\<lambda>s3.
        obind (brelse bp s3) (\<lambda>s4.
        writei_loop ip (drop (unat m) src) (off + m) (tot + m) n s4))))
      else Ret (off, s))"
  by auto
termination
proof (relation "measure (\<lambda>(ip, src, off, tot, n, s). unat n - unat tot)", goal_cases)
  case (2 ip src off tot n s _ _ _ _ m)
  then show ?case using chunk_progress [of tot n off] by simp
qed simp

declare writei_loop.simps [simp del]

definition writei :: "('a fs_state_scheme) devsw \<Rightarrow> nat \<Rightarrow> uchar list \<Rightarrow> uint \<Rightarrow> uint \<Rightarrow> 'a fs_state_scheme
    \<Rightarrow> (int \<times> 'a fs_state_scheme) outcome" where
  "writei dv ip src off n s =
     (let i = icache s ip in
      if i_type i = T_DEV then
        (if \<not> major_ok (i_major i) then Ret (-1, s)
         else case devwrite dv (unat (i_major i)) of
             None \<Rightarrow> Ret (-1, s)
           | Some f \<Rightarrow> f ip (take (unat n) src) s)
      else if off + n < off then Ret (-1, s)
      else
        (let n1 = (if off + n > MAXFILE * BSIZE then MAXFILE * BSIZE - off else n) in
         obind (writei_loop ip src off 0 n1 s) (\<lambda>(off1, s1).
         obind (if n1 > 0 \<and> off1 > i_size (icache s1 ip)
                then iupdate ip (upd_inode ip (\<lambda>i. i\<lparr>i_size := off1\<rparr>) s1) else Ret s1) (\<lambda>s2.
         Ret (sint n1, s2)))))"

definition checki :: "nat \<Rightarrow> int \<Rightarrow> 'a fs_state_scheme \<Rightarrow> (int \<times> 'a fs_state_scheme) outcome" where
  "checki ip off s =
     obind (bmap ip (of_int (if off < 0 then - (- off div 512) else off div 512)) False s) (\<lambda>(bn, s1).
       if sint bn < 0 then Ret (0, s1) else Ret (bcheck (i_dev (icache s1 ip)) bn s1, s1))"

end
