(* ===== verification/Dirs.thy ===== *)
theory Dirs
  imports Fs
begin

text \<open>
  Directories and path names of \<^verbatim>\<open>fs.c\<close>: a directory is an inode whose contents are 16-byte entries, and
  a path is resolved by looking up its elements one after the other.
\<close>

section \<open>Directories\<close>

definition SLASH :: uchar where "SLASH = 47"

primrec hd0 :: "uchar list \<Rightarrow> uchar" where
  "hd0 [] = 0"
| "hd0 (c # cs) = c"

text \<open>\<^verbatim>\<open>strncmp\<close> on strings given by their bytes; a byte past the end of the list is the terminating zero.\<close>

primrec strncmp_bytes :: "nat \<Rightarrow> uchar list \<Rightarrow> uchar list \<Rightarrow> int" where
  "strncmp_bytes 0 p q = 0"
| "strncmp_bytes (Suc k) p q =
     (if hd0 p \<noteq> 0 \<and> hd0 p = hd0 q then strncmp_bytes k (tl p) (tl q) else uint (hd0 p) - uint (hd0 q))"

definition namecmp :: "uchar list \<Rightarrow> uchar list \<Rightarrow> int" where
  "namecmp s t = strncmp_bytes DIRSIZ s t"

record dirent =
  de_inum :: ushort
  de_name :: "uchar list"

definition get_dirent :: "bytes \<Rightarrow> nat \<Rightarrow> dirent" where
  "get_dirent d p = \<lparr>de_inum = get_u16 d p, de_name = map (\<lambda>i. d (p + 2 + i)) [0 ..< DIRSIZ]\<rparr>"

text \<open>\<^verbatim>\<open>strncpy(de.name, name, DIRSIZ)\<close>\<close>

definition pad_name :: "uchar list \<Rightarrow> uchar list" where
  "pad_name name = take DIRSIZ (name @ replicate DIRSIZ 0)"

definition dirent_bytes :: "dirent \<Rightarrow> uchar list" where
  "dirent_bytes de = [ucast (de_inum de), ucast (drop_bit 8 (de_inum de))] @ de_name de"

definition find_dirent :: "uchar list \<Rightarrow> bytes \<Rightarrow> nat option" where
  "find_dirent name d =
     List.find (\<lambda>p. de_inum (get_dirent d p) \<noteq> 0 \<and> namecmp name (de_name (get_dirent d p)) = 0)
       (map (\<lambda>k. 16 * k) [0 ..< 32])"

text \<open>
  A directory has at most \<^verbatim>\<open>size / BSIZE + 1\<close> blocks, the fuel given by \<open>dirlookup\<close>; only when the offset
  wraps around at \<open>2 ^ 32\<close> does the loop go on past them.
\<close>

primrec dirlookup_loop :: "nat \<Rightarrow> uint \<Rightarrow> nat \<Rightarrow> uchar list \<Rightarrow> 'a fs_state_scheme
    \<Rightarrow> ((nat \<times> uint) option \<times> 'a fs_state_scheme) outcome" where
  "dirlookup_loop 0 off dp name s = (if off < i_size (icache s dp) then Blocked ''dirlookup'' else Ret (None, s))"
| "dirlookup_loop (Suc k) off dp name s =
     (if off < i_size (icache s dp) then
        obind (bmap dp (off div BSIZE) False s) (\<lambda>(bn, s1).
        obind (bread (i_dev (icache s1 dp)) bn s1) (\<lambda>(bp, s2).
        let d = b_data (bufs s2 bp) in
        obind (brelse bp s2) (\<lambda>s3.
          case find_dirent name d of
            Some p \<Rightarrow>
              obind (iget (i_dev (icache s3 dp)) (ucast (de_inum (get_dirent d p))) s3) (\<lambda>(ip, s4).
              Ret (Some (ip, off + of_nat p), s4))
          | None \<Rightarrow> dirlookup_loop k (off + BSIZE) dp name s3)))
      else Ret (None, s))"

definition dirlookup :: "nat \<Rightarrow> uchar list \<Rightarrow> 'a fs_state_scheme
    \<Rightarrow> ((nat \<times> uint) option \<times> 'a fs_state_scheme) outcome" where
  "dirlookup dp name s =
     (if i_type (icache s dp) \<noteq> T_DIR then Panic ''dirlookup not DIR''
      else dirlookup_loop (unat (i_size (icache s dp) div BSIZE) + 1) 0 dp name s)"

text \<open>The search of \<open>dirlink\<close> for an empty entry; it ends at the first one or at the end of the directory.\<close>

primrec dirlink_scan :: "nat \<Rightarrow> ('a fs_state_scheme) devsw \<Rightarrow> uint \<Rightarrow> nat \<Rightarrow> 'a fs_state_scheme
    \<Rightarrow> (uint \<times> 'a fs_state_scheme) outcome" where
  "dirlink_scan 0 dv off dp s = (if off < i_size (icache s dp) then Blocked ''dirlink'' else Ret (off, s))"
| "dirlink_scan (Suc k) dv off dp s =
     (if off < i_size (icache s dp) then
        obind (readi dv dp off 16 s) (\<lambda>(r, cs, s1).
          if r \<noteq> 16 then Panic ''dirlink read''
          else if de_inum (get_dirent (\<lambda>i. cs ! i) 0) = 0 then Ret (off, s1)
          else dirlink_scan k dv (off + 16) dp s1)
      else Ret (off, s))"

definition dirlink :: "('a fs_state_scheme) devsw \<Rightarrow> nat \<Rightarrow> uchar list \<Rightarrow> uint \<Rightarrow> 'a fs_state_scheme
    \<Rightarrow> (int \<times> 'a fs_state_scheme) outcome" where
  "dirlink dv dp name ino s =
     obind (dirlookup dp name s) (\<lambda>(r, s1).
       case r of
         Some (ip, _) \<Rightarrow> obind (iput ip s1) (\<lambda>s2. Ret (-1, s2))
       | None \<Rightarrow>
           obind (dirlink_scan (unat (i_size (icache s1 dp) div 16) + 1) dv 0 dp s1) (\<lambda>(off, s2).
           obind (writei dv dp (dirent_bytes \<lparr>de_inum = ucast ino, de_name = pad_name name\<rparr>) off 16 s2) (\<lambda>(w, s3).
             if w \<noteq> 16 then Panic ''dirlink'' else Ret (0, s3))))"

section \<open>Path names\<close>

text \<open>The next element of a path, cut to 14 bytes, and the rest of the path without leading slashes.\<close>

definition skipelem :: "uchar list \<Rightarrow> (uchar list \<times> uchar list) option" where
  "skipelem path =
     (let p = dropWhile (\<lambda>c. c = SLASH) path in
      if p = [] then None
      else Some (take DIRSIZ (takeWhile (\<lambda>c. c \<noteq> SLASH) p),
                 dropWhile (\<lambda>c. c = SLASH) (dropWhile (\<lambda>c. c \<noteq> SLASH) p)))"

lemma skipelem_length: "skipelem path = Some (name, rest) \<Longrightarrow> length rest < length path"
proof -
  assume a: "skipelem path = Some (name, rest)"
  define p where "p = dropWhile (\<lambda>c. c = SLASH) path"
  have "p \<noteq> []" "rest = dropWhile (\<lambda>c. c = SLASH) (dropWhile (\<lambda>c. c \<noteq> SLASH) p)"
    using a unfolding p_def by (auto simp: skipelem_def Let_def split: if_splits)
  moreover from this(1) have "hd p \<noteq> SLASH" unfolding p_def by (rule hd_dropWhile)
  ultimately have "length rest \<le> length (tl p)"
    by (cases p) (auto intro: order_trans [OF length_dropWhile_le length_dropWhile_le])
  moreover have "length p \<le> length path" unfolding p_def by (rule length_dropWhile_le)
  ultimately show ?thesis using \<open>p \<noteq> []\<close> by (cases p) auto
qed

text \<open>
  The loop of \<open>_namei\<close>: the result is the inode, or none, with the last element copied into \<^verbatim>\<open>name\<close>.
\<close>

function namei_loop :: "bool \<Rightarrow> nat \<Rightarrow> uchar list \<Rightarrow> uchar list \<Rightarrow> 'a fs_state_scheme
    \<Rightarrow> ((nat \<times> uchar list) option \<times> 'a fs_state_scheme) outcome" where
  "namei_loop parent ip path nm s =
     (case skipelem path of
        None \<Rightarrow> if parent then obind (iput ip s) (\<lambda>s1. Ret (None, s1)) else Ret (Some (ip, nm), s)
      | Some (name, rest) \<Rightarrow>
          obind (ilock (Some ip) s) (\<lambda>s1.
            if i_type (icache s1 ip) \<noteq> T_DIR then obind (iunlockput ip s1) (\<lambda>s2. Ret (None, s2))
            else if parent \<and> rest = [] then obind (iunlock (Some ip) s1) (\<lambda>s2. Ret (Some (ip, name), s2))
            else
              obind (dirlookup ip name s1) (\<lambda>(r, s2).
                case r of
                  None \<Rightarrow> obind (iunlockput ip s2) (\<lambda>s3. Ret (None, s3))
                | Some (next, _) \<Rightarrow> obind (iunlockput ip s2) (\<lambda>s3. namei_loop parent next rest name s3))))"
  by pat_completeness auto
termination
  by (relation "measure (\<lambda>(parent, ip, path, nm, s). length path)") (auto dest: skipelem_length)

declare namei_loop.simps [simp del]

text \<open>\<open>cwd\<close> is \<^verbatim>\<open>cp->cwd\<close>.\<close>

definition namei_start :: "bool \<Rightarrow> nat option \<Rightarrow> uchar list \<Rightarrow> 'a fs_state_scheme
    \<Rightarrow> ((nat \<times> uchar list) option \<times> 'a fs_state_scheme) outcome" where
  "namei_start parent cwd path s =
     (if hd0 path = SLASH then obind (iget ROOTDEV 1 s) (\<lambda>(ip, s1). namei_loop parent ip path [] s1)
      else case cwd of
          None \<Rightarrow> Fault ''cp->cwd''
        | Some c \<Rightarrow> (let (ip, s1) = idup c s in namei_loop parent ip path [] s1))"

definition namei :: "nat option \<Rightarrow> uchar list \<Rightarrow> 'a fs_state_scheme \<Rightarrow> (nat option \<times> 'a fs_state_scheme) outcome" where
  "namei cwd path s = obind (namei_start False cwd path s) (\<lambda>(r, s1). Ret (map_option fst r, s1))"

definition nameiparent :: "nat option \<Rightarrow> uchar list \<Rightarrow> 'a fs_state_scheme
    \<Rightarrow> ((nat \<times> uchar list) option \<times> 'a fs_state_scheme) outcome" where
  "nameiparent cwd path s = namei_start True cwd path s"

end
