(* ===== verification/FsInode.thy ===== *)
theory FsInode
  imports Dirs
begin

text \<open>
  Properties of the on-disk inode format and of the inode cache: an inode written to its block reads
  back unchanged and leaves its neighbours alone, and no inode is ever cached twice.
\<close>

section \<open>The on-disk inode\<close>

lemma put_addrs_u32: "q + 4 \<le> p \<or> p + 4 * k \<le> q \<Longrightarrow> get_u32 (put_addrs k p a d) q = get_u32 d q"
  by (induction k) auto

lemma get_u16_put_u32 [simp]: "j + 2 \<le> i \<or> i + 4 \<le> j \<Longrightarrow> get_u16 (put_u32 d i v) j = get_u16 d j"
  by (auto simp: get_u16_def put_u32_def)

lemma get_u32_put_u16 [simp]: "j + 4 \<le> i \<or> i + 2 \<le> j \<Longrightarrow> get_u32 (put_u16 d i v) j = get_u32 d j"
  by (auto simp: get_u32_def put_u16_def)

lemma put_addrs_u16: "q + 2 \<le> p \<or> p + 4 * k \<le> q \<Longrightarrow> get_u16 (put_addrs k p a d) q = get_u16 d q"
  by (induction k) auto

lemma put_addrs_nth: "i < k \<Longrightarrow> get_u32 (put_addrs k p a d) (p + 4 * i) = a i"
proof (induction k)
  case (Suc k)
  show ?case
  proof (cases "i = k")
    case True
    then show ?thesis by simp
  next
    case False
    then have "get_u32 (put_addrs (Suc k) p a d) (p + 4 * i) = get_u32 (put_addrs k p a d) (p + 4 * i)"
      using Suc.prems by simp
    then show ?thesis using Suc False by simp
  qed
qed simp

lemma get_put_dinode:
  "d_type (get_dinode (put_dinode d p di) p) = d_type di"
  "d_major (get_dinode (put_dinode d p di) p) = d_major di"
  "d_minor (get_dinode (put_dinode d p di) p) = d_minor di"
  "d_nlink (get_dinode (put_dinode d p di) p) = d_nlink di"
  "d_size (get_dinode (put_dinode d p di) p) = d_size di"
  "i < NADDRS \<Longrightarrow> d_addrs (get_dinode (put_dinode d p di) p) i = d_addrs di i"
  using put_addrs_nth [of i NADDRS "p + 12"]
  by (simp_all add: get_dinode_def put_dinode_def put_addrs_u32 put_addrs_u16)

lemma put_dinode_outside: "k < p \<or> p + 64 \<le> k \<Longrightarrow> put_dinode d p di k = d k"
proof -
  have "put_addrs m q a e k = e k" if "k < q \<or> q + 4 * m \<le> k" for m q a and e :: bytes
    using that by (induction m) (auto simp: put_u32_outside)
  then show "k < p \<or> p + 64 \<le> k \<Longrightarrow> put_dinode d p di k = d k"
    by (auto simp: put_dinode_def NADDRS_def put_u32_outside put_u16_outside)
qed

lemma get_dinode_cong:
  assumes "\<forall>k. q \<le> k \<and> k < q + 64 \<longrightarrow> d' k = d k"
  shows "load_dinode (get_dinode d' q) j = load_dinode (get_dinode d q) j"
  using assms by (auto simp: load_dinode_def get_dinode_def get_u16_def get_u32_def NADDRS_def fun_eq_iff)

lemma dinode_off_inj:
  assumes "IBLOCK m = IBLOCK n" "m \<noteq> n"
  shows "dinode_off m + 64 \<le> dinode_off n \<or> dinode_off n + 64 \<le> dinode_off m"
proof -
  have "m div IPB = n div IPB" using assms(1) by (simp add: IBLOCK_def)
  then have "m mod IPB \<noteq> n mod IPB" using assms(2) by (metis div_mult_mod_eq)
  then have "unat (m mod IPB) \<noteq> unat (n mod IPB)" by (metis unsigned_word_eqI)
  then show ?thesis unfolding dinode_off_def by linarith
qed


definition demo_inode :: inode where
  "demo_inode = \<lparr>i_dev = 1, i_inum = 10, i_ref = 1, i_flags = {I_VALID}, i_type = T_FILE, i_major = 0, i_minor = 0,
     i_nlink = 1, i_size = 0, i_addrs = (\<lambda>_. 0)\<rparr>"


section \<open>What the buffer cache leaves alone\<close>

named_theorems frame

lemma ide_start_request_more: "ide_start_request b s = Ret s' \<Longrightarrow> ide_state.more s' = ide_state.more s"
  by (auto simp: ide_start_request_def Let_def)

lemma ide_complete_more [simp]: "ide_state.more (ide_complete s) = ide_state.more s"
  by (simp add: ide_complete_def split: option.split ide_cmd.split)

lemma ide_intr_more: "ide_intr s = Ret s' \<Longrightarrow> ide_state.more s' = ide_state.more s"
  by (auto simp: ide_intr_def Let_def upd_buf_def dest!: ide_start_request_more split: list.splits if_splits)

lemma ide_wait_buf_more: "ide_wait_buf b s = Ret s' \<Longrightarrow> ide_state.more s' = ide_state.more s"
proof (induction b s arbitrary: s' rule: ide_wait_buf.induct)
  case (1 b s)
  show ?case
  proof (cases "b_flags (buf_of b s) \<inter> {B_VALID, B_DIRTY} = {B_VALID} \<or> ide_queue s = []")
    case True
    then show ?thesis using 1(2) by (subst (asm) ide_wait_buf.simps) (simp split: if_splits)
  next
    case False
    then obtain x where "ide_intr (ide_complete s) = Ret x" "ide_wait_buf b x = Ret s'"
      using 1(2) by (subst (asm) ide_wait_buf.simps) auto
    then show ?thesis using 1(1) [of x s'] False ide_intr_more by fastforce
  qed
qed

lemma bio_more_of_ide:
  fixes s s' :: "'a bio_state_scheme"
  shows "ide_state.more s' = ide_state.more s \<Longrightarrow> bio_state.more s' = bio_state.more s"
  by (cases s, cases s') simp

lemma ide_rw_more [frame]:
  fixes s s' :: "'a bio_state_scheme"
  assumes "ide_rw b s = Ret s'" shows "bio_state.more s' = bio_state.more s"
  using assms by (intro bio_more_of_ide)
    (auto simp: ide_rw_def Let_def split: if_splits dest!: ide_start_request_more ide_wait_buf_more)

lemma upd_more [simp]:
  fixes s :: "'a bio_state_scheme"
  shows "bio_state.more (upd_buf b f s) = bio_state.more s" "bio_state.more (upd_data b g s) = bio_state.more s"
    "bio_state.more (set_flags b fs s) = bio_state.more s" "bio_state.more (set_sector b n s) = bio_state.more s"
  by (simp_all add: upd_data_def set_flags_def set_sector_def upd_buf_def)

lemma bget_more [frame]: "bget dev n s = Ret (b, s') \<Longrightarrow> bio_state.more s' = bio_state.more s"
  by (auto simp: bget_def split: option.splits if_splits)

lemma bread_more [frame]: "bread dev n s = Ret (b, s') \<Longrightarrow> bio_state.more s' = bio_state.more s"
  by (auto simp: bread_def split: if_splits dest!: frame)

lemma bwrite_more [frame]: "bwrite b s = Ret s' \<Longrightarrow> bio_state.more s' = bio_state.more s"
  by (auto simp: bwrite_def Let_def split: if_splits)

lemma jbrelse_more [frame]: "jbrelse b s = Ret s' \<Longrightarrow> bio_state.more s' = bio_state.more s"
  by (auto simp: jbrelse_def split: if_splits)

lemma brelse_more [frame]: "brelse b s = Ret s' \<Longrightarrow> bio_state.more s' = bio_state.more s"
  by (auto simp: brelse_def split: if_splits dest: frame)

lemma flush_bufs_more [frame]: "flush_bufs bs s = Ret s' \<Longrightarrow> bio_state.more s' = bio_state.more s"
  by (induction bs arbitrary: s) (auto split: if_splits dest!: frame)

lemma flush_nodes_more [frame]: "flush_nodes k cur stop s = Ret s' \<Longrightarrow> bio_state.more s' = bio_state.more s"
  by (induction k arbitrary: cur s) (auto simp: Let_def split: if_splits option.splits dest!: frame)

lemma sl_more [simp]: "bio_state.more (release_sl s) = bio_state.more s"
  by (simp add: release_sl_def)

lemma acquire_sl_more [frame]: "acquire_sl s = Ret s' \<Longrightarrow> bio_state.more s' = bio_state.more s"
  by (auto simp: acquire_sl_def split: if_splits)

lemma jfull_flush_more [frame]: "jfull_flush s = Ret s' \<Longrightarrow> bio_state.more s' = bio_state.more s"
  by (auto simp: jfull_flush_def split: if_splits option.splits dest!: frame)

lemma jbwrite_more [frame]: "jbwrite b s = Ret s' \<Longrightarrow> bio_state.more s' = bio_state.more s"
  by (auto simp: jbwrite_def Let_def split: if_splits option.splits dest!: frame)

lemma fill_blocklist_more [frame]: "fill_blocklist hb i bs s = Ret s' \<Longrightarrow> bio_state.more s' = bio_state.more s"
  by (induction bs arbitrary: i s) (auto split: if_splits)

lemma jwrite_bufs_more [frame]: "jwrite_bufs bs s = Ret s' \<Longrightarrow> bio_state.more s' = bio_state.more s"
  by (induction bs arbitrary: s) (auto dest!: frame)

lemma append_trans_more [frame]: "append_trans t s = Ret s' \<Longrightarrow> bio_state.more s' = bio_state.more s"
  by (auto simp: append_trans_def Let_def resetcurtrans_def split: option.splits)

lemma end_trans_more [frame]: "end_trans s = Ret s' \<Longrightarrow> bio_state.more s' = bio_state.more s"
  by (auto simp: end_trans_def Let_def split: if_splits option.splits dest!: frame)

lemma commit_flush_more [frame]: "commit_flush s = Ret s' \<Longrightarrow> bio_state.more s' = bio_state.more s"
  by (auto simp: commit_flush_def dest!: frame)

lemma icache_of_more:
  fixes s s' :: "'a fs_state_scheme"
  shows "bio_state.more s' = bio_state.more s \<Longrightarrow> icache s' = icache s"
  by (cases s, cases s') simp

section \<open>References to cached inodes\<close>

text \<open>The reference counts and the identities of the cached inodes.\<close>

definition inode_ids :: "'a fs_state_scheme \<Rightarrow> nat \<Rightarrow> int \<times> uint \<times> uint" where
  "inode_ids s k = (i_ref (icache s k), i_dev (icache s k), i_inum (icache s k))"

named_theorems ids

lemma inode_ids_more:
  assumes "bio_state.more s' = bio_state.more s" shows "inode_ids s' = inode_ids s"
  using icache_of_more [OF assms] by (simp add: inode_ids_def fun_eq_iff)

lemma inode_ids_upd [simp]: "inode_ids (upd_buf b f s) = inode_ids s" "inode_ids (upd_data b g s) = inode_ids s"
  by (rule inode_ids_more, simp)+

lemma inode_ids_upd_inode:
  "inode_ids (upd_inode ip f s) =
     (inode_ids s)(ip := (i_ref (f (icache s ip)), i_dev (f (icache s ip)), i_inum (f (icache s ip))))"
  by (auto simp: inode_ids_def upd_inode_def)

lemma inode_ids_same [simp]:
  "i_ref (f (icache s ip)) = i_ref (icache s ip) \<Longrightarrow> i_dev (f (icache s ip)) = i_dev (icache s ip) \<Longrightarrow>
    i_inum (f (icache s ip)) = i_inum (icache s ip) \<Longrightarrow> inode_ids (upd_inode ip f s) = inode_ids s"
  by (auto simp: inode_ids_def upd_inode_def)

lemma cache_ids [ids]:
  "bread dev n s = Ret (b, s') \<Longrightarrow> inode_ids s' = inode_ids s"
  "bwrite b s = Ret s' \<Longrightarrow> inode_ids s' = inode_ids s"
  "brelse b s = Ret s' \<Longrightarrow> inode_ids s' = inode_ids s"
  "commit_flush s = Ret s' \<Longrightarrow> inode_ids s' = inode_ids s"
  by (auto intro!: inode_ids_more dest: frame)

lemma readsb_ids [ids]: "readsb dev s = Ret (sb, s') \<Longrightarrow> inode_ids s' = inode_ids s"
  by (auto simp: readsb_def dest!: ids)

lemma bzero_ids [ids]: "bzero dev b s = Ret s' \<Longrightarrow> inode_ids s' = inode_ids s"
  by (auto simp: bzero_def dest!: ids)

lemma balloc_loop_ids [ids]: "balloc_loop k b sb dev s = Ret (a, s') \<Longrightarrow> inode_ids s' = inode_ids s"
  by (induction k arbitrary: b s) (auto split: if_splits option.splits dest!: ids)

lemma balloc_ids [ids]: "balloc dev s = Ret (a, s') \<Longrightarrow> inode_ids s' = inode_ids s"
  by (auto simp: balloc_def simp del: balloc_loop.simps dest!: ids)

lemma bfree_ids [ids]: "bfree dev b s = Ret s' \<Longrightarrow> inode_ids s' = inode_ids s"
  by (auto simp: bfree_def Let_def split: if_splits dest!: ids)

lemma iupdate_ids [ids]: "iupdate ip s = Ret s' \<Longrightarrow> inode_ids s' = inode_ids s"
  by (auto simp: iupdate_def Let_def dest!: ids)

lemma load_dinode_ids [simp]:
  "i_ref (load_dinode di i) = i_ref i" "i_dev (load_dinode di i) = i_dev i" "i_inum (load_dinode di i) = i_inum i"
  by (simp_all add: load_dinode_def)

lemma ilock_ids [ids]: "ilock p s = Ret s' \<Longrightarrow> inode_ids s' = inode_ids s"
  by (auto simp: ilock_def Let_def split: option.splits if_splits dest!: ids)

lemma iunlock_ids [ids]: "iunlock p s = Ret s' \<Longrightarrow> inode_ids s' = inode_ids s"
  by (auto simp: iunlock_def split: option.splits if_splits)

lemma bmap_slot_ids [ids]: "bmap_slot ip k alloc s = Ret (r, s') \<Longrightarrow> inode_ids s' = inode_ids s"
  by (auto simp: bmap_slot_def Let_def split: if_splits dest!: ids)

lemma bmap_entry_ids [ids]: "bmap_entry dev addr loc alloc s = Ret (r, s') \<Longrightarrow> inode_ids s' = inode_ids s"
  by (auto simp: bmap_entry_def Let_def split: if_splits dest!: ids)

lemma bmap_ids [ids]: "bmap ip bn alloc s = Ret (r, s') \<Longrightarrow> inode_ids s' = inode_ids s"
  by (auto simp: bmap_def Let_def split: if_splits option.splits dest!: ids)

lemma free_ids [ids]:
  "free_direct ks ip s = Ret s' \<Longrightarrow> inode_ids s' = inode_ids s"
  "free_entries ks b s = Ret s' \<Longrightarrow> inode_ids s' = inode_ids s"
proof (induction ks arbitrary: s)
  case (Cons k ks)
  case 1
  then show ?case by (auto split: if_splits dest!: Cons ids)
next
  case (Cons k ks)
  case 2
  then show ?case by (auto dest!: Cons ids)
qed simp_all

lemma free_indirect_ids [ids]: "free_indirect js ip bp s = Ret s' \<Longrightarrow> inode_ids s' = inode_ids s"
  by (induction js arbitrary: s) (auto simp: Let_def split: if_splits dest!: ids)

lemma itrunc_ids [ids]: "itrunc ip s = Ret s' \<Longrightarrow> inode_ids s' = inode_ids s"
  by (auto simp: itrunc_def split: if_splits dest!: ids)

definition count_ref :: "nat \<Rightarrow> int \<Rightarrow> (nat \<Rightarrow> int \<times> uint \<times> uint) \<Rightarrow> nat \<Rightarrow> int \<times> uint \<times> uint" where
  "count_ref ip n ids = ids(ip := (fst (ids ip) + n, snd (ids ip)))"

lemma inode_ids_ref [simp]:
  "inode_ids (upd_inode ip (\<lambda>i. i\<lparr>i_ref := i_ref i + n\<rparr>) s) = count_ref ip n (inode_ids s)"
  "inode_ids (upd_inode ip (\<lambda>i. i\<lparr>i_ref := i_ref i - m\<rparr>) s) = count_ref ip (- m) (inode_ids s)"
  by (auto simp: count_ref_def inode_ids_def upd_inode_def)

lemma iput_ids [ids]: "iput ip s = Ret s' \<Longrightarrow> inode_ids s' = count_ref ip (-1) (inode_ids s)"
  by (auto simp: iput_def Let_def split: if_splits dest!: ids)

lemma iunlockput_ids [ids]: "iunlockput ip s = Ret s' \<Longrightarrow> inode_ids s' = count_ref ip (-1) (inode_ids s)"
  by (auto simp: iunlockput_def dest!: ids)

text \<open>
  The inode cache is consistent when no two entries in use stand for the same inode and no count is
  negative.  \<open>inode_refs\<close> relates two states between which references have been taken: entries in use keep
  their identity, and the counts differ by the given references.
\<close>

definition icache_ok :: "'a fs_state_scheme \<Rightarrow> bool" where
  "icache_ok s \<longleftrightarrow> (\<forall>j < NINODE. \<forall>k < NINODE. 0 < fst (inode_ids s j) \<and> 0 < fst (inode_ids s k)
       \<and> snd (inode_ids s j) = snd (inode_ids s k) \<longrightarrow> j = k)
     \<and> (\<forall>k < NINODE. 0 \<le> fst (inode_ids s k))"

definition inode_refs :: "(nat \<Rightarrow> int) \<Rightarrow> 'a fs_state_scheme \<Rightarrow> 'a fs_state_scheme \<Rightarrow> bool" where
  "inode_refs n s s' \<longleftrightarrow> (\<forall>k. fst (inode_ids s' k) = fst (inode_ids s k) + n k
     \<and> (fst (inode_ids s k) \<noteq> 0 \<longrightarrow> snd (inode_ids s' k) = snd (inode_ids s k)))"

definition one_ref :: "nat option \<Rightarrow> nat \<Rightarrow> int" where
  "one_ref r k = (if r = Some k then 1 else 0)"

lemma one_ref_simps [simp]: "one_ref None = (\<lambda>_. 0)" "one_ref (Some ip) ip = 1"
  by (simp_all add: one_ref_def fun_eq_iff)

lemma one_ref_nonneg [simp]: "0 \<le> one_ref r k"
  by (simp add: one_ref_def)

lemma iget_refs:
  assumes "iget dev inum s = Ret (ip, s')" "icache_ok s"
  shows "ip < NINODE \<and> inode_ids s' ip = (fst (inode_ids s' ip), dev, inum)
    \<and> icache_ok s' \<and> inode_refs (one_ref (Some ip)) s s'"
proof (cases "List.find (\<lambda>k. 0 < i_ref (icache s k) \<and> i_dev (icache s k) = dev \<and> i_inum (icache s k) = inum) [0 ..< NINODE]")
  case (Some k)
  then have k: "k < NINODE" "snd (inode_ids s k) = (dev, inum)" "0 < fst (inode_ids s k)"
    by (auto simp: find_Some_iff inode_ids_def)
  have "k = ip" "inode_ids s' = count_ref ip 1 (inode_ids s)"
    using assms(1) Some by (auto simp: iget_def)
  then show ?thesis using assms(2) k
    by (auto simp: icache_ok_def inode_refs_def one_ref_def count_ref_def)
next
  case None
  then have none: "\<forall>k < NINODE. 0 < fst (inode_ids s k) \<longrightarrow> snd (inode_ids s k) \<noteq> (dev, inum)"
    by (auto simp: find_None_iff inode_ids_def)
  have find: "List.find (\<lambda>k. i_ref (icache s k) = 0) [0 ..< NINODE] = Some ip"
    and ids: "inode_ids s' = (inode_ids s)(ip := (1, dev, inum))"
    using assms(1) None by (auto simp: iget_def inode_ids_upd_inode split: option.splits)
  from find have "ip < NINODE" "fst (inode_ids s ip) = 0" by (auto simp: find_Some_iff inode_ids_def)
  then show ?thesis using assms(2) none ids
    by (auto simp: icache_ok_def inode_refs_def one_ref_def)
qed

lemma icache_ok_same: "inode_ids s' = inode_ids s \<Longrightarrow> icache_ok s' = icache_ok s"
  by (simp add: icache_ok_def)

lemma dirlookup_loop_refs:
  "dirlookup_loop k off dp name s = Ret (r, s') \<Longrightarrow> icache_ok s \<Longrightarrow>
    icache_ok s' \<and> inode_refs (one_ref (map_option fst r)) s s' \<and> (\<forall>ip. map_option fst r = Some ip \<longrightarrow> ip < NINODE)"
proof (induction k arbitrary: off s)
  case 0
  then show ?case by (auto simp: inode_refs_def one_ref_def split: if_splits)
next
  case (Suc k)
  show ?case
  proof (cases "off < i_size (icache s dp)")
    case False
    then show ?thesis using Suc.prems by (auto simp: inode_refs_def one_ref_def)
  next
    case True
    then obtain bn s1 bp s2 s3 where
      ret: "bmap dp (off div BSIZE) False s = Ret (bn, s1)" "bread (i_dev (icache s1 dp)) bn s1 = Ret (bp, s2)"
        "brelse bp s2 = Ret s3"
      and rest: "(case find_dirent name (b_data (bufs s2 bp)) of
            Some p \<Rightarrow>
              obind (iget (i_dev (icache s3 dp)) (ucast (de_inum (get_dirent (b_data (bufs s2 bp)) p))) s3) (\<lambda>(ip, s4).
              Ret (Some (ip, off + of_nat p), s4))
          | None \<Rightarrow> dirlookup_loop k (off + BSIZE) dp name s3) = Ret (r, s')"
      using Suc.prems(1) by (auto simp: Let_def)
    have same: "inode_ids s3 = inode_ids s" using ret by (auto dest!: ids)
    then have ok: "icache_ok s3" using Suc.prems(2) by (simp add: icache_ok_def)
    show ?thesis
    proof (cases "find_dirent name (b_data (bufs s2 bp))")
      case None
      then show ?thesis using Suc.IH [OF _ ok] rest same by (simp add: inode_refs_def)
    next
      case (Some p)
      then show ?thesis using rest same iget_refs [OF _ ok] by (fastforce simp: inode_refs_def)
    qed
  qed
qed

lemma dirlookup_refs:
  "dirlookup dp name s = Ret (r, s') \<Longrightarrow> icache_ok s \<Longrightarrow>
    icache_ok s' \<and> inode_refs (one_ref (map_option fst r)) s s' \<and> (\<forall>ip. map_option fst r = Some ip \<longrightarrow> ip < NINODE)"
  unfolding dirlookup_def by (auto simp del: dirlookup_loop.simps split: if_splits dest: dirlookup_loop_refs)

lemma refs_put:
  assumes "icache_ok s0" "icache_ok s" "inode_refs n s0 s" "ip < NINODE" "1 \<le> n ip"
    and "inode_ids s' = count_ref ip (-1) (inode_ids s)"
  shows "icache_ok s' \<and> inode_refs (\<lambda>k. n k - one_ref (Some ip) k) s0 s'"
proof -
  have "1 \<le> fst (inode_ids s ip)" using assms(1,3-5) by (auto simp: icache_ok_def inode_refs_def)
  then show ?thesis
    using assms(2,3,6) unfolding icache_ok_def inode_refs_def count_ref_def one_ref_def by auto
qed

lemma refs_add:
  assumes "icache_ok s0" "inode_refs n s0 s" "inode_refs m s s'" "\<forall>k. 0 \<le> n k" "\<forall>k. NINODE \<le> k \<longrightarrow> fst (inode_ids s0 k) = 0"
  shows "inode_refs (\<lambda>k. n k + m k) s0 s'"
  unfolding inode_refs_def
proof
  fix k
  have "0 \<le> fst (inode_ids s0 k)" using assms(1,5) by (cases "k < NINODE") (auto simp: icache_ok_def)
  moreover have "fst (inode_ids s k) = fst (inode_ids s0 k) + n k" "0 \<le> n k" using assms(2,4) by (auto simp: inode_refs_def)
  ultimately have "fst (inode_ids s0 k) \<noteq> 0 \<Longrightarrow> fst (inode_ids s k) \<noteq> 0" by linarith
  then show "fst (inode_ids s' k) = fst (inode_ids s0 k) + (n k + m k)
    \<and> (fst (inode_ids s0 k) \<noteq> 0 \<longrightarrow> snd (inode_ids s' k) = snd (inode_ids s0 k))"
    using assms(2,3) by (auto simp: inode_refs_def)
qed

text \<open>Only the entries of the table count references.\<close>

definition in_table :: "'a fs_state_scheme \<Rightarrow> bool" where
  "in_table s \<longleftrightarrow> (\<forall>k. NINODE \<le> k \<longrightarrow> fst (inode_ids s k) = 0)"

lemma namei_loop_refs:
  "namei_loop parent ip path nm s = Ret (r, s') \<Longrightarrow> icache_ok s0 \<Longrightarrow> in_table s0 \<Longrightarrow> icache_ok s
    \<Longrightarrow> ip < NINODE \<Longrightarrow> inode_refs (one_ref (Some ip)) s0 s
    \<Longrightarrow> icache_ok s' \<and> inode_refs (one_ref (map_option fst r)) s0 s'"
proof (induction parent ip path nm s rule: namei_loop.induct)
  case (1 parent ip path nm s)
  note s0 = 1(3,4) and ok = 1(5) and ip = 1(6) and refs = 1(7)
  have put: "icache_ok t' \<and> inode_refs (one_ref None) s0 t'"
    if "inode_ids t = inode_ids s" "inode_ids t' = count_ref ip (-1) (inode_ids t)" for t t'
    using refs_put [OF s0(1) ok refs ip] that by simp
  have same: "icache_ok t \<and> inode_refs (one_ref (Some ip)) s0 t" if "inode_ids t = inode_ids s" for t
    using that ok refs by (simp add: icache_ok_def inode_refs_def)
  show ?case
  proof (cases "skipelem path")
    case None
    then show ?thesis using 1(2) put [of s] same [of s] by (auto split: if_splits dest!: ids simp: namei_loop.simps [of _ _ path])
  next
    case (Some p)
    obtain name rest where p: "p = (name, rest)" by (cases p)
    obtain s1 where lock: "ilock (Some ip) s = Ret s1" using 1(2) Some p by (auto simp: namei_loop.simps [of _ _ path])
    then have s1: "inode_ids s1 = inode_ids s" by (auto dest!: ids)
    consider "i_type (icache s1 ip) \<noteq> T_DIR" | "i_type (icache s1 ip) = T_DIR" "parent \<and> rest = []"
      | "i_type (icache s1 ip) = T_DIR" "\<not> (parent \<and> rest = [])" by blast
    then show ?thesis
    proof cases
      case 1
      then show ?thesis using "1.prems"(1) Some p lock put [OF s1] by (auto dest!: ids simp: namei_loop.simps [of _ _ path])
    next
      case 2
      then show ?thesis using "1.prems"(1) Some p lock s1 same by (auto dest!: ids simp: namei_loop.simps [of _ _ path])
    next
      case 3
      then obtain q s2 where look: "dirlookup ip name s1 = Ret (q, s2)"
        using "1.prems"(1) Some p lock by (auto simp: namei_loop.simps [of _ _ path] split: if_splits)
      note d = dirlookup_refs [OF look] same [OF s1]
      have add: "inode_refs (\<lambda>k. one_ref (Some ip) k + one_ref (map_option fst q) k) s0 s2"
        using d s0 by (intro refs_add [of s0 _ s1]) (auto simp: in_table_def)
      have pos: "1 \<le> one_ref (Some ip) ip + one_ref (map_option fst q) ip" by (simp add: one_ref_def)
      have unput: "icache_ok s3 \<and> inode_refs (one_ref (map_option fst q)) s0 s3" if "iunlockput ip s2 = Ret s3" for s3
        using refs_put [OF s0(1) _ add ip pos iunlockput_ids [OF that]] d by simp
      show ?thesis
      proof (cases q)
        case None
        then show ?thesis using "1.prems"(1) Some p lock 3 look unput by (auto simp: namei_loop.simps [of _ _ path] split: if_splits)
      next
        case (Some nx)
        obtain nxt o' where nx: "nx = (nxt, o')" by (cases nx)
        obtain s3 where s3: "iunlockput ip s2 = Ret s3" "namei_loop parent nxt rest name s3 = Ret (r, s')"
          using "1.prems"(1) \<open>skipelem path = Some p\<close> p lock 3 look Some nx
          by (auto simp: namei_loop.simps [of _ _ path] split: if_splits)
        show ?thesis
          using "1.IH" [OF \<open>skipelem path = Some p\<close> p [symmetric] lock _ _ look refl Some nx [symmetric] s3] 3 s0 unput [OF s3(1)] d Some nx
          by auto
      qed
    qed
  qed
qed

lemma namei_start_refs:
  assumes "namei_start parent cwd path s = Ret (r, s')" "icache_ok s" "in_table s" "\<forall>c. cwd = Some c \<longrightarrow> c < NINODE \<and> 0 < i_ref (icache s c)"
  shows "icache_ok s' \<and> inode_refs (one_ref (map_option fst r)) s s'"
proof (cases "hd0 path = SLASH")
  case True
  then obtain ip s1 where "iget ROOTDEV 1 s = Ret (ip, s1)" "namei_loop parent ip path [] s1 = Ret (r, s')"
    using assms(1) by (auto simp: namei_start_def)
  then show ?thesis using namei_loop_refs [OF _ assms(2,3)] iget_refs [OF _ assms(2)] by blast
next
  case False
  then obtain c where c: "cwd = Some c" "namei_loop parent c path [] (snd (idup c s)) = Ret (r, s')"
    using assms(1) by (auto simp: namei_start_def idup_def split: option.splits)
  have "inode_ids (snd (idup c s)) = count_ref c 1 (inode_ids s)" by (simp add: idup_def)
  then have "icache_ok (snd (idup c s)) \<and> inode_refs (one_ref (Some c)) s (snd (idup c s))"
    using assms(2,4) c(1) by (auto simp: icache_ok_def inode_refs_def one_ref_def count_ref_def inode_ids_def)
  then show ?thesis using namei_loop_refs [OF c(2) assms(2,3)] assms(4) c(1) by blast
qed

text \<open>
  C15: Resolving a path neither leaks nor loses references: whatever the path, when \<open>namei\<close> returns, the
  count of the inode it returns has grown by one and all other counts are as before; inodes that were
  in use keep their place in the cache, and no inode is cached twice.
\<close>

theorem namei_references:
  assumes "icache_ok s" "in_table s" "cwd = Some c" "c < NINODE" "0 < i_ref (icache s c)" "namei cwd path s = Ret (r, s')"
  shows "icache_ok s' \<and> (\<forall>k. i_ref (icache s' k) = i_ref (icache s k) + (if r = Some k then 1 else 0))
    \<and> (\<forall>k. i_ref (icache s k) \<noteq> 0 \<longrightarrow> i_dev (icache s' k) = i_dev (icache s k) \<and> i_inum (icache s' k) = i_inum (icache s k))"
proof -
  obtain q where q: "namei_start False cwd path s = Ret (q, s')" "r = map_option fst q"
    using assms(6) by (auto simp: namei_def)
  then show ?thesis using namei_start_refs [OF q(1) assms(1,2)] assms(3-5)
    by (auto simp: inode_refs_def inode_ids_def one_ref_def)
qed

text \<open>The witness resolves the empty path, which names the current directory.\<close>

definition demo_fs :: fs_state where
  "demo_fs = bio_state.extend (demo_boot demo_disk) \<lparr>icache = (\<lambda>k. demo_inode\<lparr>i_ref := (if k = 3 then 1 else 0)\<rparr>)\<rparr>"

theorem namei_references_witness:
  "\<exists>s'. namei (Some 3) [] demo_fs = Ret (Some 3, s') \<and> i_ref (icache s' 3) = 2 \<and> i_ref (icache s' 4) = 0 \<and> icache_ok s'"
proof -
  have fs: "icache demo_fs = (\<lambda>k. demo_inode\<lparr>i_ref := (if k = 3 then 1 else 0)\<rparr>)"
    by (simp add: demo_fs_def bio_state.extend_def)
  have ret: "namei (Some 3) [] demo_fs = Ret (Some 3, snd (idup 3 demo_fs))"
    by (simp add: namei_def namei_start_def namei_loop.simps skipelem_def SLASH_def idup_def)
  have "icache_ok demo_fs" "in_table demo_fs"
    by (simp_all add: icache_ok_def in_table_def inode_ids_def fs NINODE_def)
  from namei_references [OF this refl _ _ ret] have "icache_ok (snd (idup 3 demo_fs))"
      "\<forall>k. i_ref (icache (snd (idup 3 demo_fs)) k) = i_ref (icache demo_fs k) + (if Some 3 = Some k then 1 else 0)"
    by (simp_all add: fs NINODE_def)
  then show ?thesis using ret by (simp add: fs)
qed

end
