(* ===== verification/FsRead.thy ===== *)
theory FsRead
  imports FsInode
begin

text \<open>
  Reading files: what \<open>readi\<close> returns is what the blocks of the file hold on disk, and path names are
  split the way their declarative reading says.
\<close>

section \<open>Reading a block\<close>

text \<open>
  \<open>quiet\<close>: the driver is idle, unlocked buffers agree with the disk, and one of them is free.
  \<open>locked\<close>: some process holds the block.
\<close>

definition quiet :: "'a bio_state_scheme \<Rightarrow> bool" where
  "quiet s \<longleftrightarrow> ide_idle s \<and> cache_inv s \<and> (\<exists>b \<in> set (lru s). B_BUSY \<notin> b_flags (bufs s b))
     \<and> (\<forall>b \<in> set (lru s). B_BUSY \<notin> b_flags (bufs s b) \<longrightarrow> B_DIRTY \<notin> b_flags (bufs s b)
          \<and> (B_VALID \<in> b_flags (bufs s b) \<longrightarrow> b_data (bufs s b) = disk s (blk_of (bufs s b))))"

definition locked :: "uint \<Rightarrow> uint \<Rightarrow> 'a bio_state_scheme \<Rightarrow> bool" where
  "locked dev n s \<longleftrightarrow> (\<exists>b \<in> set (lru s). cached dev n s b \<and> B_BUSY \<in> b_flags (bufs s b))"

text \<open>The state after a block has been read into \<open>b\<close> and released: only \<open>b\<close>, now free, may differ.\<close>

definition read_state :: "uint \<Rightarrow> uint \<Rightarrow> nat \<Rightarrow> 'a bio_state_scheme \<Rightarrow> 'a bio_state_scheme \<Rightarrow> bool" where
  "read_state dev n b s t \<longleftrightarrow> ide_idle t \<and> cache_inv t \<and> disk t = disk s \<and> disk_1_present t = disk_1_present s
     \<and> curmt t = curmt s \<and> bio_state.more t = bio_state.more s \<and> set (lru t) = set (lru s)
     \<and> (\<forall>c. c \<noteq> b \<longrightarrow> bufs t c = bufs s c)
     \<and> B_VALID \<in> b_flags (bufs t b) \<and> b_dev (bufs t b) = dev \<and> b_sector (bufs t b) = n
     \<and> b_data (bufs t b) = disk s (blkno dev n)"

lemma bread_disk:
  assumes "quiet s" "dev = 0 \<or> disk_1_present s" "\<not> locked dev n s"
  shows "\<exists>b s1. bread dev n s = Ret (b, s1) \<and> read_state dev n b s s1 \<and> lru s1 = lru s \<and> b \<in> set (lru s)
    \<and> B_BUSY \<notin> b_flags (bufs s b) \<and> b_flags (bufs s1 b) = {B_BUSY, B_VALID}"
proof -
  have q: "ide_idle s" "cache_inv s" using assms(1) by (auto simp: quiet_def)
  note cases = bread_cases [OF q(1) assms(2), of n]
  have "bget_case dev n s \<noteq> Busy b" for b
    using assms(3) by (auto simp: bget_case_def locked_def find_Some_iff split: option.splits if_splits)
  moreover have "bget_case dev n s \<noteq> Full"
    using assms(1) by (auto simp: bget_case_def quiet_def find_None_iff split: option.splits if_splits)
  ultimately obtain b s1 where read: "bread dev n s = Ret (b, s1)"
    using cases by (cases "bget_case dev n s") auto
  note ok = bread_ok [OF q(1) assms(2) q(2) read]
  have "b_flags (bufs s1 b) = {B_BUSY, B_VALID} \<and> b_data (bufs s1 b) = disk s (blkno dev n) \<and> disk_1_present s1 = disk_1_present s"
  proof (cases "bget_case dev n s")
    case (Hit c)
    note h = bget_case_Hit [OF Hit]
    have c: "c = b" "s1 = s\<lparr>bufs := (bufs s)(b := (bufs s b)\<lparr>b_flags := insert B_BUSY (b_flags (bufs s b))\<rparr>)\<rparr>"
      using read cases Hit by auto
    have "B_VALID \<in> b_flags (bufs s b)" "B_DIRTY \<notin> b_flags (bufs s b)" "B_BUSY \<notin> b_flags (bufs s b)"
      "b_data (bufs s b) = disk s (blk_of (bufs s b))"
      using h c assms(1) by (auto simp: quiet_def cached_def)
    moreover have "blk_of (bufs s b) = blkno dev n" using h c by (auto simp: blk_of_def blkno_def cached_def)
    ultimately show ?thesis using c(2) bflag.exhaust by auto
  next
    case (Miss c)
    then have c: "c = b" "s1 = s\<lparr>ide_datain := disk s (blkno dev n), bufs := (bufs s)(b := loaded dev n (disk s) (bufs s b))\<rparr>"
      using read cases by auto
    then show ?thesis by (auto simp: loaded_def)
  qed (use read cases in auto)
  then show ?thesis using read ok bread_more [OF read] by (intro exI [of _ b] exI [of _ s1]) (simp add: read_state_def)
qed

lemma read_release:
  assumes "quiet s" "dev = 0 \<or> disk_1_present s" "\<not> locked dev n s"
  shows "\<exists>b s1 s2. bread dev n s = Ret (b, s1) \<and> b_data (bufs s1 b) = disk s (blkno dev n) \<and> brelse b s1 = Ret s2
    \<and> quiet s2 \<and> disk s2 = disk s \<and> disk_1_present s2 = disk_1_present s \<and> curmt s2 = curmt s
    \<and> bio_state.more s2 = bio_state.more s \<and> (\<forall>d m. locked d m s2 = locked d m s)"
proof -
  obtain b s1 where read: "bread dev n s = Ret (b, s1)" and st: "read_state dev n b s s1" "lru s1 = lru s"
    and b: "b \<in> set (lru s)" "B_BUSY \<notin> b_flags (bufs s b)" "b_flags (bufs s1 b) = {B_BUSY, B_VALID}"
    using bread_disk [OF assms] by blast
  define s2 where "s2 = upd_buf b (\<lambda>bf. bf\<lparr>b_flags := {B_VALID}\<rparr>) (s1\<lparr>lru := b # remove1 b (lru s1)\<rparr>)"
  have flags: "{B_BUSY, B_VALID} - {B_BUSY} = {B_VALID}" by auto
  have rel: "brelse b s1 = Ret s2" using b(3) by (simp add: brelse_def jbrelse_def s2_def upd_buf_def flags)
  have lru: "set (lru s2) = set (lru s)" "distinct (lru s2)"
    using b(1) st by (auto simp: s2_def upd_buf_def read_state_def cache_inv_def)
  have bufs: "bufs s2 c = (if c = b then (bufs s1 b)\<lparr>b_flags := {B_VALID}\<rparr> else bufs s c)" for c
    using st by (simp add: s2_def upd_buf_def read_state_def)
  have more: "bio_state.more s2 = bio_state.more s" using st by (simp add: s2_def upd_buf_def read_state_def)
  have act: "active s2 c = active s1 c \<and> b_dev (bufs s2 c) = b_dev (bufs s1 c) \<and> b_sector (bufs s2 c) = b_sector (bufs s1 c)" for c
    using b(3) by (auto simp: s2_def upd_buf_def active_def)
  have inv: "cache_inv s2"
    using st lru act unfolding read_state_def cache_inv_def [of s1] cache_inv_def [of s2] by auto
  have "quiet s2"
    using assms(1) st inv lru b bufs unfolding quiet_def read_state_def
    by (auto simp: blk_of_def blkno_def s2_def upd_buf_def ide_idle_def)
  moreover have "(cached d m s2 c \<and> B_BUSY \<in> b_flags (bufs s2 c)) = (cached d m s c \<and> B_BUSY \<in> b_flags (bufs s c))" for d m c
    using b bufs [of c] by (cases "c = b") (auto simp: cached_def)
  then have "locked d m s2 = locked d m s" for d m
    using lru by (simp add: locked_def)
  ultimately show ?thesis
    using read rel st(1) more by (intro exI [of _ b] exI [of _ s1] exI [of _ s2]) (auto simp: read_state_def s2_def upd_buf_def)
qed
section \<open>The blocks of a file\<close>

text \<open>
  The block that holds block \<open>bn\<close> of a file, for an inode \<open>i\<close> and the contents \<open>dk\<close> of the disk, and all
  the blocks the lookup may read.
\<close>

definition ind_entry :: "uint \<Rightarrow> (blkid \<Rightarrow> bytes) \<Rightarrow> uint \<Rightarrow> nat \<Rightarrow> uint" where
  "ind_entry dev dk n j = get_u32 (dk (blkno dev n)) (4 * j)"

definition file_addr :: "inode \<Rightarrow> (blkid \<Rightarrow> bytes) \<Rightarrow> uint \<Rightarrow> uint" where
  "file_addr i dk bn =
     (if bn < NDIRECT then i_addrs i (unat bn)
      else if i_addrs i INDIRECT = 0 then 0
      else (let a = ind_entry (i_dev i) dk (i_addrs i INDIRECT) (unat ((bn - NDIRECT) div 128)) in
        if a = 0 then 0 else ind_entry (i_dev i) dk a (unat ((bn - NDIRECT) mod 128))))"

definition file_blocks :: "inode \<Rightarrow> (blkid \<Rightarrow> bytes) \<Rightarrow> uint set" where
  "file_blocks i dk = i_addrs i ` {..<NADDRS}
     \<union> ind_entry (i_dev i) dk (i_addrs i INDIRECT) ` {..<128}
     \<union> (\<Union>j \<in> {..<128}. ind_entry (i_dev i) dk (ind_entry (i_dev i) dk (i_addrs i INDIRECT) j) ` {..<128})"

definition file_byte :: "inode \<Rightarrow> (blkid \<Rightarrow> bytes) \<Rightarrow> nat \<Rightarrow> uchar" where
  "file_byte i dk k = dk (blkno (i_dev i) (file_addr i dk (of_nat (k div 512)))) (k mod 512)"

text \<open>The state in which a read of the file \<open>ip\<close> goes through.\<close>

definition file_ready :: "nat \<Rightarrow> 'a fs_state_scheme \<Rightarrow> bool" where
  "file_ready ip s \<longleftrightarrow> quiet s \<and> (i_dev (icache s ip) = 0 \<or> disk_1_present s)
     \<and> (\<forall>n \<in> file_blocks (icache s ip) (disk s). \<not> locked (i_dev (icache s ip)) n s)"

definition same_files :: "'a fs_state_scheme \<Rightarrow> 'a fs_state_scheme \<Rightarrow> bool" where
  "same_files s s' \<longleftrightarrow> icache s' = icache s \<and> disk s' = disk s"

lemma read_file_block:
  assumes "file_ready ip s" "n \<in> file_blocks (icache s ip) (disk s)"
  shows "\<exists>b s1 s2. bread (i_dev (icache s ip)) n s = Ret (b, s1) \<and> b_data (bufs s1 b) = disk s (blkno (i_dev (icache s ip)) n)
    \<and> brelse b s1 = Ret s2 \<and> file_ready ip s2 \<and> same_files s s2"
proof -
  obtain b s1 s2 where "bread (i_dev (icache s ip)) n s = Ret (b, s1)" "b_data (bufs s1 b) = disk s (blkno (i_dev (icache s ip)) n)"
    "brelse b s1 = Ret s2" "quiet s2" "disk s2 = disk s" "disk_1_present s2 = disk_1_present s"
    "bio_state.more s2 = bio_state.more s" "\<forall>d m. locked d m s2 = locked d m s"
    using read_release [of s "i_dev (icache s ip)" n] assms by (auto simp: file_ready_def)
  moreover from this(7) have "icache s2 = icache s" by (rule icache_of_more)
  ultimately show ?thesis using assms(1) by (auto simp: file_ready_def same_files_def)
qed

lemma bmap_entry_read:
  assumes "file_ready ip s" "n \<in> file_blocks (icache s ip) (disk s)"
  shows "\<exists>s'. bmap_entry (i_dev (icache s ip)) n j False s =
      Ret (let a = ind_entry (i_dev (icache s ip)) (disk s) n j in if a = 0 then None else Some a, s')
    \<and> file_ready ip s' \<and> same_files s s'"
proof -
  obtain b s1 s2 where "bread (i_dev (icache s ip)) n s = Ret (b, s1)" "b_data (bufs s1 b) = disk s (blkno (i_dev (icache s ip)) n)"
    "brelse b s1 = Ret s2" "file_ready ip s2" "same_files s s2"
    using read_file_block [OF assms] by blast
  then show ?thesis by (auto simp: bmap_entry_def Let_def ind_entry_def)
qed

lemma unat_div_mod_128:
  "x < NININDIRECT \<Longrightarrow> unat (x div 128) < 128" "unat (x mod 128 :: uint) < 128"
proof -
  assume "x < NININDIRECT"
  then have "unat x < 128 * 128" by (simp add: word_less_nat_alt NININDIRECT_def)
  then show "unat (x div 128) < 128" by (simp add: unat_div less_mult_imp_div_less)
qed (simp add: unat_mod)

lemma bmap_read:
  assumes "file_ready ip s" "bn < MAXFILE" "file_addr (icache s ip) (disk s) bn \<noteq> 0"
  shows "\<exists>s'. bmap ip bn False s = Ret (file_addr (icache s ip) (disk s) bn, s') \<and> file_ready ip s' \<and> same_files s s'"
proof (cases "bn < NDIRECT")
  case True
  then show ?thesis using assms by (auto simp: bmap_def bmap_slot_def Let_def file_addr_def same_files_def)
next
  case False
  let ?i = "icache s ip" and ?dev = "i_dev (icache s ip)" and ?d = "disk s"
  let ?ind = "i_addrs ?i INDIRECT" and ?j = "unat ((bn - NDIRECT) div 128)" and ?k = "unat ((bn - NDIRECT) mod 128)"
  let ?a = "ind_entry ?dev ?d ?ind ?j"
  have lt: "bn - NDIRECT < NININDIRECT"
    using assms(2) False by (simp add: MAXFILE_def word_less_nat_alt unat_sub word_le_nat_alt not_less)
      (simp add: NDIRECT_def NININDIRECT_def)
  have nz: "?ind \<noteq> 0" "?a \<noteq> 0" and addr: "file_addr ?i ?d bn = ind_entry ?dev ?d ?a ?k"
    using assms(3) False by (auto simp: file_addr_def Let_def split: if_splits)
  have jk: "?j < 128" "?k < 128" using lt unat_div_mod_128 by auto
  have in1: "?ind \<in> file_blocks ?i ?d" by (auto simp: file_blocks_def INDIRECT_def NADDRS_def)
  have in2: "?a \<in> file_blocks ?i ?d" using jk by (auto simp: file_blocks_def)
  obtain s1 where s1: "bmap_entry ?dev ?ind ?j False s = Ret (Some ?a, s1)" "file_ready ip s1" "same_files s s1"
    using bmap_entry_read [OF assms(1) in1, of ?j] nz by auto
  have same1: "icache s1 ip = ?i" "disk s1 = ?d" using s1(3) by (auto simp: same_files_def)
  have r: "ind_entry ?dev ?d ?a ?k \<noteq> 0" using addr assms(3) by simp
  obtain s2 where s2: "bmap_entry ?dev ?a ?k False s1 = Ret (Some (ind_entry ?dev ?d ?a ?k), s2)" "file_ready ip s2" "same_files s1 s2"
    using bmap_entry_read [OF s1(2), of ?a ?k] in2 same1 r by auto
  have "bmap ip bn False s = Ret (file_addr ?i ?d bn, s2)"
    using False lt nz s1(1) s2(1) addr by (simp add: bmap_def bmap_slot_def Let_def)
  then show ?thesis using s2 s1 by (auto simp: same_files_def)
qed

section \<open>readi\<close>

text \<open>Every block of the file up to its size is there, and the size is within the limit.\<close>

definition file_whole :: "inode \<Rightarrow> (blkid \<Rightarrow> bytes) \<Rightarrow> bool" where
  "file_whole i dk \<longleftrightarrow> unat (i_size i) \<le> 16396 * 512
     \<and> (\<forall>bn. 512 * unat bn < unat (i_size i) \<longrightarrow> file_addr i dk bn \<noteq> 0)"

lemma file_addr_block: "bn < MAXFILE \<Longrightarrow> file_addr i dk bn \<noteq> 0 \<Longrightarrow> file_addr i dk bn \<in> file_blocks i dk"
proof (cases "bn < NDIRECT")
  case True
  then have "unat bn < NADDRS" by (simp add: word_less_nat_alt NDIRECT_def NADDRS_def)
  then show ?thesis using True by (auto simp: file_addr_def file_blocks_def)
next
  case False
  assume "bn < MAXFILE" "file_addr i dk bn \<noteq> 0"
  moreover have "bn - NDIRECT < NININDIRECT"
    using \<open>bn < MAXFILE\<close> False by (simp add: MAXFILE_def word_less_nat_alt unat_sub word_le_nat_alt not_less)
      (simp add: NDIRECT_def NININDIRECT_def)
  ultimately have "\<exists>j k. j < 128 \<and> k < 128 \<and> file_addr i dk bn
      = ind_entry (i_dev i) dk (ind_entry (i_dev i) dk (i_addrs i INDIRECT) j) k"
    using False unat_div_mod_128 [of "bn - NDIRECT"] by (auto simp: file_addr_def Let_def split: if_splits)
  then show ?thesis by (auto simp: file_blocks_def)
qed

lemma readi_chunk:
  assumes "file_ready ip s" "file_whole (icache s ip) (disk s)" "tot < n"
    and "unat off + (unat n - unat tot) \<le> unat (i_size (icache s ip))"
  shows "\<exists>s'. readi_loop ip off tot n s =
      obind (readi_loop ip (off + chunk off tot n) (tot + chunk off tot n) n s') (\<lambda>(cs, s4).
        Ret (map (file_byte (icache s ip) (disk s)) [unat off ..< unat off + unat (chunk off tot n)] @ cs, s4))
    \<and> file_ready ip s' \<and> same_files s s'"
proof -
  let ?i = "icache s ip" and ?d = "disk s" and ?bn = "off div BSIZE" and ?m = "unat (chunk off tot n)"
  have bn: "unat ?bn = unat off div 512" and om: "unat (off mod BSIZE) = unat off mod 512"
    by (simp_all add: BSIZE_def unat_div unat_mod)
  have "unat tot < unat n" using assms(3) by (simp add: word_less_nat_alt)
  then have off: "unat off < unat (i_size ?i)" using assms(4) by linarith
  have "512 * unat ?bn \<le> unat off" unfolding bn by simp
  then have lt: "512 * unat ?bn < unat (i_size ?i)" using off by linarith
  then have nz: "file_addr ?i ?d ?bn \<noteq> 0" using assms(2) by (simp add: file_whole_def)
  have "unat ?bn < 16396" using lt assms(2) by (simp add: file_whole_def)
  then have max: "?bn < MAXFILE" by (simp add: word_less_nat_alt MAXFILE_def NDIRECT_def NININDIRECT_def)
  obtain s1 where s1: "bmap ip ?bn False s = Ret (file_addr ?i ?d ?bn, s1)" "file_ready ip s1" "same_files s s1"
    using bmap_read [OF assms(1) max nz] by blast
  have same: "icache s1 = icache s" "disk s1 = disk s" using s1(3) by (auto simp: same_files_def)
  obtain b s2 s3 where s2: "bread (i_dev ?i) (file_addr ?i ?d ?bn) s1 = Ret (b, s2)"
      "b_data (bufs s2 b) = ?d (blkno (i_dev ?i) (file_addr ?i ?d ?bn))"
    and s3: "brelse b s2 = Ret s3" "file_ready ip s3" "same_files s1 s3"
    using read_file_block [OF s1(2), of "file_addr ?i ?d ?bn"] file_addr_block [OF max nz] by (auto simp: same)
  have m: "unat off mod 512 + ?m \<le> 512"
    using unat_chunk [OF assms(3), of off] by simp
  have "map (b_data (bufs s2 b)) [unat off mod 512 ..< unat off mod 512 + ?m]
      = map (file_byte ?i ?d) [unat off ..< unat off + ?m]"
  proof (rule nth_equalityI)
    fix j assume "j < length (map (b_data (bufs s2 b)) [unat off mod 512 ..< unat off mod 512 + ?m])"
    then have j: "j < ?m" by simp
    have r: "unat off mod 512 + j < 512" using m j by linarith
    have eq: "unat off + j = 512 * (unat off div 512) + (unat off mod 512 + j)" by simp
    have "(unat off + j) div 512 = unat off div 512"
      by (subst eq, subst div_mult_self4) (use r in simp_all)
    moreover have "(unat off + j) mod 512 = unat off mod 512 + j"
      by (subst eq, subst mod_mult_self4) (use r in simp_all)
    moreover have "of_nat (unat off div 512) = ?bn" by (simp flip: bn)
    ultimately show "map (b_data (bufs s2 b)) [unat off mod 512 ..< unat off mod 512 + ?m] ! j
        = map (file_byte ?i ?d) [unat off ..< unat off + ?m] ! j"
      using j s2(2) by (simp add: file_byte_def)
  qed simp
  then have "readi_loop ip off tot n s =
      obind (readi_loop ip (off + chunk off tot n) (tot + chunk off tot n) n s3) (\<lambda>(cs, s4).
        Ret (map (file_byte ?i ?d) [unat off ..< unat off + ?m] @ cs, s4))"
    using assms(3) by (subst readi_loop.simps) (simp add: s1(1) s2(1) s3(1) same om Let_def)
  then show ?thesis using s3 same s1(3) by (intro exI [of _ s3]) (auto simp: same_files_def)
qed

lemma readi_loop_reads:
  assumes "file_ready ip s" "file_whole (icache s ip) (disk s)"
    and "unat off + (unat n - unat tot) \<le> unat (i_size (icache s ip))"
  shows "\<exists>s'. readi_loop ip off tot n s
      = Ret (map (file_byte (icache s ip) (disk s)) [unat off ..< unat off + (unat n - unat tot)], s')
    \<and> file_ready ip s' \<and> same_files s s'"
  using assms
proof (induction "unat n - unat tot" arbitrary: off tot s rule: less_induct)
  case less
  show ?case
  proof (cases "tot < n")
    case False
    then have "unat n - unat tot = 0" by (simp add: word_less_nat_alt)
    then show ?thesis using False less.prems(1) by (simp add: readi_loop.simps same_files_def)
  next
    case True
    let ?m = "chunk off tot n" and ?i = "icache s ip"
    note pr = chunk_progress [OF True, of off]
    obtain s1 where step: "readi_loop ip off tot n s =
        obind (readi_loop ip (off + ?m) (tot + ?m) n s1) (\<lambda>(cs, s4).
          Ret (map (file_byte ?i (disk s)) [unat off ..< unat off + unat ?m] @ cs, s4))"
      and s1: "file_ready ip s1" "same_files s s1"
      using readi_chunk [OF less.prems(1,2) True less.prems(3)] by blast
    have lt: "unat n - unat (tot + ?m) < unat n - unat tot" using pr by linarith
    have "unat off + unat ?m \<le> unat (i_size ?i)" using less.prems(3) pr(3) by linarith
    moreover have "unat (i_size ?i) < 2 ^ 32" using unsigned_less [of "i_size ?i", where ?'a = nat] by simp
    ultimately have off: "unat (off + ?m) = unat off + unat ?m" by (intro unat_add_uint) linarith
    have same: "icache s1 = icache s" "disk s1 = disk s" using s1(2) by (auto simp: same_files_def)
    have le: "unat (off + ?m) + (unat n - unat (tot + ?m)) \<le> unat (i_size (icache s1 ip))"
      using off pr less.prems(3) same by simp
    obtain s2 where s2: "readi_loop ip (off + ?m) (tot + ?m) n s1
        = Ret (map (file_byte ?i (disk s)) [unat (off + ?m) ..< unat (off + ?m) + (unat n - unat (tot + ?m))], s2)"
      "file_ready ip s2" "same_files s1 s2"
      using less.hyps [OF lt s1(1) _ le] less.prems(2) same by auto
    have cnt: "unat off + unat ?m + (unat n - unat (tot + ?m)) = unat off + (unat n - unat tot)"
      unfolding pr(2) using pr(3) by linarith
    have "[unat off ..< unat off + unat ?m] @ [unat off + unat ?m ..< unat off + (unat n - unat tot)]
        = [unat off ..< unat off + (unat n - unat tot)]"
      using pr(3) upt_add_eq_append [of "unat off" "unat off + unat ?m" "(unat n - unat tot) - unat ?m"] by simp
    then have "readi_loop ip off tot n s
        = Ret (map (file_byte ?i (disk s)) [unat off ..< unat off + (unat n - unat tot)], s2)"
      unfolding step s2(1) obind.simps prod.case off cnt by (simp flip: map_append)
    then show ?thesis using s2 same by (auto simp: same_files_def)
  qed
qed

lemma readi_whole:
  assumes "file_ready ip s" "file_whole (icache s ip) (disk s)" "i_type (icache s ip) \<noteq> T_DEV"
    and "unat off \<le> unat (i_size (icache s ip))" "unat off + unat n < 2 ^ 32"
  shows "\<exists>s'. readi dv ip off n s
      = (let len = min (unat n) (unat (i_size (icache s ip)) - unat off) in
         Ret (int len, map (file_byte (icache s ip) (disk s)) [unat off ..< unat off + len], s'))
    \<and> quiet s' \<and> icache s' = icache s \<and> disk s' = disk s"
proof -
  let ?sz = "i_size (icache s ip)"
  let ?n1 = "if off + n > ?sz then ?sz - off else n" and ?len = "min (unat n) (unat ?sz - unat off)"
  have sum: "unat (off + n) = unat off + unat n" using assms(5) by (rule unat_add_uint)
  have le: "off \<le> ?sz" using assms(4) by (simp add: word_le_nat_alt)
  have n1: "unat ?n1 = ?len" using sum unat_sub [OF le] by (simp add: word_less_nat_alt)
  have max: "unat ?sz \<le> 16396 * 512" using assms(2) by (simp add: file_whole_def)
  have len: "unat off + ?len \<le> unat ?sz" using assms(4) by simp
  have "?len \<le> 16396 * 512" using max len by linarith
  then have "unat ?n1 < 2 ^ 31" using n1 by (simp del: min.bounded_iff)
  then have int: "sint ?n1 = int ?len" using n1 by (simp add: sint_small)
  obtain s' where s': "readi_loop ip off 0 ?n1 s = Ret (map (file_byte (icache s ip) (disk s)) [unat off ..< unat off + ?len], s')"
    "file_ready ip s'" "same_files s s'"
    using readi_loop_reads [OF assms(1,2), of off ?n1 0] len n1 by auto
  have guard: "\<not> (off > ?sz \<or> off + n < off)" using le sum by (simp add: word_less_nat_alt word_le_nat_alt)
  have "readi dv ip off n s = Ret (int ?len, map (file_byte (icache s ip) (disk s)) [unat off ..< unat off + ?len], s')"
    unfolding readi_def Let_def using assms(3) guard s'(1) int by (simp only: if_False if_True obind.simps prod.case)
  then show ?thesis using s' by (auto simp: Let_def same_files_def file_ready_def)
qed

text \<open>
  C14: \<open>readi\<close> implements reading a file: on a file whose blocks are all present and not held by another
  process it returns the bytes from \<open>off\<close> on, as many as asked for or as there are up to the end of the file,
  and it changes neither the inodes nor the disk.
\<close>

theorem readi_reads_file:
  assumes "file_ready ip s" "file_whole (icache s ip) (disk s)" "i_type (icache s ip) \<noteq> T_DEV"
    and "unat off \<le> unat (i_size (icache s ip))" "unat off + unat n < 2 ^ 32"
  shows "\<exists>s'. readi dv ip off n s
      = (let len = min (unat n) (unat (i_size (icache s ip)) - unat off) in
         Ret (int len, map (file_byte (icache s ip) (disk s)) [unat off ..< unat off + len], s'))
    \<and> quiet s' \<and> icache s' = icache s \<and> disk s' = disk s"
  using readi_whole [OF assms] .

definition no_devices :: "'s devsw" where
  "no_devices = \<lparr>devread = Map.empty, devwrite = Map.empty\<rparr>"

definition demo_file :: fs_state where
  "demo_file = bio_state.extend (demo_boot (\<lambda>_ k. of_nat k))
     \<lparr>icache = (\<lambda>k. demo_inode\<lparr>i_dev := 0, i_size := 3, i_addrs := (\<lambda>_. 300)\<rparr>)\<rparr>"

lemma demo_file_fields:
  "icache demo_file k = demo_inode\<lparr>i_dev := 0, i_size := 3, i_addrs := (\<lambda>_. 300)\<rparr>"
  "disk demo_file = (\<lambda>_ k. of_nat k)" "lru demo_file = [7, 6, 5, 4, 3, 2, 1, 0]"
  "b_flags (bufs demo_file b) = {}" "ide_idle demo_file"
  using demo_init(3) [of "\<lambda>_ k. of_nat k"] demo_lru [of "\<lambda>_ k. of_nat k"]
  by (simp_all add: demo_file_def bio_state.extend_def ide_idle_def demo_boot_def)

theorem readi_reads_file_witness:
  "\<exists>s'. readi no_devices 5 0 10 demo_file = Ret (3, [0, 1, 2], s') \<and> disk s' = disk demo_file"
proof -
  have ready: "file_ready 5 demo_file"
    by (auto simp: file_ready_def quiet_def locked_def demo_file_fields cache_inv_def active_def)
  have whole: "file_whole (icache demo_file 5) (disk demo_file)"
  proof -
    have "file_addr (icache demo_file 5) (disk demo_file) bn \<noteq> 0" if "512 * unat bn < 3" for bn
    proof -
      have "unat bn = 0" using that by linarith
      then have "bn = 0" by (simp add: unat_eq_0)
      then show ?thesis by (simp add: file_addr_def demo_file_fields NDIRECT_def)
    qed
    then show ?thesis by (simp add: file_whole_def demo_file_fields)
  qed
  have bytes: "map (file_byte (icache demo_file 5) (disk demo_file)) [0 ..< 3] = [0, 1, 2]"
    by (simp add: file_byte_def demo_file_fields upt_rec)
  show ?thesis
    using readi_reads_file [OF ready whole, of 0 10 no_devices] bytes
    by (auto simp: demo_file_fields demo_inode_def T_FILE_def T_DEV_def Let_def)
qed

section \<open>Path names\<close>

text \<open>The elements of a path as \<open>namei_loop\<close> meets them, and the path split at its slashes.\<close>

function path_elems :: "uchar list \<Rightarrow> uchar list list" where
  "path_elems path = (case skipelem path of None \<Rightarrow> [] | Some (name, rest) \<Rightarrow> name # path_elems rest)"
  by auto
termination
  by (relation "measure length") (auto dest: skipelem_length)

declare path_elems.simps [simp del]

primrec split_slashes :: "uchar list \<Rightarrow> uchar list list" where
  "split_slashes [] = [[]]"
| "split_slashes (c # cs) =
     (if c = SLASH then [] # split_slashes cs
      else (c # hd (split_slashes cs)) # tl (split_slashes cs))"

lemma split_slashes_nonempty [simp]: "split_slashes p \<noteq> []"
  by (cases p) auto

lemma split_slashes_hd: "hd (split_slashes p) = takeWhile (\<lambda>c. c \<noteq> SLASH) p"
  by (induction p) auto

lemma split_slashes_tl:
  "tl (split_slashes p) = (if SLASH \<in> set p then split_slashes (tl (dropWhile (\<lambda>c. c \<noteq> SLASH) p)) else [])"
  by (induction p) auto

lemma split_slashes_skip:
  "filter (\<lambda>e. e \<noteq> []) (split_slashes (dropWhile (\<lambda>c. c = SLASH) p)) = filter (\<lambda>e. e \<noteq> []) (split_slashes p)"
  by (induction p) auto

text \<open>
  C17: The elements that \<open>skipelem\<close> takes off a path one after the other are the non-empty parts between its
  slashes, each cut to \<^verbatim>\<open>DIRSIZ\<close> bytes.
\<close>

theorem skipelem_splits: "path_elems path = map (take DIRSIZ) (filter (\<lambda>e. e \<noteq> []) (split_slashes path))"
proof (induction path rule: path_elems.induct)
  case (1 path)
  define p where "p = dropWhile (\<lambda>c. c = SLASH) path"
  let ?e = "takeWhile (\<lambda>c. c \<noteq> SLASH) p" and ?r = "dropWhile (\<lambda>c. c \<noteq> SLASH) p"
  have skip: "filter (\<lambda>e. e \<noteq> []) (split_slashes path) = filter (\<lambda>e. e \<noteq> []) (split_slashes p)"
    unfolding p_def by (rule split_slashes_skip [symmetric])
  show ?case
  proof (cases "p = []")
    case True
    then have "skipelem path = None" by (simp add: skipelem_def p_def)
    then show ?thesis using skip True by (simp add: path_elems.simps)
  next
    case False
    then have hd: "hd p \<noteq> SLASH" unfolding p_def by (rule hd_dropWhile)
    have sk: "skipelem path = Some (take DIRSIZ ?e, dropWhile (\<lambda>c. c = SLASH) ?r)"
      using False by (simp add: skipelem_def p_def Let_def)
    have ne: "?e \<noteq> []" using False hd by (cases p) auto
    have eq: "split_slashes p = ?e # tl (split_slashes p)" by (simp flip: split_slashes_hd)
    have parts: "filter (\<lambda>e. e \<noteq> []) (split_slashes p) = ?e # filter (\<lambda>e. e \<noteq> []) (tl (split_slashes p))"
      by (subst eq) (simp only: filter.simps ne if_True not_False_eq_True)
    have "filter (\<lambda>e. e \<noteq> []) (tl (split_slashes p)) = filter (\<lambda>e. e \<noteq> []) (split_slashes ?r)"
    proof (cases "SLASH \<in> set p")
      case True
      then have "?r \<noteq> []" by (auto simp: dropWhile_eq_Nil_conv)
      then obtain q where "?r = SLASH # q" using hd_dropWhile [of "\<lambda>c. c \<noteq> SLASH" p] by (cases ?r) auto
      then show ?thesis using True by (simp add: split_slashes_tl)
    next
      case False
      then have r: "?r = []" by (auto simp: dropWhile_eq_Nil_conv)
      show ?thesis unfolding r using False by (simp add: split_slashes_tl)
    qed
    then show ?thesis
      using "1.IH" [OF sk refl] parts skip by (simp add: path_elems.simps [of path] sk split_slashes_skip)
  qed
qed

end
