(* ===== verification/Ring.thy ===== *)
theory Ring
  imports Xv6_Prelude
begin

text \<open>
  Ring buffers with free-running indices: the bytes between two 32-bit indices of an array whose size divides the
  range of the indices.  The pipes and the input buffer of the console are such buffers.
\<close>

definition ring :: "nat \<Rightarrow> (nat \<Rightarrow> 'a) \<Rightarrow> uint \<Rightarrow> uint \<Rightarrow> 'a list" where
  "ring K d a b = map (\<lambda>i. d (unat (a + of_nat i) mod K)) [0..<unat (b - a)]"

definition ring_size :: "nat \<Rightarrow> bool" where
  "ring_size K \<longleftrightarrow> 0 < K \<and> K < 2 ^ 32 \<and> K dvd 2 ^ 32"

lemma length_ring [simp]: "length (ring K d a b) = unat (b - a)"
  by (simp add: ring_def)

lemma ring_empty [simp]: "ring K d a a = []"
  by (simp add: ring_def)

lemma ring_Nil_iff: "ring K d a b = [] \<longleftrightarrow> a = b"
  by (auto simp: ring_def unat_eq_0)

lemma unat_mod_ring: "ring_size K \<Longrightarrow> unat (x + of_nat i :: uint) mod K = (unat x + i) mod K"
proof -
  assume "ring_size K"
  moreover have "unat (x + of_nat i :: uint) = (unat x + i) mod 2 ^ 32"
    by (simp add: unat_word_ariths unat_of_nat mod_add_right_eq)
  ultimately show ?thesis by (simp only: ring_size_def mod_mod_cancel)
qed

lemma ring_eq: "ring_size K \<Longrightarrow> ring K d a b = map (\<lambda>i. d ((unat a + i) mod K)) [0..<unat (b - a)]"
  by (simp add: ring_def unat_mod_ring)

lemma mod_neq_near: "i < j \<Longrightarrow> j < i + K \<Longrightarrow> (n + i) mod K \<noteq> (n + j) mod (K :: nat)"
proof
  assume ij: "i < j" "j < i + K" and eq: "(n + i) mod K = (n + j) mod K"
  then have "K dvd (n + j) - (n + i)" by (metis mod_eq_dvd_iff_nat add_le_cancel_left less_imp_le)
  then show False using ij by (auto dest: dvd_imp_le)
qed

lemma ring_index: "ring_size K \<Longrightarrow> unat b mod K = (unat a + unat (b - a)) mod K" for a b :: uint
  using unat_mod_ring [of K a "unat (b - a)"] by simp

text \<open>Storing at an index outside a stretch leaves the stretch alone.\<close>

lemma ring_store_outside:
  assumes "ring_size K" "unat (b - a) \<le> unat (x - a)" "unat (x - a) < K"
  shows "ring K (d(unat x mod K := c)) a b = ring K d a b"
  using assms mod_neq_near [of _ "unat (x - a)" K "unat a"]
  by (auto simp: ring_eq ring_index [OF assms(1), of x a])

lemma unat_dist_Suc: "ring_size K \<Longrightarrow> unat (b - a) < K \<Longrightarrow> unat (b + 1 - a) = Suc (unat (b - a))" for a b :: uint
  using unat_add_uint [of "b - a" 1] by (simp add: ring_size_def algebra_simps)

lemma ring_snoc:
  assumes "ring_size K" "unat (b - a) < K"
  shows "ring K (d(unat b mod K := c)) a (b + 1) = ring K d a b @ [c]"
  using assms mod_neq_near [of _ "unat (b - a)" K "unat a"]
  by (auto simp: ring_eq unat_dist_Suc ring_index [OF assms(1), of b a])

lemma unat_dist_pred: "a \<noteq> b \<Longrightarrow> unat (b - (a + 1)) = unat (b - a) - 1" "a \<noteq> b \<Longrightarrow> unat (b - 1 - a) = unat (b - a) - 1" for a b :: uint
  using unat_minus_one [of "b - a"] by (simp_all add: algebra_simps)

lemma ring_Cons:
  assumes "ring_size K" "a \<noteq> b"
  shows "ring K d a b = d (unat a mod K) # ring K d (a + 1) b"
proof -
  have n: "0 < unat (b - a)" using assms(2) by (simp add: unat_gt_0)
  have idx: "(unat (a + 1) + i) mod K = (unat a + Suc i) mod K" for i
    using unat_mod_ring [OF assms(1), of a 1] by (metis add.assoc mod_add_left_eq of_nat_1 plus_1_eq_Suc)
  have up: "[0..<unat (b - a)] = 0 # map Suc [0..<unat (b - a) - 1]" using n by (simp add: upt_conv_Cons map_Suc_upt)
  show ?thesis unfolding ring_eq [OF assms(1), of d a b] up
    by (simp add: ring_eq [OF assms(1)] unat_dist_pred(1) [OF assms(2)] idx comp_def)
qed

lemma ring_butlast:
  assumes "ring_size K" "a \<noteq> b"
  shows "ring K d a b = ring K d a (b - 1) @ [d (unat (b - 1) mod K)]"
proof -
  have "0 < unat (b - a)" using assms(2) by (simp add: unat_gt_0)
  then obtain n where n: "unat (b - a) = Suc n" by (cases "unat (b - a)") auto
  then have n': "unat (b - 1 - a) = n" using unat_dist_pred(2) [OF assms(2)] by simp
  show ?thesis using n n' ring_index [OF assms(1), of "b - 1" a] by (simp add: ring_eq [OF assms(1)])
qed

lemma ring_append:
  assumes "ring_size K" "unat (m - a) \<le> unat (b - a)"
  shows "ring K d a b = ring K d a m @ ring K d m b" "unat (b - m) = unat (b - a) - unat (m - a)"
proof -
  have "b - m = (b - a) - (m - a)" by simp
  then show n: "unat (b - m) = unat (b - a) - unat (m - a)"
    using assms(2) unat_sub [of "m - a" "b - a"] by (simp add: word_le_nat_alt)
  have up: "[0..<unat (b - a)] = [0..<unat (m - a)] @ map (\<lambda>i. i + unat (m - a)) [0..<unat (b - m)]"
    unfolding n map_add_upt using assms(2) upt_add_eq_append [of 0 "unat (m - a)" "unat (b - a) - unat (m - a)"] by simp
  have idx: "(unat m + i) mod K = (unat a + (i + unat (m - a))) mod K" for i
    using ring_index [OF assms(1), of m a] by (metis add.assoc add.commute mod_add_left_eq)
  show "ring K d a b = ring K d a m @ ring K d m b"
    unfolding ring_eq [OF assms(1), of d a b] up by (simp add: ring_eq [OF assms(1)] idx comp_def)
qed

end
