(* ===== verification/Pipe.thy ===== *)
theory Pipe
  imports Ring
begin

text \<open>
  Pipes (\<^verbatim>\<open>pipe.c\<close>): a ring buffer of 512 bytes with free-running 32-bit indices.  The lock of the pipe
  is held from the start of a call, or from waking up, until the call returns or sleeps, so such a
  stretch is one step.  Shown are that the buffer is a first-in first-out queue, that no byte is lost,
  duplicated or reordered however readers and writers interleave, and that no wakeup is missed.
\<close>

section \<open>The ring buffer\<close>

definition PIPESIZE :: nat where "PIPESIZE = 512"

record pipe =
  readopen :: int
  writeopen :: int
  writep :: uint
  readp :: uint
  pdata :: "nat \<Rightarrow> uchar"

definition pipe_empty :: "pipe \<Rightarrow> bool" where
  "pipe_empty p \<longleftrightarrow> readp p = writep p"

definition pipe_full :: "pipe \<Rightarrow> bool" where
  "pipe_full p \<longleftrightarrow> writep p = readp p + of_nat PIPESIZE"

definition pipe_put :: "uchar \<Rightarrow> pipe \<Rightarrow> pipe" where
  "pipe_put c p = p\<lparr>pdata := (pdata p)(unat (writep p) mod PIPESIZE := c), writep := writep p + 1\<rparr>"

definition pipe_get :: "pipe \<Rightarrow> uchar \<times> pipe" where
  "pipe_get p = (pdata p (unat (readp p) mod PIPESIZE), p\<lparr>readp := readp p + 1\<rparr>)"

text \<open>The part of \<^verbatim>\<open>pipealloc\<close> that sets up the page it got.\<close>

definition pipe_init :: "pipe \<Rightarrow> pipe" where
  "pipe_init p = p\<lparr>readopen := 1, writeopen := 1, writep := 0, readp := 0\<rparr>"

section \<open>The operations\<close>

datatype chan = ReadChan | WriteChan

text \<open>How a stretch of a call ends: it returns, with the bytes read, or sleeps with the bytes still to write.\<close>

datatype pipe_end = PRet int "uchar list" | PSleep "uchar list"

primrec write_loop :: "int \<Rightarrow> bool \<Rightarrow> uchar list \<Rightarrow> pipe \<Rightarrow> pipe_end \<times> pipe \<times> chan list" where
  "write_loop n killed [] p = (PRet n [], p, [ReadChan])"
| "write_loop n killed (b # bs) p =
     (if pipe_full p then
        if readopen p = 0 \<or> killed then (PRet (-1) [], p, []) else (PSleep (b # bs), p, [ReadChan])
      else write_loop n killed bs (pipe_put b p))"

definition pipewrite :: "bool \<Rightarrow> uchar list \<Rightarrow> pipe \<Rightarrow> pipe_end \<times> pipe \<times> chan list" where
  "pipewrite killed bs p = write_loop (int (length bs)) killed bs p"

primrec read_loop :: "nat \<Rightarrow> pipe \<Rightarrow> uchar list \<times> pipe" where
  "read_loop 0 p = ([], p)"
| "read_loop (Suc k) p =
     (if pipe_empty p then ([], p)
      else (let (c, p1) = pipe_get p; (cs, p2) = read_loop k p1 in (c # cs, p2)))"

definition piperead :: "bool \<Rightarrow> int \<Rightarrow> pipe \<Rightarrow> pipe_end \<times> pipe \<times> chan list" where
  "piperead killed n p =
     (if pipe_empty p \<and> writeopen p \<noteq> 0 then
        if killed then (PRet (-1) [], p, []) else (PSleep [], p, [])
      else (let (cs, p1) = read_loop (nat n) p in (PRet (int (length cs)) cs, p1, [WriteChan])))"

text \<open>
  \<open>pipeclose\<close> closes one end under the lock and looks at both ends only after it has released the
  lock: two steps, the second of which tells whether the caller frees the page.
\<close>

definition pipeclose_end :: "bool \<Rightarrow> pipe \<Rightarrow> pipe \<times> chan list" where
  "pipeclose_end writable p =
     (if writable then (p\<lparr>writeopen := 0\<rparr>, [ReadChan]) else (p\<lparr>readopen := 0\<rparr>, [WriteChan]))"

definition pipeclose_frees :: "pipe \<Rightarrow> bool" where
  "pipeclose_frees p \<longleftrightarrow> readopen p = 0 \<and> writeopen p = 0"

section \<open>A queue with bounded capacity\<close>

text \<open>The contract of the buffer, as the loops of \<open>piperead\<close> and \<open>pipewrite\<close> use it.\<close>

locale bounded_queue =
  fixes inv :: "'q \<Rightarrow> bool" and contents :: "'q \<Rightarrow> 'c list" and cap :: nat
    and put :: "'c \<Rightarrow> 'q \<Rightarrow> 'q" and get :: "'q \<Rightarrow> 'c \<times> 'q" and empty :: "'q \<Rightarrow> bool" and full :: "'q \<Rightarrow> bool"
  assumes bounded: "inv q \<Longrightarrow> length (contents q) \<le> cap"
    and empty_iff: "inv q \<Longrightarrow> empty q \<longleftrightarrow> contents q = []"
    and full_iff: "inv q \<Longrightarrow> full q \<longleftrightarrow> length (contents q) = cap"
    and put_inv: "inv q \<Longrightarrow> \<not> full q \<Longrightarrow> inv (put c q)"
    and put_contents: "inv q \<Longrightarrow> \<not> full q \<Longrightarrow> contents (put c q) = contents q @ [c]"
    and get_inv: "inv q \<Longrightarrow> \<not> empty q \<Longrightarrow> inv (snd (get q))"
    and get_contents: "inv q \<Longrightarrow> \<not> empty q \<Longrightarrow> fst (get q) # contents (snd (get q)) = contents q"
begin

primrec puts :: "'c list \<Rightarrow> 'q \<Rightarrow> 'q" where
  "puts [] q = q"
| "puts (c # cs) q = puts cs (put c q)"

lemma puts_contents:
  "inv q \<Longrightarrow> length (contents q) + length cs \<le> cap \<Longrightarrow> inv (puts cs q) \<and> contents (puts cs q) = contents q @ cs"
  by (induction cs arbitrary: q) (auto simp: put_inv put_contents full_iff)

primrec gets :: "nat \<Rightarrow> 'q \<Rightarrow> 'c list \<times> 'q" where
  "gets 0 q = ([], q)"
| "gets (Suc k) q = (if empty q then ([], q) else
     (let (c, q1) = get q; (cs, q2) = gets k q1 in (c # cs, q2)))"

lemma gets_contents:
  "inv q \<Longrightarrow> inv (snd (gets k q)) \<and> fst (gets k q) = take k (contents q) \<and> contents (snd (gets k q)) = drop k (contents q)"
proof (induction k arbitrary: q)
  case (Suc k)
  show ?case
  proof (cases "empty q")
    case True
    then show ?thesis using Suc.prems by (simp add: empty_iff)
  next
    case False
    obtain c q1 where g: "get q = (c, q1)" by (cases "get q")
    then have "inv q1" "contents q = c # contents q1"
      using get_inv [OF Suc.prems False] get_contents [OF Suc.prems False] by simp_all
    then show ?thesis using False Suc.IH [of q1] g by (auto simp: split_def)
  qed
qed simp

end

section \<open>The ring buffer implements the queue\<close>

definition pipe_inv :: "pipe \<Rightarrow> bool" where
  "pipe_inv p \<longleftrightarrow> unat (writep p - readp p) \<le> PIPESIZE"

definition pipe_contents :: "pipe \<Rightarrow> uchar list" where
  "pipe_contents p = ring PIPESIZE (pdata p) (readp p) (writep p)"

lemma ring_size_PIPESIZE [simp]: "ring_size PIPESIZE"
  by (simp add: ring_size_def PIPESIZE_def)

lemma length_pipe_contents [simp]: "length (pipe_contents p) = unat (writep p - readp p)"
  by (simp add: pipe_contents_def)

lemma pipe_full_iff: "pipe_full p \<longleftrightarrow> unat (writep p - readp p) = PIPESIZE"
proof -
  have "pipe_full p \<longleftrightarrow> writep p - readp p = of_nat PIPESIZE" by (auto simp: pipe_full_def algebra_simps)
  also have "\<dots> \<longleftrightarrow> unat (writep p - readp p) = unat (of_nat PIPESIZE :: uint)"
    by (metis unsigned_word_eqI)
  finally show ?thesis by (simp add: PIPESIZE_def)
qed

lemma pipe_empty_iff: "pipe_empty p \<longleftrightarrow> unat (writep p - readp p) = 0"
  by (auto simp: pipe_empty_def unat_eq_0)

lemma pipe_put_contents:
  assumes "pipe_inv p" "\<not> pipe_full p"
  shows "pipe_inv (pipe_put c p)" "pipe_contents (pipe_put c p) = pipe_contents p @ [c]"
proof -
  have n: "unat (writep p - readp p) < PIPESIZE" using assms by (simp add: pipe_inv_def pipe_full_iff)
  then show "pipe_inv (pipe_put c p)" by (simp add: pipe_inv_def pipe_put_def unat_dist_Suc [of PIPESIZE])
  show "pipe_contents (pipe_put c p) = pipe_contents p @ [c]" using n by (simp add: pipe_contents_def pipe_put_def ring_snoc)
qed

lemma pipe_get_contents:
  assumes "pipe_inv p" "\<not> pipe_empty p"
  shows "pipe_inv (snd (pipe_get p))" "fst (pipe_get p) # pipe_contents (snd (pipe_get p)) = pipe_contents p"
  using assms ring_Cons [of PIPESIZE "readp p" "writep p" "pdata p"]
  by (auto simp: pipe_inv_def pipe_get_def pipe_empty_def pipe_contents_def unat_dist_pred)

interpretation pq: bounded_queue pipe_inv pipe_contents PIPESIZE pipe_put pipe_get pipe_empty pipe_full
proof
  fix p c
  assume inv: "pipe_inv p"
  show "length (pipe_contents p) \<le> PIPESIZE" using inv by (simp add: pipe_inv_def)
  show "pipe_empty p \<longleftrightarrow> pipe_contents p = []" by (simp add: pipe_empty_def pipe_contents_def ring_Nil_iff)
  show "pipe_full p \<longleftrightarrow> length (pipe_contents p) = PIPESIZE" by (simp add: pipe_full_iff)
qed (use pipe_put_contents pipe_get_contents in auto)

lemma read_loop_gets: "read_loop k p = pq.gets k p"
  by (induction k arbitrary: p) simp_all

lemma read_loop_contents:
  "pipe_inv p \<Longrightarrow> read_loop k p = (cs, p') \<Longrightarrow>
    pipe_inv p' \<and> cs = take k (pipe_contents p) \<and> pipe_contents p' = drop k (pipe_contents p)"
  using pq.gets_contents [of p k] by (simp add: read_loop_gets)


lemma write_loop_puts:
  assumes "pipe_inv p" "write_loop n killed bs p = (r, p', w)"
  shows "\<exists>k \<le> length bs. pipe_inv p' \<and> pipe_contents p' = pipe_contents p @ take k bs
    \<and> writep p' = writep p + of_nat k \<and> readopen p' = readopen p \<and> writeopen p' = writeopen p
    \<and> (case r of
         PRet v cs \<Rightarrow> cs = [] \<and> (w = [ReadChan] \<and> v = n \<and> k = length bs
           \<or> w = [] \<and> v = -1 \<and> pipe_full p' \<and> (killed \<or> readopen p = 0))
       | PSleep rest \<Rightarrow> w = [ReadChan] \<and> rest = drop k bs \<and> pipe_full p' \<and> readopen p \<noteq> 0)"
  using assms
proof (induction bs arbitrary: p)
  case (Cons b bs)
  show ?case
  proof (cases "pipe_full p")
    case True
    then show ?thesis using Cons.prems by (intro exI [of _ 0]) (auto split: if_splits)
  next
    case False
    let ?p1 = "pipe_put b p"
    note p1 = pipe_put_contents [OF Cons.prems(1) False]
    have "write_loop n killed bs ?p1 = (r, p', w)" using Cons.prems(2) False by simp
    from Cons.IH [OF p1(1) this] obtain k where "k \<le> length bs" "pipe_inv p'"
      "pipe_contents p' = pipe_contents ?p1 @ take k bs" "writep p' = writep ?p1 + of_nat k"
      "readopen p' = readopen ?p1" "writeopen p' = writeopen ?p1"
      "case r of
         PRet v cs \<Rightarrow> cs = [] \<and> (w = [ReadChan] \<and> v = n \<and> k = length bs
           \<or> w = [] \<and> v = -1 \<and> pipe_full p' \<and> (killed \<or> readopen ?p1 = 0))
       | PSleep rest \<Rightarrow> w = [ReadChan] \<and> rest = drop k bs \<and> pipe_full p' \<and> readopen ?p1 \<noteq> 0"
      by blast
    then show ?thesis
      using p1(2) by (intro exI [of _ "Suc k"]) (auto simp: pipe_put_def split: pipe_end.splits)
  qed
qed auto

lemma accepted_count:
  assumes "pipe_inv p'" "pipe_contents p' = pipe_contents p @ take k bs" "k \<le> length bs" "writep p' = writep p + of_nat k"
  shows "unat (writep p' - writep p) = k"
proof -
  have "k \<le> length (pipe_contents p')" using assms(2,3) by simp
  then have "k \<le> PIPESIZE" using assms(1) by (simp add: pipe_inv_def)
  then show ?thesis using assms(4) by (simp add: unat_of_nat PIPESIZE_def)
qed

section \<open>Readers and writers\<close>

text \<open>
  Any number of processes use the pipe.  A sleeping process keeps what it still has to do, a woken one
  takes it up again.  \<open>sent\<close> and \<open>recvd\<close> are ghost fields: the bytes that entered the buffer and the bytes
  handed to readers.  \<open>closing\<close> counts the calls of \<open>pipeclose\<close> between their two steps and \<open>frees\<close> those that
  went on to call \<open>kfree\<close>.
\<close>

datatype reader = RIdle | RSleep int | RWoken int
datatype writer = WIdle | WSleep "uchar list" | WWoken "uchar list"

record pipe_sys =
  pip :: pipe
  rds :: "nat \<Rightarrow> reader"
  wrs :: "nat \<Rightarrow> writer"
  sent :: "uchar list"
  recvd :: "uchar list"
  closing :: nat
  frees :: nat

definition wake_reader :: "reader \<Rightarrow> reader" where
  "wake_reader r = (case r of RSleep n \<Rightarrow> RWoken n | _ \<Rightarrow> r)"

definition wake_writer :: "writer \<Rightarrow> writer" where
  "wake_writer r = (case r of WSleep bs \<Rightarrow> WWoken bs | _ \<Rightarrow> r)"

definition pipe_wakeup :: "chan list \<Rightarrow> pipe_sys \<Rightarrow> pipe_sys" where
  "pipe_wakeup w s = s\<lparr>rds := (if ReadChan \<in> set w then wake_reader \<circ> rds s else rds s),
     wrs := (if WriteChan \<in> set w then wake_writer \<circ> wrs s else wrs s)\<rparr>"

definition do_read :: "nat \<Rightarrow> bool \<Rightarrow> int \<Rightarrow> pipe_sys \<Rightarrow> pipe_sys" where
  "do_read i killed n s =
     (let (r, p, w) = piperead killed n (pip s) in
      case r of
        PRet v cs \<Rightarrow> pipe_wakeup w (s\<lparr>pip := p, rds := (rds s)(i := RIdle), recvd := recvd s @ cs\<rparr>)
      | PSleep rest \<Rightarrow> pipe_wakeup w (s\<lparr>pip := p, rds := (rds s)(i := RSleep n)\<rparr>))"

definition do_write :: "nat \<Rightarrow> bool \<Rightarrow> uchar list \<Rightarrow> pipe_sys \<Rightarrow> pipe_sys" where
  "do_write i killed bs s =
     (let (r, p, w) = pipewrite killed bs (pip s);
          s1 = s\<lparr>pip := p, sent := sent s @ take (unat (writep p - writep (pip s))) bs\<rparr> in
      pipe_wakeup w (s1\<lparr>wrs := (wrs s)(i := (case r of PRet v cs \<Rightarrow> WIdle | PSleep rest \<Rightarrow> WSleep rest))\<rparr>))"

definition do_close :: "bool \<Rightarrow> pipe_sys \<Rightarrow> pipe_sys" where
  "do_close writable s = (let (p, w) = pipeclose_end writable (pip s) in pipe_wakeup w (s\<lparr>pip := p, closing := closing s + 1\<rparr>))"

definition do_check :: "pipe_sys \<Rightarrow> pipe_sys" where
  "do_check s = s\<lparr>closing := closing s - 1, frees := frees s + (if pipeclose_frees (pip s) then 1 else 0)\<rparr>"

text \<open>
  \<open>kw\<close> says whether a writer may have been killed; \<open>kill\<close> also makes a sleeping process runnable.  A call
  needs its end of the pipe to be open, and an end is closed only when no process is in a call on it,
  because the file is still referenced.
\<close>

inductive pipe_step :: "bool \<Rightarrow> pipe_sys \<Rightarrow> pipe_sys \<Rightarrow> bool" for kw where
  p_read: "rds s i = RIdle \<or> rds s i = RWoken n \<Longrightarrow> readopen (pip s) \<noteq> 0 \<Longrightarrow> pipe_step kw s (do_read i killed n s)"
| p_write: "wrs s i = WIdle \<or> wrs s i = WWoken bs \<Longrightarrow> writeopen (pip s) \<noteq> 0 \<Longrightarrow> killed \<longrightarrow> kw \<Longrightarrow>
    pipe_step kw s (do_write i killed bs s)"
| p_kill_read: "pipe_step kw s (s\<lparr>rds := (rds s)(i := wake_reader (rds s i))\<rparr>)"
| p_kill_write: "kw \<Longrightarrow> pipe_step kw s (s\<lparr>wrs := (wrs s)(i := wake_writer (wrs s i))\<rparr>)"
| p_close_read: "\<forall>i. rds s i = RIdle \<Longrightarrow> readopen (pip s) \<noteq> 0 \<Longrightarrow> pipe_step kw s (do_close False s)"
| p_close_write: "\<forall>i. wrs s i = WIdle \<Longrightarrow> writeopen (pip s) \<noteq> 0 \<Longrightarrow> pipe_step kw s (do_close True s)"
| p_close_check: "0 < closing s \<Longrightarrow> pipe_step kw s (do_check s)"

definition pipe_start :: "pipe_sys \<Rightarrow> bool" where
  "pipe_start s \<longleftrightarrow> pip s = pipe_init (pip s) \<and> (\<forall>i. rds s i = RIdle \<and> wrs s i = WIdle) \<and> sent s = [] \<and> recvd s = []
     \<and> closing s = 0 \<and> frees s = 0"

definition stream_inv :: "pipe_sys \<Rightarrow> bool" where
  "stream_inv s \<longleftrightarrow> pipe_inv (pip s) \<and> sent s = recvd s @ pipe_contents (pip s)"

definition sleep_inv :: "pipe_sys \<Rightarrow> bool" where
  "sleep_inv s \<longleftrightarrow> stream_inv s
     \<and> (\<forall>i n. rds s i = RSleep n \<longrightarrow> pipe_contents (pip s) = [] \<and> writeopen (pip s) \<noteq> 0 \<and> readopen (pip s) \<noteq> 0)
     \<and> (\<forall>i bs. wrs s i = WSleep bs \<longrightarrow> pipe_full (pip s) \<and> readopen (pip s) \<noteq> 0 \<and> writeopen (pip s) \<noteq> 0)"

lemma wake_simps [simp]:
  "wake_reader r = RSleep n \<longleftrightarrow> False" "wake_writer q = WSleep bs \<longleftrightarrow> False"
  by (auto simp: wake_reader_def wake_writer_def split: reader.splits writer.splits)

lemma pipe_wakeup_fields [simp]:
  "pip (pipe_wakeup w s) = pip s" "sent (pipe_wakeup w s) = sent s" "recvd (pipe_wakeup w s) = recvd s"
  by (simp_all add: pipe_wakeup_def)

lemma stream_inv_start: "pipe_start s \<Longrightarrow> stream_inv s"
proof -
  assume s: "pipe_start s"
  then have "readp (pip s) = 0" "writep (pip s) = 0"
    unfolding pipe_start_def pipe_init_def by (metis pipe.select_convs(3,4) pipe.surjective pipe.update_convs(1-4))+
  then show ?thesis using s by (simp add: stream_inv_def pipe_start_def pipe_inv_def pipe_contents_def)
qed

lemma stream_inv_read:
  assumes "stream_inv s" shows "stream_inv (do_read i killed n s)"
proof -
  obtain cs p' where l: "read_loop (nat n) (pip s) = (cs, p')" by (cases "read_loop (nat n) (pip s)")
  then show ?thesis
    using assms read_loop_contents [of "pip s" "nat n" cs p']
    by (auto simp: stream_inv_def do_read_def piperead_def Let_def)
qed

lemma stream_inv_write:
  assumes "stream_inv s" shows "stream_inv (do_write i killed bs s)"
proof -
  obtain r p' w where l: "pipewrite killed bs (pip s) = (r, p', w)" by (cases "pipewrite killed bs (pip s)")
  have inv: "pipe_inv (pip s)" using assms by (simp add: stream_inv_def)
  obtain k where "k \<le> length bs" "pipe_inv p'" "pipe_contents p' = pipe_contents (pip s) @ take k bs"
    "writep p' = writep (pip s) + of_nat k"
    using write_loop_puts [OF inv l [unfolded pipewrite_def]] by blast
  then show ?thesis
    using assms accepted_count [of p' "pip s" k bs] by (simp add: stream_inv_def do_write_def l)
qed

lemma stream_inv_close: "stream_inv s \<Longrightarrow> stream_inv (do_close b s)"
  by (auto simp: stream_inv_def do_close_def pipeclose_end_def pipe_inv_def pipe_contents_def)

lemma stream_inv_other [simp]:
  "stream_inv (s\<lparr>rds := r\<rparr>) = stream_inv s" "stream_inv (s\<lparr>wrs := v\<rparr>) = stream_inv s"
  "stream_inv (s\<lparr>closing := c, frees := f\<rparr>) = stream_inv s"
  by (simp_all add: stream_inv_def)

lemma stream_inv_step: "pipe_step kw s t \<Longrightarrow> stream_inv s \<Longrightarrow> stream_inv t"
  by (induction rule: pipe_step.induct)
    (auto intro: stream_inv_read stream_inv_write stream_inv_close simp: do_check_def)

interpretation stream: inductive_invariant pipe_start "pipe_step kw" stream_inv for kw
  by unfold_locales (auto intro: stream_inv_start stream_inv_step)

lemma read_loop_open: "read_loop k p = (cs, p') \<Longrightarrow> readopen p' = readopen p \<and> writeopen p' = writeopen p"
  by (induction k arbitrary: p cs p') (auto simp: pipe_get_def Let_def split: if_splits prod.splits)

lemma full_not_empty: "pipe_full p \<Longrightarrow> pipe_contents p \<noteq> []"
  by (auto simp: pipe_full_iff pipe_contents_def PIPESIZE_def ring_Nil_iff)

lemma sleep_inv_read:
  assumes "sleep_inv s" "readopen (pip s) \<noteq> 0"
  shows "sleep_inv (do_read i killed n s)"
proof -
  have st: "stream_inv (do_read i killed n s)" "stream_inv s"
    using assms(1) by (auto simp: sleep_inv_def intro: stream_inv_read)
  have empty: "pipe_empty (pip s) \<longleftrightarrow> pipe_contents (pip s) = []"
    using st(2) pq.empty_iff by (simp add: stream_inv_def)
  obtain cs p' where l: "read_loop (nat n) (pip s) = (cs, p')" by (cases "read_loop (nat n) (pip s)")
  note op = read_loop_open [OF l]
  have c: "pipe_contents (pip s) = [] \<Longrightarrow> pipe_contents p' = []"
    using read_loop_contents [OF _ l] st(2) by (simp add: stream_inv_def)
  show ?thesis
  proof (cases "pipe_empty (pip s) \<and> writeopen (pip s) \<noteq> 0")
    case True
    then show ?thesis
      using assms st(1) empty by (auto simp: sleep_inv_def do_read_def piperead_def pipe_wakeup_def)
  next
    case False
    then show ?thesis
      using assms st(1) op c l by (auto simp: sleep_inv_def do_read_def piperead_def pipe_wakeup_def)
  qed
qed

lemma sleep_inv_write:
  assumes "sleep_inv s" "writeopen (pip s) \<noteq> 0"
  shows "sleep_inv (do_write i False bs s)"
proof -
  have st: "stream_inv (do_write i False bs s)" "pipe_inv (pip s)"
    using assms(1) by (auto simp: sleep_inv_def stream_inv_def [of s] intro: stream_inv_write)
  obtain r p' w where l: "pipewrite False bs (pip s) = (r, p', w)" by (cases "pipewrite False bs (pip s)")
  obtain k where k: "pipe_contents p' = pipe_contents (pip s) @ take k bs" "pipe_inv p'"
    "readopen p' = readopen (pip s)" "writeopen p' = writeopen (pip s)"
    "case r of
         PRet v cs \<Rightarrow> cs = [] \<and> (w = [ReadChan] \<and> v = int (length bs) \<and> k = length bs
           \<or> w = [] \<and> v = -1 \<and> pipe_full p' \<and> (False \<or> readopen (pip s) = 0))
       | PSleep rest \<Rightarrow> w = [ReadChan] \<and> rest = drop k bs \<and> pipe_full p' \<and> readopen (pip s) \<noteq> 0"
    using write_loop_puts [OF st(2) l [unfolded pipewrite_def]] by blast
  have readers: "rds s j \<noteq> RSleep m" if "ReadChan \<notin> set w" for j m
    using that k(5) assms(1) by (auto simp: sleep_inv_def split: pipe_end.splits)
  have writers: "pipe_full p' \<and> readopen p' \<noteq> 0" if "wrs s j = WSleep cs" for j cs
  proof -
    have full: "pipe_full (pip s)" "readopen (pip s) \<noteq> 0" using that assms(1) by (auto simp: sleep_inv_def)
    then have "length (pipe_contents p') = PIPESIZE"
      using k(1,2) pq.bounded [OF k(2)] by (simp add: pipe_full_iff del: length_pipe_contents)
        (simp add: pipe_full_iff)
    then show ?thesis using full k(3) by (simp add: pipe_full_iff)
  qed
  show ?thesis
    using assms st(1) k readers writers unfolding sleep_inv_def
    by (auto simp: do_write_def l pipe_wakeup_def split: if_splits pipe_end.splits)
qed

lemma sleep_inv_step: "pipe_step False s t \<Longrightarrow> sleep_inv s \<Longrightarrow> sleep_inv t"
proof (induction rule: pipe_step.induct)
  case (p_read s i n killed)
  then show ?case by (intro sleep_inv_read)
next
  case (p_write s i bs killed)
  then show ?case using sleep_inv_write [of s i bs] by simp
next
  case (p_kill_read s i)
  then show ?case by (auto simp: sleep_inv_def stream_inv_def)
next
  case (p_kill_write s i)
  then show ?case by simp
next
  case (p_close_read s)
  then show ?case
    using stream_inv_close [of s False] by (auto simp: sleep_inv_def do_close_def pipeclose_end_def pipe_wakeup_def)
next
  case (p_close_write s)
  then show ?case
    using stream_inv_close [of s True] by (auto simp: sleep_inv_def do_close_def pipeclose_end_def pipe_wakeup_def)
next
  case (p_close_check s)
  then show ?case by (simp add: sleep_inv_def do_check_def)
qed

lemma write_loop_killed: "write_loop n True bs p = (r, p', w) \<Longrightarrow> r \<noteq> PSleep rest"
  by (induction bs arbitrary: p) (auto split: if_splits)

lemma sleep_inv_start: "pipe_start s \<Longrightarrow> sleep_inv s"
  using stream_inv_start [of s] by (simp add: sleep_inv_def pipe_start_def)

interpretation sleepers: inductive_invariant pipe_start "pipe_step False" sleep_inv
  by unfold_locales (auto intro: sleep_inv_start sleep_inv_step)

section \<open>Properties of pipes\<close>

definition idle_pipe :: pipe_sys where
  "idle_pipe = \<lparr>pip = \<lparr>readopen = 1, writeopen = 1, writep = 0, readp = 0, pdata = (\<lambda>_. 0)\<rparr>,
     rds = (\<lambda>_. RIdle), wrs = (\<lambda>_. WIdle), sent = [], recvd = [], closing = 0, frees = 0\<rparr>"

lemma idle_pipe_start: "pipe_start idle_pipe"
  by (simp add: pipe_start_def idle_pipe_def pipe_init_def)

lemma idle_pipe_reach: "reach pipe_start (pipe_step kw) idle_pipe"
  by (rule reach_init, rule idle_pipe_start)

definition waiting_pipe :: pipe_sys where
  "waiting_pipe = do_read 0 False 1 idle_pipe"

lemma waiting_pipe_reach: "reach pipe_start (pipe_step kw) waiting_pipe"
  unfolding waiting_pipe_def
  by (rule reach_step [OF idle_pipe_reach p_read]) (simp_all add: idle_pipe_def)

lemma waiting_pipe_state:
  "waiting_pipe = idle_pipe\<lparr>rds := (\<lambda>_. RIdle)(0 := RSleep 1)\<rparr>"
  by (simp add: waiting_pipe_def do_read_def piperead_def idle_pipe_def pipe_empty_def pipe_wakeup_def)

text \<open>
  C12: Whatever processes read and write a pipe, however their calls interleave at the points where they
  sleep and whether or not they are killed, the bytes handed to readers followed by the bytes in the
  buffer are exactly the bytes accepted from writers, in order, and at most 512 bytes are in the buffer.
\<close>

theorem pipe_fifo:
  assumes "reach pipe_start (pipe_step kw) s"
  shows "sent s = recvd s @ pipe_contents (pip s) \<and> length (pipe_contents (pip s)) \<le> PIPESIZE"
  using stream.reach_inv [OF assms] pq.bounded [of "pip s"] by (simp add: stream_inv_def)

theorem pipe_fifo_witness:
  "reach pipe_start (pipe_step True) waiting_pipe \<and> sent waiting_pipe = recvd waiting_pipe @ pipe_contents (pip waiting_pipe)"
  using pipe_fifo [OF waiting_pipe_reach [of True]] waiting_pipe_reach by simp

text \<open>
  C13: As long as no writer is killed, no process sleeps on a pipe without cause: a sleeping reader
  means that the buffer is empty and the write end open, a sleeping writer that the buffer is full and
  the read end open.  So readers and writers are never asleep at once.
\<close>

theorem pipe_no_missed_wakeup:
  assumes "reach pipe_start (pipe_step False) s"
  shows "(rds s i = RSleep n \<longrightarrow> pipe_contents (pip s) = [] \<and> writeopen (pip s) \<noteq> 0)
    \<and> (wrs s j = WSleep bs \<longrightarrow> length (pipe_contents (pip s)) = PIPESIZE \<and> readopen (pip s) \<noteq> 0)
    \<and> \<not> (rds s i = RSleep n \<and> wrs s j = WSleep bs)"
  using sleepers.reach_inv [OF assms] full_not_empty
  by (auto simp: sleep_inv_def pipe_full_iff)

theorem pipe_no_missed_wakeup_witness:
  "reach pipe_start (pipe_step False) waiting_pipe \<and> rds waiting_pipe 0 = RSleep 1
    \<and> pipe_contents (pip waiting_pipe) = [] \<and> wrs waiting_pipe 0 \<noteq> WSleep []"
  using pipe_no_missed_wakeup [OF waiting_pipe_reach, of 0 1 0 "[]"] waiting_pipe_reach
  by (auto simp: waiting_pipe_state)

text \<open>
  A writer that has been killed fills the buffer and returns -1 without a wakeup: a reader that
  was waiting on the empty pipe stays asleep although the buffer is full and no writer is left in a call.
\<close>

theorem killed_writer_missed_wakeup:
  "\<exists>s. reach pipe_start (pipe_step True) s \<and> rds s 0 = RSleep 1 \<and> pipe_full (pip s) \<and> (\<forall>j. wrs s j = WIdle)"
proof -
  let ?bs = "replicate 513 0 :: uchar list" and ?p = "pip waiting_pipe"
  let ?s = "do_write 0 True ?bs waiting_pipe"
  obtain r p' w where l: "pipewrite True ?bs ?p = (r, p', w)" by (cases "pipewrite True ?bs ?p")
  have waiting: "rds waiting_pipe 0 = RSleep 1" "wrs waiting_pipe = (\<lambda>_. WIdle)"
    by (simp_all add: waiting_pipe_state idle_pipe_def)
  have inv: "pipe_inv ?p" and empty: "pipe_contents ?p = []"
    by (simp_all add: waiting_pipe_state idle_pipe_def pipe_inv_def pipe_contents_def)
  obtain k where k: "pipe_inv p'" "pipe_contents p' = take k ?bs" "k \<le> 513"
    and r: "case r of PRet v cs \<Rightarrow> w = [ReadChan] \<and> k = 513 \<or> w = [] \<and> pipe_full p' | PSleep rest \<Rightarrow> False"
  proof -
    have "r \<noteq> PSleep rest" for rest
      using l by (auto simp: pipewrite_def dest: write_loop_killed)
    then show ?thesis
      using write_loop_puts [OF inv l [unfolded pipewrite_def]] empty that by (cases r) auto
  qed
  have "k \<noteq> 513" using pq.bounded [OF k(1)] k(2) by (auto simp: PIPESIZE_def simp del: length_pipe_contents)
  then have "pipe_full p'" "w = []" "\<exists>v cs. r = PRet v cs" using r by (auto split: pipe_end.splits)
  then have "rds ?s 0 = RSleep 1 \<and> pipe_full (pip ?s) \<and> (\<forall>j. wrs ?s j = WIdle)"
    using waiting by (auto simp: do_write_def l pipe_wakeup_def)
  moreover have "reach pipe_start (pipe_step True) ?s"
    by (rule reach_step [OF waiting_pipe_reach p_write]) (simp_all add: waiting_pipe_state idle_pipe_def)
  ultimately show ?thesis by blast
qed

text \<open>
  When both ends are closed at the same time, both calls of \<open>pipeclose\<close> can find both ends closed
  after they have released the lock, so the page of the pipe is freed twice.
\<close>

theorem pipe_double_free: "\<exists>s. reach pipe_start (pipe_step False) s \<and> frees s = 2 \<and> closing s = 0"
proof -
  let ?s1 = "do_close False idle_pipe" let ?s2 = "do_close True ?s1" let ?s3 = "do_check ?s2"
  have 1: "reach pipe_start (pipe_step False) ?s1"
    by (rule reach_step [OF idle_pipe_reach p_close_read]) (simp_all add: idle_pipe_def)
  have 2: "reach pipe_start (pipe_step False) ?s2"
    by (rule reach_step [OF 1 p_close_write])
      (simp_all add: idle_pipe_def do_close_def pipeclose_end_def pipe_wakeup_def wake_writer_def)
  have 3: "reach pipe_start (pipe_step False) ?s3"
    by (rule reach_step [OF 2 p_close_check]) (simp add: do_close_def pipeclose_end_def pipe_wakeup_def)
  have "reach pipe_start (pipe_step False) (do_check ?s3)"
    by (rule reach_step [OF 3 p_close_check])
      (simp add: do_check_def do_close_def pipeclose_end_def pipe_wakeup_def idle_pipe_def)
  moreover have "frees (do_check ?s3) = 2 \<and> closing (do_check ?s3) = 0"
    by (simp add: do_check_def do_close_def pipeclose_end_def pipeclose_frees_def pipe_wakeup_def idle_pipe_def)
  ultimately show ?thesis by blast
qed

end
