(* ===== verification/Kalloc.thy ===== *)
theory Kalloc
  imports Xv6_Prelude
begin

text \<open>
  The physical page allocator of \<^verbatim>\<open>kalloc.c\<close>.  The free list is a chain of \<^verbatim>\<open>struct run\<close> headers
  stored at the start of the free runs; the model keeps the two header fields as maps from the
  address of a run, as C's field accesses do, and \<^verbatim>\<open>rp\<close> as a pointer to a pointer.  The pointer
  program is refined by a program on lists of runs, on which the allocator's contract is proved:
  no allocated page is free, freeing coalesces, and freeing what was just allocated restores
  the free list exactly.
\<close>

section \<open>State and operations\<close>

record kstate =
  freelist :: int
  run_next :: "int \<Rightarrow> int"
  run_len :: "int \<Rightarrow> int"

text \<open>\<^verbatim>\<open>struct run **rp\<close>: the address of \<^verbatim>\<open>freelist\<close> or of the \<^verbatim>\<open>next\<close> field of a run.\<close>

datatype rptr = Freelist | Next int

fun deref :: "rptr \<Rightarrow> kstate \<Rightarrow> int" where
  "deref Freelist s = freelist s"
| "deref (Next r) s = run_next s r"

fun assign :: "rptr \<Rightarrow> int \<Rightarrow> kstate \<Rightarrow> kstate" where
  "assign Freelist p s = s\<lparr>freelist := p\<rparr>"
| "assign (Next r) p s = s\<lparr>run_next := (run_next s)(r := p)\<rparr>"

text \<open>\<^verbatim>\<open>memset(v, 1, len)\<close>: a header inside the range now reads as the word \<^verbatim>\<open>0x01010101\<close>.\<close>

definition fill_junk :: "int \<Rightarrow> int \<Rightarrow> kstate \<Rightarrow> kstate" where
  "fill_junk v len s =
     s\<lparr>run_next := (\<lambda>a. if v \<le> a \<and> a < v + len then 16843009 else run_next s a),
       run_len := (\<lambda>a. if v \<le> a \<and> a < v + len then 16843009 else run_len s a)\<rparr>"

partial_function (option) kfree_loop ::
  "int \<Rightarrow> int \<Rightarrow> rptr \<Rightarrow> kstate \<Rightarrow> kstate outcome option" where
  "kfree_loop p len rp s =
     (let r = deref rp s; pend = p + len in
      if r \<noteq> 0 \<and> r \<le> pend then
        (let rend = r + run_len s r in
         if r \<le> p \<and> p < rend then Some (Panic ''freeing free page'')
         else if pend = r then
           Some (Ret (assign rp p
             (s\<lparr>run_len := (run_len s)(p := len + run_len s r),
                run_next := (run_next s)(p := run_next s r)\<rparr>)))
         else if rend = p then
           (let s1 = s\<lparr>run_len := (run_len s)(r := run_len s r + len)\<rparr> in
            if run_next s1 r \<noteq> 0 \<and> run_next s1 r = pend then
              Some (Ret (s1\<lparr>run_len := (run_len s1)(r := run_len s1 r + run_len s1 (run_next s1 r)),
                           run_next := (run_next s1)(r := run_next s1 (run_next s1 r))\<rparr>))
            else Some (Ret s1))
         else kfree_loop p len (Next r) s)
      else
        Some (Ret (assign rp p
          (s\<lparr>run_len := (run_len s)(p := len), run_next := (run_next s)(p := r)\<rparr>))))"

definition kfree :: "int \<Rightarrow> int \<Rightarrow> kstate \<Rightarrow> kstate outcome option" where
  "kfree v len s =
     (if len \<le> 0 \<or> len mod PAGE \<noteq> 0 then Some (Panic ''kfree'')
      else kfree_loop v len Freelist (fill_junk v len s))"

partial_function (option) kalloc_loop ::
  "int \<Rightarrow> rptr \<Rightarrow> kstate \<Rightarrow> (int \<times> kstate) outcome option" where
  "kalloc_loop n rp s =
     (let r = deref rp s in
      if r \<noteq> 0 then
        (if run_len s r = n then Some (Ret (r, assign rp (run_next s r) s))
         else if run_len s r > n then
           (let s1 = s\<lparr>run_len := (run_len s)(r := run_len s r - n)\<rparr>
            in Some (Ret (r + run_len s1 r, s1)))
         else kalloc_loop n (Next r) s)
      else Some (Ret (0, s)))"

definition kalloc :: "int \<Rightarrow> kstate \<Rightarrow> (int \<times> kstate) outcome option" where
  "kalloc n s =
     (if n mod PAGE \<noteq> 0 \<or> n \<le> 0 then Some (Panic ''kalloc'')
      else kalloc_loop n Freelist s)"

text \<open>
  \<^verbatim>\<open>kinit\<close> frees 256 pages after the kernel image; \<^verbatim>\<open>kend\<close> is the linker symbol \<^verbatim>\<open>end\<close>,
  and the allocator's variables start as zero.
\<close>

definition kinit :: "int \<Rightarrow> kstate outcome option" where
  "kinit kend =
     (let start = (kend + PAGE) - (kend + PAGE) mod PAGE in
      kfree start (256 * PAGE) \<lparr>freelist = 0, run_next = (\<lambda>_. 0), run_len = (\<lambda>_. 0)\<rparr>)"

section \<open>The free list as a list of runs\<close>

type_synonym runs = "(int \<times> int) list"

fun runs_at :: "kstate \<Rightarrow> int \<Rightarrow> runs \<Rightarrow> bool" where
  "runs_at s p [] \<longleftrightarrow> p = 0"
| "runs_at s p ((r, l) # rs) \<longleftrightarrow> p = r \<and> p \<noteq> 0 \<and> run_len s r = l \<and> runs_at s (run_next s r) rs"

fun kfree_runs :: "int \<Rightarrow> int \<Rightarrow> runs \<Rightarrow> runs outcome" where
  "kfree_runs p len [] = Ret [(p, len)]"
| "kfree_runs p len ((r, l) # rs) =
     (if r \<le> p + len then
        if r \<le> p \<and> p < r + l then Panic ''freeing free page''
        else if p + len = r then Ret ((p, len + l) # rs)
        else if r + l = p then
          (case rs of
             [] \<Rightarrow> Ret [(r, l + len)]
           | (r2, l2) # rs2 \<Rightarrow>
               if r2 = p + len then Ret ((r, l + len + l2) # rs2) else Ret ((r, l + len) # rs))
        else obind (kfree_runs p len rs) (\<lambda>rs'. Ret ((r, l) # rs'))
      else Ret ((p, len) # (r, l) # rs))"

fun kalloc_runs :: "int \<Rightarrow> runs \<Rightarrow> int \<times> runs" where
  "kalloc_runs n [] = (0, [])"
| "kalloc_runs n ((r, l) # rs) =
     (if l = n then (r, rs)
      else if l > n then (r + (l - n), (r, l - n) # rs)
      else (let (p, rs') = kalloc_runs n rs in (p, (r, l) # rs')))"

text \<open>
  A well-formed free list is sorted, made of non-empty runs of whole pages, and coalesced: no run
  touches the next one.
\<close>

fun wf_runs :: "int \<Rightarrow> runs \<Rightarrow> bool" where
  "wf_runs lo [] \<longleftrightarrow> True"
| "wf_runs lo ((r, l) # rs) \<longleftrightarrow> lo < r \<and> 0 < l \<and> PAGE dvd r \<and> PAGE dvd l \<and> wf_runs (r + l) rs"

definition free_bytes :: "runs \<Rightarrow> int set" where
  "free_bytes rs = (\<Union>(r, l) \<in> set rs. {r ..< r + l})"

lemma free_bytes_Nil [simp]: "free_bytes [] = {}"
  by (simp add: free_bytes_def)

lemma free_bytes_Cons [simp]: "free_bytes ((r, l) # rs) = {r ..< r + l} \<union> free_bytes rs"
  by (simp add: free_bytes_def)

lemma wf_runs_weaken: "wf_runs lo rs \<Longrightarrow> lo' \<le> lo \<Longrightarrow> wf_runs lo' rs"
  by (cases rs) auto

lemma wf_runs_free_above: "wf_runs lo rs \<Longrightarrow> x \<in> free_bytes rs \<Longrightarrow> lo < x"
proof (induction rs arbitrary: lo)
  case (Cons a rs)
  then show ?case by (cases a) fastforce
qed simp

lemma wf_runs_base: "wf_runs lo rs \<Longrightarrow> (r, l) \<in> set rs \<Longrightarrow> lo < r \<and> 0 < l \<and> PAGE dvd r \<and> PAGE dvd l"
proof (induction rs arbitrary: lo)
  case (Cons a rs)
  then show ?case by (cases a) fastforce
qed simp

section \<open>The list programs meet the contract\<close>

text \<open>The head of a well-formed list is the maximal run of free bytes at its base.\<close>

lemma free_bytes_split:
  assumes "wf_runs (r + l) rs" "x \<le> r + l"
  shows "x \<in> {r ..< r + l} \<union> free_bytes rs \<longleftrightarrow> r \<le> x \<and> x < r + l"
  using wf_runs_free_above [OF assms(1), of x] assms(2) by auto

lemma kfree_runs_spec:
  assumes "wf_runs lo rs" "lo < p" "0 < len" "PAGE dvd p" "PAGE dvd len"
    and "{p ..< p + len} \<inter> free_bytes rs = {}"
  shows "\<exists>rs'. kfree_runs p len rs = Ret rs' \<and> wf_runs lo rs'
    \<and> free_bytes rs' = free_bytes rs \<union> {p ..< p + len}"
  using assms
proof (induction rs arbitrary: lo)
  case Nil
  then show ?case by simp
next
  case (Cons a rs)
  obtain r l where a: "a = (r, l)" by (cases a)
  note prems = Cons.prems [unfolded a]
  have rl: "lo < r" "0 < l" "PAGE dvd r" "PAGE dvd l" and wf: "wf_runs (r + l) rs"
    using prems(1) by auto
  have disj: "{p ..< p + len} \<inter> {r ..< r + l} = {}" "{p ..< p + len} \<inter> free_bytes rs = {}"
    using prems(6) by (simp_all add: Int_Un_distrib)
  have sep: "p + len \<le> r \<or> r + l \<le> p"
  proof (rule ccontr)
    assume "\<not> ?thesis"
    then have "max p r \<in> {p ..< p + len} \<inter> {r ..< r + l}" using prems(3) rl(2) by auto
    then show False using disj(1) by simp
  qed
  consider "p + len < r" | "p + len = r" | "r + l = p" | "r + l < p" using sep by linarith
  then show ?case
  proof cases
    case 1
    then show ?thesis unfolding a using prems rl wf by auto
  next
    case 2
    then have "free_bytes ((p, len + l) # rs) = free_bytes ((r, l) # rs) \<union> {p ..< p + len}"
      using prems(3) rl(2) by auto
    moreover have "kfree_runs p len ((r, l) # rs) = Ret ((p, len + l) # rs)"
      using 2 prems(3) by simp
    moreover have "wf_runs lo ((p, len + l) # rs)"
      using 2 prems rl wf by (auto simp: algebra_simps)
    ultimately show ?thesis unfolding a by blast
  next
    case 3
    show ?thesis
    proof (cases "\<exists>l2 rs2. rs = (p + len, l2) # rs2")
      case True
      then obtain l2 rs2 where rs: "rs = (p + len, l2) # rs2" by blast
      then show ?thesis unfolding a using 3 prems rl wf by (auto simp: algebra_simps)
    next
      case False
      then have k: "kfree_runs p len ((r, l) # rs) = Ret ((r, l + len) # rs)"
        using 3 prems(3) rl by (auto split: list.split prod.split)
      have "wf_runs (r + (l + len)) rs"
      proof (cases rs)
        case (Cons b rs3)
        obtain r2 l2 where b: "b = (r2, l2)" by (cases b)
        have "p + len \<noteq> r2" using False Cons b by auto
        moreover have "p + len \<le> r2"
        proof (rule ccontr)
          assume "\<not> ?thesis"
          then have "r2 \<in> {p ..< p + len} \<inter> free_bytes rs"
            using wf Cons b 3 by auto
          then show False using disj(2) by simp
        qed
        ultimately show ?thesis using wf Cons b 3 by auto
      qed simp
      then show ?thesis unfolding a using k 3 prems rl by auto
    qed
  next
    case 4
    then obtain rs' where IH: "kfree_runs p len rs = Ret rs'" "wf_runs (r + l) rs'"
      "free_bytes rs' = free_bytes rs \<union> {p ..< p + len}"
      using Cons.IH [OF wf 4 prems(3-5) disj(2)] by blast
    then show ?thesis unfolding a using 4 prems rl by auto
  qed
qed

lemma kalloc_runs_fails_iff:
  assumes "wf_runs lo rs" "0 \<le> lo" "0 < n"
  shows "fst (kalloc_runs n rs) = 0 \<longleftrightarrow> (\<forall>(r, l) \<in> set rs. l < n)"
  using assms
proof (induction rs arbitrary: lo)
  case (Cons a rs)
  obtain r l where a: "a = (r, l)" by (cases a)
  show ?case
  proof (cases "l < n")
    case True
    have "wf_runs (r + l) rs" "0 \<le> r + l" using Cons.prems a by auto
    from Cons.IH [OF this Cons.prems(3)] show ?thesis
      using True a by (auto simp: case_prod_unfold Let_def)
  next
    case False
    then show ?thesis using Cons.prems a by auto
  qed
qed simp

lemma kalloc_runs_none: "\<forall>(r, l) \<in> set rs. l < n \<Longrightarrow> kalloc_runs n rs = (0, rs)"
  by (induction rs) auto

lemma kalloc_runs_spec:
  assumes "wf_runs lo rs" "0 \<le> lo" "0 < n" "PAGE dvd n" "kalloc_runs n rs = (p, rs')" "p \<noteq> 0"
  shows "lo < p \<and> PAGE dvd p \<and> wf_runs lo rs' \<and> {p ..< p + n} \<subseteq> free_bytes rs
    \<and> free_bytes rs' = free_bytes rs - {p ..< p + n}"
  using assms
proof (induction rs arbitrary: lo rs')
  case (Cons a rs)
  obtain r l where a: "a = (r, l)" by (cases a)
  have rl: "lo < r" "0 < l" "PAGE dvd r" "PAGE dvd l" and wf: "wf_runs (r + l) rs"
    using Cons.prems(1) a by auto
  have above: "x \<in> free_bytes rs \<Longrightarrow> r + l < x" for x using wf_runs_free_above [OF wf] by blast
  consider "l = n" | "n < l" | "l < n" by linarith
  then show ?case
  proof cases
    case 1
    then have "p = r" "rs' = rs" using Cons.prems(5) a by auto
    then show ?thesis using 1 a rl wf above by (fastforce intro: wf_runs_weaken)
  next
    case 2
    then have "p = r + (l - n)" "rs' = (r, l - n) # rs" using Cons.prems(5) a by auto
    moreover have "wf_runs (r + (l - n)) rs" using wf Cons.prems(3) by (auto intro: wf_runs_weaken)
    ultimately show ?thesis using 2 a rl above Cons.prems(3,4) by fastforce
  next
    case 3
    then obtain rs1 where rs1: "kalloc_runs n rs = (p, rs1)" "rs' = (r, l) # rs1"
      using Cons.prems(5) a by (cases "kalloc_runs n rs") auto
    have "0 \<le> r + l" using Cons.prems(2) rl by simp
    from Cons.IH [OF wf this Cons.prems(3,4) rs1(1) Cons.prems(6)]
    have IH: "r + l < p" "PAGE dvd p" "wf_runs (r + l) rs1" "{p ..< p + n} \<subseteq> free_bytes rs"
      "free_bytes rs1 = free_bytes rs - {p ..< p + n}" by auto
    then show ?thesis using a rl rs1(2) by auto
  qed
qed simp

text \<open>The coalesced sorted list is determined by the set of free bytes.\<close>

lemma wf_runs_unique:
  "wf_runs lo xs \<Longrightarrow> wf_runs lo ys \<Longrightarrow> free_bytes xs = free_bytes ys \<Longrightarrow> xs = ys"
proof (induction xs arbitrary: lo ys)
  case Nil
  then show ?case by (cases ys) auto
next
  case (Cons a xs)
  obtain r l where a: "a = (r, l)" by (cases a)
  have x: "0 < l" "wf_runs (r + l) xs" using Cons.prems(1) a by auto
  have "ys \<noteq> []" using Cons.prems(3) a x(1) by auto
  then obtain r' l' zs where ys: "ys = (r', l') # zs" by (cases ys) auto
  have y: "0 < l'" "wf_runs (r' + l') zs" using Cons.prems(2) ys by auto
  have eq: "z \<in> {r ..< r + l} \<union> free_bytes xs \<longleftrightarrow> z \<in> {r' ..< r' + l'} \<union> free_bytes zs" for z
    using Cons.prems(3) a ys by auto
  have X: "z \<in> free_bytes xs \<Longrightarrow> r + l < z" for z using wf_runs_free_above [OF x(2)] .
  have Y: "z \<in> free_bytes zs \<Longrightarrow> r' + l' < z" for z using wf_runs_free_above [OF y(2)] .
  have "r = r'"
    using eq [of r] eq [of r'] x(1) y(1) X [of r'] Y [of r] by auto
  moreover have "l = l'"
    using eq [of "r + l"] eq [of "r' + l'"] x(1) y(1) X [of "r + l"] X [of "r + l'"]
      Y [of "r + l'"] Y [of "r + l"] \<open>r = r'\<close> by auto
  moreover have "free_bytes xs = free_bytes zs"
  proof (rule set_eqI)
    fix z
    show "z \<in> free_bytes xs \<longleftrightarrow> z \<in> free_bytes zs"
      using eq [of z] X [of z] Y [of z] \<open>r = r'\<close> \<open>l = l'\<close> by auto
  qed
  ultimately show ?case using Cons.IH [OF x(2), of zs] y(2) a ys by auto
qed

lemma kfree_kalloc_runs:
  assumes "wf_runs 0 rs" "0 < n" "PAGE dvd n" "kalloc_runs n rs = (p, rs')" "p \<noteq> 0"
  shows "kfree_runs p n rs' = Ret rs"
proof -
  have A: "0 < p" "PAGE dvd p" "wf_runs 0 rs'" "{p ..< p + n} \<subseteq> free_bytes rs"
    "free_bytes rs' = free_bytes rs - {p ..< p + n}"
    using kalloc_runs_spec [OF assms(1) _ assms(2-5)] by auto
  obtain ys where ys: "kfree_runs p n rs' = Ret ys" "wf_runs 0 ys"
    "free_bytes ys = free_bytes rs' \<union> {p ..< p + n}"
    using kfree_runs_spec [OF A(3,1) assms(2) A(2) assms(3)] A(5) by auto
  then have "free_bytes ys = free_bytes rs" using A(4,5) by auto
  then show ?thesis using wf_runs_unique [OF ys(2) assms(1)] ys(1) by simp
qed

section \<open>The pointer programs refine the list programs\<close>

definition bases :: "runs \<Rightarrow> int set" where
  "bases rs = fst ` set rs"

lemma bases_simps [simp]: "bases [] = {}" "bases (a # rs) = insert (fst a) (bases rs)"
  by (simp_all add: bases_def)

lemma runs_at_cong:
  "\<forall>r \<in> bases rs. run_len s' r = run_len s r \<and> run_next s' r = run_next s r \<Longrightarrow>
    runs_at s' p rs = runs_at s p rs"
  by (induction rs arbitrary: p) auto

lemma runs_at_agree:
  "runs_at s p rs \<Longrightarrow>
    \<forall>r \<in> bases rs. run_len s' r = run_len s r \<and> run_next s' r = run_next s r \<Longrightarrow> runs_at s' p rs"
  using runs_at_cong by blast

fun rp_fresh :: "rptr \<Rightarrow> int set \<Rightarrow> bool" where
  "rp_fresh Freelist A \<longleftrightarrow> True"
| "rp_fresh (Next q) A \<longleftrightarrow> q \<notin> A"

lemma deref_assign [simp]: "deref rp (assign rp p s) = p"
  by (cases rp) auto

lemma run_len_assign [simp]: "run_len (assign rp p s) = run_len s"
  by (cases rp) auto

lemma run_next_assign: "rp_fresh rp {a} \<Longrightarrow> run_next (assign rp p s) a = run_next s a"
  by (cases rp) auto

text \<open>What a call leaves alone: the links before \<open>rp\<close> and the headers outside its list.\<close>

definition kframe :: "int set \<Rightarrow> rptr \<Rightarrow> kstate \<Rightarrow> kstate \<Rightarrow> bool" where
  "kframe A rp s s' \<longleftrightarrow> (\<forall>a. a \<notin> A \<longrightarrow> run_len s' a = run_len s a)
     \<and> (\<forall>a. a \<notin> A \<longrightarrow> rp \<noteq> Next a \<longrightarrow> run_next s' a = run_next s a)
     \<and> (rp \<noteq> Freelist \<longrightarrow> freelist s' = freelist s)"

lemma kfree_loop_refines:
  assumes "runs_at s (deref rp s) rs" "distinct (map fst rs)" "p \<noteq> 0" "p \<notin> bases rs"
    and "rp_fresh rp (insert p (bases rs))"
  shows "case kfree_runs p len rs of
      Ret rs' \<Rightarrow> \<exists>s'. kfree_loop p len rp s = Some (Ret s') \<and> runs_at s' (deref rp s') rs'
        \<and> kframe (insert p (bases rs)) rp s s'
    | Panic m \<Rightarrow> kfree_loop p len rp s = Some (Panic m)
    | _ \<Rightarrow> False"
  using assms
proof (induction rs arbitrary: rp)
  case Nil
  then show ?case
    by (subst kfree_loop.simps) (cases rp; auto simp: kframe_def)
next
  case (Cons a rs)
  obtain r l where a: "a = (r, l)" by (cases a)
  have d: "deref rp s = r" "r \<noteq> 0" "run_len s r = l" "runs_at s (run_next s r) rs"
    and r: "r \<noteq> p" "r \<notin> bases rs" "distinct (map fst rs)" "p \<notin> bases rs"
    using Cons.prems a by (auto simp: bases_def)
  have rp: "rp_fresh rp {r}" "rp_fresh rp {p}" "rp_fresh rp (bases rs)"
    using Cons.prems(5) a by (cases rp; auto)+
  note loop = kfree_loop.simps [of p len rp s]
  have ret: "\<exists>s'. kfree_loop p len rp s = Some (Ret s') \<and> runs_at s' (deref rp s') rs'
      \<and> kframe (insert p (bases (a # rs))) rp s s'"
    if "kfree_loop p len rp s = Some (Ret s')" "runs_at s' (deref rp s') rs'"
      "kframe (insert p (bases (a # rs))) rp s s'" for s' rs'
    using that by blast
  consider "p + len < r" | "r \<le> p + len" "r \<le> p" "p < r + l" | "p + len = r" "\<not> (r \<le> p \<and> p < r + l)"
    | "r + l = p" "r \<le> p + len" "p + len \<noteq> r" "\<not> (r \<le> p \<and> p < r + l)"
    | "r \<le> p + len" "p + len \<noteq> r" "r + l \<noteq> p" "\<not> (r \<le> p \<and> p < r + l)" by linarith
  then show ?case
  proof cases
    case 1
    let ?S = "assign rp p (s\<lparr>run_len := (run_len s)(p := len), run_next := (run_next s)(p := r)\<rparr>)"
    have "kfree_loop p len rp s = Some (Ret ?S)" using 1 d by (subst loop) (auto simp: Let_def)
    moreover have "runs_at ?S (deref rp ?S) ((p, len) # (r, l) # rs)"
      using d r rp Cons.prems(3) by (cases rp) (auto intro!: runs_at_agree [of s])
    moreover have "kframe (insert p (bases (a # rs))) rp s ?S"
      by (cases rp) (auto simp: kframe_def)
    ultimately show ?thesis using 1 a ret by auto
  next
    case 2
    then show ?thesis using a d by (subst loop) simp
  next
    case 3
    let ?S = "assign rp p (s\<lparr>run_len := (run_len s)(p := len + run_len s r),
                run_next := (run_next s)(p := run_next s r)\<rparr>)"
    have "kfree_loop p len rp s = Some (Ret ?S)" using 3 d by (subst loop) (auto simp: Let_def)
    moreover have "runs_at ?S (deref rp ?S) ((p, len + l) # rs)"
      using d r rp Cons.prems(3) by (cases rp) (auto intro!: runs_at_agree [of s])
    moreover have "kframe (insert p (bases (a # rs))) rp s ?S"
      by (cases rp) (auto simp: kframe_def)
    ultimately show ?thesis using 3 a ret by auto
  next
    case 4
    let ?s1 = "s\<lparr>run_len := (run_len s)(r := run_len s r + len)\<rparr>"
    show ?thesis
    proof (cases "\<exists>l2 rs2. rs = (p + len, l2) # rs2")
      case True
      then obtain l2 rs2 where rs: "rs = (p + len, l2) # rs2" by blast
      let ?S = "?s1\<lparr>run_len := (run_len ?s1)(r := run_len ?s1 r + run_len ?s1 (run_next ?s1 r)),
                   run_next := (run_next ?s1)(r := run_next ?s1 (run_next ?s1 r))\<rparr>"
      have nx: "run_next s r = p + len" "p + len \<noteq> 0" "run_len s (p + len) = l2" "p + len \<noteq> r"
        "runs_at s (run_next s (p + len)) rs2" "r \<notin> bases rs2"
        using d rs r by auto
      have "kfree_loop p len rp s = Some (Ret ?S)"
        using 4 d nx by (subst loop) (auto simp: Let_def)
      moreover have "runs_at ?S (deref rp ?S) ((r, l + len + l2) # rs2)"
        using d nx rp by (cases rp) (auto intro!: runs_at_agree [of s])
      moreover have "kframe (insert p (bases (a # rs))) rp s ?S"
        using a by (auto simp: kframe_def)
      ultimately show ?thesis using 4 a rs ret by auto
    next
      case False
      then have nx: "\<not> (run_next s r \<noteq> 0 \<and> run_next s r = p + len)"
        using d by (cases rs) auto
      have k: "kfree_runs p len ((r, l) # rs) = Ret ((r, l + len) # rs)"
        using 4 False by (auto split: list.split prod.split)
      have "kfree_loop p len rp s = Some (Ret ?s1)"
        using 4 d nx by (subst loop) (auto simp: Let_def)
      moreover have "runs_at ?s1 (deref rp ?s1) ((r, l + len) # rs)"
        using d r by (cases rp) (auto intro!: runs_at_agree [of s])
      moreover have "kframe (insert p (bases (a # rs))) rp s ?s1"
        using a by (auto simp: kframe_def)
      ultimately show ?thesis using k a ret by auto
    qed
  next
    case 5
    have "rp_fresh (Next r) (insert p (bases rs))" using r by simp
    moreover have "runs_at s (deref (Next r) s) rs" using d by simp
    ultimately have IH: "case kfree_runs p len rs of
      Ret rs' \<Rightarrow> \<exists>s'. kfree_loop p len (Next r) s = Some (Ret s') \<and> runs_at s' (deref (Next r) s') rs'
        \<and> kframe (insert p (bases rs)) (Next r) s s'
    | Panic m \<Rightarrow> kfree_loop p len (Next r) s = Some (Panic m)
    | _ \<Rightarrow> False" using Cons.IH [of "Next r"] r Cons.prems(3) by blast
    have step: "kfree_loop p len rp s = kfree_loop p len (Next r) s"
      using 5 d by (subst loop) (auto simp: Let_def)
    show ?thesis
    proof (cases "kfree_runs p len rs")
      case (Ret rs')
      then obtain s' where s': "kfree_loop p len (Next r) s = Some (Ret s')"
        "runs_at s' (run_next s' r) rs'" "kframe (insert p (bases rs)) (Next r) s s'"
        using IH by auto
      have "deref rp s' = r" "run_len s' r = l"
        using s'(3) d r rp Cons.prems(5) a by (cases rp; auto simp: kframe_def)+
      moreover have "kframe (insert p (bases (a # rs))) rp s s'"
        using s'(3) a by (auto simp: kframe_def)
      ultimately show ?thesis using s' step Ret a d 5 by auto
    qed (use IH step a 5 in auto)
  qed
qed

lemma kalloc_loop_refines:
  assumes "runs_at s (deref rp s) rs" "distinct (map fst rs)" "rp_fresh rp (bases rs)"
    and "kalloc_runs n rs = (p, rs')"
  shows "\<exists>s'. kalloc_loop n rp s = Some (Ret (p, s')) \<and> runs_at s' (deref rp s') rs'
    \<and> kframe (bases rs) rp s s'"
  using assms
proof (induction rs arbitrary: rp rs')
  case Nil
  then show ?case by (subst kalloc_loop.simps) (auto simp: kframe_def)
next
  case (Cons a rs)
  obtain r l where a: "a = (r, l)" by (cases a)
  have d: "deref rp s = r" "r \<noteq> 0" "run_len s r = l" "runs_at s (run_next s r) rs"
    and r: "r \<notin> bases rs" "distinct (map fst rs)"
    using Cons.prems a by (auto simp: bases_def)
  have rp: "rp_fresh rp {r}" "rp_fresh rp (bases rs)"
    using Cons.prems(3) a by (cases rp; auto)+
  note loop = kalloc_loop.simps [of n rp s]
  consider "l = n" | "n < l" | "l < n" by linarith
  then show ?case
  proof cases
    case 1
    let ?S = "assign rp (run_next s r) s"
    have "kalloc_loop n rp s = Some (Ret (p, ?S))" "rs' = rs"
      using 1 a d Cons.prems(4) by (subst loop, auto)
    moreover have "runs_at ?S (deref rp ?S) rs"
      using d rp by (cases rp) (auto intro!: runs_at_agree [of s])
    moreover have "kframe (bases (a # rs)) rp s ?S" by (cases rp) (auto simp: kframe_def)
    ultimately show ?thesis by blast
  next
    case 2
    let ?S = "s\<lparr>run_len := (run_len s)(r := run_len s r - n)\<rparr>"
    have "kalloc_loop n rp s = Some (Ret (p, ?S))" "rs' = (r, l - n) # rs"
      using 2 a d Cons.prems(4) by (subst loop, auto simp: Let_def)
    moreover have "runs_at ?S (deref rp ?S) ((r, l - n) # rs)"
      using d r by (cases rp) (auto intro!: runs_at_agree [of s])
    moreover have "kframe (bases (a # rs)) rp s ?S" using a by (auto simp: kframe_def)
    ultimately show ?thesis by blast
  next
    case 3
    obtain rs1 where rs1: "kalloc_runs n rs = (p, rs1)" "rs' = (r, l) # rs1"
      using 3 Cons.prems(4) a by (cases "kalloc_runs n rs") auto
    obtain s' where s': "kalloc_loop n (Next r) s = Some (Ret (p, s'))"
      "runs_at s' (run_next s' r) rs1" "kframe (bases rs) (Next r) s s'"
      using Cons.IH [of "Next r" rs1] d r rs1(1) by auto
    have "kalloc_loop n rp s = kalloc_loop n (Next r) s"
      using 3 d by (subst loop) (auto simp: Let_def)
    moreover have "deref rp s' = r" "run_len s' r = l"
      using s'(3) d r rp by (cases rp; auto simp: kframe_def)+
    moreover have "kframe (bases (a # rs)) rp s s'" using s'(3) a by (auto simp: kframe_def)
    ultimately show ?thesis using s' rs1 d by auto
  qed
qed

text \<open>A freed page that lies in a free run is reported, although its header may have been overwritten.\<close>

lemma kfree_loop_panics:
  assumes "runs_at s0 (deref rp s) rs" "wf_runs lo rs" "p \<in> free_bytes rs" "0 < len"
    and "\<forall>a < p. run_len s a = run_len s0 a \<and> run_next s a = run_next s0 a" "0 < run_len s p"
  shows "kfree_loop p len rp s = Some (Panic ''freeing free page'')"
  using assms
proof (induction rs arbitrary: rp lo)
  case (Cons a rs)
  obtain r l where a: "a = (r, l)" by (cases a)
  have d: "deref rp s = r" "r \<noteq> 0" "run_len s0 r = l" "runs_at s0 (run_next s0 r) rs"
    and wf: "wf_runs (r + l) rs" "0 < l" using Cons.prems a by auto
  have "r < p \<or> r = p" using Cons.prems(3) a wf wf_runs_free_above [OF wf(1), of p] by auto
  then show ?case
  proof
    assume "r = p"
    then show ?thesis using d Cons.prems(4,6) by (subst kfree_loop.simps) auto
  next
    assume rp: "r < p"
    then have rl: "run_len s r = l" "run_next s r = run_next s0 r" using Cons.prems(5) d by auto
    show ?thesis
    proof (cases "p < r + l")
      case True
      then show ?thesis using rp rl d Cons.prems(4) by (subst kfree_loop.simps) auto
    next
      case False
      have p: "p \<in> free_bytes rs" using Cons.prems(3) a False by auto
      then have "r + l < p" using wf_runs_free_above [OF wf(1)] by blast
      then have "kfree_loop p len rp s = kfree_loop p len (Next r) s"
        using rp rl d Cons.prems(4) by (subst kfree_loop.simps) (auto simp: Let_def)
      then show ?thesis using Cons.IH [of "Next r" "r + l"] d rl wf p Cons.prems(4-6) by simp
    qed
  qed
qed simp

section \<open>The allocator's contract\<close>

text \<open>
  What a client of the allocator relies on.  The operations return an \<open>option\<close> because a corrupt
  free list could make them run forever; the laws say that they do return.
\<close>

locale page_allocator =
  fixes alloc :: "int \<Rightarrow> 's \<Rightarrow> (int \<times> 's) outcome option"
    and free :: "int \<Rightarrow> int \<Rightarrow> 's \<Rightarrow> 's outcome option"
    and rep :: "'s \<Rightarrow> 'a \<Rightarrow> bool"
    and avail :: "'a \<Rightarrow> int set"
  assumes alloc_law: "rep s a \<Longrightarrow> 0 < n \<Longrightarrow> PAGE dvd n \<Longrightarrow>
      \<exists>p s' a'. alloc n s = Some (Ret (p, s')) \<and> rep s' a' \<and>
        (p = 0 \<and> a' = a \<or>
         0 < p \<and> PAGE dvd p \<and> {p ..< p + n} \<subseteq> avail a \<and> avail a' = avail a - {p ..< p + n})"
    and free_law: "rep s a \<Longrightarrow> 0 < p \<Longrightarrow> 0 < n \<Longrightarrow> PAGE dvd p \<Longrightarrow> PAGE dvd n \<Longrightarrow>
      {p ..< p + n} \<inter> avail a = {} \<Longrightarrow>
      \<exists>s' a'. free p n s = Some (Ret s') \<and> rep s' a' \<and> avail a' = avail a \<union> {p ..< p + n}"
    and rep_unique: "rep s a \<Longrightarrow> rep s' a' \<Longrightarrow> avail a = avail a' \<Longrightarrow> a = a'"
begin

lemma alloc_returns:
  assumes "rep s a" "0 < n" "PAGE dvd n" "alloc n s = Some (Ret (p, s'))" "p \<noteq> 0"
  shows "\<exists>a'. rep s' a' \<and> 0 < p \<and> PAGE dvd p \<and> {p ..< p + n} \<subseteq> avail a \<and> avail a' = avail a - {p ..< p + n}"
  using alloc_law [OF assms(1-3)] assms(4,5) by auto

lemma alloc_alloc_disjoint:
  assumes "rep s a" "0 < m" "PAGE dvd m" "0 < n" "PAGE dvd n"
    and "alloc m s = Some (Ret (p, s1))" "p \<noteq> 0" "alloc n s1 = Some (Ret (q, s2))" "q \<noteq> 0"
  shows "{p ..< p + m} \<inter> {q ..< q + n} = {}"
proof -
  obtain a1 where a1: "rep s1 a1" "avail a1 = avail a - {p ..< p + m}"
    using alloc_returns [OF assms(1-3,6,7)] by blast
  obtain a2 where "{q ..< q + n} \<subseteq> avail a1" using alloc_returns [OF a1(1) assms(4,5,8,9)] by blast
  then show ?thesis using a1(2) by blast
qed

lemma free_after_alloc:
  assumes "rep s a" "0 < n" "PAGE dvd n" "alloc n s = Some (Ret (p, s1))" "p \<noteq> 0"
  shows "\<exists>s2. free p n s1 = Some (Ret s2) \<and> rep s2 a"
proof -
  obtain a1 where a1: "rep s1 a1" "0 < p" "PAGE dvd p" "{p ..< p + n} \<subseteq> avail a"
    "avail a1 = avail a - {p ..< p + n}" using alloc_returns [OF assms] by blast
  obtain s2 a2 where a2: "free p n s1 = Some (Ret s2)" "rep s2 a2"
    "avail a2 = avail a1 \<union> {p ..< p + n}"
    using free_law [OF a1(1,2) assms(2) a1(3) assms(3)] a1(5) by blast
  have "avail a2 = avail a" using a2(3) a1(4,5) by blast
  then show ?thesis using rep_unique [OF a2(2) assms(1)] a2 by blast
qed

end

definition krep :: "kstate \<Rightarrow> runs \<Rightarrow> bool" where
  "krep s rs \<longleftrightarrow> runs_at s (freelist s) rs \<and> wf_runs 0 rs"

lemma wf_runs_distinct: "wf_runs lo rs \<Longrightarrow> distinct (map fst rs)"
proof (induction rs arbitrary: lo)
  case (Cons a rs)
  obtain r l where a: "a = (r, l)" by (cases a)
  have "wf_runs (r + l) rs" "0 < l" using Cons.prems a by auto
  then have "r \<notin> fst ` set rs" using wf_runs_base [of "r + l" rs] by force
  then show ?case using Cons.IH \<open>wf_runs (r + l) rs\<close> a by auto
qed simp

lemma bases_free: "wf_runs lo rs \<Longrightarrow> bases rs \<subseteq> free_bytes rs"
  using wf_runs_base by (fastforce simp: bases_def free_bytes_def)

lemma mod_PAGE_eq_0: "n mod PAGE = 0 \<longleftrightarrow> PAGE dvd n"
  by (simp add: dvd_eq_mod_eq_0)

lemma kfree_correct:
  assumes "krep s rs" "0 < v" "0 < len" "PAGE dvd v" "PAGE dvd len"
    and "{v ..< v + len} \<inter> free_bytes rs = {}"
  shows "\<exists>s' rs'. kfree v len s = Some (Ret s') \<and> krep s' rs'
    \<and> free_bytes rs' = free_bytes rs \<union> {v ..< v + len}"
proof -
  let ?s = "fill_junk v len s"
  have wf: "wf_runs 0 rs" and at: "runs_at s (freelist s) rs" using assms(1) by (auto simp: krep_def)
  have "bases rs \<inter> {v ..< v + len} = {}" using bases_free [OF wf] assms(6) by blast
  then have out: "\<forall>r \<in> bases rs. \<not> (v \<le> r \<and> r < v + len)" by (simp add: disjoint_iff)
  then have at': "runs_at ?s (deref Freelist ?s) rs"
    using at by (auto simp: fill_junk_def intro!: runs_at_agree [of s])
  obtain rs' where rs': "kfree_runs v len rs = Ret rs'" "wf_runs 0 rs'"
    "free_bytes rs' = free_bytes rs \<union> {v ..< v + len}"
    using kfree_runs_spec [OF wf assms(2-6)] by blast
  have "v \<notin> bases rs" using out assms(3) by auto
  then obtain s' where "kfree_loop v len Freelist ?s = Some (Ret s')" "runs_at s' (freelist s') rs'"
    using kfree_loop_refines [OF at' wf_runs_distinct [OF wf], of v len] assms(2) rs'(1) by auto
  then show ?thesis
    using rs' assms(3,5) by (auto simp: kfree_def krep_def mod_PAGE_eq_0)
qed

lemma kalloc_correct:
  assumes "krep s rs" "0 < n" "PAGE dvd n"
  shows "\<exists>p s' rs'. kalloc n s = Some (Ret (p, s')) \<and> krep s' rs' \<and>
    (if \<forall>(r, l) \<in> set rs. l < n then p = 0 \<and> rs' = rs
     else 0 < p \<and> PAGE dvd p \<and> {p ..< p + n} \<subseteq> free_bytes rs
       \<and> free_bytes rs' = free_bytes rs - {p ..< p + n})"
proof -
  have wf: "wf_runs 0 rs" and at: "runs_at s (deref Freelist s) rs"
    using assms(1) by (auto simp: krep_def)
  obtain p rs' where k: "kalloc_runs n rs = (p, rs')" by (cases "kalloc_runs n rs")
  obtain s' where s': "kalloc_loop n Freelist s = Some (Ret (p, s'))" "runs_at s' (freelist s') rs'"
    using kalloc_loop_refines [OF at wf_runs_distinct [OF wf] _ k] by auto
  have ret: "kalloc n s = Some (Ret (p, s'))"
    using s'(1) assms(2,3) by (simp add: kalloc_def mod_PAGE_eq_0)
  show ?thesis
  proof (cases "\<forall>(r, l) \<in> set rs. l < n")
    case True
    then have "p = 0" "rs' = rs" using kalloc_runs_none [OF True] k by auto
    then show ?thesis using True ret s' wf by (auto simp: krep_def)
  next
    case False
    then have "p \<noteq> 0" using kalloc_runs_fails_iff [OF wf _ assms(2)] k by simp
    then show ?thesis
      using False kalloc_runs_spec [OF wf _ assms(2,3) k] ret s' by (auto simp: krep_def)
  qed
qed

interpretation kpages: page_allocator kalloc kfree krep free_bytes
proof unfold_locales
  fix s rs n assume "krep s rs" "0 < n" "PAGE dvd n"
  from kalloc_correct [OF this]
  show "\<exists>p s' a'. kalloc n s = Some (Ret (p, s')) \<and> krep s' a' \<and>
      (p = 0 \<and> a' = rs \<or> 0 < p \<and> PAGE dvd p \<and> {p ..< p + n} \<subseteq> free_bytes rs
        \<and> free_bytes a' = free_bytes rs - {p ..< p + n})"
    by (metis (no_types, lifting))
next
  show "krep s a \<Longrightarrow> krep s' a' \<Longrightarrow> free_bytes a = free_bytes a' \<Longrightarrow> a = a'" for s a s' a'
    by (auto simp: krep_def intro: wf_runs_unique)
qed (rule kfree_correct)

text \<open>
  C10: starting from a well-formed free list, \<^verbatim>\<open>kalloc\<close> of a positive number of whole pages
  returns; it returns 0, changing nothing, exactly when no run is long enough, and otherwise a page
  aligned block of formerly free bytes which is no longer free, keeping the list well formed.
\<close>

theorem kalloc_contract:
  assumes "krep s rs" "0 < n" "PAGE dvd n"
  shows "\<exists>p s' rs'. kalloc n s = Some (Ret (p, s')) \<and> krep s' rs' \<and>
    (if \<forall>(r, l) \<in> set rs. l < n then p = 0 \<and> rs' = rs
     else 0 < p \<and> PAGE dvd p \<and> {p ..< p + n} \<subseteq> free_bytes rs
       \<and> free_bytes rs' = free_bytes rs - {p ..< p + n})"
  using assms by (rule kalloc_correct)

definition demo_kstate :: kstate where
  "demo_kstate = \<lparr>freelist = 8192, run_next = (\<lambda>_. 0), run_len = (\<lambda>a. if a = 8192 then 12288 else 0)\<rparr>"

lemma krep_demo: "krep demo_kstate [(8192, 12288)]"
  by (simp add: krep_def demo_kstate_def PAGE_def)

theorem kalloc_contract_witness:
  "\<exists>p s' rs'. kalloc 4096 demo_kstate = Some (Ret (p, s')) \<and> krep s' rs' \<and> 0 < p
    \<and> free_bytes rs' = free_bytes [(8192, 12288)] - {p ..< p + 4096}"
  using kalloc_contract [OF krep_demo, of 4096] by (auto simp: PAGE_def)



text \<open>
  Freeing a block just returned by \<^verbatim>\<open>kalloc\<close> never panics and restores exactly the free
  list the allocation started from, so allocate/free pairs never fragment memory.
\<close>

theorem kalloc_kfree_roundtrip:
  assumes "krep s rs" "0 < n" "PAGE dvd n" "kalloc n s = Some (Ret (p, s1))" "p \<noteq> 0"
  shows "\<exists>s2. kfree p n s1 = Some (Ret s2) \<and> krep s2 rs"
  using assms by (rule kpages.free_after_alloc)

theorem kalloc_kfree_roundtrip_witness:
  "\<exists>p s1 s2. kalloc 4096 demo_kstate = Some (Ret (p, s1)) \<and> kfree p 4096 s1 = Some (Ret s2)
    \<and> krep s2 [(8192, 12288)]"
proof -
  obtain p s1 where p: "kalloc 4096 demo_kstate = Some (Ret (p, s1))" "p \<noteq> 0"
    using kalloc_correct [OF krep_demo, of 4096] by (auto simp: PAGE_def)
  then show ?thesis using kalloc_kfree_roundtrip [OF krep_demo _ _ p] by (auto simp: PAGE_def)
qed

text \<open>
  A double free is always caught: freeing from an address that lies in a free run panics with
  \<^verbatim>\<open>freeing free page\<close>, although the page was filled with junk before the list is searched.
\<close>

theorem kfree_double_free:
  assumes "krep s rs" "v \<in> free_bytes rs" "0 < len" "PAGE dvd len"
  shows "kfree v len s = Some (Panic ''freeing free page'')"
proof -
  have "kfree_loop v len Freelist (fill_junk v len s) = Some (Panic ''freeing free page'')"
    using assms by (intro kfree_loop_panics [of s]) (auto simp: krep_def fill_junk_def)
  then show ?thesis using assms(3,4) by (simp add: kfree_def mod_PAGE_eq_0)
qed

theorem kfree_double_free_witness:
  "kfree 12288 4096 demo_kstate = Some (Panic ''freeing free page'')"
  using kfree_double_free [OF krep_demo, of 12288 4096] by (simp add: PAGE_def)

end
