(* ===== verification/File.thy ===== *)
theory File
  imports FsRead Pipe Kalloc
begin

text \<open>
  The table of open files of \<^verbatim>\<open>file.c\<close> and the allocation of pipes (\<^verbatim>\<open>pipealloc\<close> of \<^verbatim>\<open>pipe.c\<close>).  The state
  extends the one of the file system by the table, the pipes, which live in pages of the page allocator, and
  the allocator.  A call that would sleep on a pipe has the outcome \<open>Blocked\<close>.
\<close>

section \<open>State\<close>

datatype fdtype = FD_CLOSED | FD_NONE | FD_PIPE | FD_INODE

record open_file =
  f_type :: fdtype
  f_ref :: int
  f_readable :: uchar
  f_writable :: uchar
  f_pipe :: int
  f_ip :: nat
  f_off :: uint

record file_state = fs_state +
  ftable :: "nat \<Rightarrow> open_file"
  pipes :: "int \<Rightarrow> pipe"
  kst :: kstate

definition upd_file :: "nat \<Rightarrow> (open_file \<Rightarrow> open_file) \<Rightarrow> 'a file_state_scheme \<Rightarrow> 'a file_state_scheme" where
  "upd_file f g s = s\<lparr>ftable := (ftable s)(f := g (ftable s f))\<rparr>"

text \<open>The allocator on the whole state; a search of the free list that does not end is \<open>Blocked\<close>.\<close>

definition kalloc_st :: "int \<Rightarrow> 'a file_state_scheme \<Rightarrow> (int \<times> 'a file_state_scheme) outcome" where
  "kalloc_st n s =
     (case kalloc n (kst s) of
        None \<Rightarrow> Blocked ''kalloc''
      | Some r \<Rightarrow> obind r (\<lambda>(p, k). Ret (p, s\<lparr>kst := k\<rparr>)))"

definition kfree_st :: "int \<Rightarrow> int \<Rightarrow> 'a file_state_scheme \<Rightarrow> 'a file_state_scheme outcome" where
  "kfree_st p n s =
     (case kfree p n (kst s) of
        None \<Rightarrow> Blocked ''kfree''
      | Some r \<Rightarrow> obind r (\<lambda>k. Ret (s\<lparr>kst := k\<rparr>)))"

section \<open>Operations\<close>

definition filealloc :: "'a file_state_scheme \<Rightarrow> nat option \<times> 'a file_state_scheme" where
  "filealloc s =
     (case List.find (\<lambda>i. f_type (ftable s i) = FD_CLOSED) [0 ..< NFILE] of
        Some i \<Rightarrow> (Some i, upd_file i (\<lambda>f. f\<lparr>f_type := FD_NONE, f_ref := 1\<rparr>) s)
      | None \<Rightarrow> (None, s))"

definition filedup :: "nat \<Rightarrow> 'a file_state_scheme \<Rightarrow> (nat \<times> 'a file_state_scheme) outcome" where
  "filedup f s =
     (if f_ref (ftable s f) < 1 \<or> f_type (ftable s f) = FD_CLOSED then Panic ''filedup''
      else Ret (f, upd_file f (\<lambda>x. x\<lparr>f_ref := f_ref x + 1\<rparr>) s))"

definition pipeclose :: "int \<Rightarrow> uchar \<Rightarrow> 'a file_state_scheme \<Rightarrow> 'a file_state_scheme outcome" where
  "pipeclose p wr s =
     (let (q, w) = pipeclose_end (wr \<noteq> 0) (pipes s p); s1 = s\<lparr>pipes := (pipes s)(p := q)\<rparr> in
      if pipeclose_frees q then kfree_st p PAGE s1 else Ret s1)"

definition fileclose :: "nat \<Rightarrow> 'a file_state_scheme \<Rightarrow> 'a file_state_scheme outcome" where
  "fileclose f s =
     (if f_ref (ftable s f) < 1 \<or> f_type (ftable s f) = FD_CLOSED then Panic ''fileclose''
      else
        (let s1 = upd_file f (\<lambda>x. x\<lparr>f_ref := f_ref x - 1\<rparr>) s in
         if f_ref (ftable s1 f) > 0 then Ret s1
         else
           (let ff = ftable s1 f; s2 = upd_file f (\<lambda>x. x\<lparr>f_ref := 0, f_type := FD_CLOSED\<rparr>) s1 in
            case f_type ff of
              FD_PIPE \<Rightarrow> pipeclose (f_pipe ff) (f_writable ff) s2
            | FD_INODE \<Rightarrow> iput (f_ip ff) s2
            | _ \<Rightarrow> Panic ''fileclose'')))"

definition filestat :: "nat \<Rightarrow> 'a file_state_scheme \<Rightarrow> (int \<times> stat option \<times> 'a file_state_scheme) outcome" where
  "filestat f s =
     (if f_type (ftable s f) = FD_INODE then
        (let ip = f_ip (ftable s f) in
         obind (ilock (Some ip) s) (\<lambda>s1.
         let st = stati ip s1 in
         obind (iunlock (Some ip) s1) (\<lambda>s2. Ret (0, Some st, s2))))
      else Ret (-1, None, s))"

text \<open>\<open>killed\<close> is \<^verbatim>\<open>cp->killed\<close>, which the pipe operations look at.\<close>

definition fileread :: "('a file_state_scheme) devsw \<Rightarrow> bool \<Rightarrow> nat \<Rightarrow> int \<Rightarrow> 'a file_state_scheme
    \<Rightarrow> (int \<times> uchar list \<times> 'a file_state_scheme) outcome" where
  "fileread dv killed f n s =
     (let fl = ftable s f in
      if f_readable fl = 0 then Ret (-1, [], s)
      else case f_type fl of
          FD_PIPE \<Rightarrow>
            (let (r, p, w) = piperead killed n (pipes s (f_pipe fl)); s1 = s\<lparr>pipes := (pipes s)(f_pipe fl := p)\<rparr> in
             case r of PRet v cs \<Rightarrow> Ret (v, cs, s1) | PSleep _ \<Rightarrow> Blocked ''piperead'')
        | FD_INODE \<Rightarrow>
            obind (ilock (Some (f_ip fl)) s) (\<lambda>s1.
            obind (readi dv (f_ip fl) (f_off fl) (of_int n) s1) (\<lambda>(r, cs, s2).
            let s3 = (if r > 0 then upd_file f (\<lambda>x. x\<lparr>f_off := f_off x + of_int r\<rparr>) s2 else s2) in
            obind (iunlock (Some (f_ip fl)) s3) (\<lambda>s4. Ret (r, cs, s4))))
        | _ \<Rightarrow> Panic ''fileread'')"

definition filewrite :: "('a file_state_scheme) devsw \<Rightarrow> bool \<Rightarrow> nat \<Rightarrow> uchar list \<Rightarrow> int \<Rightarrow> 'a file_state_scheme
    \<Rightarrow> (int \<times> 'a file_state_scheme) outcome" where
  "filewrite dv killed f src n s =
     (let fl = ftable s f in
      if f_writable fl = 0 then Ret (-1, s)
      else case f_type fl of
          FD_PIPE \<Rightarrow>
            (let (r, p, w) = pipewrite killed (take (nat n) src) (pipes s (f_pipe fl));
                 s1 = s\<lparr>pipes := (pipes s)(f_pipe fl := p)\<rparr> in
             case r of PRet v cs \<Rightarrow> Ret (v, s1) | PSleep _ \<Rightarrow> Blocked ''pipewrite'')
        | FD_INODE \<Rightarrow>
            obind (ilock (Some (f_ip fl)) s) (\<lambda>s1.
            obind (writei dv (f_ip fl) src (f_off fl) (of_int n) s1) (\<lambda>(r, s2).
            let s3 = (if r > 0 then upd_file f (\<lambda>x. x\<lparr>f_off := f_off x + of_int r\<rparr>) s2 else s2) in
            obind (iunlock (Some (f_ip fl)) s3) (\<lambda>s4. Ret (r, s4))))
        | _ \<Rightarrow> Panic ''filewrite'')"

definition filecheck :: "nat \<Rightarrow> int \<Rightarrow> 'a file_state_scheme \<Rightarrow> (int \<times> 'a file_state_scheme) outcome" where
  "filecheck f n s =
     (let fl = ftable s f in
      if f_readable fl = 0 \<and> f_writable fl = 0 then Ret (-1, s)
      else case f_type fl of
          FD_PIPE \<Rightarrow> Ret (0, s)
        | FD_INODE \<Rightarrow>
            obind (ilock (Some (f_ip fl)) s) (\<lambda>s1.
            obind (checki (f_ip fl) n s1) (\<lambda>(r, s2).
            obind (iunlock (Some (f_ip fl)) s2) (\<lambda>s3. Ret (r, s3))))
        | _ \<Rightarrow> Panic ''filecheck'')"

section \<open>pipealloc\<close>

definition set_pipe_file :: "nat \<Rightarrow> uchar \<Rightarrow> uchar \<Rightarrow> int \<Rightarrow> 'a file_state_scheme \<Rightarrow> 'a file_state_scheme" where
  "set_pipe_file f r w p s =
     upd_file f (\<lambda>x. x\<lparr>f_type := FD_PIPE, f_readable := r, f_writable := w, f_pipe := p\<rparr>) s"

text \<open>The label \<^verbatim>\<open>bad\<close>, where \<open>p\<close> is always null.\<close>

definition pipealloc_close :: "nat option \<Rightarrow> 'a file_state_scheme \<Rightarrow> 'a file_state_scheme outcome" where
  "pipealloc_close f s =
     (case f of None \<Rightarrow> Ret s | Some i \<Rightarrow> fileclose i (upd_file i (\<lambda>x. x\<lparr>f_type := FD_NONE\<rparr>) s))"

definition pipealloc_bad :: "nat option \<Rightarrow> nat option \<Rightarrow> 'a file_state_scheme
    \<Rightarrow> (int \<times> nat option \<times> nat option \<times> 'a file_state_scheme) outcome" where
  "pipealloc_bad f0 f1 s =
     obind (pipealloc_close f0 s) (\<lambda>s1.
     obind (pipealloc_close f1 s1) (\<lambda>s2. Ret (-1, f0, f1, s2)))"

definition pipealloc :: "'a file_state_scheme \<Rightarrow> (int \<times> nat option \<times> nat option \<times> 'a file_state_scheme) outcome" where
  "pipealloc s =
     (let (f0, s1) = filealloc s in
      case f0 of
        None \<Rightarrow> pipealloc_bad None None s1
      | Some i \<Rightarrow>
          (let (f1, s2) = filealloc s1 in
           case f1 of
             None \<Rightarrow> pipealloc_bad f0 None s2
           | Some j \<Rightarrow>
               obind (kalloc_st PAGE s2) (\<lambda>(p, s3).
                 if p = 0 then pipealloc_bad f0 f1 s3
                 else Ret (0, f0, f1, set_pipe_file j 0 1 p (set_pipe_file i 1 0 p
                   (s3\<lparr>pipes := (pipes s3)(p := pipe_init (pipes s3 p))\<rparr>))))))"

section \<open>References to open files\<close>

text \<open>
  What a table entry needs while it is in use: a positive count and an open type; closed entries have
  none.
\<close>

definition ftable_ok :: "'a file_state_scheme \<Rightarrow> bool" where
  "ftable_ok s \<longleftrightarrow> (\<forall>f. if f_type (ftable s f) = FD_CLOSED then f_ref (ftable s f) = 0 else 0 < f_ref (ftable s f))"

lemma filealloc_ok:
  assumes "ftable_ok s" "filealloc s = (r, s')"
  shows "ftable_ok s'" "r = Some f \<Longrightarrow> f < NFILE \<and> f_ref (ftable s f) = 0 \<and> f_ref (ftable s' f) = 1 \<and> f_type (ftable s' f) = FD_NONE"
    "r = None \<longleftrightarrow> (\<forall>f < NFILE. f_type (ftable s f) \<noteq> FD_CLOSED)"
  using assms by (auto simp: filealloc_def ftable_ok_def upd_file_def find_Some_iff find_None_iff split: option.splits if_splits)

lemma filedup_ok:
  assumes "ftable_ok s" "f_type (ftable s f) \<noteq> FD_CLOSED"
  shows "\<exists>s'. filedup f s = Ret (f, s') \<and> ftable_ok s' \<and> f_ref (ftable s' f) = f_ref (ftable s f) + 1"
proof -
  have "0 < f_ref (ftable s f)" using assms unfolding ftable_ok_def by presburger
  then have ret: "filedup f s = Ret (f, upd_file f (\<lambda>x. x\<lparr>f_ref := f_ref x + 1\<rparr>) s)" using assms(2) by (simp add: filedup_def)
  show ?thesis unfolding ret using assms by (auto simp: ftable_ok_def upd_file_def) (metis add_strict_increasing zero_le_one less_imp_le zless_add1_eq)
qed

lemma fileclose_fresh: "f_type (ftable s f) = FD_NONE \<Longrightarrow> f_ref (ftable s f) = 1 \<Longrightarrow> fileclose f s = Panic ''fileclose''"
  by (simp add: fileclose_def upd_file_def Let_def)

text \<open>
  \<open>pipealloc\<close> that cannot get everything it needs does not return an error: undoing the allocation of a file
  with \<open>fileclose\<close> panics, because a file of type \<^verbatim>\<open>FD_NONE\<close> cannot be closed.  This happens when one entry of
  the table is left, and when two are left but no page of memory is.
\<close>

theorem pipealloc_failure_panics:
  fixes s :: "'a file_state_scheme"
  assumes "ftable_ok s" "f < NFILE" "f_type (ftable s f) = FD_CLOSED"
    and "(\<forall>g < NFILE. g \<noteq> f \<longrightarrow> f_type (ftable s g) \<noteq> FD_CLOSED)
      \<or> (\<exists>g < NFILE. g \<noteq> f \<and> f_type (ftable s g) = FD_CLOSED) \<and> (\<exists>k. kalloc PAGE (kst s) = Some (Ret (0, k)))"
  shows "pipealloc s = Panic ''fileclose''"
proof -
  have "\<exists>i s1. filealloc s = (Some i, s1)"
    using assms(2,3) by (auto simp: filealloc_def find_None_iff split: option.splits)
  then obtain i s1 where a0: "filealloc s = (Some i, s1)" by blast
  note i = filealloc_ok [OF assms(1) a0]
  have type_i: "f_type (ftable s i) = FD_CLOSED" and s1: "s1 = upd_file i (\<lambda>f. f\<lparr>f_type := FD_NONE, f_ref := 1\<rparr>) s"
    using a0 by (auto simp: filealloc_def find_Some_iff split: option.splits)
  obtain r s2 where a1: "filealloc s1 = (r, s2)" by (cases "filealloc s1")
  have bad: "pipealloc_bad (Some i) r' t = Panic ''fileclose''" if "f_ref (ftable t i) = 1" for r' and t :: "'a file_state_scheme"
    using that by (simp add: pipealloc_bad_def pipealloc_close_def fileclose_fresh upd_file_def)
  show ?thesis
  proof (cases r)
    case None
    then have "s2 = s1" using a1 by (auto simp: filealloc_def split: option.splits)
    then show ?thesis using a0 a1 None i(2) [OF refl] bad by (simp add: pipealloc_def)
  next
    case (Some j)
    have "j \<noteq> i" using a1 i(2) [OF refl] Some by (auto simp: filealloc_def find_Some_iff split: option.splits)
    have j: "j < NFILE" "f_type (ftable s j) = FD_CLOSED"
      using a1 Some \<open>j \<noteq> i\<close> by (auto simp: filealloc_def find_Some_iff s1 upd_file_def split: option.splits)
    then obtain k where "kalloc PAGE (kst s) = Some (Ret (0, k))"
      using assms(4) \<open>j \<noteq> i\<close> type_i i(2) [OF refl] by metis
    moreover have "kst s2 = kst s" "ftable s2 i = ftable s1 i"
      using a1 Some \<open>j \<noteq> i\<close> by (auto simp: filealloc_def s1 upd_file_def split: option.splits)
    ultimately show ?thesis
      using a0 a1 Some i(2) [OF refl] bad by (simp add: pipealloc_def kalloc_st_def)
  qed
qed

definition demo_files :: "nat set \<Rightarrow> file_state" where
  "demo_files closed = fs_state.extend demo_fs
     \<lparr>ftable = (\<lambda>f. \<lparr>f_type = (if f \<in> closed then FD_CLOSED else FD_INODE), f_ref = (if f \<in> closed then 0 else 1),
        f_readable = 1, f_writable = 0, f_pipe = 0, f_ip = 3, f_off = 0\<rparr>),
      pipes = (\<lambda>_. \<lparr>readopen = 0, writeopen = 0, writep = 0, readp = 0, pdata = (\<lambda>_. 0)\<rparr>),
      kst = \<lparr>freelist = 0, run_next = (\<lambda>_. 0), run_len = (\<lambda>_. 0)\<rparr>\<rparr>"

theorem pipealloc_failure_panics_witness:
  "pipealloc (demo_files {7}) = Panic ''fileclose'' \<and> pipealloc (demo_files {7, 8}) = Panic ''fileclose''"
proof -
  have fields: "ftable (demo_files c) f = \<lparr>f_type = (if f \<in> c then FD_CLOSED else FD_INODE), f_ref = (if f \<in> c then 0 else 1),
      f_readable = 1, f_writable = 0, f_pipe = 0, f_ip = 3, f_off = 0\<rparr>"
    "kst (demo_files c) = \<lparr>freelist = 0, run_next = (\<lambda>_. 0), run_len = (\<lambda>_. 0)\<rparr>" for c f
    by (simp_all add: demo_files_def fs_state.extend_def)
  have ok: "ftable_ok (demo_files c)" for c by (simp add: ftable_ok_def fields)
  have "kalloc PAGE (kst (demo_files {7, 8})) = Some (Ret (0, kst (demo_files {7, 8})))"
    by (simp add: kalloc_def kalloc_loop.simps fields PAGE_def)
  moreover have "\<exists>g < NFILE. g \<noteq> 7 \<and> f_type (ftable (demo_files {7, 8}) g) = FD_CLOSED"
    by (rule exI [of _ 8]) (simp add: fields NFILE_def)
  ultimately show ?thesis
    using pipealloc_failure_panics [OF ok, of 7 "{7}"] pipealloc_failure_panics [OF ok, of 7 "{7, 8}"]
    by (auto simp: fields NFILE_def)
qed

end
