(* ===== verification/Mmu.thy ===== *)
theory Mmu
  imports Xv6_Prelude
begin

text \<open>
  Segment and gate descriptors of \<^verbatim>\<open>mmu.h\<close>, the segments of a process (\<^verbatim>\<open>setupsegs\<close> of \<^verbatim>\<open>proc.c\<close>) and the
  interrupt descriptor table (\<^verbatim>\<open>tvinit\<close> of \<^verbatim>\<open>trap.c\<close>).  Bit fields are words of their width.  Shown are that
  the descriptors mean what the kernel intends: a user segment gives access to the memory of the process and to
  nothing else, and the system call gate is the only one user code may enter.
\<close>

section \<open>Descriptors (mmu.h)\<close>

record segdesc =
  lim_15_0 :: "16 word"
  base_15_0 :: "16 word"
  base_23_16 :: "8 word"
  sd_type :: "4 word"
  sd_s :: "1 word"
  sd_dpl :: "2 word"
  sd_p :: "1 word"
  lim_19_16 :: "4 word"
  sd_avl :: "1 word"
  sd_rsv1 :: "1 word"
  sd_db :: "1 word"
  sd_g :: "1 word"
  base_31_24 :: "8 word"

definition SEG_NULL :: segdesc where
  "SEG_NULL = \<lparr>lim_15_0 = 0, base_15_0 = 0, base_23_16 = 0, sd_type = 0, sd_s = 0, sd_dpl = 0, sd_p = 0,
     lim_19_16 = 0, sd_avl = 0, sd_rsv1 = 0, sd_db = 0, sd_g = 0, base_31_24 = 0\<rparr>"

definition SEG :: "4 word \<Rightarrow> uint \<Rightarrow> uint \<Rightarrow> 2 word \<Rightarrow> segdesc" where
  "SEG type base lim dpl =
     \<lparr>lim_15_0 = ucast (drop_bit 12 lim AND 0xffff), base_15_0 = ucast (base AND 0xffff),
      base_23_16 = ucast (drop_bit 16 base AND 0xff), sd_type = type, sd_s = 1, sd_dpl = dpl, sd_p = 1,
      lim_19_16 = ucast (drop_bit 28 lim), sd_avl = 0, sd_rsv1 = 0, sd_db = 1, sd_g = 1,
      base_31_24 = ucast (drop_bit 24 base)\<rparr>"

definition SEG16 :: "4 word \<Rightarrow> uint \<Rightarrow> uint \<Rightarrow> 2 word \<Rightarrow> segdesc" where
  "SEG16 type base lim dpl =
     \<lparr>lim_15_0 = ucast (lim AND 0xffff), base_15_0 = ucast (base AND 0xffff),
      base_23_16 = ucast (drop_bit 16 base AND 0xff), sd_type = type, sd_s = 1, sd_dpl = dpl, sd_p = 1,
      lim_19_16 = ucast (drop_bit 16 lim), sd_avl = 0, sd_rsv1 = 0, sd_db = 1, sd_g = 0,
      base_31_24 = ucast (drop_bit 24 base)\<rparr>"

definition DPL_USER :: "2 word" where "DPL_USER = 3"
definition STA_X :: "4 word" where "STA_X = 8"
definition STA_W :: "4 word" where "STA_W = 2"
definition STA_R :: "4 word" where "STA_R = 2"
definition STS_T32A :: "4 word" where "STS_T32A = 9"
definition STS_IG32 :: "4 word" where "STS_IG32 = 0xE"
definition STS_TG32 :: "4 word" where "STS_TG32 = 0xF"

record gatedesc =
  off_15_0 :: "16 word"
  gd_cs :: "16 word"
  gd_args :: "5 word"
  gd_rsv1 :: "3 word"
  gd_type :: "4 word"
  gd_s :: "1 word"
  gd_dpl :: "2 word"
  gd_p :: "1 word"
  off_31_16 :: "16 word"

definition SETGATE :: "bool \<Rightarrow> ushort \<Rightarrow> uint \<Rightarrow> 2 word \<Rightarrow> gatedesc" where
  "SETGATE istrap sel off d =
     \<lparr>off_15_0 = ucast (off AND 0xffff), gd_cs = sel, gd_args = 0, gd_rsv1 = 0,
      gd_type = (if istrap then STS_TG32 else STS_IG32), gd_s = 0, gd_dpl = d, gd_p = 1,
      off_31_16 = ucast (drop_bit 16 off)\<rparr>"

section \<open>Segments of a process (proc.c)\<close>

definition SEG_KCODE :: nat where "SEG_KCODE = 1"
definition SEG_KDATA :: nat where "SEG_KDATA = 2"
definition SEG_UCODE :: nat where "SEG_UCODE = 3"
definition SEG_UDATA :: nat where "SEG_UDATA = 4"
definition SEG_TSS :: nat where "SEG_TSS = 5"
definition KSTACKSIZE :: uint where "KSTACKSIZE = 4096"

lemmas seg_numbers = SEG_KCODE_def SEG_KDATA_def SEG_UCODE_def SEG_UDATA_def SEG_TSS_def

text \<open>The fields of \<^verbatim>\<open>struct cpu\<close> that \<open>setupsegs\<close> sets; \<open>ts_addr\<close> is the address of its task state.\<close>

record cpu_segs =
  ts_ss0 :: ushort
  ts_esp0 :: uint
  gdt :: "nat \<Rightarrow> segdesc"

record proc_mem =
  pm_mem :: uint
  pm_sz :: uint
  pm_kstack :: uint

definition setupsegs :: "uint \<Rightarrow> proc_mem option \<Rightarrow> cpu_segs \<Rightarrow> cpu_segs" where
  "setupsegs ts_addr p c =
     (let c1 = c\<lparr>ts_ss0 := push_bit 3 (of_nat SEG_KDATA),
            ts_esp0 := (case p of Some q \<Rightarrow> pm_kstack q + KSTACKSIZE | None \<Rightarrow> 0xffffffff)\<rparr>;
          g = (gdt c1)(0 := SEG_NULL,
            SEG_KCODE := SEG (STA_X OR STA_R) 0 (0x100000 + 64 * 1024 - 1) 0,
            SEG_KDATA := SEG STA_W 0 0xffffffff 0,
            SEG_TSS := (SEG16 STS_T32A ts_addr (104 - 1) 0)\<lparr>sd_s := 0\<rparr>)
      in c1\<lparr>gdt := (case p of
           Some q \<Rightarrow> g(SEG_UCODE := SEG (STA_X OR STA_R) (pm_mem q) (pm_sz q - 1) DPL_USER,
                       SEG_UDATA := SEG STA_W (pm_mem q) (pm_sz q - 1) DPL_USER)
         | None \<Rightarrow> g(SEG_UCODE := SEG_NULL, SEG_UDATA := SEG_NULL))\<rparr>)"

section \<open>The interrupt descriptor table (trap.c)\<close>

definition T_SYSCALL :: nat where "T_SYSCALL = 48"

primrec tv_loop :: "nat \<Rightarrow> (nat \<Rightarrow> uint) \<Rightarrow> (nat \<Rightarrow> gatedesc) \<Rightarrow> nat \<Rightarrow> gatedesc" where
  "tv_loop 0 vectors idt = idt"
| "tv_loop (Suc i) vectors idt =
     (tv_loop i vectors idt)(i := SETGATE False (push_bit 3 (of_nat SEG_KCODE)) (vectors i) 0)"

text \<open>\<open>vectors\<close> is the table of entry points that \<^verbatim>\<open>vectors.pl\<close> generates.\<close>

definition tvinit :: "(nat \<Rightarrow> uint) \<Rightarrow> (nat \<Rightarrow> gatedesc) \<Rightarrow> nat \<Rightarrow> gatedesc" where
  "tvinit vectors idt =
     (tv_loop 256 vectors idt)(T_SYSCALL := SETGATE True (push_bit 3 (of_nat SEG_KCODE)) (vectors T_SYSCALL) DPL_USER)"

section \<open>What the processor makes of a descriptor\<close>

definition seg_base :: "segdesc \<Rightarrow> uint" where
  "seg_base d = ucast (base_15_0 d) OR push_bit 16 (ucast (base_23_16 d)) OR push_bit 24 (ucast (base_31_24 d))"

definition seg_limit :: "segdesc \<Rightarrow> uint" where
  "seg_limit d = (let l = ucast (lim_15_0 d) OR push_bit 16 (ucast (lim_19_16 d)) in
     if sd_g d = 1 then push_bit 12 l OR 0xfff else l)"

definition gate_offset :: "gatedesc \<Rightarrow> uint" where
  "gate_offset g = ucast (off_15_0 g) OR push_bit 16 (ucast (off_31_16 g))"

text \<open>Access at an offset is allowed when the segment is present and the offset does not exceed the limit.\<close>

definition seg_allows :: "segdesc \<Rightarrow> uint \<Rightarrow> bool" where
  "seg_allows d off \<longleftrightarrow> sd_p d = 1 \<and> off \<le> seg_limit d"

lemma bit_mask_16: "bit (0xffff :: 'a::len word) n \<longleftrightarrow> n < 16 \<and> n < LENGTH('a)"
proof -
  have eq: "(0xffff :: 'a word) = mask 16" by (simp add: mask_eq_exp_minus_1)
  show ?thesis unfolding eq by (auto simp: bit_mask_iff)
qed

lemma bit_mask_12: "bit (0xfff :: 'a::len word) n \<longleftrightarrow> n < 12 \<and> n < LENGTH('a)"
proof -
  have eq: "(0xfff :: 'a word) = mask 12" by (simp add: mask_eq_exp_minus_1)
  show ?thesis unfolding eq by (auto simp: bit_mask_iff)
qed

lemma bit_mask_8: "bit (0xff :: 'a::len word) n \<longleftrightarrow> n < 8 \<and> n < LENGTH('a)"
proof -
  have eq: "(0xff :: 'a word) = mask 8" by (simp add: mask_eq_exp_minus_1)
  show ?thesis unfolding eq by (auto simp: bit_mask_iff)
qed

lemma bit_mask_int: "bit (0xffff :: int) n \<longleftrightarrow> n < 16" "bit (0xfff :: int) n \<longleftrightarrow> n < 12" "bit (0xff :: int) n \<longleftrightarrow> n < 8"
proof -
  have "(0xffff :: int) = mask 16" "(0xfff :: int) = mask 12" "(0xff :: int) = mask 8" by (simp_all add: mask_eq_exp_minus_1)
  then show "bit (0xffff :: int) n \<longleftrightarrow> n < 16" "bit (0xfff :: int) n \<longleftrightarrow> n < 12" "bit (0xff :: int) n \<longleftrightarrow> n < 8"
    by (simp_all only: bit_mask_iff possible_bit_def) simp_all
qed

lemmas bit_masks = bit_mask_16 bit_mask_12 bit_mask_8 bit_mask_int

lemma seg_base_SEG [simp]: "seg_base (SEG t b l d) = b"
proof (rule bit_word_eqI)
  fix n assume "n < LENGTH(32)"
  then consider "n < 16" | "16 \<le> n" "n < 24" | "24 \<le> n" "n < 32" by fastforce
  then show "bit (seg_base (SEG t b l d)) n = bit b n"
    by cases (auto simp: seg_base_def SEG_def bit_simps bit_masks)
qed

lemma seg_limit_SEG [simp]: "seg_limit (SEG t b l d) = l OR 0xfff"
proof (rule bit_word_eqI)
  fix n assume "n < LENGTH(32)"
  then consider "n < 12" | "12 \<le> n" "n < 28" | "28 \<le> n" "n < 32" by fastforce
  then show "bit (seg_limit (SEG t b l d)) n = bit (l OR 0xfff) n"
    by cases (auto simp: seg_limit_def SEG_def bit_simps bit_masks Let_def)
qed

lemma gate_offset_SETGATE [simp]: "gate_offset (SETGATE t sel off d) = off"
proof (rule bit_word_eqI)
  fix n assume "n < LENGTH(32)"
  then consider "n < 16" | "16 \<le> n" "n < 32" by fastforce
  then show "bit (gate_offset (SETGATE t sel off d)) n = bit off n"
    by cases (auto simp: gate_offset_def SETGATE_def bit_simps bit_masks)
qed

section \<open>Isolation of user code\<close>

text \<open>The limit of a segment of whole pages is exact.\<close>

lemma page_limit: "PAGE dvd uint sz \<Longrightarrow> sz \<noteq> 0 \<Longrightarrow> (sz - 1) OR 0xfff = sz - 1" for sz :: uint
proof (rule bit_word_eqI)
  fix n assume dvd: "PAGE dvd uint sz" and nz: "sz \<noteq> 0" and "n < LENGTH(32)"
  have "bit (sz - 1) n" if "n < 12"
  proof -
    obtain k where "uint sz = 4096 * k" using dvd by (auto simp: PAGE_def)
    then have "sz = of_int (4096 * k)" by (metis word_of_int_uint)
    then have "- sz = push_bit 12 (- of_int k)" by (simp add: push_bit_eq_mult)
    then have "\<not> bit (- sz) n" using that by (simp add: bit_push_bit_iff)
    then show ?thesis using \<open>n < LENGTH(32)\<close> by (simp add: bit_decr_iff)
  qed
  then show "bit ((sz - 1) OR 0xfff) n = bit (sz - 1) n" by (auto simp: bit_or_iff bit_masks)
qed

lemma gdt_user:
  "gdt (setupsegs ts (Some p) c) SEG_UCODE = SEG (STA_X OR STA_R) (pm_mem p) (pm_sz p - 1) DPL_USER"
  "gdt (setupsegs ts (Some p) c) SEG_UDATA = SEG STA_W (pm_mem p) (pm_sz p - 1) DPL_USER"
  by (simp_all add: setupsegs_def Let_def seg_numbers)

lemma gdt_kernel:
  "gdt (setupsegs ts p c) 0 = SEG_NULL"
  "gdt (setupsegs ts p c) SEG_KCODE = SEG (STA_X OR STA_R) 0 (0x100000 + 64 * 1024 - 1) 0"
  "gdt (setupsegs ts p c) SEG_KDATA = SEG STA_W 0 0xffffffff 0"
  "gdt (setupsegs ts p c) SEG_TSS = (SEG16 STS_T32A ts (104 - 1) 0)\<lparr>sd_s := 0\<rparr>"
  "gdt (setupsegs ts None c) SEG_UCODE = SEG_NULL"
  "gdt (setupsegs ts None c) SEG_UDATA = SEG_NULL"
  by (cases p; simp add: setupsegs_def Let_def seg_numbers)+

lemma sd_fields [simp]:
  "sd_dpl (SEG t b l d) = d" "sd_dpl (SEG16 t b l d) = d" "sd_dpl SEG_NULL = 0" "sd_p (SEG t b l d) = 1"
  by (simp_all add: SEG_def SEG16_def SEG_NULL_def)

lemma all_segments: "n < 6 \<Longrightarrow> n \<in> {0, SEG_KCODE, SEG_KDATA, SEG_UCODE, SEG_UDATA, SEG_TSS}"
  by (auto simp: seg_numbers)

text \<open>
  C21: While a process runs, user code reaches its memory and nothing else: through the two user segments an
  offset is accessible exactly when it is below \<^verbatim>\<open>p->sz\<close>, it refers to the byte at that offset from \<^verbatim>\<open>p->mem\<close>, and
  every other segment is reserved for the kernel.  When no process runs, no segment is open to user code.
\<close>

theorem user_segments_exact:
  assumes "PAGE dvd uint (pm_sz p)" "pm_sz p \<noteq> 0"
  shows "(\<forall>n \<in> {SEG_UCODE, SEG_UDATA}. \<forall>off. let d = gdt (setupsegs ts (Some p) c) n in
      (seg_allows d off \<longleftrightarrow> off < pm_sz p) \<and> seg_base d = pm_mem p \<and> sd_dpl d = DPL_USER)
    \<and> (\<forall>n \<in> {0, SEG_KCODE, SEG_KDATA, SEG_TSS}. sd_dpl (gdt (setupsegs ts (Some p) c) n) = 0)
    \<and> (\<forall>n < 6. sd_dpl (gdt (setupsegs ts None c) n) = 0)"
proof (intro conjI)
  have le: "off \<le> pm_sz p - 1 \<longleftrightarrow> off < pm_sz p" for off
    using assms(2) unat_minus_one [OF assms(2)] unat_gt_0 [of "pm_sz p"] by (simp add: word_le_nat_alt word_less_nat_alt) linarith
  show "\<forall>n \<in> {SEG_UCODE, SEG_UDATA}. \<forall>off. let d = gdt (setupsegs ts (Some p) c) n in
      (seg_allows d off \<longleftrightarrow> off < pm_sz p) \<and> seg_base d = pm_mem p \<and> sd_dpl d = DPL_USER"
    using page_limit [OF assms] le by (simp add: gdt_user seg_allows_def Let_def)
  show "\<forall>n \<in> {0, SEG_KCODE, SEG_KDATA, SEG_TSS}. sd_dpl (gdt (setupsegs ts (Some p) c) n) = 0"
    by (simp add: gdt_kernel)
  show "\<forall>n < 6. sd_dpl (gdt (setupsegs ts None c) n) = 0"
    using all_segments by (fastforce simp: gdt_kernel)
qed

definition demo_segs :: cpu_segs where
  "demo_segs = \<lparr>ts_ss0 = 0, ts_esp0 = 0, gdt = (\<lambda>_. SEG_NULL)\<rparr>"

theorem user_segments_exact_witness:
  "seg_allows (gdt (setupsegs 0 (Some \<lparr>pm_mem = 0x200000, pm_sz = 8192, pm_kstack = 0x300000\<rparr>) demo_segs) SEG_UDATA) 8191
    \<and> \<not> seg_allows (gdt (setupsegs 0 (Some \<lparr>pm_mem = 0x200000, pm_sz = 8192, pm_kstack = 0x300000\<rparr>) demo_segs) SEG_UDATA) 8192"
  using user_segments_exact [of "\<lparr>pm_mem = 0x200000, pm_sz = 8192, pm_kstack = 0x300000\<rparr>" 0 demo_segs]
  by (simp add: PAGE_def Let_def)

lemma tv_loop_gate: "tv_loop n vectors idt i =
    (if i < n then SETGATE False (push_bit 3 (of_nat SEG_KCODE)) (vectors i) 0 else idt i)"
  by (induction n) auto

text \<open>
  C22: Of the 256 entries of the interrupt table, user code may raise exactly the system call; all of them enter
  the kernel code segment at their own vector.
\<close>

theorem idt_user_gate:
  "\<forall>i < 256. let g = tvinit vectors idt i in (gd_dpl g = DPL_USER \<longleftrightarrow> i = T_SYSCALL) \<and> gate_offset g = vectors i
     \<and> gd_cs g = push_bit 3 (of_nat SEG_KCODE) \<and> gd_p g = 1"
  by (simp add: tvinit_def tv_loop_gate Let_def) (simp add: SETGATE_def DPL_USER_def)

theorem idt_user_gate_witness:
  "gd_dpl (tvinit (\<lambda>i. of_nat i) (\<lambda>_. SETGATE False 0 0 0) 48) = DPL_USER
    \<and> gd_dpl (tvinit (\<lambda>i. of_nat i) (\<lambda>_. SETGATE False 0 0 0) 14) \<noteq> DPL_USER
    \<and> gate_offset (tvinit (\<lambda>i. of_nat i) (\<lambda>_. SETGATE False 0 0 0) 14) = 14"
  using idt_user_gate [of "\<lambda>i. of_nat i" "\<lambda>_. SETGATE False 0 0 0", rule_format, of 48]
    idt_user_gate [of "\<lambda>i. of_nat i" "\<lambda>_. SETGATE False 0 0 0", rule_format, of 14]
  by (simp add: Let_def T_SYSCALL_def)

end
