(* ===== verification/Kstring.thy ===== *)
theory Kstring
  imports Xv6_Prelude
begin

text \<open>
  The byte and string functions of \<^verbatim>\<open>string.c\<close> over a memory that maps 32-bit addresses to bytes, with
  pointer arithmetic that wraps.  The loops count down, so they are recursions on the number of bytes
  left.  Shown are that \<open>memmove\<close> copies correctly when the regions overlap, and that \<open>safestrcpy\<close>
  always leaves a terminated string inside its buffer.
\<close>

section \<open>Definitions\<close>

type_synonym mem = "uint \<Rightarrow> uchar"

primrec memset_loop :: "nat \<Rightarrow> uint \<Rightarrow> uchar \<Rightarrow> mem \<Rightarrow> mem" where
  "memset_loop 0 d c m = m"
| "memset_loop (Suc k) d c m = memset_loop k (d + 1) c (m(d := c))"

definition memset :: "uint \<Rightarrow> int \<Rightarrow> uint \<Rightarrow> mem \<Rightarrow> mem" where
  "memset dst c n m = memset_loop (unat n) dst (of_int c) m"

primrec memcmp_loop :: "nat \<Rightarrow> uint \<Rightarrow> uint \<Rightarrow> mem \<Rightarrow> int" where
  "memcmp_loop 0 s1 s2 m = 0"
| "memcmp_loop (Suc k) s1 s2 m =
     (if m s1 \<noteq> m s2 then uint (m s1) - uint (m s2) else memcmp_loop k (s1 + 1) (s2 + 1) m)"

definition memcmp :: "uint \<Rightarrow> uint \<Rightarrow> uint \<Rightarrow> mem \<Rightarrow> int" where
  "memcmp v1 v2 n m = memcmp_loop (unat n) v1 v2 m"

primrec copy_up :: "nat \<Rightarrow> uint \<Rightarrow> uint \<Rightarrow> mem \<Rightarrow> mem" where
  "copy_up 0 d s m = m"
| "copy_up (Suc k) d s m = copy_up k (d + 1) (s + 1) (m(d := m s))"

primrec copy_down :: "nat \<Rightarrow> uint \<Rightarrow> uint \<Rightarrow> mem \<Rightarrow> mem" where
  "copy_down 0 d s m = m"
| "copy_down (Suc k) d s m = copy_down k (d - 1) (s - 1) (m(d - 1 := m (s - 1)))"

definition memmove :: "uint \<Rightarrow> uint \<Rightarrow> uint \<Rightarrow> mem \<Rightarrow> mem" where
  "memmove dst src n m =
     (if src < dst \<and> src + n > dst then copy_down (unat n) (dst + n) (src + n) m
      else copy_up (unat n) dst src m)"

primrec strncmp_loop :: "nat \<Rightarrow> uint \<Rightarrow> uint \<Rightarrow> mem \<Rightarrow> int" where
  "strncmp_loop 0 p q m = 0"
| "strncmp_loop (Suc k) p q m =
     (if m p \<noteq> 0 \<and> m p = m q then strncmp_loop k (p + 1) (q + 1) m else uint (m p) - uint (m q))"

definition strncmp :: "uint \<Rightarrow> uint \<Rightarrow> uint \<Rightarrow> mem \<Rightarrow> int" where
  "strncmp p q n m = strncmp_loop (unat n) p q m"

text \<open>The two loops of \<^verbatim>\<open>strncpy\<close>: copy through the first zero byte, then fill with zeros.\<close>

primrec strncpy_loop :: "nat \<Rightarrow> uint \<Rightarrow> uint \<Rightarrow> mem \<Rightarrow> mem" where
  "strncpy_loop 0 s t m = m"
| "strncpy_loop (Suc k) s t m =
     (let m1 = m(s := m t) in
      if m t \<noteq> 0 then strncpy_loop k (s + 1) (t + 1) m1 else memset_loop k (s + 1) 0 m1)"

definition strncpy :: "uint \<Rightarrow> uint \<Rightarrow> int \<Rightarrow> mem \<Rightarrow> mem" where
  "strncpy s t n m = strncpy_loop (nat n) s t m"

primrec safestrcpy_loop :: "nat \<Rightarrow> uint \<Rightarrow> uint \<Rightarrow> mem \<Rightarrow> mem" where
  "safestrcpy_loop 0 s t m = m(s := 0)"
| "safestrcpy_loop (Suc k) s t m =
     (let m1 = m(s := m t) in
      if m t \<noteq> 0 then safestrcpy_loop k (s + 1) (t + 1) m1 else m1(s + 1 := 0))"

definition safestrcpy :: "uint \<Rightarrow> uint \<Rightarrow> int \<Rightarrow> mem \<Rightarrow> mem" where
  "safestrcpy s t n m = (if n \<le> 0 then m else safestrcpy_loop (nat (n - 1)) s t m)"

text \<open>\<^verbatim>\<open>strlen\<close> does not return when memory holds no zero byte.\<close>

partial_function (option) strlen_loop :: "nat \<Rightarrow> uint \<Rightarrow> mem \<Rightarrow> nat option" where
  "strlen_loop n s m = (if m (s + of_nat n) = 0 then Some n else strlen_loop (Suc n) s m)"

definition strlen :: "uint \<Rightarrow> mem \<Rightarrow> nat option" where
  "strlen s m = strlen_loop 0 s m"

section \<open>Regions\<close>

definition region :: "uint \<Rightarrow> nat \<Rightarrow> uint set" where
  "region p n = (\<lambda>i. p + of_nat i) ` {..<n}"

lemma region_0 [simp]: "region p 0 = {}"
  by (simp add: region_def)

lemma region_Suc: "region p (Suc n) = insert p (region (p + 1) n)"
  unfolding region_def lessThan_Suc_eq_insert_0 by (auto simp: image_image algebra_simps)

lemma region_last: "region p (Suc n) = insert (p + of_nat n) (region p n)"
  by (auto simp: region_def lessThan_Suc)

lemma region_iff:
  assumes "unat p + n \<le> 2 ^ 32"
  shows "x \<in> region p n \<longleftrightarrow> unat p \<le> unat x \<and> unat x < unat p + n"
proof
  assume "x \<in> region p n"
  then obtain i where i: "i < n" "x = p + of_nat i" by (auto simp: region_def)
  then have "unat x = unat p + i"
    using assms by (simp add: unat_add_uint unat_of_nat)
  then show "unat p \<le> unat x \<and> unat x < unat p + n" using i by simp
next
  assume x: "unat p \<le> unat x \<and> unat x < unat p + n"
  then have "x = p + of_nat (unat x - unat p)"
    by (simp add: of_nat_diff)
  then show "x \<in> region p n" using x unfolding region_def by (intro image_eqI [of _ _ "unat x - unat p"]) auto
qed

lemma not_in_region_Suc: "n < 2 ^ 32 \<Longrightarrow> p \<notin> region (p + 1) n"
proof
  assume "n < 2 ^ 32" "p \<in> region (p + 1) n"
  then obtain i where i: "i < n" "p = p + 1 + of_nat i" by (auto simp: region_def)
  then have "(of_nat (Suc i) :: uint) = 0" by (simp add: algebra_simps)
  then have "unat (of_nat (Suc i) :: uint) = 0" by simp
  then show False using i(1) \<open>n < 2 ^ 32\<close> by (simp only: unat_of_nat) simp
qed

lemma memset_loop_eq: "memset_loop k d c m = (\<lambda>x. if x \<in> region d k then c else m x)"
proof (induction k arbitrary: d m)
  case (Suc k)
  then show ?case by (auto simp: region_Suc fun_eq_iff)
qed simp


section \<open>Copying\<close>

definition copied :: "uint \<Rightarrow> uint \<Rightarrow> nat \<Rightarrow> mem \<Rightarrow> mem" where
  "copied d s k m = (\<lambda>x. if x \<in> region d k then m (s + (x - d)) else m x)"

lemma copy_up_copied:
  "k < 2 ^ 32 \<Longrightarrow> \<forall>j < k. \<forall>i < j. d + of_nat i \<noteq> s + of_nat j \<Longrightarrow> copy_up k d s m = copied d s k m"
proof (induction k arbitrary: d s m)
  case 0
  then show ?case by (simp add: copied_def)
next
  case (Suc k)
  have "d + 1 + of_nat i \<noteq> s + 1 + of_nat j" if "j < k" "i < j" for i j
    using Suc.prems(2) [rule_format, of "Suc j" "Suc i"] that by (simp add: algebra_simps)
  then have IH: "copy_up k (d + 1) (s + 1) (m(d := m s)) = copied (d + 1) (s + 1) k (m(d := m s))"
    using Suc.prems(1) by (intro Suc.IH) auto
  have d: "d \<notin> region (d + 1) k" using Suc.prems(1) by (intro not_in_region_Suc) simp
  have "s + (x - d) \<noteq> d" if x: "x \<in> region (d + 1) k" for x
  proof -
    obtain i where "i < k" "x = d + 1 + of_nat i" using x by (auto simp: region_def)
    then show ?thesis using Suc.prems(2) [rule_format, of "Suc i" 0] by (auto simp: algebra_simps)
  qed
  moreover have "s + 1 + (x - (d + 1)) = s + (x - d)" for x by simp
  ultimately show ?case using d by (auto simp: IH copied_def region_Suc fun_eq_iff)
qed

lemma copy_down_copied:
  "k < 2 ^ 32 \<Longrightarrow> \<forall>j < k. \<forall>i. j < i \<and> i < k \<longrightarrow> d + of_nat i \<noteq> s + of_nat j
    \<Longrightarrow> copy_down k (d + of_nat k) (s + of_nat k) m = copied d s k m"
proof (induction k arbitrary: m)
  case 0
  then show ?case by (simp add: copied_def)
next
  case (Suc k)
  let ?m = "m(d + of_nat k := m (s + of_nat k))"
  have IH: "copy_down k (d + of_nat k) (s + of_nat k) ?m = copied d s k ?m"
    using Suc.prems by (intro Suc.IH) auto
  have "d + of_nat k \<noteq> d + of_nat i" if "i < k" for i
  proof
    assume "d + of_nat k = d + (of_nat i :: uint)"
    then have "unat (of_nat k :: uint) = unat (of_nat i :: uint)" by simp
    then show False using that Suc.prems(1) by (simp add: unat_of_nat)
  qed
  then have d: "d + of_nat k \<notin> region d k" by (auto simp: region_def)
  have "s + (x - d) \<noteq> d + of_nat k" if x: "x \<in> region d k" for x
  proof -
    obtain i where "i < k" "x = d + of_nat i" using x by (auto simp: region_def)
    then show ?thesis using Suc.prems(2) [rule_format, of i k] by (auto simp: algebra_simps)
  qed
  moreover have "copy_down (Suc k) (d + of_nat (Suc k)) (s + of_nat (Suc k)) m = copied d s k ?m"
    using IH by simp
  ultimately show ?case using d by (auto simp: copied_def region_last fun_eq_iff simp del: of_nat_Suc copy_down.simps)
qed

lemma unat_offset: "unat p + n \<le> 2 ^ 32 \<Longrightarrow> i < n \<Longrightarrow> unat (p + of_nat i) = unat p + i" for p :: uint
  by (simp add: unat_add_uint unat_of_nat)

section \<open>Strings\<close>

definition str_at :: "uint \<Rightarrow> uchar list \<Rightarrow> mem \<Rightarrow> bool" where
  "str_at p cs m \<longleftrightarrow> (\<forall>i < length cs. m (p + of_nat i) = cs ! i) \<and> 0 \<notin> set cs \<and> m (p + of_nat (length cs)) = 0"

lemma str_at_Nil [simp]: "str_at p [] m \<longleftrightarrow> m p = 0"
  by (simp add: str_at_def)

lemma str_at_Cons: "str_at p (c # cs) m \<longleftrightarrow> m p = c \<and> c \<noteq> 0 \<and> str_at (p + 1) cs m"
  by (auto simp: str_at_def less_Suc_eq_0_disj algebra_simps)

lemma str_at_cong: "str_at p cs m \<Longrightarrow> \<forall>x \<in> region p (Suc (length cs)). m' x = m x \<Longrightarrow> str_at p cs m'"
  by (auto simp: str_at_def region_def)

lemma strlen_loop_str:
  "str_at (s + of_nat n) cs m \<Longrightarrow> strlen_loop n s m = Some (n + length cs)"
proof (induction cs arbitrary: n)
  case Nil
  then show ?case by (subst strlen_loop.simps) simp
next
  case (Cons c cs)
  then have "str_at (s + of_nat (Suc n)) cs m" "m (s + of_nat n) \<noteq> 0" by (auto simp: str_at_Cons algebra_simps)
  then show ?case using Cons.IH [of "Suc n"] by (subst strlen_loop.simps) simp
qed

lemma safestrcpy_loop_frame: "x \<notin> region s (Suc k) \<Longrightarrow> safestrcpy_loop k s t m x = m x"
  by (induction k arbitrary: s t m) (auto simp: region_Suc Let_def)

lemma safestrcpy_loop_str:
  assumes "str_at t cs m" "k < 2 ^ 31" "\<forall>x \<in> region t (Suc (length cs)). x \<notin> region s (Suc k)"
  shows "str_at s (take k cs) (safestrcpy_loop k s t m)"
  using assms
proof (induction k arbitrary: s t cs m)
  case (Suc k)
  have out: "s \<notin> region (s + 1) (Suc k)" using Suc.prems(2) by (intro not_in_region_Suc) simp
  show ?case
  proof (cases cs)
    case Nil
    then show ?thesis using Suc.prems out by (auto simp: region_Suc Let_def)
  next
    case (Cons c ds)
    let ?m = "m(s := c)"
    have tl: "str_at (t + 1) ds m" "m t = c" "c \<noteq> 0" using Suc.prems Cons by (auto simp: str_at_Cons)
    have far: "\<forall>x \<in> region (t + 1) (Suc (length ds)). x \<notin> region (s + 1) (Suc k) \<and> x \<noteq> s"
      using Suc.prems(3) Cons by (simp add: region_Suc [of t] region_Suc [of s "Suc k"])
    have "str_at (t + 1) ds ?m" using far by (intro str_at_cong [OF tl(1)]) simp
    then have "str_at (s + 1) (take k ds) (safestrcpy_loop k (s + 1) (t + 1) ?m)"
      using Suc.prems(2) far by (intro Suc.IH) (simp_all add: fun_upd_def)
    then show ?thesis
      using tl Cons safestrcpy_loop_frame [OF out] by (simp add: str_at_Cons Let_def)
  qed
qed simp


lemma uint_diff_eq_0 [simp]: "uint (a :: uchar) - uint b = 0 \<longleftrightarrow> a = b"
  by (metis eq_iff_diff_eq_0 word_uint_eq_iff)

lemma strncmp_loop_str:
  "str_at p cs m \<Longrightarrow> str_at q ds m \<Longrightarrow> strncmp_loop k p q m = 0 \<longleftrightarrow> take k cs = take k ds"
proof (induction k arbitrary: p q cs ds)
  case (Suc k)
  then show ?case
  proof (cases cs; cases ds)
    fix c cs' d ds' assume "cs = c # cs'" "ds = d # ds'"
    then show ?thesis using Suc by (auto simp: str_at_Cons word_uint_eq_iff [symmetric])
  qed (use Suc.prems in \<open>auto simp: str_at_Cons uint_0_iff\<close>)
qed simp

lemma strncpy_loop_eq:
  assumes "str_at t cs m" "k < 2 ^ 31" "\<forall>x \<in> region t (Suc (length cs)). x \<notin> region s k" "i < k"
  shows "strncpy_loop k s t m (s + of_nat i) = (if i < length cs then cs ! i else 0)"
  using assms
proof (induction k arbitrary: s t cs m i)
  case (Suc k)
  have out: "s \<notin> region (s + 1) k" using Suc.prems(2) by (intro not_in_region_Suc) simp
  have frame: "strncpy_loop k' s' t' m' x = m' x" if "x \<notin> region s' k'" for k' s' t' m' x
    using that by (induction k' arbitrary: s' t' m') (auto simp: region_Suc Let_def memset_loop_eq)
  show ?case
  proof (cases cs)
    case Nil
    then show ?thesis
      using Suc.prems out by (cases i) (auto simp: Let_def memset_loop_eq region_def algebra_simps)
  next
    case (Cons c ds)
    let ?m = "m(s := c)"
    have tl: "str_at (t + 1) ds m" "m t = c" "c \<noteq> 0" using Suc.prems(1) Cons by (auto simp: str_at_Cons)
    have far: "\<forall>x \<in> region (t + 1) (Suc (length ds)). x \<notin> region (s + 1) k \<and> x \<noteq> s"
      using Suc.prems(3) Cons by (simp add: region_Suc [of t] region_Suc [of s k])
    have str: "str_at (t + 1) ds ?m" using far by (intro str_at_cong [OF tl(1)]) simp
    show ?thesis
    proof (cases i)
      case 0
      then show ?thesis using tl Cons frame [OF out] by (simp add: Let_def)
    next
      case (Suc i')
      then have "strncpy_loop k (s + 1) (t + 1) ?m (s + 1 + of_nat i') = (if i' < length ds then ds ! i' else 0)"
        using Suc.IH [OF str, of "s + 1" i'] Suc.prems(2,4) far by (simp add: fun_upd_def)
      then show ?thesis using tl Cons Suc by (simp add: Let_def algebra_simps)
    qed
  qed
qed simp

lemma memmove_copied:
  assumes "unat src + unat n < 2 ^ 32" "unat dst + unat n < 2 ^ 32"
  shows "memmove dst src n m = copied dst src (unat n) m"
proof -
  let ?k = "unat n"
  have k: "?k < 2 ^ 32" using assms by linarith
  have n: "n = of_nat ?k" by simp
  have sn: "unat (src + n) = unat src + ?k" using assms(1) by (rule unat_add_uint)
  have at: "unat (dst + of_nat i) = unat dst + i" "unat (src + of_nat i) = unat src + i" if "i < ?k" for i
    using that assms unat_offset [of dst ?k i] unat_offset [of src ?k i] by simp_all
  show ?thesis
  proof (cases "src < dst \<and> src + n > dst")
    case True
    have "dst + of_nat i \<noteq> src + of_nat j" if "j < i" "i < ?k" for i j
      using that True at(1) [of i] at(2) [of j] by (auto simp: word_less_nat_alt)
    then have "copy_down ?k (dst + of_nat ?k) (src + of_nat ?k) m = copied dst src ?k m"
      using k by (intro copy_down_copied) auto
    then show ?thesis using True n by (simp add: memmove_def)
  next
    case False
    have "dst + of_nat i \<noteq> src + of_nat j" if "j < ?k" "i < j" for i j
    proof
      assume "dst + of_nat i = src + of_nat j"
      then have "unat dst + i = unat src + j" using at(1) [of i] at(2) [of j] that by simp
      then show False using False that sn by (auto simp: word_less_nat_alt)
    qed
    then have "copy_up ?k dst src m = copied dst src ?k m" using k by (intro copy_up_copied) auto
    then show ?thesis using False by (auto simp: memmove_def)
  qed
qed

section \<open>Properties\<close>

text \<open>
  C9: \<^const>\<open>memmove\<close> copies the \<open>n\<close> bytes at \<open>src\<close> to \<open>dst\<close> as they were before the call, whether or
  not the regions overlap, and changes no other byte.
\<close>

theorem memmove_correct:
  assumes "unat src + unat n < 2 ^ 32" "unat dst + unat n < 2 ^ 32"
  shows "memmove dst src n m x = (if x \<in> region dst (unat n) then m (src + (x - dst)) else m x)"
  by (simp add: memmove_copied [OF assms] copied_def)

theorem memmove_correct_witness:
  "memmove 12 10 4 (\<lambda>a. ucast a) 13 = 11 \<and> memmove 12 10 4 (\<lambda>a. ucast a) 16 = 16"
  using memmove_correct [of 10 4 12 "\<lambda>a. ucast a"] by (simp add: region_iff)

text \<open>
  \<^const>\<open>safestrcpy\<close> always terminates its result.  After \<open>safestrcpy s t n\<close> with \<open>n > 0\<close>, the buffer
  at \<open>s\<close> holds the string at \<open>t\<close> cut to \<open>n - 1\<close> bytes, its length is what \<^const>\<open>strlen\<close> returns, and no
  byte outside the \<open>n\<close> bytes of the buffer has changed.
\<close>

theorem safestrcpy_terminates:
  assumes "str_at t cs m" "0 < n" "n < 2 ^ 31" "\<forall>x \<in> region t (Suc (length cs)). x \<notin> region s (nat n)"
  shows "str_at s (take (nat (n - 1)) cs) (safestrcpy s t n m)
    \<and> strlen s (safestrcpy s t n m) = Some (min (nat (n - 1)) (length cs))
    \<and> (\<forall>x. x \<notin> region s (nat n) \<longrightarrow> safestrcpy s t n m x = m x)"
proof -
  let ?k = "nat (n - 1)"
  have k: "nat n = Suc ?k" "?k < 2 ^ 31" using assms(2,3) by auto
  have eq: "safestrcpy s t n m = safestrcpy_loop ?k s t m" using assms(2) by (simp add: safestrcpy_def)
  have str: "str_at s (take ?k cs) (safestrcpy_loop ?k s t m)"
    using assms(1,4) k by (intro safestrcpy_loop_str) auto
  moreover have "strlen s (safestrcpy_loop ?k s t m) = Some (0 + length (take ?k cs))"
    unfolding strlen_def using str by (intro strlen_loop_str) simp
  ultimately show ?thesis unfolding eq k(1) by (simp add: min.commute safestrcpy_loop_frame)
qed

theorem safestrcpy_terminates_witness:
  "strlen 100 (safestrcpy 100 0 4 (\<lambda>a. if a < 5 then 65 else 0)) = Some 3"
proof -
  have str: "str_at 0 [65, 65, 65, 65, 65] (\<lambda>a. if a < 5 then 65 else 0)"
    by (simp add: str_at_Cons)
  have "\<forall>x \<in> region 0 (Suc (length [65, 65, 65, 65, 65 :: uchar])). x \<notin> region 100 (nat 4)"
    by (auto simp: region_iff)
  then show ?thesis using safestrcpy_terminates [OF str, of 4 100] by simp
qed

text \<open>
  \<^const>\<open>strncmp\<close> of two terminated strings is 0 exactly when their first \<open>n\<close> bytes agree, and
  \<^const>\<open>strncpy\<close> fills its \<open>n\<close> bytes with the string followed by zeros.
\<close>

theorem strncmp_strncpy:
  assumes "str_at p cs m" "str_at q ds m"
  shows "(strncmp p q n m = 0 \<longleftrightarrow> take (unat n) cs = take (unat n) ds)
    \<and> (\<forall>s k i. k < 2 ^ 31 \<and> i < nat k \<and> (\<forall>x \<in> region p (Suc (length cs)). x \<notin> region s (nat k)) \<longrightarrow>
         strncpy s p k m (s + of_nat i) = (if i < length cs then cs ! i else 0))"
proof (intro conjI allI impI)
  show "strncmp p q n m = 0 \<longleftrightarrow> take (unat n) cs = take (unat n) ds"
    unfolding strncmp_def using assms by (rule strncmp_loop_str)
  fix s :: uint and k :: int and i
  assume a: "k < 2 ^ 31 \<and> i < nat k \<and> (\<forall>x \<in> region p (Suc (length cs)). x \<notin> region s (nat k))"
  then have "nat k < 2 ^ 31" by (simp, linarith)
  then show "strncpy s p k m (s + of_nat i) = (if i < length cs then cs ! i else 0)"
    unfolding strncpy_def using a assms(1) by (intro strncpy_loop_eq) auto
qed

theorem strncmp_strncpy_witness:
  "strncmp 0 5 14 (\<lambda>a. if a = 0 \<or> a = 5 then 65 else 0) = 0"
proof -
  let ?m = "\<lambda>a :: uint. if a = 0 \<or> a = 5 then 65 else (0 :: uchar)"
  have "str_at 0 [65] ?m" "str_at 5 [65] ?m" by (simp_all add: str_at_Cons)
  from strncmp_strncpy [OF this, of 14] show ?thesis by simp
qed

end
