(* ===== verification/Proc.thy ===== *)
theory Proc
  imports File Mmu Kstring
begin

text \<open>
  Processes: the process table, their creation and end, sleeping and waking, and the lottery scheduler of
  \<^verbatim>\<open>proc.c\<close>, with the generator of \<^verbatim>\<open>rand.S\<close>.  The state extends the one of the file layer.  Code that runs in a
  process gets \<open>me\<close>, the table index of \<^verbatim>\<open>cp\<close>.  The process table lock is held from the start of each operation
  here to its end or to the point where it gives up the processor, so each operation is one step.
  The kernel memory \<open>kmem\<close> is a function from addresses to bytes; the contents of free pages are not represented.
\<close>

section \<open>State (proc.h, x86.h)\<close>

record cpu_context =
  c_eip :: uint
  c_esp :: uint
  c_ebx :: uint
  c_ecx :: uint
  c_edx :: uint
  c_esi :: uint
  c_edi :: uint
  c_ebp :: uint

record trapframe =
  tf_edi :: uint
  tf_esi :: uint
  tf_ebp :: uint
  tf_oesp :: uint
  tf_ebx :: uint
  tf_edx :: uint
  tf_ecx :: uint
  tf_eax :: uint
  tf_es :: ushort
  tf_ds :: ushort
  tf_trapno :: uint
  tf_err :: uint
  tf_eip :: uint
  tf_cs :: ushort
  tf_eflags :: uint
  tf_esp :: uint
  tf_ss :: ushort

datatype procstate = UNUSED | EMBRYO | SLEEPING | RUNNABLE | RUNNING | ZOMBIE

text \<open>Sleep channels are addresses; those the process code itself uses are named.\<close>

datatype wchan = NoChan | ProcChan nat | TicksChan | OtherChan uint

text \<open>\<open>p_tf\<close> is the trap frame that \<^verbatim>\<open>p->tf\<close> points to.\<close>

record proc =
  p_mem :: int
  p_sz :: uint
  p_kstack :: int
  p_state :: procstate
  p_pid :: uint
  p_parent :: "nat option"
  p_chan :: wchan
  p_killed :: int
  p_ofile :: "nat \<Rightarrow> nat option"
  p_cwd :: "nat option"
  p_context :: cpu_context
  p_tf :: trapframe
  p_name :: "uchar list"
  p_tctcnt :: uint
  p_cond_addr :: uint
  p_ct :: mem_trans

text \<open>\<open>forkret_addr\<close> and \<open>ts_addr\<close> are addresses fixed by the linker.\<close>

record kernel = file_state +
  ptable :: "nat \<Rightarrow> proc"
  nextpid :: uint
  ttltcts :: uint
  initproc :: "nat option"
  curproc :: "nat option"
  ticks :: uint
  kmem :: mem
  segs :: cpu_segs
  forkret_addr :: uint
  ts_addr :: uint

definition upd_proc :: "nat \<Rightarrow> (proc \<Rightarrow> proc) \<Rightarrow> 'a kernel_scheme \<Rightarrow> 'a kernel_scheme" where
  "upd_proc i f s = s\<lparr>ptable := (ptable s)(i := f (ptable s i))\<rparr>"

section \<open>Creating processes\<close>

definition allocproc :: "'a kernel_scheme \<Rightarrow> nat option \<times> 'a kernel_scheme" where
  "allocproc s =
     (case List.find (\<lambda>i. p_state (ptable s i) = UNUSED) [0 ..< NPROC] of
        None \<Rightarrow> (None, s)
      | Some i \<Rightarrow> (Some i, upd_proc i (\<lambda>p. p\<lparr>p_state := EMBRYO, p_pid := nextpid s, p_tctcnt := 100, p_ct := empty_trans\<rparr>)
          (s\<lparr>nextpid := nextpid s + 1, ttltcts := ttltcts s + 100\<rparr>)))"

definition proc_mem_of :: "proc \<Rightarrow> proc_mem" where
  "proc_mem_of p = \<lparr>pm_mem = of_int (p_mem p), pm_sz = p_sz p, pm_kstack = of_int (p_kstack p)\<rparr>"

definition setupsegs_of :: "nat option \<Rightarrow> 'a kernel_scheme \<Rightarrow> 'a kernel_scheme" where
  "setupsegs_of p s = s\<lparr>segs := setupsegs (ts_addr s) (map_option (\<lambda>i. proc_mem_of (ptable s i)) p) (segs s)\<rparr>"

definition growproc :: "nat \<Rightarrow> int \<Rightarrow> 'a kernel_scheme \<Rightarrow> (int \<times> 'a kernel_scheme) outcome" where
  "growproc me n s =
     (let p = ptable s me in
      obind (kalloc_st (sint (p_sz p + of_int n)) s) (\<lambda>(newmem, s1).
        if newmem = 0 then Ret (-1, s1)
        else
          (let m1 = memmove (of_int newmem) (of_int (p_mem p)) (p_sz p) (kmem s1);
               m2 = memset (of_int newmem + p_sz p) 0 (of_int n) m1 in
           obind (kfree_st (p_mem p) (sint (p_sz p)) (s1\<lparr>kmem := m2\<rparr>)) (\<lambda>s2.
           let s3 = setupsegs_of (Some me) (upd_proc me (\<lambda>q. q\<lparr>p_mem := newmem, p_sz := p_sz q + of_int n\<rparr>) s2) in
           Ret (sint (p_sz (ptable s3 me) - of_int n), s3)))))"

primrec dup_files :: "nat list \<Rightarrow> nat \<Rightarrow> nat \<Rightarrow> 'a kernel_scheme \<Rightarrow> 'a kernel_scheme outcome" where
  "dup_files [] p np s = Ret s"
| "dup_files (i # is) p np s =
     (case p_ofile (ptable s p) i of
        None \<Rightarrow> dup_files is p np s
      | Some f \<Rightarrow> obind (filedup f s) (\<lambda>(g, s1).
          dup_files is p np (upd_proc np (\<lambda>q. q\<lparr>p_ofile := (p_ofile q)(i := Some g)\<rparr>) s1)))"

text \<open>The size of \<^verbatim>\<open>struct trapframe\<close>, which lies at the top of the kernel stack.\<close>

definition TF_SIZE :: uint where "TF_SIZE = 68"

definition fresh_context :: "int \<Rightarrow> 'a kernel_scheme \<Rightarrow> cpu_context" where
  "fresh_context kstack s = \<lparr>c_eip = forkret_addr s, c_esp = of_int kstack + KSTACKSIZE - TF_SIZE,
     c_ebx = 0, c_ecx = 0, c_edx = 0, c_esi = 0, c_edi = 0, c_ebp = 0\<rparr>"

text \<open>\<open>copy_parent\<close> is the part of \<open>copyproc\<close> for \<^verbatim>\<open>p != 0\<close>; it tells whether there was memory.\<close>

definition copy_parent :: "nat \<Rightarrow> nat \<Rightarrow> 'a kernel_scheme \<Rightarrow> (bool \<times> 'a kernel_scheme) outcome" where
  "copy_parent p np s =
     (let s1 = upd_proc np (\<lambda>q. q\<lparr>p_parent := Some p, p_tf := p_tf (ptable s p), p_sz := p_sz (ptable s p)\<rparr>) s in
      obind (kalloc_st (sint (p_sz (ptable s1 np))) s1) (\<lambda>(m, s2).
      let s3 = upd_proc np (\<lambda>q. q\<lparr>p_mem := m\<rparr>) s2 in
      if m = 0 then
        obind (kfree_st (p_kstack (ptable s3 np)) PAGE s3) (\<lambda>s4.
        Ret (False, upd_proc np (\<lambda>q. q\<lparr>p_kstack := 0, p_state := UNUSED, p_parent := None\<rparr>) s4))
      else
        obind (dup_files [0 ..< NOFILE] p np
          (s3\<lparr>kmem := memmove (of_int m) (of_int (p_mem (ptable s3 p))) (p_sz (ptable s3 np)) (kmem s3)\<rparr>)) (\<lambda>s4.
        case p_cwd (ptable s4 p) of
          None \<Rightarrow> Fault ''p->cwd''
        | Some c \<Rightarrow> (let (c', s5) = idup c s4 in Ret (True, upd_proc np (\<lambda>q. q\<lparr>p_cwd := Some c'\<rparr>) s5)))))"

definition copyproc :: "nat option \<Rightarrow> 'a kernel_scheme \<Rightarrow> (nat option \<times> 'a kernel_scheme) outcome" where
  "copyproc p s =
     (let (r, s1) = allocproc s in
      case r of
        None \<Rightarrow> Ret (None, s1)
      | Some np \<Rightarrow>
          obind (kalloc_st PAGE s1) (\<lambda>(ks, s2).
          let s3 = upd_proc np (\<lambda>q. q\<lparr>p_kstack := ks\<rparr>) s2 in
          if ks = 0 then Ret (None, upd_proc np (\<lambda>q. q\<lparr>p_state := UNUSED\<rparr>) s3)
          else
            obind (case p of None \<Rightarrow> Ret (True, s3) | Some pp \<Rightarrow> copy_parent pp np s3) (\<lambda>(ok, s4).
              if \<not> ok then Ret (None, s4)
              else Ret (Some np, upd_proc np (\<lambda>q. q\<lparr>p_context := fresh_context ks s4, p_tf := (p_tf q)\<lparr>tf_eax := 0\<rparr>\<rparr>) s4))))"

text \<open>A thread shares the memory, the open files and the directory of its parent, without counting references.\<close>

definition copyproc_thread :: "nat \<Rightarrow> int \<Rightarrow> 'a kernel_scheme \<Rightarrow> (nat option \<times> 'a kernel_scheme) outcome" where
  "copyproc_thread p usrstck s =
     (let (r, s1) = allocproc s in
      case r of
        None \<Rightarrow> Ret (None, s1)
      | Some np \<Rightarrow>
          obind (kalloc_st PAGE s1) (\<lambda>(ks, s2).
          let s3 = upd_proc np (\<lambda>q. q\<lparr>p_kstack := ks\<rparr>) s2 in
          if ks = 0 then Ret (None, upd_proc np (\<lambda>q. q\<lparr>p_state := UNUSED\<rparr>) s3)
          else
            (let pp = ptable s3 p;
                 s4 = upd_proc np (\<lambda>q. q\<lparr>p_parent := Some p, p_sz := p_sz pp, p_mem := p_mem pp,
                   p_ofile := (\<lambda>i. if i < NOFILE \<and> p_ofile pp i \<noteq> None then p_ofile pp i else p_ofile q i),
                   p_cwd := p_cwd pp, p_context := fresh_context ks s3,
                   p_tf := (p_tf pp)\<lparr>tf_ebp := of_int usrstck + 1008, tf_esp := of_int usrstck + 980\<rparr>\<rparr>) s3;
                 s5 = s4\<lparr>kmem := memmove (of_int (p_mem pp) + tf_esp (p_tf (ptable s4 np)))
                   (of_int (p_mem pp) + tf_esp (p_tf pp)) 44 (kmem s4)\<rparr>
             in Ret (Some np, upd_proc np (\<lambda>q. q\<lparr>p_tf := (p_tf q)\<lparr>tf_eax := 0\<rparr>\<rparr>) s5))))"

definition put_mem_u32 :: "uint \<Rightarrow> uint \<Rightarrow> mem \<Rightarrow> mem" where
  "put_mem_u32 a v m = m(a := ucast v, a + 1 := ucast (drop_bit 8 v), a + 2 := ucast (drop_bit 16 v), a + 3 := ucast (drop_bit 24 v))"

definition put_mem_bytes :: "uint \<Rightarrow> uchar list \<Rightarrow> mem \<Rightarrow> mem" where
  "put_mem_bytes a cs m = (\<lambda>x. if unat (x - a) < length cs then cs ! unat (x - a) else m x)"

definition FL_IF :: uint where "FL_IF = 0x200"

definition zero_tf :: trapframe where
  "zero_tf = \<lparr>tf_edi = 0, tf_esi = 0, tf_ebp = 0, tf_oesp = 0, tf_ebx = 0, tf_edx = 0, tf_ecx = 0, tf_eax = 0,
     tf_es = 0, tf_ds = 0, tf_trapno = 0, tf_err = 0, tf_eip = 0, tf_cs = 0, tf_eflags = 0, tf_esp = 0, tf_ss = 0\<rparr>"

text \<open>\<open>initcode\<close> are the bytes of the first program, which the build links into the kernel.\<close>

definition userinit :: "uchar list \<Rightarrow> 'a kernel_scheme \<Rightarrow> 'a kernel_scheme outcome" where
  "userinit initcode s =
     obind (copyproc None s) (\<lambda>(r, s1).
       case r of
         None \<Rightarrow> Fault ''userinit''
       | Some i \<Rightarrow>
           obind (kalloc_st PAGE s1) (\<lambda>(m, s2).
           let s3 = upd_proc i (\<lambda>p. p\<lparr>p_sz := of_int PAGE, p_mem := m\<rparr>) s2 in
           obind (namei None [SLASH] s3) (\<lambda>(cwd, s4).
           let ds = push_bit 3 (of_nat SEG_UDATA) OR ucast DPL_USER;
               tf = zero_tf\<lparr>tf_cs := push_bit 3 (of_nat SEG_UCODE) OR ucast DPL_USER, tf_ds := ds, tf_es := ds, tf_ss := ds,
                 tf_eflags := FL_IF, tf_esp := of_int PAGE - 4, tf_eip := 0\<rparr>;
               s5 = s4\<lparr>kmem := put_mem_bytes (of_int m) initcode
                 (put_mem_u32 (of_int m + tf_esp tf) 0xefefefef (kmem s4))\<rparr>
           in Ret ((upd_proc i (\<lambda>p. p\<lparr>p_cwd := cwd, p_tf := tf,
                p_name := [0x69, 0x6e, 0x69, 0x74, 0x63, 0x6f, 0x64, 0x65], p_state := RUNNABLE\<rparr>) s5)\<lparr>initproc := Some i\<rparr>))))"

section \<open>Scheduling\<close>

text \<open>\<^verbatim>\<open>fastrand\<close>: the 64-bit product, its halves added, and the sign bit cleared when it is not set, plus one.\<close>

definition fastrand :: "uint \<Rightarrow> uint" where
  "fastrand x =
     (let p = ucast x * 33614 :: 64 word; eax = ucast p + ucast (drop_bit 32 p) :: uint in
      if 0 \<le> sint eax then drop_bit 1 (push_bit 1 eax) + 1 else eax)"

definition run_proc :: "nat \<Rightarrow> 'a kernel_scheme \<Rightarrow> 'a kernel_scheme" where
  "run_proc i s =
     (let s1 = upd_proc i (\<lambda>p. p\<lparr>p_state := RUNNING\<rparr>) (setupsegs_of (Some i) (s\<lparr>curproc := Some i\<rparr>)) in
      s1\<lparr>curmt := p_ct (ptable s1 i)\<rparr>)"

text \<open>Back in the scheduler: \<^verbatim>\<open>c->curproc = 0; setupsegs(0);\<close>\<close>

definition leave_proc :: "'a kernel_scheme \<Rightarrow> 'a kernel_scheme" where
  "leave_proc s =
     (let s1 = (case curproc s of None \<Rightarrow> s | Some i \<Rightarrow> upd_proc i (\<lambda>p. p\<lparr>p_ct := curmt s\<rparr>) s) in
      setupsegs_of None (s1\<lparr>curproc := None\<rparr>))"

primrec lottery_scan :: "nat list \<Rightarrow> uint \<Rightarrow> uint \<Rightarrow> (nat \<Rightarrow> proc) \<Rightarrow> nat option" where
  "lottery_scan [] random curtct t = None"
| "lottery_scan (i # is) random curtct t =
     (if p_state (t i) = UNUSED \<or> p_state (t i) = ZOMBIE then lottery_scan is random curtct t
      else
        (let nxttct = curtct + p_tctcnt (t i) in
         if \<not> (random \<ge> curtct \<and> random < nxttct) then lottery_scan is random nxttct t else Some i))"

definition lottery_draw :: "uint \<Rightarrow> 'a kernel_scheme \<Rightarrow> nat option" where
  "lottery_draw random s = lottery_scan [0 ..< NPROC] random 0 (ptable s)"

text \<open>One round of the scheduler loop; the division by \<^verbatim>\<open>ttltcts\<close> traps when it is zero.\<close>

definition lottery_scheduler :: "'a kernel_scheme \<Rightarrow> 'a kernel_scheme outcome" where
  "lottery_scheduler s =
     (if ttltcts s = 0 then Fault ''division by zero''
      else case lottery_draw (fastrand (ticks s) mod ttltcts s) s of
          None \<Rightarrow> Ret s
        | Some i \<Rightarrow> if p_state (ptable s i) = RUNNABLE then Ret (run_proc i s) else Ret s)"

text \<open>The first process the round-robin scheduler switches to when its scan is at \<open>i\<close>.\<close>

definition rr_scheduler :: "nat \<Rightarrow> 'a kernel_scheme \<Rightarrow> (nat \<times> 'a kernel_scheme) option" where
  "rr_scheduler i s =
     (case List.find (\<lambda>j. p_state (ptable s j) = RUNNABLE) [i ..< NPROC] of
        None \<Rightarrow> None
      | Some j \<Rightarrow> Some (j, run_proc j s))"

text \<open>The checks of \<open>sched\<close> on the interrupt flag, the lock and the nesting of \<^verbatim>\<open>pushcli\<close>.\<close>

definition sched :: "uint \<Rightarrow> bool \<Rightarrow> int \<Rightarrow> nat \<Rightarrow> 'a kernel_scheme \<Rightarrow> 'a kernel_scheme outcome" where
  "sched eflags holds_lock ncli me s =
     (if eflags AND FL_IF \<noteq> 0 then Panic ''sched interruptible''
      else if p_state (ptable s me) = RUNNING then Panic ''sched running''
      else if \<not> holds_lock then Panic ''sched proc_table_lock''
      else if ncli \<noteq> 1 then Panic ''sched locks''
      else Ret (leave_proc s))"

text \<open>With the process table lock held the checks on lock and interrupts pass.\<close>

definition sched_locked :: "nat \<Rightarrow> 'a kernel_scheme \<Rightarrow> 'a kernel_scheme outcome" where
  "sched_locked me s = sched 0 True 1 me s"

definition yield :: "nat \<Rightarrow> 'a kernel_scheme \<Rightarrow> 'a kernel_scheme outcome" where
  "yield me s = sched_locked me (upd_proc me (\<lambda>p. p\<lparr>p_state := RUNNABLE\<rparr>) s)"

section \<open>Sleeping and waking\<close>

definition sleep_on :: "nat \<Rightarrow> wchan \<Rightarrow> 'a kernel_scheme \<Rightarrow> 'a kernel_scheme outcome" where
  "sleep_on me chan s = sched_locked me (upd_proc me (\<lambda>p. p\<lparr>p_chan := chan, p_state := SLEEPING\<rparr>) s)"

text \<open>What \<open>sleep\<close> does once the process runs again.\<close>

definition sleep_done :: "nat \<Rightarrow> 'a kernel_scheme \<Rightarrow> 'a kernel_scheme" where
  "sleep_done me s = upd_proc me (\<lambda>p. p\<lparr>p_chan := NoChan\<rparr>) s"

definition wakeup1 :: "wchan \<Rightarrow> 'a kernel_scheme \<Rightarrow> 'a kernel_scheme" where
  "wakeup1 chan s = s\<lparr>ptable := (\<lambda>i. if i < NPROC \<and> p_state (ptable s i) = SLEEPING \<and> p_chan (ptable s i) = chan
     then (ptable s i)\<lparr>p_state := RUNNABLE\<rparr> else ptable s i)\<rparr>"

definition wakeup :: "wchan \<Rightarrow> 'a kernel_scheme \<Rightarrow> 'a kernel_scheme" where
  "wakeup chan s = wakeup1 chan s"

definition kill :: "uint \<Rightarrow> 'a kernel_scheme \<Rightarrow> int \<times> 'a kernel_scheme" where
  "kill pid s =
     (case List.find (\<lambda>i. p_pid (ptable s i) = pid) [0 ..< NPROC] of
        None \<Rightarrow> (-1, s)
      | Some i \<Rightarrow> (0, upd_proc i (\<lambda>p. p\<lparr>p_killed := 1,
          p_state := (if p_state p = SLEEPING then RUNNABLE else p_state p)\<rparr>) s))"

definition wake_on_cond :: "nat \<Rightarrow> uint \<Rightarrow> 'a kernel_scheme \<Rightarrow> int \<times> 'a kernel_scheme" where
  "wake_on_cond me cond_addr s =
     (0, s\<lparr>ptable := (\<lambda>i. if i < NPROC \<and> p_state (ptable s i) = SLEEPING \<and> p_mem (ptable s i) = p_mem (ptable s me)
        \<and> p_cond_addr (ptable s i) = cond_addr then (ptable s i)\<lparr>p_state := RUNNABLE\<rparr> else ptable s i)\<rparr>)"

definition sleep_on_cond :: "nat \<Rightarrow> uint \<Rightarrow> uint \<Rightarrow> 'a kernel_scheme \<Rightarrow> 'a kernel_scheme outcome" where
  "sleep_on_cond me cond_addr mutex_lock s =
     (let s1 = upd_proc me (\<lambda>p. p\<lparr>p_cond_addr := cond_addr, p_state := SLEEPING\<rparr>) s;
          s2 = s1\<lparr>kmem := put_mem_u32 (of_int (p_mem (ptable s1 me)) + mutex_lock) 0 (kmem s1)\<rparr> in
      sched_locked me s2)"

section \<open>The end of a process\<close>

primrec close_files :: "nat list \<Rightarrow> nat \<Rightarrow> 'a kernel_scheme \<Rightarrow> 'a kernel_scheme outcome" where
  "close_files [] me s = Ret s"
| "close_files (fd # fds) me s =
     (case p_ofile (ptable s me) fd of
        None \<Rightarrow> close_files fds me s
      | Some f \<Rightarrow> obind (fileclose f s) (\<lambda>s1.
          close_files fds me (upd_proc me (\<lambda>p. p\<lparr>p_ofile := (p_ofile p)(fd := None)\<rparr>) s1)))"

definition proc_chan :: "nat option \<Rightarrow> wchan" where
  "proc_chan p = (case p of None \<Rightarrow> NoChan | Some i \<Rightarrow> ProcChan i)"

primrec reparent :: "nat list \<Rightarrow> nat \<Rightarrow> 'a kernel_scheme \<Rightarrow> 'a kernel_scheme" where
  "reparent [] me s = s"
| "reparent (i # is) me s =
     (if p_parent (ptable s i) = Some me then
        (let s1 = upd_proc i (\<lambda>p. p\<lparr>p_parent := initproc s\<rparr>) s in
         reparent is me (if p_state (ptable s1 i) = ZOMBIE then wakeup1 (proc_chan (initproc s1)) s1 else s1))
      else reparent is me s)"

definition exit_files :: "nat \<Rightarrow> 'a kernel_scheme \<Rightarrow> 'a kernel_scheme outcome" where
  "exit_files me s =
     obind (close_files [0 ..< NOFILE] me s) (\<lambda>s1.
       case p_cwd (ptable s1 me) of
         None \<Rightarrow> Fault ''cp->cwd''
       | Some c \<Rightarrow> obind (iput c s1) (\<lambda>s2. Ret (upd_proc me (\<lambda>p. p\<lparr>p_cwd := None\<rparr>) s2)))"

definition exit_table :: "nat \<Rightarrow> nat \<Rightarrow> 'a kernel_scheme \<Rightarrow> 'a kernel_scheme" where
  "exit_table me par s =
     upd_proc me (\<lambda>p. p\<lparr>p_killed := 0, p_state := ZOMBIE\<rparr>) (reparent [0 ..< NPROC] me (wakeup1 (ProcChan par) s))"

text \<open>The process never runs again; the outcome is the state that \<open>sched\<close> leaves.\<close>

definition exit :: "nat \<Rightarrow> 'a kernel_scheme \<Rightarrow> 'a kernel_scheme outcome" where
  "exit me s =
     (case p_parent (ptable s me) of
        None \<Rightarrow> Fault ''cp->parent''
      | Some par \<Rightarrow>
          (let isThread = (p_mem (ptable s par) = p_mem (ptable s me));
               s1 = s\<lparr>ttltcts := ttltcts s - p_tctcnt (ptable s me)\<rparr> in
           if initproc s1 = Some me then Panic ''init exiting''
           else
             obind (if isThread then Ret s1 else exit_files me s1) (\<lambda>s2.
             case p_parent (ptable s2 me) of
               None \<Rightarrow> Fault ''cp->parent''
             | Some par2 \<Rightarrow> sched_locked me (exit_table me par2 s2))))"

definition reap :: "nat \<Rightarrow> nat \<Rightarrow> 'a kernel_scheme \<Rightarrow> (uint \<times> 'a kernel_scheme) outcome" where
  "reap me i s =
     (let p = ptable s i in
      obind (if p_mem (ptable s me) \<noteq> p_mem p then kfree_st (p_mem p) (sint (p_sz p)) s else Ret s) (\<lambda>s1.
      obind (kfree_st (p_kstack p) PAGE s1) (\<lambda>s2.
      Ret (p_pid p, upd_proc i (\<lambda>q. q\<lparr>p_state := UNUSED, p_pid := 0, p_parent := None, p_name := []\<rparr>) s2))))"

text \<open>The scan of \<open>wait\<close>: the first zombie child, or whether there are children at all.\<close>

definition child :: "nat \<Rightarrow> 'a kernel_scheme \<Rightarrow> nat \<Rightarrow> bool" where
  "child me s i \<longleftrightarrow> p_state (ptable s i) \<noteq> UNUSED \<and> p_parent (ptable s i) = Some me"

datatype wait_result = WaitPid uint | WaitFail | WaitSleep

definition wait_step :: "nat \<Rightarrow> 'a kernel_scheme \<Rightarrow> (wait_result \<times> 'a kernel_scheme) outcome" where
  "wait_step me s =
     (case List.find (\<lambda>i. child me s i \<and> p_state (ptable s i) = ZOMBIE) [0 ..< NPROC] of
        Some i \<Rightarrow> obind (reap me i s) (\<lambda>(pid, s1). Ret (WaitPid pid, s1))
      | None \<Rightarrow>
          if (\<forall>i < NPROC. \<not> child me s i) \<or> p_killed (ptable s me) \<noteq> 0 then Ret (WaitFail, s)
          else obind (sleep_on me (ProcChan me) s) (\<lambda>s1. Ret (WaitSleep, s1)))"

definition fcount :: "nat \<Rightarrow> 'a kernel_scheme \<Rightarrow> nat" where
  "fcount me s = length (filter (\<lambda>fd. p_ofile (ptable s me) fd \<noteq> None) [0 ..< NOFILE])"

text \<open>The part of \<^verbatim>\<open>sys_proc_tickets\<close> under \<^verbatim>\<open>ticketslock\<close>.\<close>

definition set_tickets :: "nat \<Rightarrow> uint \<Rightarrow> 'a kernel_scheme \<Rightarrow> 'a kernel_scheme" where
  "set_tickets me n s =
     (let s1 = upd_proc me (\<lambda>p. p\<lparr>p_tctcnt := n\<rparr>) (s\<lparr>ttltcts := ttltcts s - p_tctcnt (ptable s me)\<rparr>) in
      s1\<lparr>ttltcts := ttltcts s1 + p_tctcnt (ptable s1 me)\<rparr>)"

end
