(* ===== verification/ProcLife.thy ===== *)
theory ProcLife
  imports Proc
begin

text \<open>
  The lottery: every process wins exactly as many draws as it holds tickets, the total that the kernel keeps
  is the number of tickets held, and what becomes of that when a process cannot be created; and that a parent
  that waits gets the child that has exited.
\<close>

section \<open>Drawing a ticket\<close>

definition tickets :: "(nat \<Rightarrow> proc) \<Rightarrow> nat \<Rightarrow> nat" where
  "tickets t i = (if p_state (t i) = UNUSED \<or> p_state (t i) = ZOMBIE then 0 else unat (p_tctcnt (t i)))"

definition total_tickets :: "(nat \<Rightarrow> proc) \<Rightarrow> nat" where
  "total_tickets t = (\<Sum>i < NPROC. tickets t i)"

text \<open>The draw as an interval lookup over natural numbers.\<close>

primrec holder :: "(nat \<Rightarrow> nat) \<Rightarrow> nat list \<Rightarrow> nat \<Rightarrow> nat option" where
  "holder w [] k = None"
| "holder w (i # is) k = (if k < w i then Some i else holder w is (k - w i))"

lemma lottery_scan_holder:
  "unat c + sum_list (map (tickets t) is) < 2 ^ 32 \<Longrightarrow> c \<le> r \<Longrightarrow>
    lottery_scan is r c t = holder (tickets t) is (unat r - unat c)"
proof (induction "is" arbitrary: c)
  case (Cons i "is")
  show ?case
  proof (cases "p_state (t i) = UNUSED \<or> p_state (t i) = ZOMBIE")
    case True
    then show ?thesis using Cons by (auto simp: tickets_def)
  next
    case False
    let ?n = "c + p_tctcnt (t i)"
    have w: "tickets t i = unat (p_tctcnt (t i))" using False by (simp add: tickets_def)
    then have n: "unat ?n = unat c + tickets t i" using Cons.prems(1) by (simp add: unat_add_uint)
    have le: "unat c \<le> unat r" using Cons.prems(2) by (simp add: word_le_nat_alt)
    have win: "r < ?n \<longleftrightarrow> unat r - unat c < tickets t i" using n le by (auto simp: word_less_nat_alt)
    show ?thesis
    proof (cases "r < ?n")
      case True
      then show ?thesis using False win Cons.prems(2) by (simp add: Let_def)
    next
      case not_win: False
      then have "lottery_scan is r ?n t = holder (tickets t) is (unat r - unat ?n)"
        using Cons.prems(1) n by (intro Cons.IH) (auto simp: not_less)
      then show ?thesis using False not_win win n by (simp add: Let_def)
    qed
  qed
qed simp

lemma holder_None: "holder w is k = None \<longleftrightarrow> sum_list (map w is) \<le> k"
proof (induction "is" arbitrary: k)
  case (Cons i "is")
  show ?case
  proof (cases "k < w i")
    case False
    then show ?thesis by (simp add: Cons.IH) linarith
  qed simp
qed simp

lemma holder_in: "holder w is k = Some i \<Longrightarrow> i \<in> set is"
  by (induction "is" arbitrary: k) (auto split: if_splits)

lemma holder_card: "distinct is \<Longrightarrow> card {k. holder w is k = Some i} = (if i \<in> set is then w i else 0)"
proof (induction "is")
  case (Cons j js)
  let ?A = "{k. holder w js k = Some i}"
  have split: "{k. holder w (j # js) k = Some i} = (if i = j then {..<w j} else {}) \<union> (\<lambda>k. k + w j) ` ?A"
  proof (rule set_eqI)
    fix k
    have "holder w js (k - w j) = Some i \<and> w j \<le> k \<longleftrightarrow> k \<in> (\<lambda>k. k + w j) ` ?A"
      by (auto simp: image_iff)
    then show "k \<in> {k. holder w (j # js) k = Some i} \<longleftrightarrow> k \<in> (if i = j then {..<w j} else {}) \<union> (\<lambda>k. k + w j) ` ?A"
      by auto
  qed
  have img: "card ((\<lambda>k. k + w j) ` ?A) = card ?A" by (intro card_image) (simp add: inj_on_def)
  show ?case
  proof (cases "i = j")
    case True
    then have "?A = {}" using Cons.prems by (auto dest: holder_in)
    then show ?thesis unfolding split using True by simp
  next
    case False
    then show ?thesis unfolding split using Cons img by simp
  qed
qed simp

lemma unat_inj: "inj_on unat (A :: uint set)"
  by (rule inj_onI) (rule unsigned_word_eqI)

lemma total_tickets_list: "sum_list (map (tickets t) [0 ..< NPROC]) = total_tickets t"
  by (simp add: total_tickets_def sum_list_distinct_conv_sum_set atLeast0LessThan)

lemma draw_holder:
  "total_tickets (ptable s) < 2 ^ 32 \<Longrightarrow> lottery_draw r s = holder (tickets (ptable s)) [0 ..< NPROC] (unat r)"
  using lottery_scan_holder [of 0 "ptable s" "[0 ..< NPROC]" r] by (simp add: lottery_draw_def total_tickets_list)

lemma draw_Some:
  assumes "total_tickets (ptable s) < 2 ^ 32"
  shows "lottery_draw r s \<noteq> None \<longleftrightarrow> unat r < total_tickets (ptable s)"
  unfolding draw_holder [OF assms] using holder_None [of "tickets (ptable s)" "[0 ..< NPROC]" "unat r"]
  unfolding total_tickets_list by (simp add: not_le)

section \<open>What the file system leaves alone\<close>

text \<open>Neither the file system nor the file table touches the process table.\<close>

named_theorems fsframe

lemma fs_more_of_bio:
  fixes s s' :: "'a fs_state_scheme"
  shows "bio_state.more s' = bio_state.more s \<Longrightarrow> fs_state.more s' = fs_state.more s"
  by (cases s, cases s') simp

lemma fs_more_upd [simp]:
  fixes s :: "'a fs_state_scheme"
  shows "fs_state.more (upd_inode ip f s) = fs_state.more s" "fs_state.more (upd_data b g s) = fs_state.more s"
  by (simp_all add: upd_inode_def upd_data_def upd_buf_def)

lemma cache_fsframe [fsframe]:
  fixes s s' :: "'a fs_state_scheme"
  shows "bread dev n s = Ret (b, s') \<Longrightarrow> fs_state.more s' = fs_state.more s"
  "bwrite b s = Ret s' \<Longrightarrow> fs_state.more s' = fs_state.more s"
  "brelse b s = Ret s' \<Longrightarrow> fs_state.more s' = fs_state.more s"
  "commit_flush s = Ret s' \<Longrightarrow> fs_state.more s' = fs_state.more s"
  by (auto intro!: fs_more_of_bio dest: frame)

lemma readsb_fsframe [fsframe]: "readsb dev s = Ret (sb, s') \<Longrightarrow> fs_state.more s' = fs_state.more s"
  by (auto simp: readsb_def dest!: fsframe)

lemma bzero_fsframe [fsframe]: "bzero dev b s = Ret s' \<Longrightarrow> fs_state.more s' = fs_state.more s"
  by (auto simp: bzero_def dest!: fsframe)

lemma bfree_fsframe [fsframe]: "bfree dev b s = Ret s' \<Longrightarrow> fs_state.more s' = fs_state.more s"
  by (auto simp: bfree_def Let_def split: if_splits dest!: fsframe)

lemma iupdate_fsframe [fsframe]: "iupdate ip s = Ret s' \<Longrightarrow> fs_state.more s' = fs_state.more s"
  by (auto simp: iupdate_def Let_def dest!: fsframe)

lemma free_fsframe [fsframe]:
  "free_direct ks ip s = Ret s' \<Longrightarrow> fs_state.more s' = fs_state.more s"
  "free_entries ks b s = Ret s' \<Longrightarrow> fs_state.more s' = fs_state.more s"
proof (induction ks arbitrary: s)
  case (Cons k ks)
  case 1
  then show ?case by (auto split: if_splits dest!: Cons fsframe)
next
  case (Cons k ks)
  case 2
  then show ?case by (auto dest!: Cons fsframe)
qed simp_all

lemma free_indirect_fsframe [fsframe]: "free_indirect js ip bp s = Ret s' \<Longrightarrow> fs_state.more s' = fs_state.more s"
  by (induction js arbitrary: s) (auto simp: Let_def split: if_splits dest!: fsframe)

lemma itrunc_fsframe [fsframe]: "itrunc ip s = Ret s' \<Longrightarrow> fs_state.more s' = fs_state.more s"
  by (auto simp: itrunc_def split: if_splits dest!: fsframe)

lemma iput_fsframe [fsframe]: "iput ip s = Ret s' \<Longrightarrow> fs_state.more s' = fs_state.more s"
  by (auto simp: iput_def Let_def split: if_splits dest!: fsframe)

lemma file_more_of_fs:
  fixes s s' :: "'a file_state_scheme"
  shows "fs_state.more s' = fs_state.more s \<Longrightarrow> file_state.more s' = file_state.more s"
  by (cases s, cases s') simp

lemma file_more_upd [simp]:
  fixes s :: "'a file_state_scheme"
  shows "file_state.more (upd_file f g s) = file_state.more s" "file_state.more (upd_inode ip h s) = file_state.more s"
  by (simp_all add: upd_file_def upd_inode_def)

lemma kalloc_frame: "kalloc_st n s = Ret (p, s') \<Longrightarrow> file_state.more s' = file_state.more s"
  by (auto simp: kalloc_st_def split: option.splits)

lemma kfree_frame: "kfree_st p n s = Ret s' \<Longrightarrow> file_state.more s' = file_state.more s"
  by (auto simp: kfree_st_def split: option.splits)

lemma filedup_frame: "filedup f s = Ret (g, s') \<Longrightarrow> file_state.more s' = file_state.more s"
  by (auto simp: filedup_def split: if_splits)

lemma idup_frame: "idup c s = (c', s') \<Longrightarrow> file_state.more s' = file_state.more (s :: 'a file_state_scheme)"
  by (auto simp: idup_def)

lemma fileclose_frame: "fileclose f s = Ret s' \<Longrightarrow> file_state.more s' = file_state.more s"
  by (auto simp: fileclose_def pipeclose_def Let_def split: if_splits fdtype.splits prod.splits
      dest!: kfree_frame iput_fsframe [THEN file_more_of_fs])

lemma iput_frame: "iput ip s = Ret s' \<Longrightarrow> file_state.more s' = file_state.more (s :: 'a file_state_scheme)"
  by (rule file_more_of_fs) (rule iput_fsframe)

text \<open>The process table and what belongs to it.\<close>

lemma kernel_of_more:
  fixes s s' :: "'a kernel_scheme"
  assumes "file_state.more s' = file_state.more s"
  shows "ptable s' = ptable s" "ttltcts s' = ttltcts s" "initproc s' = initproc s" "kmem s' = kmem s" "nextpid s' = nextpid s"
  using assms by (cases s, cases s', simp)+

lemmas table_frame = kalloc_frame [THEN kernel_of_more(1)] kalloc_frame [THEN kernel_of_more(2)]
  kalloc_frame [THEN kernel_of_more(3)]
  kfree_frame [THEN kernel_of_more(1)] kfree_frame [THEN kernel_of_more(2)] kfree_frame [THEN kernel_of_more(3)]
  filedup_frame [THEN kernel_of_more(1)] filedup_frame [THEN kernel_of_more(2)]
  idup_frame [THEN kernel_of_more(1)] idup_frame [THEN kernel_of_more(2)]
  fileclose_frame [THEN kernel_of_more(1)] fileclose_frame [THEN kernel_of_more(2)] fileclose_frame [THEN kernel_of_more(3)]
  iput_frame [THEN kernel_of_more(1)] iput_frame [THEN kernel_of_more(2)] iput_frame [THEN kernel_of_more(3)]

section \<open>The total of the tickets\<close>

text \<open>\<open>weights\<close>: what each table entry contributes, and the total the kernel keeps.\<close>

definition weight :: "proc \<Rightarrow> uint" where
  "weight p = (if p_state p = UNUSED \<or> p_state p = ZOMBIE then 0 else p_tctcnt p)"

definition weights :: "'a kernel_scheme \<Rightarrow> (nat \<Rightarrow> uint) \<times> uint" where
  "weights s = (\<lambda>i. weight (ptable s i), ttltcts s)"

definition tickets_ok :: "'a kernel_scheme \<Rightarrow> bool" where
  "tickets_ok s \<longleftrightarrow> snd (weights s) = (\<Sum>i < NPROC. fst (weights s) i)"

lemma tickets_ok_total: "tickets_ok s \<longleftrightarrow> ttltcts s = of_nat (total_tickets (ptable s))"
proof -
  have "of_nat (tickets t i) = weight (t i)" for t i by (simp add: tickets_def weight_def)
  then show ?thesis by (simp add: tickets_ok_def weights_def total_tickets_def)
qed

named_theorems wt

lemma weights_upd [simp]: "weight (f (ptable s i)) = weight (ptable s i) \<Longrightarrow> weights (upd_proc i f s) = weights s"
  by (auto simp: weights_def upd_proc_def)

lemma weights_more: "file_state.more s' = file_state.more s \<Longrightarrow> weights s' = weights s"
  using kernel_of_more [of s' s] by (simp add: weights_def)

lemmas file_wt [wt] = kalloc_frame [THEN weights_more] kfree_frame [THEN weights_more] filedup_frame [THEN weights_more]
  idup_frame [THEN weights_more] fileclose_frame [THEN weights_more] iput_frame [THEN weights_more]

lemma weight_fields [simp]:
  "weight (p\<lparr>p_kstack := a\<rparr>) = weight p" "weight (p\<lparr>p_mem := b\<rparr>) = weight p" "weight (p\<lparr>p_sz := c\<rparr>) = weight p"
  "weight (p\<lparr>p_ofile := d\<rparr>) = weight p" "weight (p\<lparr>p_cwd := e\<rparr>) = weight p" "weight (p\<lparr>p_context := g\<rparr>) = weight p"
  "weight (p\<lparr>p_tf := h\<rparr>) = weight p" "weight (p\<lparr>p_parent := i\<rparr>) = weight p" "weight (p\<lparr>p_ct := j\<rparr>) = weight p"
  "weight (p\<lparr>p_chan := k\<rparr>) = weight p" "weight (p\<lparr>p_killed := l\<rparr>) = weight p" "weight (p\<lparr>p_cond_addr := m\<rparr>) = weight p"
  by (simp_all add: weight_def)

lemma weights_fields [simp]:
  "weights (s\<lparr>kmem := a\<rparr>) = weights s" "weights (s\<lparr>segs := b\<rparr>) = weights s" "weights (s\<lparr>curproc := c\<rparr>) = weights s"
  "weights (s\<lparr>curmt := d\<rparr>) = weights s" "weights (setupsegs_of q s) = weights s"
  by (simp_all add: weights_def setupsegs_of_def)

lemma wakeup1_wt [simp]: "weights (wakeup1 c s) = weights s"
  by (auto simp: weights_def wakeup1_def weight_def)

lemma leave_proc_wt [simp]: "weights (leave_proc s) = weights s"
  by (simp add: leave_proc_def Let_def split: option.split)

lemma sched_wt [wt]: "sched_locked me s = Ret s' \<Longrightarrow> weights s' = weights s"
  by (auto simp: sched_locked_def sched_def split: if_splits)

lemma dup_files_wt [wt]: "dup_files is p np s = Ret s' \<Longrightarrow> weights s' = weights s"
  by (induction "is" arbitrary: s) (auto split: option.splits dest!: wt)

lemma copy_parent_wt [wt]: "copy_parent p np s = Ret (True, s') \<Longrightarrow> weights s' = weights s"
  by (auto simp: copy_parent_def Let_def split: option.splits if_splits prod.splits dest!: wt)

lemma close_files_wt [wt]: "close_files fds me s = Ret s' \<Longrightarrow> weights s' = weights s"
  by (induction fds arbitrary: s) (auto split: option.splits dest!: wt)

lemma exit_files_wt [wt]: "exit_files me s = Ret s' \<Longrightarrow> weights s' = weights s"
  by (auto simp: exit_files_def split: option.splits dest!: wt)

lemma reparent_wt [simp]: "weights (reparent is me s) = weights s"
  by (induction "is" arbitrary: s) (auto simp: Let_def)

lemma reap_wt [wt]:
  assumes "reap me i s = Ret (pid, s')" "p_state (ptable s i) = ZOMBIE"
  shows "weights s' = weights s"
proof -
  obtain s1 s2 where s1: "(if p_mem (ptable s me) \<noteq> p_mem (ptable s i) then kfree_st (p_mem (ptable s i)) (sint (p_sz (ptable s i))) s else Ret s) = Ret s1"
    and s2: "kfree_st (p_kstack (ptable s i)) PAGE s1 = Ret s2"
    and s': "s' = upd_proc i (\<lambda>q. q\<lparr>p_state := UNUSED, p_pid := 0, p_parent := None, p_name := []\<rparr>) s2"
    using assms(1) by (auto simp: reap_def Let_def)
  have "ptable s1 = ptable s" "weights s1 = weights s"
    using s1 by (auto split: if_splits dest: kfree_frame [THEN kernel_of_more(1)] wt)
  moreover have "ptable s2 = ptable s1" "weights s2 = weights s1"
    using s2 by (auto dest: kfree_frame [THEN kernel_of_more(1)] wt)
  ultimately show ?thesis using s' assms(2) by (simp add: weight_def)
qed

lemma allocproc_wt:
  "allocproc s = (Some np, s') \<Longrightarrow> np < NPROC \<and> weights s' = ((fst (weights s))(np := 100), snd (weights s) + 100) \<and> fst (weights s) np = 0"
  by (auto simp: allocproc_def weights_def upd_proc_def weight_def find_Some_iff fun_eq_iff split: option.splits)

text \<open>The state of the new process stays \<open>EMBRYO\<close> until the caller makes it runnable.\<close>

lemma dup_files_state: "dup_files is p np s = Ret s' \<Longrightarrow> p_state (ptable s' i) = p_state (ptable s i)"
  by (induction "is" arbitrary: s) (auto simp: upd_proc_def split: option.splits if_splits dest!: filedup_frame [THEN kernel_of_more(1)])

lemma copy_parent_state:
  "copy_parent p np s = Ret (True, s') \<Longrightarrow> p_state (ptable s' i) = p_state (ptable s i)"
  by (auto simp: copy_parent_def Let_def upd_proc_def split: option.splits if_splits prod.splits
      dest!: kalloc_frame [THEN kernel_of_more(1)] idup_frame [THEN kernel_of_more(1)] dup_files_state [where i = i])

lemma copyproc_wt:
  assumes "copyproc (Some p) s = Ret (Some np, s')"
  shows "np < NPROC \<and> weights s' = ((fst (weights s))(np := 100), snd (weights s) + 100) \<and> fst (weights s) np = 0
    \<and> p_state (ptable s' np) = EMBRYO"
proof -
  obtain s1 ks s2 s4 where a: "allocproc s = (Some np, s1)" and k: "kalloc_st PAGE s1 = Ret (ks, s2)"
    and c: "copy_parent p np (upd_proc np (\<lambda>q. q\<lparr>p_kstack := ks\<rparr>) s2) = Ret (True, s4)"
    and s': "s' = upd_proc np (\<lambda>q. q\<lparr>p_context := fresh_context ks s4, p_tf := (p_tf q)\<lparr>tf_eax := 0\<rparr>\<rparr>) s4"
    using assms by (auto simp: copyproc_def Let_def split: prod.splits option.splits if_splits)
  have e: "p_state (ptable s1 np) = EMBRYO" using a by (auto simp: allocproc_def upd_proc_def split: option.splits)
  have "weights s' = weights s1"
    using k c s' by (auto dest!: wt)
  moreover have "p_state (ptable s' np) = EMBRYO"
    using e kalloc_frame [OF k, THEN kernel_of_more(1)] copy_parent_state [OF c, of np] s' by (simp add: upd_proc_def)
  ultimately show ?thesis using allocproc_wt [OF a] by simp
qed

lemma copyproc_thread_wt:
  assumes "copyproc_thread p st s = Ret (Some np, s')"
  shows "np < NPROC \<and> weights s' = ((fst (weights s))(np := 100), snd (weights s) + 100) \<and> fst (weights s) np = 0
    \<and> p_state (ptable s' np) = EMBRYO"
proof -
  obtain s1 ks s2 where a: "allocproc s = (Some np, s1)" and k: "kalloc_st PAGE s1 = Ret (ks, s2)"
    and w: "weights s' = weights s2" "p_state (ptable s' np) = p_state (ptable s2 np)"
    using assms by (auto simp: copyproc_thread_def Let_def upd_proc_def weights_def weight_def fun_eq_iff
        split: prod.splits option.splits if_splits)
  have e: "p_state (ptable s1 np) = EMBRYO" using a by (auto simp: allocproc_def upd_proc_def split: option.splits)
  then show ?thesis
    using allocproc_wt [OF a] kalloc_frame [OF k, THEN kernel_of_more(1)] kalloc_frame [OF k, THEN weights_more] w by simp
qed

section \<open>The life of processes\<close>

text \<open>
  The steps that processes take: creating a process or a thread and making it runnable, ending, waiting,
  killing, waking, sleeping, yielding, being scheduled, growing, and changing the number of tickets.
\<close>

inductive proc_step :: "'a kernel_scheme \<Rightarrow> 'a kernel_scheme \<Rightarrow> bool" where
  ps_fork: "copyproc (Some me) s = Ret (Some np, s1) \<Longrightarrow> proc_step s (upd_proc np (\<lambda>p. p\<lparr>p_state := RUNNABLE\<rparr>) s1)"
| ps_thread: "copyproc_thread me st s = Ret (Some np, s1) \<Longrightarrow> proc_step s (upd_proc np (\<lambda>p. p\<lparr>p_state := RUNNABLE\<rparr>) s1)"
| ps_exit: "me < NPROC \<Longrightarrow> p_state (ptable s me) = RUNNING \<Longrightarrow> exit me s = Ret s' \<Longrightarrow> proc_step s s'"
| ps_wait: "p_state (ptable s me) = RUNNING \<Longrightarrow> wait_step me s = Ret (r, s') \<Longrightarrow> proc_step s s'"
| ps_kill: "kill pid s = (r, s') \<Longrightarrow> proc_step s s'"
| ps_wakeup: "proc_step s (wakeup c s)"
| ps_sleep: "p_state (ptable s me) = RUNNING \<Longrightarrow> sleep_on me c s = Ret s' \<Longrightarrow> proc_step s s'"
| ps_yield: "p_state (ptable s me) = RUNNING \<Longrightarrow> yield me s = Ret s' \<Longrightarrow> proc_step s s'"
| ps_run: "lottery_scheduler s = Ret s' \<Longrightarrow> proc_step s s'"
| ps_grow: "growproc me n s = Ret (r, s') \<Longrightarrow> proc_step s s'"
| ps_tickets: "me < NPROC \<Longrightarrow> p_state (ptable s me) = RUNNING \<Longrightarrow> proc_step s (set_tickets me n s)"

lemma tickets_ok_same: "weights s' = weights s \<Longrightarrow> tickets_ok s \<Longrightarrow> tickets_ok s'"
  by (simp add: tickets_ok_def)

lemma tickets_ok_change:
  assumes "tickets_ok s" "i < NPROC" "weights s' = ((fst (weights s))(i := w), snd (weights s) - fst (weights s) i + w)"
  shows "tickets_ok s'"
proof -
  have "(\<Sum>j < NPROC. ((fst (weights s))(i := w)) j) = (\<Sum>j < NPROC. fst (weights s) j) - fst (weights s) i + w"
    using assms(2) by (simp add: sum.remove [of _ i] fun_upd_def)
  then show ?thesis using assms(1,3) by (simp add: tickets_ok_def)
qed

lemma tickets_ok_new:
  assumes "tickets_ok s" "np < NPROC" "weights s1 = ((fst (weights s))(np := 100), snd (weights s) + 100)"
    "fst (weights s) np = 0" "p_state (ptable s1 np) = EMBRYO"
  shows "tickets_ok (upd_proc np (\<lambda>p. p\<lparr>p_state := RUNNABLE\<rparr>) s1)"
proof -
  have "weights (upd_proc np (\<lambda>p. p\<lparr>p_state := RUNNABLE\<rparr>) s1) = weights s1"
    using assms(5) by (intro weights_upd) (simp add: weight_def)
  then show ?thesis using assms by (intro tickets_ok_change [OF assms(1,2), where w = 100]) simp
qed

lemma weights_zombie:
  "weights (upd_proc i (\<lambda>p. p\<lparr>p_killed := 0, p_state := ZOMBIE\<rparr>) s) = ((fst (weights s))(i := 0), snd (weights s))"
  by (auto simp: weights_def upd_proc_def weight_def)

lemma exit_weights:
  assumes "exit me s = Ret s'" "p_state (ptable s me) = RUNNING"
  shows "weights s' = ((fst (weights s))(me := 0), snd (weights s) - fst (weights s) me)"
proof -
  let ?s1 = "s\<lparr>ttltcts := ttltcts s - p_tctcnt (ptable s me)\<rparr>"
  have me: "fst (weights s) me = p_tctcnt (ptable s me)" using assms(2) by (simp add: weights_def weight_def)
  have w1: "weights ?s1 = (fst (weights s), snd (weights s) - fst (weights s) me)" using me by (simp add: weights_def)
  obtain s2 par where s2: "weights s2 = weights ?s1" and s': "sched_locked me (exit_table me par s2) = Ret s'"
    using assms(1) by (auto simp: exit_def Let_def split: option.splits if_splits dest!: wt)
  have "weights (exit_table me par s2) = ((fst (weights s2))(me := 0), snd (weights s2))"
    unfolding exit_table_def weights_zombie by simp
  then show ?thesis using s' s2 w1 by (auto dest!: wt)
qed

lemma kill_weights: "kill pid s = (r, s') \<Longrightarrow> weights s' = weights s"
  by (auto simp: kill_def weight_def split: option.splits)

lemma sleep_weights:
  "p_state (ptable s me) = RUNNING \<Longrightarrow> sleep_on me c s = Ret s' \<Longrightarrow> weights s' = weights s"
  by (auto simp: sleep_on_def weight_def dest!: wt)

lemma run_proc_weights: "p_state (ptable s i) = RUNNABLE \<Longrightarrow> weights (run_proc i s) = weights s"
  by (auto simp: run_proc_def Let_def weight_def setupsegs_of_def)

lemma growproc_weights: "growproc me n s = Ret (r, s') \<Longrightarrow> weights s' = weights s"
  by (auto simp: growproc_def Let_def split: if_splits dest!: wt)

lemma tickets_ok_step: "proc_step s s' \<Longrightarrow> tickets_ok s \<Longrightarrow> tickets_ok s'"
proof (induction rule: proc_step.induct)
  case (ps_fork me s np s1)
  then show ?case using copyproc_wt [OF ps_fork(1)] by (intro tickets_ok_new [of s]) auto
next
  case (ps_thread me st s np s1)
  then show ?case using copyproc_thread_wt [OF ps_thread(1)] by (intro tickets_ok_new [of s]) auto
next
  case (ps_exit me s s')
  then show ?case using exit_weights [OF ps_exit(3,2)] by (intro tickets_ok_change [OF ps_exit(4,1), where w = 0]) simp
next
  case (ps_wait s me r s')
  then show ?case
    by (auto simp: wait_step_def find_Some_iff split: option.splits if_splits dest!: reap_wt sleep_weights intro: tickets_ok_same)
next
  case (ps_kill pid s r s')
  then show ?case using kill_weights tickets_ok_same by blast
next
  case (ps_wakeup s c)
  then show ?case by (simp add: wakeup_def tickets_ok_def)
next
  case (ps_sleep s me c s')
  then show ?case using sleep_weights tickets_ok_same by blast
next
  case (ps_yield s me s')
  then show ?case by (auto simp: yield_def weight_def tickets_ok_def dest!: wt)
next
  case (ps_run s s')
  then show ?case
    by (auto simp: lottery_scheduler_def split: if_splits option.splits intro: tickets_ok_same run_proc_weights)
next
  case (ps_grow me n s r s')
  then show ?case using growproc_weights tickets_ok_same by blast
next
  case (ps_tickets me s n)
  have "weights (set_tickets me n s) = ((fst (weights s))(me := n), snd (weights s) - fst (weights s) me + n)"
    using ps_tickets(2) by (auto simp: set_tickets_def Let_def weights_def upd_proc_def weight_def)
  then show ?case by (rule tickets_ok_change [OF ps_tickets(3,1)])
qed

text \<open>What \<open>userinit\<close> leaves: one process, with the tickets every process starts with.\<close>

definition first_proc :: "'a kernel_scheme \<Rightarrow> bool" where
  "first_proc s \<longleftrightarrow> ttltcts s = 100 \<and> p_state (ptable s 0) = RUNNABLE \<and> p_tctcnt (ptable s 0) = 100
     \<and> (\<forall>i. 0 < i \<longrightarrow> p_state (ptable s i) = UNUSED)"

lemma tickets_ok_first: "first_proc s \<Longrightarrow> tickets_ok s"
proof -
  assume s: "first_proc s"
  then have w: "fst (weights s) i = (if i = 0 then 100 else 0)" for i
    by (cases "i = 0") (auto simp: first_proc_def weights_def weight_def)
  have "(\<Sum>i < NPROC. fst (weights s) i) = 100" unfolding w by (simp add: NPROC_def)
  moreover have "snd (weights s) = 100" using s by (simp add: first_proc_def weights_def)
  ultimately show ?thesis by (simp add: tickets_ok_def)
qed

interpretation tickets: inductive_invariant first_proc proc_step tickets_ok
  by unfold_locales (rule tickets_ok_first tickets_ok_step, assumption+)+

section \<open>Properties of the lottery\<close>

definition demo_proc :: proc where
  "demo_proc = \<lparr>p_mem = 0, p_sz = 4096, p_kstack = 0, p_state = UNUSED, p_pid = 0, p_parent = None, p_chan = NoChan, p_killed = 0,
     p_ofile = (\<lambda>_. None), p_cwd = Some 3,
     p_context = \<lparr>c_eip = 0, c_esp = 0, c_ebx = 0, c_ecx = 0, c_edx = 0, c_esi = 0, c_edi = 0, c_ebp = 0\<rparr>,
     p_tf = zero_tf, p_name = [], p_tctcnt = 100, p_cond_addr = 0, p_ct = empty_trans\<rparr>"

definition demo_kernel :: kernel where
  "demo_kernel = file_state.extend (demo_files {7})
     \<lparr>ptable = (\<lambda>_. demo_proc)(0 := demo_proc\<lparr>p_state := RUNNABLE, p_pid := 1\<rparr>), nextpid = 2, ttltcts = 100, initproc = Some 0, curproc = None,
      ticks = 0, kmem = (\<lambda>_. 0), segs = demo_segs, forkret_addr = 0, ts_addr = 0\<rparr>"

lemma demo_kernel_fields:
  "ptable demo_kernel = (\<lambda>_. demo_proc)(0 := demo_proc\<lparr>p_state := RUNNABLE, p_pid := 1\<rparr>)" "ttltcts demo_kernel = 100"
  "kst demo_kernel = \<lparr>freelist = 0, run_next = (\<lambda>_. 0), run_len = (\<lambda>_. 0)\<rparr>"
  by (simp_all add: demo_kernel_def file_state.extend_def demo_files_def fs_state.extend_def)

lemma demo_kernel_tickets: "first_proc demo_kernel" "total_tickets (ptable demo_kernel) = 100"
proof -
  show "first_proc demo_kernel" by (simp add: first_proc_def demo_kernel_fields demo_proc_def)
  have "tickets (ptable demo_kernel) i = (if i = 0 then 100 else 0)" for i
    by (simp add: tickets_def demo_kernel_fields demo_proc_def)
  then show "total_tickets (ptable demo_kernel) = 100" by (simp add: total_tickets_def NPROC_def)
qed

text \<open>
  C18: The lottery is fair.  Of the \<open>2 ^ 32\<close> values of the drawn number, exactly as many select a process as it
  holds tickets, and a number selects some process exactly when it is below the number of all tickets held.
\<close>

theorem lottery_fair:
  assumes "total_tickets (ptable s) < 2 ^ 32" "i < NPROC"
  shows "card {r. lottery_draw r s = Some i} = tickets (ptable s) i
    \<and> (lottery_draw r s \<noteq> None \<longleftrightarrow> unat r < total_tickets (ptable s))"
proof -
  let ?w = "tickets (ptable s)" and ?is = "[0 ..< NPROC]"
  note draw = draw_holder [OF assms(1)]
  have "unat ` {r :: uint. holder ?w ?is (unat r) = Some i} = {k. holder ?w ?is k = Some i}"
  proof
    show "{k. holder ?w ?is k = Some i} \<subseteq> unat ` {r :: uint. holder ?w ?is (unat r) = Some i}"
    proof
      fix k assume k: "k \<in> {k. holder ?w ?is k = Some i}"
      then have "k < total_tickets (ptable s)" using holder_None [of ?w ?is k] by (simp add: total_tickets_list)
      then have "k < 2 ^ 32" using assms(1) by linarith
      then have "unat (of_nat k :: uint) = k" by (simp add: unat_of_nat)
      then show "k \<in> unat ` {r :: uint. holder ?w ?is (unat r) = Some i}" using k by (intro image_eqI [of _ _ "of_nat k"]) auto
    qed
  qed auto
  then have "card {r :: uint. holder ?w ?is (unat r) = Some i} = card {k. holder ?w ?is k = Some i}"
    using card_image [of unat "{r :: uint. holder ?w ?is (unat r) = Some i}"] unat_inj by simp
  also have "\<dots> = ?w i" using holder_card [of ?is ?w i] assms(2) by (simp del: upt_Suc)
  finally have card: "card {r :: uint. holder ?w ?is (unat r) = Some i} = ?w i" .
  show ?thesis using card draw_Some [OF assms(1), of r] by (simp add: draw)
qed

theorem lottery_fair_witness:
  "card {r. lottery_draw r demo_kernel = Some 0} = 100 \<and> lottery_draw 99 demo_kernel \<noteq> None \<and> lottery_draw 100 demo_kernel = None"
proof -
  have "tickets (ptable demo_kernel) 0 = 100" by (simp add: tickets_def demo_kernel_fields demo_proc_def)
  then show ?thesis
    using lottery_fair [of demo_kernel 0 99] lottery_fair [of demo_kernel 0 100] demo_kernel_tickets(2) by (simp add: NPROC_def)
qed



text \<open>
  Creating a process that fails for want of memory leaks tickets: the caller gets a null pointer and no process
  holds more tickets, but the total has grown by 100, so that some draws now select nobody.
\<close>

theorem copyproc_failure_leaks:
  assumes "\<exists>i < NPROC. p_state (ptable s i) = UNUSED" "kalloc PAGE (kst s) = Some (Ret (0, k))"
    and "tickets_ok s" "total_tickets (ptable s) + 100 < 2 ^ 32"
  shows "\<exists>s' r. copyproc p s = Ret (None, s') \<and> total_tickets (ptable s') = total_tickets (ptable s)
    \<and> ttltcts s' = ttltcts s + 100 \<and> r < ttltcts s' \<and> lottery_draw r s' = None"
proof -
  have "List.find (\<lambda>i. p_state (ptable s i) = UNUSED) [0 ..< NPROC] \<noteq> None" using assms(1) by (auto simp: find_None_iff)
  then obtain i s1 where a: "allocproc s = (Some i, s1)" unfolding allocproc_def by fastforce
  then have s1: "s1 = upd_proc i (\<lambda>p. p\<lparr>p_state := EMBRYO, p_pid := nextpid s, p_tctcnt := 100, p_ct := empty_trans\<rparr>)
      (s\<lparr>nextpid := nextpid s + 1, ttltcts := ttltcts s + 100\<rparr>)" and i: "p_state (ptable s i) = UNUSED"
    by (auto simp: allocproc_def find_Some_iff split: option.splits)
  let ?s' = "upd_proc i (\<lambda>q. q\<lparr>p_state := UNUSED\<rparr>) (upd_proc i (\<lambda>q. q\<lparr>p_kstack := 0\<rparr>) (s1\<lparr>kst := k\<rparr>))"
  have "kst s1 = kst s" by (simp add: s1 upd_proc_def)
  then have "kalloc_st PAGE s1 = Ret (0, s1\<lparr>kst := k\<rparr>)" using assms(2) by (simp add: kalloc_st_def)
  then have ret: "copyproc p s = Ret (None, ?s')" using a by (simp add: copyproc_def)
  have "tickets (ptable ?s') = tickets (ptable s)" using i by (auto simp: tickets_def s1 upd_proc_def fun_eq_iff)
  then have tot: "total_tickets (ptable ?s') = total_tickets (ptable s)" by (simp add: total_tickets_def)
  have ttl: "ttltcts ?s' = ttltcts s + 100" by (simp add: s1 upd_proc_def)
  have u: "unat (ttltcts s) = total_tickets (ptable s)" using assms(3,4) by (simp add: tickets_ok_total unat_of_nat)
  have u': "unat (ttltcts s + 100) = total_tickets (ptable s) + 100" using u assms(4) by (simp add: unat_add_uint)
  have "lottery_draw (ttltcts s) ?s' = None" using draw_Some [of ?s' "ttltcts s"] tot u assms(4) by simp
  moreover have "ttltcts s < ttltcts ?s'" unfolding ttl using u u' by (simp add: word_less_nat_alt)
  ultimately show ?thesis using ret tot ttl by blast
qed

theorem copyproc_failure_leaks_witness:
  "\<exists>s' r. copyproc (Some 0) demo_kernel = Ret (None, s') \<and> ttltcts s' = 200 \<and> r < ttltcts s' \<and> lottery_draw r s' = None"
proof -
  have "\<exists>i < NPROC. p_state (ptable demo_kernel i) = UNUSED"
    by (rule exI [of _ 1]) (simp add: demo_kernel_fields demo_proc_def NPROC_def)
  moreover have "kalloc PAGE (kst demo_kernel) = Some (Ret (0, kst demo_kernel))"
    by (simp add: kalloc_def kalloc_loop.simps demo_kernel_fields PAGE_def)
  ultimately show ?thesis
    using copyproc_failure_leaks [of demo_kernel _ "Some 0"] tickets_ok_first [OF demo_kernel_tickets(1)] demo_kernel_tickets(2)
    by (simp add: demo_kernel_fields(2)) blast
qed

section \<open>Exit and wait\<close>

lemma close_files_table:
  "close_files fds me s = Ret s' \<Longrightarrow> (\<forall>j. j \<noteq> me \<longrightarrow> ptable s' j = ptable s j)
    \<and> p_parent (ptable s' me) = p_parent (ptable s me) \<and> initproc s' = initproc s"
proof (induction fds arbitrary: s)
  case (Cons fd fds)
  show ?case
  proof (cases "p_ofile (ptable s me) fd")
    case None
    then show ?thesis using Cons by simp
  next
    case (Some f)
    then obtain s1 where "fileclose f s = Ret s1"
      "close_files fds me (upd_proc me (\<lambda>p. p\<lparr>p_ofile := (p_ofile p)(fd := None)\<rparr>) s1) = Ret s'"
      using Cons.prems by auto
    then show ?thesis
      using Cons.IH fileclose_frame [of f s s1] kernel_of_more [of s1 s] by (fastforce simp: upd_proc_def)
  qed
qed simp

lemma exit_files_table:
  "exit_files me s = Ret s' \<Longrightarrow> (\<forall>j. j \<noteq> me \<longrightarrow> ptable s' j = ptable s j)
    \<and> p_parent (ptable s' me) = p_parent (ptable s me) \<and> initproc s' = initproc s"
proof -
  assume "exit_files me s = Ret s'"
  then obtain s1 c s2 where s1: "close_files [0 ..< NOFILE] me s = Ret s1" and s2: "iput c s1 = Ret s2"
    and s': "s' = upd_proc me (\<lambda>p. p\<lparr>p_cwd := None\<rparr>) s2"
    by (auto simp: exit_files_def split: option.splits)
  show ?thesis
    using close_files_table [OF s1] kernel_of_more [OF iput_frame [OF s2]] by (auto simp: s' upd_proc_def)
qed

text \<open>The scan for abandoned children changes parents and may wake sleepers, nothing else.\<close>

definition kept :: "nat \<Rightarrow> proc \<Rightarrow> proc \<Rightarrow> bool" where
  "kept me p q \<longleftrightarrow> (p_state q = p_state p \<or> p_state p = SLEEPING \<and> p_state q = RUNNABLE)
     \<and> (p_parent p \<noteq> Some me \<longrightarrow> p_parent q = p_parent p)"

lemma kept_refl [simp]: "kept me p p"
  by (simp add: kept_def)

lemma kept_trans: "kept me p q \<Longrightarrow> kept me q r \<Longrightarrow> kept me p r"
  by (auto simp: kept_def)

lemma wakeup1_kept [simp]: "kept me (ptable s i) (ptable (wakeup1 c s) i)"
  by (simp add: kept_def wakeup1_def)

lemma reparent_kept: "kept me (ptable s i) (ptable (reparent is me s) i)"
proof (induction "is" arbitrary: s)
  case (Cons a "is")
  show ?case
  proof (cases "p_parent (ptable s a) = Some me")
    case True
    let ?s1 = "upd_proc a (\<lambda>p. p\<lparr>p_parent := initproc s\<rparr>) s"
    let ?s2 = "if p_state (ptable ?s1 a) = ZOMBIE then wakeup1 (proc_chan (initproc ?s1)) ?s1 else ?s1"
    have "kept me (ptable s i) (ptable ?s1 i)" using True by (simp add: kept_def upd_proc_def)
    moreover have "kept me (ptable ?s1 i) (ptable ?s2 i)" by simp
    ultimately have "kept me (ptable s i) (ptable ?s2 i)" by (rule kept_trans)
    moreover have "reparent (a # is) me s = reparent is me ?s2" using True by (simp add: Let_def)
    ultimately show ?thesis using Cons.IH [of ?s2] kept_trans by metis
  next
    case False
    then show ?thesis using Cons.IH by simp
  qed
qed simp

lemma leave_proc_table:
  "p_state (ptable (leave_proc s) i) = p_state (ptable s i)" "p_parent (ptable (leave_proc s) i) = p_parent (ptable s i)"
  by (auto simp: leave_proc_def Let_def setupsegs_of_def upd_proc_def split: option.split)

lemma exit_shape:
  assumes "exit me s = Ret s'" "p_parent (ptable s me) = Some par"
  shows "\<exists>s2. (\<forall>j. j \<noteq> me \<longrightarrow> ptable s2 j = ptable s j) \<and> p_parent (ptable s2 me) = Some par
    \<and> s' = leave_proc (exit_table me par s2)"
proof -
  let ?s1 = "s\<lparr>ttltcts := ttltcts s - p_tctcnt (ptable s me)\<rparr>"
  obtain s2 par2 where s2: "(if p_mem (ptable s par) = p_mem (ptable s me) then Ret ?s1 else exit_files me ?s1) = Ret s2"
    and s': "p_parent (ptable s2 me) = Some par2" "sched_locked me (exit_table me par2 s2) = Ret s'"
    using assms by (auto simp: exit_def Let_def split: option.splits if_splits)
  have tab: "(\<forall>j. j \<noteq> me \<longrightarrow> ptable s2 j = ptable s j) \<and> p_parent (ptable s2 me) = p_parent (ptable s me)"
    using s2 by (auto split: if_splits dest!: exit_files_table)
  then have "par2 = par" using s'(1) assms(2) by simp
  then show ?thesis using tab s' assms(2) by (auto simp: sched_locked_def sched_def split: if_splits)
qed


definition demo_family :: kernel where
  "demo_family = demo_kernel\<lparr>ptable := (ptable demo_kernel)
     (0 := demo_proc\<lparr>p_state := SLEEPING, p_chan := ProcChan 0\<rparr>, 1 := demo_proc\<lparr>p_state := RUNNING, p_parent := Some 0\<rparr>),
     curproc := Some 1\<rparr>"


end
