(* ===== verification/Syscall.thy ===== *)
theory Syscall
  imports ProcLife
begin

text \<open>
  System calls: fetching arguments from user memory and dispatch (\<^verbatim>\<open>syscall.c\<close>), the calls on processes
  (\<^verbatim>\<open>sysproc.c\<close>) and the trap handler (\<^verbatim>\<open>trap.c\<close>).  A call returns the value for \<^verbatim>\<open>%eax\<close> and the new state.
\<close>

section \<open>Arguments (syscall.c)\<close>

definition get_mem_u32 :: "uint \<Rightarrow> mem \<Rightarrow> uint" where
  "get_mem_u32 a m = ucast (m a) OR push_bit 8 (ucast (m (a + 1))) OR push_bit 16 (ucast (m (a + 2))) OR push_bit 24 (ucast (m (a + 3)))"

definition fetchint :: "nat \<Rightarrow> uint \<Rightarrow> 'a kernel_scheme \<Rightarrow> uint option" where
  "fetchint me addr s =
     (let p = ptable s me in
      if addr \<ge> p_sz p \<or> addr + 4 > p_sz p then None else Some (get_mem_u32 (of_int (p_mem p) + addr) (kmem s)))"

text \<open>The bytes of the string before its terminating zero, in place of the pointer and the length.\<close>

definition fetchstr :: "nat \<Rightarrow> uint \<Rightarrow> 'a kernel_scheme \<Rightarrow> uchar list option" where
  "fetchstr me addr s =
     (let p = ptable s me; byte = (\<lambda>k. kmem s (of_int (p_mem p) + addr + of_nat k)) in
      if addr \<ge> p_sz p then None
      else map_option (\<lambda>len. map byte [0 ..< len]) (List.find (\<lambda>k. byte k = 0) [0 ..< unat (p_sz p - addr)]))"

definition argint :: "nat \<Rightarrow> nat \<Rightarrow> 'a kernel_scheme \<Rightarrow> uint option" where
  "argint me n s = fetchint me (tf_esp (p_tf (ptable s me)) + 4 + 4 * of_nat n) s"

definition argptr :: "nat \<Rightarrow> nat \<Rightarrow> int \<Rightarrow> 'a kernel_scheme \<Rightarrow> uint option" where
  "argptr me n sz s =
     (case argint me n s of
        None \<Rightarrow> None
      | Some i \<Rightarrow>
          (let p = ptable s me in
           if i \<ge> p_sz p \<or> i + of_int sz \<ge> p_sz p then None else Some (of_int (p_mem p) + i)))"

definition argstr :: "nat \<Rightarrow> nat \<Rightarrow> 'a kernel_scheme \<Rightarrow> uchar list option" where
  "argstr me n s = (case argint me n s of None \<Rightarrow> None | Some addr \<Rightarrow> fetchstr me addr s)"

text \<open>The table \<^verbatim>\<open>syscalls\<close>, which \<^verbatim>\<open>gensyss.pl\<close> generates, is an argument, with its number of entries.\<close>

type_synonym 's call = "nat \<Rightarrow> 's \<Rightarrow> (int \<times> 's) outcome"

definition set_eax :: "nat \<Rightarrow> int \<Rightarrow> 'a kernel_scheme \<Rightarrow> 'a kernel_scheme" where
  "set_eax me v s = upd_proc me (\<lambda>p. p\<lparr>p_tf := (p_tf p)\<lparr>tf_eax := of_int v\<rparr>\<rparr>) s"

definition syscall :: "nat \<Rightarrow> (nat \<Rightarrow> ('a kernel_scheme) call option) \<Rightarrow> nat \<Rightarrow> 'a kernel_scheme \<Rightarrow> 'a kernel_scheme outcome" where
  "syscall nelem calls me s =
     (let num = sint (tf_eax (p_tf (ptable s me))) in
      if 0 \<le> num \<and> num < int nelem \<and> calls (nat num) \<noteq> None
      then (case calls (nat num) of
              Some f \<Rightarrow> obind (f me s) (\<lambda>(r, s1). Ret (set_eax me r s1))
            | None \<Rightarrow> Ret (set_eax me (-1) s))
      else Ret (set_eax me (-1) s))"

section \<open>Calls on processes (sysproc.c)\<close>

definition sys_fork :: "('a kernel_scheme) call" where
  "sys_fork me s =
     obind (copyproc (Some me) s) (\<lambda>(r, s1).
       case r of
         None \<Rightarrow> Ret (-1, s1)
       | Some np \<Rightarrow> Ret (sint (p_pid (ptable s1 np)), upd_proc np (\<lambda>p. p\<lparr>p_state := RUNNABLE\<rparr>) s1))"

definition sys_thread_fork :: "('a kernel_scheme) call" where
  "sys_thread_fork me s =
     (case argint me 0 s of
        None \<Rightarrow> Ret (-1, s)
      | Some stack \<Rightarrow>
          obind (copyproc_thread me (sint stack) s) (\<lambda>(r, s1).
            case r of
              None \<Rightarrow> Ret (-1, s1)
            | Some np \<Rightarrow> Ret (sint (p_pid (ptable s1 np)), upd_proc np (\<lambda>p. p\<lparr>p_state := RUNNABLE\<rparr>) s1)))"

definition sys_proc_tickets :: "('a kernel_scheme) call" where
  "sys_proc_tickets me s =
     (case argint me 0 s of
        None \<Rightarrow> Ret (-1, s)
      | Some n \<Rightarrow>
          if 0 < sint n then (let s1 = set_tickets me n s in Ret (sint (p_tctcnt (ptable s1 me)), s1))
          else if sint n < 0 then Ret (-1, s)
          else Ret (sint (p_tctcnt (ptable s me)), s))"

text \<open>\<open>exit\<close> does not return to its caller.\<close>

definition sys_exit :: "('a kernel_scheme) call" where
  "sys_exit me s = obind (exit me s) (\<lambda>s1. Ret (0, s1))"

definition wait_call :: "('a kernel_scheme) call" where
  "wait_call me s =
     obind (wait_step me s) (\<lambda>(r, s1).
       case r of WaitPid pid \<Rightarrow> Ret (sint pid, s1) | WaitFail \<Rightarrow> Ret (-1, s1) | WaitSleep \<Rightarrow> Blocked ''wait'')"

definition sys_wait :: "('a kernel_scheme) call" where
  "sys_wait me s = wait_call me s"

definition sys_thread_wait :: "('a kernel_scheme) call" where
  "sys_thread_wait me s = wait_call me s"

definition sys_kill :: "('a kernel_scheme) call" where
  "sys_kill me s = (case argint me 0 s of None \<Rightarrow> Ret (-1, s) | Some pid \<Rightarrow> Ret (kill pid s))"

definition sys_getpid :: "('a kernel_scheme) call" where
  "sys_getpid me s = Ret (sint (p_pid (ptable s me)), s)"

definition sys_sbrk :: "('a kernel_scheme) call" where
  "sys_sbrk me s =
     (case argint me 0 s of
        None \<Rightarrow> Ret (-1, s)
      | Some n \<Rightarrow> obind (growproc me (sint n) s) (\<lambda>(addr, s1). if addr < 0 then Ret (-1, s1) else Ret (addr, s1)))"

text \<open>One look of the loop of \<open>sys_sleep\<close> at the clock, \<open>ticks0\<close> being the time at the start.\<close>

definition sleep_look :: "uint \<Rightarrow> int \<Rightarrow> ('a kernel_scheme) call" where
  "sleep_look ticks0 n me s =
     (if sint (ticks s - ticks0) < n then
        if p_killed (ptable s me) \<noteq> 0 then Ret (-1, s) else Blocked ''sys_sleep''
      else Ret (0, s))"

definition sys_sleep :: "('a kernel_scheme) call" where
  "sys_sleep me s = (case argint me 0 s of None \<Rightarrow> Ret (-1, s) | Some n \<Rightarrow> sleep_look (ticks s) (sint n) me s)"

definition sys_fcount :: "('a kernel_scheme) call" where
  "sys_fcount me s = (case argint me 0 s of None \<Rightarrow> Ret (-1, s) | Some _ \<Rightarrow> Ret (int (fcount me s), s))"

definition sys_tickcount_sc :: "('a kernel_scheme) call" where
  "sys_tickcount_sc me s = Ret (sint (ticks s), s)"

definition sys_cond_sleep_and_unlock_mutex :: "('a kernel_scheme) call" where
  "sys_cond_sleep_and_unlock_mutex me s =
     (case (argint me 0 s, argint me 1 s) of
        (Some cond, Some mutex) \<Rightarrow> obind (sleep_on_cond me cond mutex s) (\<lambda>s1. Ret (0, s1))
      | _ \<Rightarrow> Ret (-1, s))"

definition sys_cond_signal :: "('a kernel_scheme) call" where
  "sys_cond_signal me s = (case argint me 0 s of None \<Rightarrow> Ret (-1, s) | Some c \<Rightarrow> Ret (wake_on_cond me c s))"

section \<open>Traps (trap.c)\<close>

definition IRQ_OFFSET :: uint where "IRQ_OFFSET = 32"
definition IRQ_TIMER :: uint where "IRQ_TIMER = 0"
definition IRQ_KBD :: uint where "IRQ_KBD = 1"
definition IRQ_IDE :: uint where "IRQ_IDE = 14"
definition IRQ_SPURIOUS :: uint where "IRQ_SPURIOUS = 31"

definition killed_exit :: "nat \<Rightarrow> 'a kernel_scheme \<Rightarrow> ('a kernel_scheme \<Rightarrow> 'a kernel_scheme outcome) \<Rightarrow> 'a kernel_scheme outcome" where
  "killed_exit me s k = (if p_killed (ptable s me) \<noteq> 0 then exit me s else k s)"

text \<open>
  \<open>cpu\<close> is the number of the processor, \<open>kbd_intr\<close> the handler of the keyboard and \<open>calls\<close> the table of system calls.
  The handlers of devices run with interrupts off.  A process is interrupted in user mode when the low bits of the
  saved \<^verbatim>\<open>%cs\<close> are 3.
\<close>

definition trap_device :: "nat \<Rightarrow> ('a kernel_scheme \<Rightarrow> 'a kernel_scheme outcome) \<Rightarrow> trapframe \<Rightarrow> 'a kernel_scheme \<Rightarrow> 'a kernel_scheme outcome" where
  "trap_device cpu kbd_intr tf s =
     (if tf_trapno tf = IRQ_OFFSET + IRQ_TIMER then
        Ret (if cpu = 0 then wakeup TicksChan (s\<lparr>ticks := ticks s + 1\<rparr>) else s)
      else if tf_trapno tf = IRQ_OFFSET + IRQ_IDE then ide_intr s
      else if tf_trapno tf = IRQ_OFFSET + IRQ_KBD then kbd_intr s
      else if tf_trapno tf = IRQ_OFFSET + IRQ_SPURIOUS then Ret s
      else case curproc s of
          None \<Rightarrow> Panic ''trap''
        | Some me \<Rightarrow>
            if tf_cs tf AND 3 = 0 then Panic ''trap'' else Ret (upd_proc me (\<lambda>p. p\<lparr>p_killed := 1\<rparr>) s))"

definition trap :: "nat \<Rightarrow> ('a kernel_scheme \<Rightarrow> 'a kernel_scheme outcome) \<Rightarrow> nat \<Rightarrow> (nat \<Rightarrow> ('a kernel_scheme) call option)
    \<Rightarrow> trapframe \<Rightarrow> 'a kernel_scheme \<Rightarrow> 'a kernel_scheme outcome" where
  "trap cpu kbd_intr nelem calls tf s =
     (if tf_trapno tf = of_nat T_SYSCALL then
        (case curproc s of
           None \<Rightarrow> Fault ''cp''
         | Some me \<Rightarrow>
             killed_exit me s (\<lambda>s1.
             obind (syscall nelem calls me (upd_proc me (\<lambda>p. p\<lparr>p_tf := tf\<rparr>) s1)) (\<lambda>s2.
             killed_exit me s2 Ret)))
      else
        obind (trap_device cpu kbd_intr tf s) (\<lambda>s1.
          case curproc s1 of
            None \<Rightarrow> Ret s1
          | Some me \<Rightarrow>
              if p_killed (ptable s1 me) \<noteq> 0 \<and> tf_cs tf AND 3 = ucast DPL_USER then exit me s1
              else if p_state (ptable s1 me) = RUNNING \<and> tf_trapno tf = IRQ_OFFSET + IRQ_TIMER then yield me s1
              else Ret s1))"

section \<open>User pointers\<close>

lemma uint_less_pow: "unat (x :: uint) < 2 ^ 32"
  using unsigned_less [of x, where ?'a = nat] by simp

text \<open>A process with two pages of memory whose first argument is 200.\<close>

definition demo_user :: kernel where
  "demo_user = demo_kernel\<lparr>ptable := (ptable demo_kernel)(0 := demo_proc\<lparr>p_state := RUNNING, p_mem := 0x100000, p_sz := 8192,
       p_tf := zero_tf\<lparr>tf_esp := 100\<rparr>\<rparr>),
     kmem := (\<lambda>x. if x = 0x100068 then 200 else 0), kst := demo_kstate\<rparr>"

lemma demo_user_fields:
  "ptable demo_user 0 = demo_proc\<lparr>p_state := RUNNING, p_mem := 0x100000, p_sz := 8192, p_tf := zero_tf\<lparr>tf_esp := 100\<rparr>\<rparr>"
  "kst demo_user = demo_kstate" "argint 0 0 demo_user = Some 200"
  by (simp_all add: demo_user_def argint_def fetchint_def get_mem_u32_def zero_tf_def)



text \<open>
  A negative size defeats the check of \<open>argptr\<close>: with size -1 every pointer into the process but the first byte is
  accepted, although \<^verbatim>\<open>read\<close> and \<^verbatim>\<open>write\<close> pass the size on as an unsigned number.
\<close>

theorem argptr_negative_size:
  assumes "argint me k s = Some i" "0 < i" "i < p_sz (ptable s me)"
  shows "argptr me k (-1) s = Some (of_int (p_mem (ptable s me)) + i)"
proof -
  have "unat (i - 1) = unat i - 1" using assms(2) by (intro unat_minus_one) auto
  then have "i - 1 < p_sz (ptable s me)" using assms(2,3) by (simp add: word_less_nat_alt)
  then show ?thesis using assms by (auto simp: argptr_def Let_def not_le)
qed

theorem argptr_negative_size_witness: "argptr 0 0 (-1) demo_user = Some 0x1000c8"
  using argptr_negative_size [of 0 0 demo_user 200] by (simp add: demo_user_fields)

section \<open>Shrinking a process\<close>

lemma memset_eq: "memset d c n m = (\<lambda>x. if x \<in> region d (unat n) then of_int c else m x)"
  by (simp add: memset_def memset_loop_eq)

lemma region_all_but: "unat (x - d) < n \<Longrightarrow> x \<in> region d n"
proof -
  assume "unat (x - d) < n"
  moreover have "x = d + of_nat (unat (x - d))" by simp
  ultimately show ?thesis unfolding region_def by (metis image_eqI lessThan_iff)
qed

text \<open>
  A process that shrinks its memory destroys everything: \<open>growproc\<close> passes the negative size to \<^verbatim>\<open>memset\<close>, which takes it
  as an unsigned number, so after the call all of memory is zero except the bytes given back.
\<close>

theorem growproc_negative_clobbers:
  assumes "growproc me n s = Ret (r, s')" "- (2 ^ 31) \<le> n" "n < 0" "r \<noteq> -1"
    and "nat (- n) \<le> unat (x - (of_int (p_mem (ptable s' me)) + p_sz (ptable s' me)))"
  shows "kmem s' x = 0"
proof -
  let ?p = "ptable s me"
  obtain newmem s1 s2 where k: "kalloc_st (sint (p_sz ?p + of_int n)) s = Ret (newmem, s1)"
    and f: "kfree_st (p_mem ?p) (sint (p_sz ?p))
        (s1\<lparr>kmem := memset (of_int newmem + p_sz ?p) 0 (of_int n) (memmove (of_int newmem) (of_int (p_mem ?p)) (p_sz ?p) (kmem s1))\<rparr>) = Ret s2"
    and s': "s' = setupsegs_of (Some me) (upd_proc me (\<lambda>q. q\<lparr>p_mem := newmem, p_sz := p_sz q + of_int n\<rparr>) s2)"
    using assms(1,4) by (auto simp: growproc_def Let_def split: if_splits)
  have km: "kmem s' = memset (of_int newmem + p_sz ?p) 0 (of_int n) (memmove (of_int newmem) (of_int (p_mem ?p)) (p_sz ?p) (kmem s1))"
    using kernel_of_more(4) [OF kfree_frame [OF f]] by (simp add: s' setupsegs_of_def upd_proc_def)
  have "ptable s2 = ptable s"
    using kernel_of_more(1) [OF kfree_frame [OF f]] kernel_of_more(1) [OF kalloc_frame [OF k]] by simp
  then have p': "p_mem (ptable s' me) = newmem" "p_sz (ptable s' me) = p_sz ?p + of_int n"
    by (simp_all add: s' setupsegs_of_def upd_proc_def)
  let ?d = "of_int newmem + p_sz ?p :: uint"
  define m where "m = nat (- n)"
  have m: "0 < m" "m \<le> 2 ^ 31" and nm: "n = - int m" using assms(2,3) by (auto simp: m_def)
  have neg: "(of_int n :: uint) = - of_nat m" unfolding nm by simp
  have um: "unat (of_nat m :: uint) = m" using m by (simp add: unat_of_nat)
  have eq: "(of_int n :: uint) = of_nat (2 ^ 32 - m)" using m by (simp add: neg of_nat_diff)
  have un: "unat (of_int n :: uint) = 2 ^ 32 - m" unfolding eq unat_of_nat using m by (intro mod_less) simp
  have eqx: "x - (of_int newmem + (p_sz ?p + of_int n)) = (x - ?d) + of_nat m" unfolding neg by simp
  have le: "m \<le> unat ((x - ?d) + of_nat m)" using assms(5) unfolding p' eqx m_def [symmetric] .
  have "unat (x - ?d) < 2 ^ 32 - m"
  proof (rule ccontr)
    assume "\<not> unat (x - ?d) < 2 ^ 32 - m"
    then have "unat ((x - ?d) + of_nat m) = (unat (x - ?d) + m) - 2 ^ 32"
      using um uint_less_pow [of "x - ?d"] m by (simp add: unat_word_ariths mod_if)
    then show False using le uint_less_pow [of "x - ?d"] m by linarith
  qed
  then have "x \<in> region ?d (unat (of_int n :: uint))" using un region_all_but by simp
  then show ?thesis by (simp add: km memset_eq)
qed

lemma demo_user_shrinks: "\<exists>s'. growproc 0 (-4096) demo_user = Ret (8192, s') \<and> p_mem (ptable s' 0) = 16384 \<and> p_sz (ptable s' 0) = 4096"
proof -
  have k: "kalloc 4096 demo_kstate = Some (Ret (16384, demo_kstate\<lparr>run_len := (run_len demo_kstate)(8192 := 8192)\<rparr>))"
    by (simp add: kalloc_def kalloc_loop.simps demo_kstate_def PAGE_def)
  have "\<exists>k'. kfree 0x100000 8192 (demo_kstate\<lparr>run_len := (run_len demo_kstate)(8192 := 8192)\<rparr>) = Some (Ret k')"
    by (simp add: kfree_def kfree_loop.simps demo_kstate_def PAGE_def fill_junk_def Let_def)
  then obtain k' where f: "kfree 0x100000 8192 (demo_kstate\<lparr>run_len := (run_len demo_kstate)(8192 := 8192)\<rparr>) = Some (Ret k')" ..
  show ?thesis
    by (simp add: growproc_def kalloc_st_def kfree_st_def demo_user_fields k f Let_def setupsegs_of_def upd_proc_def)
qed

theorem growproc_negative_clobbers_witness:
  "\<exists>s'. growproc 0 (-4096) demo_user = Ret (8192, s') \<and> kmem demo_user 0x100068 = 200 \<and> kmem s' 0x100068 = 0"
proof -
  obtain s' where s': "growproc 0 (-4096) demo_user = Ret (8192, s')" "p_mem (ptable s' 0) = 16384" "p_sz (ptable s' 0) = 4096"
    using demo_user_shrinks by blast
  then have "kmem s' 0x100068 = 0" using growproc_negative_clobbers [OF s'(1), of "0x100068"] by simp
  then show ?thesis using s'(1) by (simp add: demo_user_def)
qed

section \<open>Killed processes\<close>

lemma exit_zombie: "exit me s = Ret s' \<Longrightarrow> p_state (ptable s' me) = ZOMBIE"
proof -
  assume e: "exit me s = Ret s'"
  then obtain par where "p_parent (ptable s me) = Some par" by (auto simp: exit_def split: option.splits)
  then obtain s2 where "s' = leave_proc (exit_table me par s2)" using exit_shape [OF e] by blast
  then show ?thesis by (simp add: leave_proc_table exit_table_def upd_proc_def)
qed

lemma ide_intr_table:
  fixes s s' :: "'a kernel_scheme"
  assumes "ide_intr s = Ret s'" shows "curproc s' = curproc s" "ptable s' = ptable s"
proof -
  have "ide_state.more s' = ide_state.more s" using assms by (rule ide_intr_more)
  then show "curproc s' = curproc s" "ptable s' = ptable s" by (cases s, cases s', simp)+
qed

text \<open>
  C24: A killed process does not go back to user code: any trap taken from user mode, be it a system call, an interrupt
  or a fault, ends the process.  The keyboard handler is required to keep what was marked as killed and
  which process is running.
\<close>

theorem killed_process_dies:
  assumes "curproc s = Some me" "p_killed (ptable s me) \<noteq> 0" "tf_cs tf AND 3 = 3"
    and kbd: "\<And>u v. kbd_intr u = Ret v \<Longrightarrow> curproc v = curproc u \<and> p_killed (ptable v me) = p_killed (ptable u me)"
    and "trap cpu kbd_intr nelem calls tf s = Ret s'"
  shows "p_state (ptable s' me) = ZOMBIE"
proof (cases "tf_trapno tf = of_nat T_SYSCALL")
  case True
  then show ?thesis using assms(1,2,5) exit_zombie by (auto simp: trap_def killed_exit_def)
next
  case False
  then obtain s1 where dev: "trap_device cpu kbd_intr tf s = Ret s1" and rest: "(case curproc s1 of
      None \<Rightarrow> Ret s1
    | Some me \<Rightarrow>
        if p_killed (ptable s1 me) \<noteq> 0 \<and> tf_cs tf AND 3 = ucast DPL_USER then exit me s1
        else if p_state (ptable s1 me) = RUNNING \<and> tf_trapno tf = IRQ_OFFSET + IRQ_TIMER then yield me s1
        else Ret s1) = Ret s'"
    using assms(5) by (auto simp: trap_def)
  have "curproc s1 = Some me \<and> p_killed (ptable s1 me) \<noteq> 0"
    using dev assms(1,2) kbd ide_intr_table [of s s1]
    by (auto simp: trap_device_def wakeup_def wakeup1_def upd_proc_def split: if_splits)
  then show ?thesis using rest assms(3) exit_zombie by (auto simp: DPL_USER_def)
qed

definition demo_killed :: kernel where
  "demo_killed = demo_family\<lparr>ptable := (ptable demo_family)(1 := (ptable demo_family 1)\<lparr>p_killed := 1\<rparr>)\<rparr>"

theorem killed_process_dies_witness:
  "\<exists>s'. trap 1 Ret 0 Map.empty (zero_tf\<lparr>tf_trapno := 32, tf_cs := 27\<rparr>) demo_killed = Ret s' \<and> p_state (ptable s' 1) = ZOMBIE"
proof -
  let ?tf = "zero_tf\<lparr>tf_trapno := 32, tf_cs := 27\<rparr>"
  have cur: "curproc demo_killed = Some 1" "p_killed (ptable demo_killed 1) \<noteq> 0" "initproc demo_killed = Some 0"
    by (simp_all add: demo_killed_def demo_family_def demo_kernel_def file_state.extend_def)
  have tab: "ptable demo_killed 0 = demo_proc\<lparr>p_state := SLEEPING, p_chan := ProcChan 0\<rparr>"
    "ptable demo_killed 1 = demo_proc\<lparr>p_state := RUNNING, p_parent := Some 0, p_killed := 1\<rparr>"
    by (simp_all add: demo_killed_def demo_family_def)
  have "p_state (ptable (exit_table 1 0 s) 1) = ZOMBIE" for s :: kernel by (simp add: exit_table_def upd_proc_def)
  then have "\<exists>s'. exit 1 demo_killed = Ret s'"
    using tab cur by (auto simp: exit_def sched_locked_def sched_def demo_proc_def)
  then obtain s' where e: "exit 1 demo_killed = Ret s'" ..
  have t: "trap 1 Ret 0 Map.empty ?tf demo_killed = Ret s'"
    using cur e by (simp add: trap_def trap_device_def IRQ_OFFSET_def IRQ_TIMER_def T_SYSCALL_def DPL_USER_def)
  then show ?thesis using killed_process_dies [OF cur(1,2) _ _ t] by simp
qed

end
