(* ===== verification/Exec.thy ===== *)
theory Exec
  imports Syscall
begin

text \<open>
  Loading a program (\<^verbatim>\<open>exec.c\<close>): the headers of the file (\<^verbatim>\<open>elf.h\<close>), the size of the new image, the loading of
  its segments, the stack with the arguments, and the switch of the process to the image.
\<close>

section \<open>Executable files (elf.h)\<close>

definition ELF_MAGIC :: uint where "ELF_MAGIC = 0x464C457F"

record elfhdr =
  e_magic :: uint
  e_elf :: "uchar list"
  e_type :: ushort
  e_machine :: ushort
  e_version :: uint
  e_entry :: uint
  e_phoff :: uint
  e_shoff :: uint
  e_flags :: uint
  e_ehsize :: ushort
  e_phentsize :: ushort
  e_phnum :: ushort
  e_shentsize :: ushort
  e_shnum :: ushort
  e_shstrndx :: ushort

definition get_elfhdr :: "bytes \<Rightarrow> elfhdr" where
  "get_elfhdr d = \<lparr>e_magic = get_u32 d 0, e_elf = map d [4 ..< 16], e_type = get_u16 d 16, e_machine = get_u16 d 18,
     e_version = get_u32 d 20, e_entry = get_u32 d 24, e_phoff = get_u32 d 28, e_shoff = get_u32 d 32, e_flags = get_u32 d 36,
     e_ehsize = get_u16 d 40, e_phentsize = get_u16 d 42, e_phnum = get_u16 d 44, e_shentsize = get_u16 d 46,
     e_shnum = get_u16 d 48, e_shstrndx = get_u16 d 50\<rparr>"

record proghdr =
  ph_type :: uint
  ph_offset :: uint
  ph_va :: uint
  ph_pa :: uint
  ph_filesz :: uint
  ph_memsz :: uint
  ph_flags :: uint
  ph_align :: uint

definition get_proghdr :: "bytes \<Rightarrow> proghdr" where
  "get_proghdr d = \<lparr>ph_type = get_u32 d 0, ph_offset = get_u32 d 4, ph_va = get_u32 d 8, ph_pa = get_u32 d 12,
     ph_filesz = get_u32 d 16, ph_memsz = get_u32 d 20, ph_flags = get_u32 d 24, ph_align = get_u32 d 28\<rparr>"

definition ELF_PROG_LOAD :: uint where "ELF_PROG_LOAD = 1"

section \<open>The steps of exec\<close>

text \<open>
  \<open>exec_size\<close> adds up the memory of the program segments and \<open>exec_load\<close> loads them, reading the headers again; each
  goes to the label \<^verbatim>\<open>bad\<close> by returning none and false.
\<close>

primrec exec_size :: "nat \<Rightarrow> ('a fs_state_scheme) devsw \<Rightarrow> nat \<Rightarrow> uint \<Rightarrow> uint \<Rightarrow> 'a fs_state_scheme
    \<Rightarrow> (uint option \<times> 'a fs_state_scheme) outcome" where
  "exec_size 0 dv ip off sz s = Ret (Some sz, s)"
| "exec_size (Suc k) dv ip off sz s =
     obind (readi dv ip off 32 s) (\<lambda>(r, cs, s1).
     if r \<noteq> 32 then Ret (None, s1)
     else
       (let ph = get_proghdr (\<lambda>i. cs ! i) in
        if ph_type ph \<noteq> ELF_PROG_LOAD then exec_size k dv ip (off + 32) sz s1
        else if ph_memsz ph < ph_filesz ph then Ret (None, s1)
        else exec_size k dv ip (off + 32) (sz + ph_memsz ph) s1))"

primrec exec_load :: "nat \<Rightarrow> ('a kernel_scheme) devsw \<Rightarrow> nat \<Rightarrow> uint \<Rightarrow> uint \<Rightarrow> uint \<Rightarrow> 'a kernel_scheme
    \<Rightarrow> (bool \<times> 'a kernel_scheme) outcome" where
  "exec_load 0 dv ip off m sz s = Ret (True, s)"
| "exec_load (Suc k) dv ip off m sz s =
     obind (readi dv ip off 32 s) (\<lambda>(r, cs, s1).
     if r \<noteq> 32 then Ret (False, s1)
     else
       (let ph = get_proghdr (\<lambda>i. cs ! i) in
        if ph_type ph \<noteq> ELF_PROG_LOAD then exec_load k dv ip (off + 32) m sz s1
        else if ph_va ph + ph_memsz ph > sz then Ret (False, s1)
        else
          obind (readi dv ip (ph_offset ph) (ph_filesz ph) s1) (\<lambda>(q, ds, s2).
          let s3 = s2\<lparr>kmem := put_mem_bytes (m + ph_va ph) ds (kmem s2)\<rparr> in
          if of_int q \<noteq> ph_filesz ph then Ret (False, s3)
          else
            exec_load k dv ip (off + 32) m sz
              (s3\<lparr>kmem := memset (m + ph_va ph + ph_filesz ph) 0 (ph_memsz ph - ph_filesz ph) (kmem s3)\<rparr>))))"

text \<open>The length of the argument strings with their terminating zeros; \<open>argv\<close> are the pointers before the null pointer.\<close>

primrec args_length :: "uint list \<Rightarrow> mem \<Rightarrow> uint option" where
  "args_length [] m = Some 0"
| "args_length (a # as) m =
     (case strlen a m of
        None \<Rightarrow> None
      | Some l \<Rightarrow> map_option (\<lambda>n. of_nat l + 1 + n) (args_length as m))"

text \<open>The strings are copied from the last to the first, so the list of pointers is reversed.\<close>

primrec push_args :: "uint list \<Rightarrow> uint \<Rightarrow> uint \<Rightarrow> uint \<Rightarrow> mem \<Rightarrow> mem option" where
  "push_args [] mem argp sp m = Some m"
| "push_args (a # as) mem argp sp m =
     (case strlen a m of
        None \<Rightarrow> None
      | Some l \<Rightarrow>
          (let len = of_nat l + 1; sp' = sp - len in
           push_args as mem argp sp' (put_mem_u32 (mem + argp + 4 * of_nat (length as)) sp' (memmove (mem + sp') a len m))))"

text \<open>\<^verbatim>\<open>main(argc, argv)\<close> finds its arguments and a return address below the array of pointers.\<close>

definition main_frame :: "uint \<Rightarrow> uint \<Rightarrow> nat \<Rightarrow> mem \<Rightarrow> mem" where
  "main_frame mem argp argc m =
     put_mem_u32 (mem + argp - 12) 0xffffffff (put_mem_u32 (mem + argp - 8) (of_nat argc) (put_mem_u32 (mem + argp - 4) argp m))"

definition base_name :: "uchar list \<Rightarrow> uchar list" where
  "base_name path = rev (takeWhile (\<lambda>c. c \<noteq> SLASH) (rev path))"

definition exec_bad :: "int \<Rightarrow> uint \<Rightarrow> nat \<Rightarrow> 'a kernel_scheme \<Rightarrow> (int \<times> 'a kernel_scheme) outcome" where
  "exec_bad mem sz ip s =
     obind (if mem \<noteq> 0 then kfree_st mem (sint sz) s else Ret s) (\<lambda>s1.
     obind (iunlockput ip s1) (\<lambda>s2. Ret (-1, s2)))"

text \<open>\<open>exec_commit\<close> is the last part, in which nothing fails any more; \<open>argp\<close> is where the array of pointers begins.\<close>

definition exec_commit :: "nat \<Rightarrow> uchar list \<Rightarrow> uint list \<Rightarrow> uint \<Rightarrow> int \<Rightarrow> uint \<Rightarrow> uint \<Rightarrow> 'a kernel_scheme
    \<Rightarrow> (int \<times> 'a kernel_scheme) outcome" where
  "exec_commit me path argv entry mem sz argp s =
     (case push_args (rev argv) (of_int mem) argp sz (put_mem_u32 (of_int mem + argp + 4 * of_nat (length argv)) 0 (kmem s)) of
        None \<Rightarrow> Fault ''strlen''
      | Some m1 \<Rightarrow>
          (let s1 = upd_proc me (\<lambda>p. p\<lparr>p_name := take 15 (base_name path)\<rparr>)
                 (s\<lparr>kmem := main_frame (of_int mem) argp (length argv) m1\<rparr>) in
           obind (kfree_st (p_mem (ptable s1 me)) (sint (p_sz (ptable s1 me))) s1) (\<lambda>s2.
           Ret (0, setupsegs_of (Some me) (upd_proc me (\<lambda>p. p\<lparr>p_mem := mem, p_sz := sz,
             p_tf := (p_tf p)\<lparr>tf_eip := entry, tf_esp := argp - 12\<rparr>\<rparr>) s2)))))"

definition image_size :: "uint \<Rightarrow> uint \<Rightarrow> nat \<Rightarrow> uint" where
  "image_size progs arglen argc = (progs + arglen + 4 * (of_nat argc + 1) + of_int PAGE + of_int PAGE - 1) AND NOT (of_int PAGE - 1)"

text \<open>
  \<open>exec_image\<close> follows the reading of the header.  When \<open>readi\<close> of the header fails, its result \<open>-1\<close> is compared as
  an unsigned number and passes; the header is then not initialised.
\<close>

definition exec_image :: "('a kernel_scheme) devsw \<Rightarrow> nat \<Rightarrow> uchar list \<Rightarrow> uint list \<Rightarrow> nat \<Rightarrow> elfhdr \<Rightarrow> 'a kernel_scheme
    \<Rightarrow> (int \<times> 'a kernel_scheme) outcome" where
  "exec_image dv me path argv ip elf s =
     obind (exec_size (unat (e_phnum elf)) dv ip (e_phoff elf) 0 s) (\<lambda>(r, s1).
     case r of
       None \<Rightarrow> exec_bad 0 0 ip s1
     | Some progs \<Rightarrow>
         (case args_length argv (kmem s1) of
            None \<Rightarrow> Fault ''strlen''
          | Some al \<Rightarrow>
              (let arglen = (al + 3) AND NOT 3; sz = image_size progs arglen (length argv) in
               obind (kalloc_st (sint sz) s1) (\<lambda>(mem, s2).
               if mem = 0 then exec_bad 0 sz ip s2
               else
                 obind (exec_load (unat (e_phnum elf)) dv ip (e_phoff elf) (of_int mem) sz
                     (s2\<lparr>kmem := memset (of_int mem) 0 sz (kmem s2)\<rparr>)) (\<lambda>(ok, s3).
                 if \<not> ok then exec_bad mem sz ip s3
                 else
                   obind (iunlockput ip s3) (\<lambda>s4.
                   exec_commit me path argv (e_entry elf) mem sz (sz - arglen - 4 * (of_nat (length argv) + 1)) s4))))))"

definition exec :: "('a kernel_scheme) devsw \<Rightarrow> nat \<Rightarrow> uchar list \<Rightarrow> uint list \<Rightarrow> 'a kernel_scheme
    \<Rightarrow> (int \<times> 'a kernel_scheme) outcome" where
  "exec dv me path argv s =
     obind (namei (p_cwd (ptable s me)) path s) (\<lambda>(r, s1).
     case r of
       None \<Rightarrow> Ret (-1, s1)
     | Some ip \<Rightarrow>
         obind (ilock (Some ip) s1) (\<lambda>s2.
         obind (readi dv ip 0 52 s2) (\<lambda>(n, cs, s3).
         let elf = get_elfhdr (\<lambda>i. cs ! i) in
         if (of_int n :: uint) < 52 then exec_bad 0 0 ip s3
         else if n < 0 then Fault ''uninitialised header''
         else if e_magic elf \<noteq> ELF_MAGIC then exec_bad 0 0 ip s3
         else exec_image dv me path argv ip elf s3)))"

section \<open>The stack of the new program\<close>

text \<open>Words of memory; \<open>B\<close> is where the image begins and offsets into it are natural numbers.\<close>

lemma in_region_at:
  assumes "unat B + u + n < 2 ^ 32"
  shows "x \<in> region (B + of_nat u) n \<longleftrightarrow> unat B + u \<le> unat x \<and> unat x < unat B + u + n"
proof -
  have "unat (B + of_nat u) = unat B + u" using assms by (intro unat_offset [of B "Suc u"]) auto
  then show ?thesis using region_iff [of "B + of_nat u" n x] assms by simp
qed

lemma put_mem_u32_frame: "x \<notin> region a 4 \<Longrightarrow> put_mem_u32 a v m x = m x"
  by (auto simp: put_mem_u32_def region_def image_iff lessThan_nat_numeral)

lemma offset_distinct:
  "a + 1 \<noteq> a" "a + 2 \<noteq> a" "a + 3 \<noteq> a" "a + 2 \<noteq> a + 1" "a + 3 \<noteq> a + 1" "a + 3 \<noteq> a + 2" for a :: uint
  by simp_all

lemma get_put_mem_u32 [simp]: "get_mem_u32 a (put_mem_u32 a v m) = v"
proof -
  have "get_mem_u32 a (put_mem_u32 a v m) = ucast (ucast v :: uchar) OR push_bit 8 (ucast (ucast (drop_bit 8 v) :: uchar))
    OR push_bit 16 (ucast (ucast (drop_bit 16 v) :: uchar)) OR push_bit 24 (ucast (ucast (drop_bit 24 v) :: uchar))"
    by (simp add: get_mem_u32_def put_mem_u32_def offset_distinct offset_distinct [symmetric])
  also have "\<dots> = v"
    by (rule bit_word_eqI, rename_tac n, case_tac "n < 16"; case_tac "n < 24") (auto simp: bit_simps)
  finally show ?thesis .
qed

lemma get_mem_u32_cong: "\<forall>x \<in> region a 4. m' x = m x \<Longrightarrow> get_mem_u32 a m' = get_mem_u32 a m"
  by (simp add: get_mem_u32_def region_def lessThan_nat_numeral)

text \<open>A string to be copied: it lies outside of the image of size \<open>sz\<close>.\<close>

definition arg_ok :: "uint \<Rightarrow> nat \<Rightarrow> mem \<Rightarrow> uint \<Rightarrow> uchar list \<Rightarrow> bool" where
  "arg_ok B sz m a w \<longleftrightarrow> str_at a w m \<and> unat a + length w + 1 < 2 ^ 32 \<and> region a (Suc (length w)) \<inter> region B sz = {}"

abbreviation args_size :: "uchar list list \<Rightarrow> nat" where
  "args_size ws \<equiv> (\<Sum>w\<leftarrow>ws. length w + 1)"

text \<open>The pointers at \<open>argp\<close> and the strings below \<open>sp\<close> that they point to.\<close>

definition args_at :: "uint \<Rightarrow> nat \<Rightarrow> nat \<Rightarrow> nat \<Rightarrow> uchar list list \<Rightarrow> mem \<Rightarrow> bool" where
  "args_at B argp lo hi ws m \<longleftrightarrow> (\<forall>i < length ws. \<exists>q. get_mem_u32 (B + of_nat (argp + 4 * i)) m = of_nat q
     \<and> lo \<le> q \<and> q + length (ws ! i) + 1 \<le> hi \<and> str_at (B + of_nat q) (ws ! i) m)"

lemma arg_ok_cong: "arg_ok B sz m a w \<Longrightarrow> \<forall>x. x \<notin> region B sz \<longrightarrow> m' x = m x \<Longrightarrow> arg_ok B sz m' a w"
  unfolding arg_ok_def by (auto intro!: str_at_cong [of _ _ m])

lemma strlen_str: "str_at a w m \<Longrightarrow> strlen a m = Some (length w)"
  using strlen_loop_str [of a 0 w m] by (simp add: strlen_def)

lemma str_at_copied:
  assumes "str_at a w m" "length w < 2 ^ 31"
  shows "str_at d w (copied d a (Suc (length w)) m)"
proof -
  have "copied d a (Suc (length w)) m (d + of_nat i) = m (a + of_nat i)" if "i \<le> length w" for i
    using that by (auto simp: copied_def region_def)
  then show ?thesis using assms by (simp add: str_at_def)
qed

lemma args_at_snoc:
  assumes "args_at B argp lo hi ws m" "get_mem_u32 (B + of_nat (argp + 4 * length ws)) m = of_nat q" "str_at (B + of_nat q) w m"
    and "lo \<le> q" "q + length w + 1 \<le> hi'" "hi \<le> hi'"
  shows "args_at B argp lo hi' (ws @ [w]) m"
  unfolding args_at_def
proof (intro allI impI)
  fix i assume i: "i < length (ws @ [w])"
  show "\<exists>q. get_mem_u32 (B + of_nat (argp + 4 * i)) m = of_nat q \<and> lo \<le> q \<and> q + length ((ws @ [w]) ! i) + 1 \<le> hi'
    \<and> str_at (B + of_nat q) ((ws @ [w]) ! i) m"
  proof (cases "i = length ws")
    case True
    then show ?thesis using assms by auto
  next
    case False
    then have "i < length ws" using i by simp
    then obtain q where "get_mem_u32 (B + of_nat (argp + 4 * i)) m = of_nat q" "lo \<le> q" "q + length (ws ! i) + 1 \<le> hi"
      "str_at (B + of_nat q) (ws ! i) m"
      using assms(1) unfolding args_at_def by blast
    then show ?thesis using assms(6) \<open>i < length ws\<close> by (intro exI [of _ q]) (simp add: nth_append)
  qed
qed

lemma push_args_layout:
  assumes "list_all2 (arg_ok B sz m) as ws" "argp + 4 * length as + args_size ws \<le> sp" "sp \<le> sz" "unat B + sz < 2 ^ 31"
  shows "\<exists>m'. push_args as B (of_nat argp) (of_nat sp) m = Some m'
    \<and> (\<forall>x. x \<notin> region (B + of_nat argp) (4 * length as) \<and> x \<notin> region (B + of_nat (sp - args_size ws)) (args_size ws) \<longrightarrow> m' x = m x)
    \<and> args_at B argp (sp - args_size ws) sp (rev ws) m'"
  using assms
proof (induction as arbitrary: ws sp m)
  case Nil
  then show ?case by (auto simp: args_at_def)
next
  case (Cons a as)
  obtain w ws' where ws: "ws = w # ws'" and ok: "arg_ok B sz m a w" "list_all2 (arg_ok B sz m) as ws'"
    using Cons.prems(1) by (auto simp: list_all2_Cons1)
  have len: "length ws' = length as" using ok(2) by (simp add: list_all2_lengthD)
  define n where "n = Suc (length w)"
  define sp' where "sp' = sp - n"
  define ptr where "ptr = argp + 4 * length as"
  define m1 where "m1 = copied (B + of_nat sp') a n m"
  define m2 where "m2 = put_mem_u32 (B + of_nat ptr) (of_nat sp') m1"
  have bounds: "ptr + 4 + args_size ws' \<le> sp'" "sp' + n = sp" "sp \<le> sz" "unat B + sz < 2 ^ 31"
    using Cons.prems(2-4) by (auto simp: ws n_def sp'_def ptr_def)
  have n': "of_nat (length w) + 1 = (of_nat n :: uint)" by (simp add: n_def)
  have n: "unat (of_nat (length w) + 1 :: uint) = n"
    unfolding n' using bounds by (simp add: unat_of_nat)
  have sp': "of_nat sp - (of_nat (length w) + 1) = (of_nat sp' :: uint)"
    using bounds(2) by (metis add_diff_cancel_right' n_def of_nat_Suc of_nat_add add.commute)
  have "memmove (B + of_nat sp') a (of_nat (length w) + 1) m = m1"
  proof -
    have "unat (B + of_nat sp') = unat B + sp'" using bounds by (intro unat_offset [of B "Suc sp'"]) auto
    then show ?thesis unfolding m1_def n [symmetric] using ok(1) bounds n
      by (intro memmove_copied) (auto simp: arg_ok_def n_def)
  qed
  then have step: "push_args (a # as) B (of_nat argp) (of_nat sp) m = push_args as B (of_nat argp) (of_nat sp') m2"
    using strlen_str [of a w m] ok(1) by (simp add: arg_ok_def Let_def sp' m2_def ptr_def add.assoc)
  have frame: "m2 x = m x" if "x \<notin> region (B + of_nat ptr) 4" "x \<notin> region (B + of_nat sp') n" for x
    using that by (simp add: m2_def put_mem_u32_frame m1_def copied_def)
  have "m2 x = m x" if "x \<notin> region B sz" for x
    using that bounds by (intro frame) (auto simp: in_region_at region_iff)
  then have "list_all2 (arg_ok B sz m2) as ws'" using ok(2) by (auto elim!: list_all2_mono intro: arg_ok_cong)
  define L where "L = args_size ws'"
  define lo where "lo = sp' - L"
  have lo: "ptr + 4 \<le> lo" "lo + L = sp'" "argp \<le> ptr" using bounds by (auto simp: lo_def L_def ptr_def)
  have sizes: "args_size ws = n + L" "sp - args_size ws = lo"
    using bounds lo by (auto simp: ws n_def L_def)
  obtain m' where m': "push_args as B (of_nat argp) (of_nat sp') m2 = Some m'"
    "\<And>x. x \<notin> region (B + of_nat argp) (4 * length as) \<Longrightarrow> x \<notin> region (B + of_nat lo) L \<Longrightarrow> m' x = m2 x"
    "args_at B argp lo sp' (rev ws') m'"
    using Cons.IH [OF \<open>list_all2 (arg_ok B sz m2) as ws'\<close>, of sp'] bounds unfolding L_def lo_def by (auto simp: ptr_def)
  have reg: "x \<in> region (B + of_nat argp) (4 * length as) \<longleftrightarrow> unat B + argp \<le> unat x \<and> unat x < unat B + ptr"
    "x \<in> region (B + of_nat argp) (4 * length (a # as)) \<longleftrightarrow> unat B + argp \<le> unat x \<and> unat x < unat B + ptr + 4"
    "x \<in> region (B + of_nat lo) L \<longleftrightarrow> unat B + lo \<le> unat x \<and> unat x < unat B + sp'"
    "x \<in> region (B + of_nat lo) (n + L) \<longleftrightarrow> unat B + lo \<le> unat x \<and> unat x < unat B + sp"
    "x \<in> region (B + of_nat ptr) 4 \<longleftrightarrow> unat B + ptr \<le> unat x \<and> unat x < unat B + ptr + 4"
    "x \<in> region (B + of_nat sp') n \<longleftrightarrow> unat B + sp' \<le> unat x \<and> unat x < unat B + sp" for x
    using lo bounds by (subst in_region_at; auto simp: ptr_def)+
  have keep: "m' x = m x" if "x \<notin> region (B + of_nat argp) (4 * length (a # as))"
    "x \<notin> region (B + of_nat (sp - args_size ws)) (args_size ws)" for x
  proof -
    have "m' x = m2 x" using that lo bounds unfolding sizes(2) unfolding sizes(1) by (intro m'(2)) (unfold reg, linarith+)
    also have "\<dots> = m x" using that lo bounds unfolding sizes(2) unfolding sizes(1) by (intro frame) (unfold reg, linarith+)
    finally show ?thesis .
  qed
  have high: "m' x = m2 x" if "x \<in> region (B + of_nat ptr) 4 \<or> x \<in> region (B + of_nat sp') n" for x
    using that lo by (intro m'(2)) (unfold reg, linarith+)
  have "get_mem_u32 (B + of_nat ptr) m' = of_nat sp'"
    using high get_mem_u32_cong [of "B + of_nat ptr" m' m2] by (simp add: m2_def)
  moreover have "str_at (B + of_nat sp') w m'"
  proof (rule str_at_cong)
    show "str_at (B + of_nat sp') w m1" unfolding m1_def n_def
      using ok(1) bounds by (intro str_at_copied) (auto simp: arg_ok_def n_def)
    show "\<forall>x \<in> region (B + of_nat sp') (Suc (length w)). m' x = m1 x"
    proof
      fix x assume x: "x \<in> region (B + of_nat sp') (Suc (length w))"
      then have "m2 x = m1 x" unfolding n_def [symmetric] m2_def reg using lo
        by (intro put_mem_u32_frame) (unfold reg, linarith)
      then show "m' x = m1 x" using high x by (simp add: n_def)
    qed
  qed
  ultimately have "args_at B argp (sp - args_size ws) sp (rev ws) m'"
    unfolding sizes(2) unfolding ws rev.simps
    by (intro args_at_snoc [of _ _ _ sp' _ _ sp']) (use m'(3) bounds lo len in \<open>auto simp: ptr_def n_def\<close>)
  then show ?case using step m'(1) keep by auto
qed

lemma args_at_cong:
  assumes "args_at B argp lo hi ws m" "\<forall>x. unat B + argp \<le> unat x \<longrightarrow> m' x = m x"
    and "argp + 4 * length ws \<le> lo" "unat B + hi < 2 ^ 31" "lo \<le> hi"
  shows "args_at B argp lo hi ws m'"
  unfolding args_at_def
proof (intro allI impI)
  fix i assume i: "i < length ws"
  then obtain q where q: "get_mem_u32 (B + of_nat (argp + 4 * i)) m = of_nat q" "lo \<le> q" "q + length (ws ! i) + 1 \<le> hi"
    "str_at (B + of_nat q) (ws ! i) m"
    using assms(1) unfolding args_at_def by blast
  have "x \<in> region (B + of_nat (argp + 4 * i)) 4 \<Longrightarrow> m' x = m x" for x
    using assms(2-5) i by (subst (asm) in_region_at) auto
  then have g: "get_mem_u32 (B + of_nat (argp + 4 * i)) m' = of_nat q" using q(1) get_mem_u32_cong [of _ m' m] by metis
  have "x \<in> region (B + of_nat q) (Suc (length (ws ! i))) \<Longrightarrow> m' x = m x" for x
    using assms(2-5) q(2,3) by (subst (asm) in_region_at) auto
  then have "str_at (B + of_nat q) (ws ! i) m'" using str_at_cong [OF q(4)] by blast
  then show "\<exists>q. get_mem_u32 (B + of_nat (argp + 4 * i)) m' = of_nat q \<and> lo \<le> q \<and> q + length (ws ! i) + 1 \<le> hi
    \<and> str_at (B + of_nat q) (ws ! i) m'" using g q by blast
qed

text \<open>The three words of the frame, and the memory above them, which is not changed.\<close>

lemma main_frame_words:
  assumes "12 \<le> argp" "unat B + argp < 2 ^ 31"
  shows "get_mem_u32 (B + of_nat (argp - 12)) (main_frame B (of_nat argp) n m) = 0xffffffff"
    "get_mem_u32 (B + of_nat (argp - 8)) (main_frame B (of_nat argp) n m) = of_nat n"
    "get_mem_u32 (B + of_nat (argp - 4)) (main_frame B (of_nat argp) n m) = of_nat argp"
    "unat x < unat B + argp - 12 \<or> unat B + argp \<le> unat x \<Longrightarrow> main_frame B (of_nat argp) n m x = m x"
proof -
  have at: "B + of_nat argp - 12 = B + of_nat (argp - 12)" "B + of_nat argp - 8 = B + of_nat (argp - 8)"
    "B + of_nat argp - 4 = B + of_nat (argp - 4)" using assms(1) by simp_all
  have reg: "x \<in> region (B + of_nat (argp - 12)) 4 \<longleftrightarrow> unat B + (argp - 12) \<le> unat x \<and> unat x < unat B + (argp - 8)"
    "x \<in> region (B + of_nat (argp - 8)) 4 \<longleftrightarrow> unat B + (argp - 8) \<le> unat x \<and> unat x < unat B + (argp - 4)"
    "x \<in> region (B + of_nat (argp - 4)) 4 \<longleftrightarrow> unat B + (argp - 4) \<le> unat x \<and> unat x < unat B + argp" for x
    using assms by (subst in_region_at; auto)+
  let ?m1 = "put_mem_u32 (B + of_nat (argp - 4)) (of_nat argp) m"
  let ?m2 = "put_mem_u32 (B + of_nat (argp - 8)) (of_nat n) ?m1"
  let ?m3 = "put_mem_u32 (B + of_nat (argp - 12)) 0xffffffff ?m2"
  have frame: "main_frame B (of_nat argp) n m = ?m3" unfolding main_frame_def at ..
  have f3: "?m3 x = ?m2 x" if "unat B + (argp - 8) \<le> unat x" for x
    using that by (intro put_mem_u32_frame) (unfold reg, linarith)
  have f2: "?m2 x = ?m1 x" if "unat B + (argp - 4) \<le> unat x" for x
    using that by (intro put_mem_u32_frame) (unfold reg, linarith)
  show "get_mem_u32 (B + of_nat (argp - 12)) (main_frame B (of_nat argp) n m) = 0xffffffff"
    unfolding frame by (rule get_put_mem_u32)
  have "get_mem_u32 (B + of_nat (argp - 8)) ?m3 = get_mem_u32 (B + of_nat (argp - 8)) ?m2"
    by (intro get_mem_u32_cong ballI f3) (unfold reg, linarith)
  then show "get_mem_u32 (B + of_nat (argp - 8)) (main_frame B (of_nat argp) n m) = of_nat n"
    unfolding frame by (simp only: get_put_mem_u32)
  have "get_mem_u32 (B + of_nat (argp - 4)) ?m3 = get_mem_u32 (B + of_nat (argp - 4)) ?m2"
    by (intro get_mem_u32_cong ballI f3) (unfold reg, use assms in linarith)
  also have "\<dots> = get_mem_u32 (B + of_nat (argp - 4)) ?m1"
    by (intro get_mem_u32_cong ballI f2) (unfold reg, linarith)
  finally show "get_mem_u32 (B + of_nat (argp - 4)) (main_frame B (of_nat argp) n m) = of_nat argp"
    unfolding frame by (simp only: get_put_mem_u32)
  assume x: "unat x < unat B + argp - 12 \<or> unat B + argp \<le> unat x"
  then have out: "x \<notin> region (B + of_nat (argp - 12)) 4" "x \<notin> region (B + of_nat (argp - 8)) 4" "x \<notin> region (B + of_nat (argp - 4)) 4"
    unfolding reg using assms by linarith+
  then show "main_frame B (of_nat argp) n m x = m x"
    unfolding frame by (simp only: put_mem_u32_frame [OF out(1)] put_mem_u32_frame [OF out(2)] put_mem_u32_frame [OF out(3)])
qed

lemma exec_commit_state:
  assumes "exec_commit me path argv entry base sz argp s = Ret (r, s')"
  shows "\<exists>m1. push_args (rev argv) (of_int base) argp sz (put_mem_u32 (of_int base + argp + 4 * of_nat (length argv)) 0 (kmem s)) = Some m1
    \<and> r = 0 \<and> kmem s' = main_frame (of_int base) argp (length argv) m1 \<and> p_mem (ptable s' me) = base \<and> p_sz (ptable s' me) = sz
    \<and> tf_eip (p_tf (ptable s' me)) = entry \<and> tf_esp (p_tf (ptable s' me)) = argp - 12 \<and> p_name (ptable s' me) = take 15 (base_name path)"
  using assms
  by (auto simp: exec_commit_def Let_def setupsegs_of_def upd_proc_def kfree_st_def split: option.splits)

lemma args_laid_out:
  fixes B :: uint and argp sz :: nat
  assumes "list_all2 (arg_ok B sz m) argv ws" "12 \<le> argp" "argp + 4 * (length ws + 1) + args_size ws \<le> sz" "unat B + sz < 2 ^ 31"
    and "push_args (rev argv) B (of_nat argp) (of_nat sz) (put_mem_u32 (B + of_nat argp + 4 * of_nat (length argv)) 0 m) = Some m1"
  shows "get_mem_u32 (B + of_nat (argp + 4 * length ws)) (main_frame B (of_nat argp) n m1) = 0"
    "args_at B argp (sz - args_size ws) sz ws (main_frame B (of_nat argp) n m1)"
    "x \<notin> region B sz \<Longrightarrow> main_frame B (of_nat argp) n m1 x = m x"
proof -
  have len: "length argv = length ws" using assms(1) by (rule list_all2_lengthD)
  define L where "L = args_size ws"
  define ptr where "ptr = argp + 4 * length ws"
  define m0 where "m0 = put_mem_u32 (B + of_nat ptr) 0 m"
  have L: "args_size (rev ws) = L" by (simp add: L_def rev_map [symmetric] sum_list_rev)
  have bounds: "ptr + 4 + L \<le> sz" using assms(3) by (simp add: ptr_def L_def)
  have reg: "x \<in> region (B + of_nat ptr) 4 \<longleftrightarrow> unat B + ptr \<le> unat x \<and> unat x < unat B + ptr + 4"
    "x \<in> region (B + of_nat argp) (4 * length ws) \<longleftrightarrow> unat B + argp \<le> unat x \<and> unat x < unat B + ptr"
    "x \<in> region (B + of_nat (sz - L)) L \<longleftrightarrow> unat B + (sz - L) \<le> unat x \<and> unat x < unat B + (sz - L) + L"
    "x \<in> region B sz \<longleftrightarrow> unat B \<le> unat x \<and> unat x < unat B + sz" for x
    using assms(4) bounds by (subst in_region_at; auto simp: ptr_def; fail)+ (use assms(4) in \<open>subst region_iff; simp\<close>)
  have m0: "m0 x = m x" if "x \<notin> region B sz" for x
    unfolding m0_def using that bounds by (intro put_mem_u32_frame) (unfold reg, linarith)
  have "list_all2 (arg_ok B sz m0) (rev argv) (rev ws)"
    using assms(1) m0 by (auto elim!: list_all2_mono intro: arg_ok_cong)
  from push_args_layout [OF this, of argp sz]
  have m1: "\<And>x. x \<notin> region (B + of_nat argp) (4 * length ws) \<Longrightarrow> x \<notin> region (B + of_nat (sz - L)) L \<Longrightarrow> m1 x = m0 x"
    "args_at B argp (sz - L) sz ws m1"
    using assms(3-5) len unfolding L m0_def ptr_def by (auto simp: L_def add.assoc)
  note frame = main_frame_words(4) [OF assms(2), of B]
  have argp: "unat B + argp < 2 ^ 31" using bounds assms(4) by (simp add: ptr_def)
  have "get_mem_u32 (B + of_nat ptr) (main_frame B (of_nat argp) n m1) = get_mem_u32 (B + of_nat ptr) m0"
  proof (rule get_mem_u32_cong, rule ballI)
    fix x assume x: "x \<in> region (B + of_nat ptr) 4"
    then have "m1 x = m0 x" using bounds by (intro m1) (unfold reg, linarith+)
    then show "main_frame B (of_nat argp) n m1 x = m0 x"
      using x frame [OF argp] unfolding reg by (simp add: ptr_def)
  qed
  then show "get_mem_u32 (B + of_nat (argp + 4 * length ws)) (main_frame B (of_nat argp) n m1) = 0"
    unfolding m0_def ptr_def by (simp only: get_put_mem_u32)
  show "args_at B argp (sz - args_size ws) sz ws (main_frame B (of_nat argp) n m1)"
    unfolding L_def [symmetric]
    by (rule args_at_cong [OF m1(2)]) (use frame [OF argp] bounds assms(4) in \<open>auto simp: ptr_def\<close>)
  assume x: "x \<notin> region B sz"
  then have "main_frame B (of_nat argp) n m1 x = m1 x" using bounds assms(2) frame [OF argp] unfolding reg ptr_def by auto
  also have "\<dots> = m0 x" using x bounds by (intro m1) (unfold reg ptr_def, linarith+)
  finally show "main_frame B (of_nat argp) n m1 x = m x" using m0 [OF x] by simp
qed


lemma demo_user_execs:
  "\<exists>s'. exec_commit 0 [] [0x100068] 0 0x200000 8192 8180 demo_user = Ret (0, s')"
proof -
  have "arg_ok 0x200000 8192 (put_mem_u32 0x201FF8 0 (kmem demo_user)) 0x100068 [200]"
    by (auto simp: arg_ok_def str_at_Cons demo_user_def put_mem_u32_def disjoint_iff region_iff)
  then obtain m1 where "push_args [0x100068] 0x200000 8180 8192 (put_mem_u32 0x201FF8 0 (kmem demo_user)) = Some m1"
    using push_args_layout [of "0x200000" 8192 _ "[0x100068]" "[[200]]" 8180 8192] by auto
  moreover have "\<exists>k'. kfree 0x100000 8192 demo_kstate = Some (Ret k')"
    by (simp add: kfree_def kfree_loop.simps demo_kstate_def PAGE_def fill_junk_def Let_def)
  ultimately show ?thesis
    by (auto simp: exec_commit_def Let_def kfree_st_def upd_proc_def demo_user_fields)
qed


end
