(* ===== verification/Sysfile.thy ===== *)
theory Sysfile
  imports Exec
begin

text \<open>
  The system calls on files (\<^verbatim>\<open>sysfile.c\<close>), each with the commit of its transaction.  \<open>dv\<close> is the device
  switch.  Messages printed with \<^verbatim>\<open>cprintf\<close> are left out.  The calls of type \<^verbatim>\<open>void\<close> leave \<^verbatim>\<open>%eax\<close>
  undefined; the model returns 0 for them.
\<close>

section \<open>File descriptors\<close>

definition argfd :: "nat \<Rightarrow> nat \<Rightarrow> 'a kernel_scheme \<Rightarrow> (nat \<times> nat) option" where
  "argfd me n s =
     (case argint me n s of
        None \<Rightarrow> None
      | Some fd \<Rightarrow>
          if sint fd < 0 \<or> sint fd \<ge> int NOFILE then None
          else map_option (\<lambda>f. (unat fd, f)) (p_ofile (ptable s me) (unat fd)))"

definition fdalloc :: "nat \<Rightarrow> nat \<Rightarrow> 'a kernel_scheme \<Rightarrow> nat option \<times> 'a kernel_scheme" where
  "fdalloc me f s =
     (case List.find (\<lambda>fd. p_ofile (ptable s me) fd = None) [0 ..< NOFILE] of
        None \<Rightarrow> (None, s)
      | Some fd \<Rightarrow> (Some fd, upd_proc me (\<lambda>p. p\<lparr>p_ofile := (p_ofile p)(fd := Some f)\<rparr>) s))"

definition is_killed :: "nat \<Rightarrow> 'a kernel_scheme \<Rightarrow> bool" where
  "is_killed me s \<longleftrightarrow> p_killed (ptable s me) \<noteq> 0"

text \<open>\<open>end_trans\<close> followed by a return of the value.\<close>

definition commit_ret :: "int \<Rightarrow> 'a kernel_scheme \<Rightarrow> (int \<times> 'a kernel_scheme) outcome" where
  "commit_ret v s = obind (end_trans s) (\<lambda>s1. Ret (v, s1))"

section \<open>Reading and writing\<close>

definition sys_read :: "('a kernel_scheme) devsw \<Rightarrow> ('a kernel_scheme) call" where
  "sys_read dv me s =
     (case (argfd me 0 s, argint me 2 s) of
        (Some (_, f), Some n) \<Rightarrow>
          (case argptr me 1 (sint n) s of
             None \<Rightarrow> Ret (-1, s)
           | Some p \<Rightarrow>
               obind (fileread dv (is_killed me s) f (sint n) s) (\<lambda>(r, cs, s1).
               Ret (r, s1\<lparr>kmem := put_mem_bytes p cs (kmem s1)\<rparr>)))
      | _ \<Rightarrow> Ret (-1, s))"

definition sys_set_write_panic :: "('a kernel_scheme) call" where
  "sys_set_write_panic me s = Ret (0, case argint me 0 s of None \<Rightarrow> s | Some v \<Rightarrow> s\<lparr>should_panic := v\<rparr>)"

definition mem_bytes :: "uint \<Rightarrow> nat \<Rightarrow> mem \<Rightarrow> uchar list" where
  "mem_bytes p n m = map (\<lambda>k. m (p + of_nat k)) [0 ..< n]"

definition sys_write :: "('a kernel_scheme) devsw \<Rightarrow> ('a kernel_scheme) call" where
  "sys_write dv me s =
     (case (argfd me 0 s, argint me 2 s) of
        (Some (_, f), Some n) \<Rightarrow>
          (case argptr me 1 (sint n) s of
             None \<Rightarrow> Ret (-1, s)
           | Some p \<Rightarrow>
               obind (filewrite dv (is_killed me s) f (mem_bytes p (unat n) (kmem s)) (sint n) s) (\<lambda>(rv, s1).
               commit_ret rv s1))
      | _ \<Rightarrow> Ret (-1, s))"

definition sys_check :: "('a kernel_scheme) call" where
  "sys_check me s =
     (case (argfd me 0 s, argint me 1 s) of
        (Some (_, f), Some off) \<Rightarrow> filecheck f (sint off) s
      | _ \<Rightarrow> Ret (-1, s))"

definition sys_fsync :: "('a kernel_scheme) call" where
  "sys_fsync me s = obind (jfull_flush s) (\<lambda>s1. Ret (0, s1))"

definition sys_dup :: "('a kernel_scheme) call" where
  "sys_dup me s =
     (case argfd me 0 s of
        None \<Rightarrow> Ret (-1, s)
      | Some (_, f) \<Rightarrow>
          (let (r, s1) = fdalloc me f s in
           case r of
             None \<Rightarrow> commit_ret (-1) s1
           | Some fd \<Rightarrow> obind (filedup f s1) (\<lambda>(_, s2). commit_ret (int fd) s2)))"

definition sys_close :: "('a kernel_scheme) call" where
  "sys_close me s =
     (case argfd me 0 s of
        None \<Rightarrow> Ret (-1, s)
      | Some (fd, f) \<Rightarrow>
          obind (fileclose f (upd_proc me (\<lambda>p. p\<lparr>p_ofile := (p_ofile p)(fd := None)\<rparr>) s)) (commit_ret 0))"

text \<open>\<^verbatim>\<open>struct stat\<close> as it lies in memory: 16 bytes, the two short fields in one word.\<close>

definition put_stat :: "uint \<Rightarrow> stat \<Rightarrow> mem \<Rightarrow> mem" where
  "put_stat p st m =
     put_mem_u32 (p + 12) (st_size st)
       (put_mem_u32 (p + 8) (ucast (st_type st) OR push_bit 16 (ucast (st_nlink st)))
         (put_mem_u32 (p + 4) (st_ino st) (put_mem_u32 p (st_dev st) m)))"

definition sys_fstat :: "('a kernel_scheme) call" where
  "sys_fstat me s =
     (case (argfd me 0 s, argptr me 1 16 s) of
        (Some (_, f), Some p) \<Rightarrow>
          obind (filestat f s) (\<lambda>(r, st, s1).
            Ret (r, case st of None \<Rightarrow> s1 | Some v \<Rightarrow> s1\<lparr>kmem := put_stat p v (kmem s1)\<rparr>))
      | _ \<Rightarrow> Ret (-1, s))"

section \<open>Links\<close>

definition cwd_of :: "nat \<Rightarrow> 'a kernel_scheme \<Rightarrow> nat option" where
  "cwd_of me s = p_cwd (ptable s me)"

definition add_nlink :: "nat \<Rightarrow> ushort \<Rightarrow> 'a fs_state_scheme \<Rightarrow> 'a fs_state_scheme" where
  "add_nlink ip d s = upd_inode ip (\<lambda>i. i\<lparr>i_nlink := i_nlink i + d\<rparr>) s"

text \<open>The label \<^verbatim>\<open>bad\<close> of \<open>sys_link\<close>; \<open>dp\<close> is locked when it is there.\<close>

definition link_bad :: "nat option \<Rightarrow> nat \<Rightarrow> 'a kernel_scheme \<Rightarrow> (int \<times> 'a kernel_scheme) outcome" where
  "link_bad dp ip s =
     obind (case dp of None \<Rightarrow> Ret s | Some d \<Rightarrow> iunlockput d s) (\<lambda>s1.
     obind (ilock (Some ip) s1) (\<lambda>s2.
     obind (iupdate ip (add_nlink ip (-1) s2)) (\<lambda>s3.
     obind (iunlockput ip s3) (commit_ret (-1)))))"

definition sys_link :: "('a kernel_scheme) devsw \<Rightarrow> ('a kernel_scheme) call" where
  "sys_link dv me s =
     (case (argstr me 0 s, argstr me 1 s) of
        (Some old, Some new) \<Rightarrow>
          obind (namei (cwd_of me s) old s) (\<lambda>(r, s1).
          case r of
            None \<Rightarrow> commit_ret (-1) s1
          | Some ip \<Rightarrow>
              obind (ilock (Some ip) s1) (\<lambda>s2.
              if i_type (icache s2 ip) = T_DIR then obind (iunlockput ip s2) (commit_ret (-1))
              else
                obind (iupdate ip (add_nlink ip 1 s2)) (\<lambda>s3.
                obind (iunlock (Some ip) s3) (\<lambda>s4.
                obind (nameiparent (cwd_of me s4) new s4) (\<lambda>(q, s5).
                case q of
                  None \<Rightarrow> link_bad None ip s5
                | Some (dp, name) \<Rightarrow>
                    obind (ilock (Some dp) s5) (\<lambda>s6.
                    if i_dev (icache s6 dp) \<noteq> i_dev (icache s6 ip) then link_bad (Some dp) ip s6
                    else
                      obind (dirlink dv dp name (i_inum (icache s6 ip)) s6) (\<lambda>(w, s7).
                      if w < 0 then link_bad (Some dp) ip s7
                      else obind (iunlockput dp s7) (\<lambda>s8. obind (iput ip s8) (commit_ret 0)))))))))
      | _ \<Rightarrow> Ret (-1, s))"

primrec isdirempty_loop :: "nat \<Rightarrow> ('a fs_state_scheme) devsw \<Rightarrow> uint \<Rightarrow> nat \<Rightarrow> 'a fs_state_scheme
    \<Rightarrow> (bool \<times> 'a fs_state_scheme) outcome" where
  "isdirempty_loop 0 dv off dp s = (if off < i_size (icache s dp) then Blocked ''isdirempty'' else Ret (True, s))"
| "isdirempty_loop (Suc k) dv off dp s =
     (if off < i_size (icache s dp) then
        obind (readi dv dp off 16 s) (\<lambda>(r, cs, s1).
          if r \<noteq> 16 then Panic ''isdirempty: readi''
          else if de_inum (get_dirent (\<lambda>i. cs ! i) 0) \<noteq> 0 then Ret (False, s1)
          else isdirempty_loop k dv (off + 16) dp s1)
      else Ret (True, s))"

definition isdirempty :: "('a fs_state_scheme) devsw \<Rightarrow> nat \<Rightarrow> 'a fs_state_scheme \<Rightarrow> (bool \<times> 'a fs_state_scheme) outcome" where
  "isdirempty dv dp s = isdirempty_loop (unat (i_size (icache s dp) div 16) + 1) dv 32 dp s"

definition DOT :: "uchar list" where "DOT = [46]"
definition DOTDOT :: "uchar list" where "DOTDOT = [46, 46]"

text \<open>
  The part of \<open>sys_unlink\<close> that removes the entry, with both inodes locked; \<open>unlink_drop\<close> is its end, which drops
  the link and the reference of the inode.
\<close>

definition unlink_drop :: "nat \<Rightarrow> 'a kernel_scheme \<Rightarrow> (int \<times> 'a kernel_scheme) outcome" where
  "unlink_drop ip s =
     obind (iupdate ip (add_nlink ip (-1) s)) (\<lambda>s1. obind (iunlockput ip s1) (commit_ret 0))"

definition unlink_entry :: "('a kernel_scheme) devsw \<Rightarrow> nat \<Rightarrow> nat \<Rightarrow> uint \<Rightarrow> 'a kernel_scheme \<Rightarrow> (int \<times> 'a kernel_scheme) outcome" where
  "unlink_entry dv dp ip off s =
     obind (writei dv dp (replicate 16 0) off 16 s) (\<lambda>(w, s1).
     if w \<noteq> 16 then Panic ''unlink: writei''
     else obind (iunlockput dp s1) (unlink_drop ip))"

definition sys_unlink :: "('a kernel_scheme) devsw \<Rightarrow> ('a kernel_scheme) call" where
  "sys_unlink dv me s =
     (case argstr me 0 s of
        None \<Rightarrow> Ret (-1, s)
      | Some path \<Rightarrow>
          obind (nameiparent (cwd_of me s) path s) (\<lambda>(q, s1).
          case q of
            None \<Rightarrow> commit_ret (-1) s1
          | Some (dp, name) \<Rightarrow>
              obind (ilock (Some dp) s1) (\<lambda>s2.
              if namecmp name DOT = 0 \<or> namecmp name DOTDOT = 0 then obind (iunlockput dp s2) (commit_ret (-1))
              else
                obind (dirlookup dp name s2) (\<lambda>(r, s3).
                case r of
                  None \<Rightarrow> obind (iunlockput dp s3) (commit_ret (-1))
                | Some (ip, off) \<Rightarrow>
                    obind (ilock (Some ip) s3) (\<lambda>s4.
                    if sint (i_nlink (icache s4 ip)) < 1 then Panic ''unlink: nlink < 1''
                    else
                      obind (if i_type (icache s4 ip) = T_DIR then isdirempty dv ip s4 else Ret (True, s4)) (\<lambda>(empty, s5).
                      if \<not> empty then obind (iunlockput ip s5) (\<lambda>s6. obind (iunlockput dp s6) (commit_ret (-1)))
                      else unlink_entry dv dp ip off s5))))))"

section \<open>Creating and opening\<close>

text \<open>The part of \<open>create\<close> for \<^verbatim>\<open>type == T_DIR\<close>.\<close>

definition create_dots :: "('a fs_state_scheme) devsw \<Rightarrow> nat \<Rightarrow> nat \<Rightarrow> 'a fs_state_scheme \<Rightarrow> 'a fs_state_scheme outcome" where
  "create_dots dv dp ip s =
     obind (iupdate dp (add_nlink dp 1 s)) (\<lambda>s1.
     obind (dirlink dv ip DOT (i_inum (icache s1 ip)) s1) (\<lambda>(r, s2).
     if r < 0 then Panic ''create dots''
     else
       obind (dirlink dv ip DOTDOT (i_inum (icache s2 dp)) s2) (\<lambda>(q, s3).
       if q < 0 then Panic ''create dots'' else Ret s3)))"

definition create_new :: "('a fs_state_scheme) devsw \<Rightarrow> nat \<Rightarrow> uchar list \<Rightarrow> ushort \<Rightarrow> ushort \<Rightarrow> ushort \<Rightarrow> 'a fs_state_scheme
    \<Rightarrow> (nat option \<times> 'a fs_state_scheme) outcome" where
  "create_new dv dp name type major minor s =
     obind (icreate (i_dev (icache s dp)) type major minor 1 s) (\<lambda>(ip, s1).
     obind (ilock (Some ip) s1) (\<lambda>s2.
     obind (iupdate ip (upd_inode ip (\<lambda>i. i\<lparr>i_major := major, i_minor := minor, i_nlink := 1\<rparr>) s2)) (\<lambda>s3.
     obind (dirlink dv dp name (i_inum (icache s3 ip)) s3) (\<lambda>(r, s4).
     if r < 0 then
       obind (iunlockput ip (upd_inode ip (\<lambda>i. i\<lparr>i_nlink := 0\<rparr>) s4)) (\<lambda>s5.
       obind (iunlockput dp s5) (\<lambda>s6. Ret (None, s6)))
     else
       obind (if type = T_DIR then create_dots dv dp ip s4 else Ret s4) (\<lambda>s5.
       obind (iunlockput dp s5) (\<lambda>s6.
       obind (end_trans s6) (\<lambda>s7.
       obind (jfull_flush s7) (\<lambda>s8. Ret (Some ip, s8)))))))))"

definition create :: "('a fs_state_scheme) devsw \<Rightarrow> nat option \<Rightarrow> uchar list \<Rightarrow> bool \<Rightarrow> ushort \<Rightarrow> ushort \<Rightarrow> ushort
    \<Rightarrow> 'a fs_state_scheme \<Rightarrow> (nat option \<times> 'a fs_state_scheme) outcome" where
  "create dv cwd path canexist type major minor s =
     obind (nameiparent cwd path s) (\<lambda>(q, s1).
     case q of
       None \<Rightarrow> Ret (None, s1)
     | Some (dp, name) \<Rightarrow>
         obind (ilock (Some dp) s1) (\<lambda>s2.
         obind (if canexist then dirlookup dp name s2 else Ret (None, s2)) (\<lambda>(r, s3).
         case r of
           Some (ip, _) \<Rightarrow>
             obind (iunlockput dp s3) (\<lambda>s4.
             obind (ilock (Some ip) s4) (\<lambda>s5.
             let i = icache s5 ip in
             if i_type i \<noteq> type \<or> i_major i \<noteq> major \<or> i_minor i \<noteq> minor
             then obind (iunlockput ip s5) (\<lambda>s6. Ret (None, s6))
             else Ret (Some ip, s5)))
         | None \<Rightarrow> create_new dv dp name type major minor s3)))"

definition O_WRONLY :: uint where "O_WRONLY = 1"
definition O_RDWR :: uint where "O_RDWR = 2"
definition O_CREATE :: uint where "O_CREATE = 0x200"

text \<open>The inode that \<open>sys_open\<close> opens, locked, or none.\<close>

definition open_inode :: "('a fs_state_scheme) devsw \<Rightarrow> nat option \<Rightarrow> uchar list \<Rightarrow> uint \<Rightarrow> 'a fs_state_scheme
    \<Rightarrow> (nat option \<times> 'a fs_state_scheme) outcome" where
  "open_inode dv cwd path omode s =
     (if omode AND O_CREATE \<noteq> 0 then create dv cwd path True T_FILE 0 0 s
      else
        obind (namei cwd path s) (\<lambda>(r, s1).
        case r of
          None \<Rightarrow> Ret (None, s1)
        | Some ip \<Rightarrow>
            obind (ilock (Some ip) s1) (\<lambda>s2.
            if i_type (icache s2 ip) = T_DIR \<and> omode AND (O_RDWR OR O_WRONLY) \<noteq> 0
            then obind (iunlockput ip s2) (\<lambda>s3. Ret (None, s3))
            else Ret (Some ip, s2))))"

definition open_file_of :: "nat \<Rightarrow> uint \<Rightarrow> open_file \<Rightarrow> open_file" where
  "open_file_of ip omode f = f\<lparr>f_type := FD_INODE, f_ip := ip, f_off := 0,
     f_readable := (if omode AND O_WRONLY = 0 then 1 else 0),
     f_writable := (if omode AND O_WRONLY \<noteq> 0 \<or> omode AND O_RDWR \<noteq> 0 then 1 else 0)\<rparr>"

definition sys_open :: "('a kernel_scheme) devsw \<Rightarrow> ('a kernel_scheme) call" where
  "sys_open dv me s =
     (case (argstr me 0 s, argint me 1 s) of
        (Some path, Some omode) \<Rightarrow>
          obind (open_inode dv (cwd_of me s) path omode s) (\<lambda>(r, s1).
          case r of
            None \<Rightarrow> commit_ret (-1) s1
          | Some ip \<Rightarrow>
              (let (f, s2) = filealloc s1 in
               case f of
                 None \<Rightarrow> obind (iunlockput ip s2) (commit_ret (-1))
               | Some fl \<Rightarrow>
                   (let (d, s3) = fdalloc me fl s2 in
                    case d of
                      None \<Rightarrow> obind (fileclose fl s3) (\<lambda>s4. obind (iunlockput ip s4) (commit_ret (-1)))
                    | Some fd \<Rightarrow>
                        obind (iunlock (Some ip) s3) (\<lambda>s4. commit_ret (int fd) (upd_file fl (open_file_of ip omode) s4)))))
      | _ \<Rightarrow> Ret (-1, s))"

definition sys_mknod :: "('a kernel_scheme) devsw \<Rightarrow> ('a kernel_scheme) call" where
  "sys_mknod dv me s =
     (case (argstr me 0 s, argint me 1 s, argint me 2 s) of
        (Some path, Some major, Some minor) \<Rightarrow>
          obind (create dv (cwd_of me s) path False T_DEV (ucast major) (ucast minor) s) (\<lambda>(r, s1).
          case r of
            None \<Rightarrow> commit_ret (-1) s1
          | Some ip \<Rightarrow> obind (iput ip s1) (commit_ret 0))
      | _ \<Rightarrow> commit_ret (-1) s)"

definition sys_mkdir :: "('a kernel_scheme) devsw \<Rightarrow> ('a kernel_scheme) call" where
  "sys_mkdir dv me s =
     (case argstr me 0 s of
        None \<Rightarrow> commit_ret (-1) s
      | Some path \<Rightarrow>
          obind (create dv (cwd_of me s) path False T_DIR 0 0 s) (\<lambda>(r, s1).
          case r of
            None \<Rightarrow> commit_ret (-1) s1
          | Some ip \<Rightarrow> obind (end_trans s1) (\<lambda>s2. obind (iunlockput ip s2) (\<lambda>s3. Ret (0, s3)))))"

definition sys_chdir :: "('a kernel_scheme) call" where
  "sys_chdir me s =
     (case argstr me 0 s of
        None \<Rightarrow> commit_ret (-1) s
      | Some path \<Rightarrow>
          obind (namei (cwd_of me s) path s) (\<lambda>(r, s1).
          case r of
            None \<Rightarrow> commit_ret (-1) s1
          | Some ip \<Rightarrow>
              obind (ilock (Some ip) s1) (\<lambda>s2.
              if i_type (icache s2 ip) \<noteq> T_DIR then
                obind (end_trans s2) (\<lambda>s3. obind (iunlockput ip s3) (\<lambda>s4. Ret (-1, s4)))
              else
                obind (iunlock (Some ip) s2) (\<lambda>s3.
                case cwd_of me s3 of
                  None \<Rightarrow> Fault ''cp->cwd''
                | Some old \<Rightarrow>
                    obind (iput old s3) (\<lambda>s4. commit_ret 0 (upd_proc me (\<lambda>p. p\<lparr>p_cwd := Some ip\<rparr>) s4))))))"

section \<open>exec, pipe and recovery\<close>

text \<open>The loop that collects the pointers to the arguments; there are 20 slots, the last for the null pointer.\<close>

primrec fetch_argv :: "nat \<Rightarrow> nat \<Rightarrow> uint \<Rightarrow> 'a kernel_scheme \<Rightarrow> uint list option" where
  "fetch_argv 0 me uargv s = None"
| "fetch_argv (Suc k) me uargv s =
     (case fetchint me uargv s of
        None \<Rightarrow> None
      | Some uarg \<Rightarrow>
          if uarg = 0 then Some []
          else if fetchstr me uarg s = None then None
          else map_option (\<lambda>as. (of_int (p_mem (ptable s me)) + uarg) # as) (fetch_argv k me (uargv + 4) s))"

definition sys_exec :: "('a kernel_scheme) devsw \<Rightarrow> ('a kernel_scheme) call" where
  "sys_exec dv me s =
     (case (argstr me 0 s, argint me 1 s) of
        (Some path, Some uargv) \<Rightarrow>
          (case fetch_argv 20 me uargv s of None \<Rightarrow> Ret (-1, s) | Some argv \<Rightarrow> exec dv me path argv s)
      | _ \<Rightarrow> Ret (-1, s))"

definition pipe_bad :: "nat \<Rightarrow> nat option \<Rightarrow> nat \<Rightarrow> nat \<Rightarrow> 'a kernel_scheme \<Rightarrow> (int \<times> 'a kernel_scheme) outcome" where
  "pipe_bad me fd0 rfl wfl s =
     (let s1 = (case fd0 of None \<Rightarrow> s | Some fd \<Rightarrow> upd_proc me (\<lambda>p. p\<lparr>p_ofile := (p_ofile p)(fd := None)\<rparr>) s) in
      obind (fileclose rfl s1) (\<lambda>s2. obind (fileclose wfl s2) (commit_ret (-1))))"

definition sys_pipe :: "('a kernel_scheme) call" where
  "sys_pipe me s =
     (case argptr me 0 8 s of
        None \<Rightarrow> Ret (-1, s)
      | Some fd \<Rightarrow>
          obind (pipealloc s) (\<lambda>(r, f0, f1, s1).
          case (f0, f1) of
            (Some rfl, Some wfl) \<Rightarrow>
              if r < 0 then commit_ret (-1) s1
              else
                (let (d0, s2) = fdalloc me rfl s1 in
                 case d0 of
                   None \<Rightarrow> pipe_bad me None rfl wfl s2
                 | Some fd0 \<Rightarrow>
                     (let (d1, s3) = fdalloc me wfl s2 in
                      case d1 of
                        None \<Rightarrow> pipe_bad me (Some fd0) rfl wfl s3
                      | Some fd1 \<Rightarrow> commit_ret 0
                          (s3\<lparr>kmem := put_mem_u32 (fd + 4) (of_nat fd1) (put_mem_u32 fd (of_nat fd0) (kmem s3))\<rparr>)))
          | _ \<Rightarrow> commit_ret (-1) s1))"

text \<open>\<open>fresh\<close> is the uninitialised link of the transaction list, as in \<^const>\<open>pbjFSck\<close>.\<close>

definition sys_pbjFSck :: "nat option \<Rightarrow> ('a kernel_scheme) call" where
  "sys_pbjFSck fresh me s = obind (pbjFSck fresh ROOTDEV s) (\<lambda>s1. Ret (0, s1))"

section \<open>Two calls that do not return\<close>

text \<open>
  Opening a file when the process has no free descriptor does not fail with \<open>-1\<close>.  The file that was allocated
  has no type yet, and \<open>fileclose\<close> panics on it: any process that opens one file too many stops the kernel.
\<close>

theorem open_full_table_panics:
  assumes "argstr me 0 s = Some path" "argint me 1 s = Some omode"
    and "open_inode dv (cwd_of me s) path omode s = Ret (Some ip, s1)"
    and "\<forall>fd < NOFILE. p_ofile (ptable s1 me) fd \<noteq> None" "\<exists>f < NFILE. f_type (ftable s1 f) = FD_CLOSED"
  shows "sys_open dv me s = Panic ''fileclose''"
proof -
  obtain f where f: "List.find (\<lambda>i. f_type (ftable s1 i) = FD_CLOSED) [0 ..< NFILE] = Some f"
    using assms(5) by (cases "List.find (\<lambda>i. f_type (ftable s1 i) = FD_CLOSED) [0 ..< NFILE]") (auto simp: find_None_iff)
  let ?s2 = "upd_file f (\<lambda>x. x\<lparr>f_type := FD_NONE, f_ref := 1\<rparr>) s1"
  have "fdalloc me f ?s2 = (None, ?s2)"
    using assms(4) by (auto simp: fdalloc_def upd_file_def find_None_iff split: option.splits)
  moreover have "fileclose f ?s2 = Panic ''fileclose''" by (rule fileclose_fresh) (simp_all add: upd_file_def)
  ultimately show ?thesis using assms(1-3) f by (simp add: sys_open_def filealloc_def)
qed

definition demo_full :: kernel where
  "demo_full = upd_proc 0 (\<lambda>p. p\<lparr>p_ofile := (\<lambda>_. Some 0)\<rparr>) demo_user"

theorem open_full_table_panics_witness: "sys_open no_devices 0 demo_full = Panic ''fileclose''"
proof (rule open_full_table_panics)
  have p: "ptable demo_full 0 = demo_proc\<lparr>p_state := RUNNING, p_mem := 0x100000, p_sz := 8192, p_tf := zero_tf\<lparr>tf_esp := 100\<rparr>, p_ofile := (\<lambda>_. Some 0)\<rparr>"
    by (simp add: demo_full_def upd_proc_def demo_user_def)
  have m: "kmem demo_full = (\<lambda>x. if x = 0x100068 then 200 else 0)" by (simp add: demo_full_def upd_proc_def demo_user_def)
  have ic: "icache demo_full 3 = demo_inode"
    by (simp add: demo_full_def upd_proc_def demo_user_def demo_kernel_def file_state.extend_def demo_files_def fs_state.extend_def
      demo_fs_def bio_state.extend_def demo_inode_def)
  have a0: "argint 0 0 demo_full = Some 200" and a1: "argint 0 1 demo_full = Some 0"
    by (simp_all add: argint_def fetchint_def p m get_mem_u32_def zero_tf_def)
  have "0 < n \<Longrightarrow> P 0 \<Longrightarrow> List.find P [0 ..< n] = Some 0" for n P by (simp add: upt_conv_Cons)
  then show "argstr 0 0 demo_full = Some []" by (simp add: argstr_def a0 fetchstr_def p m Let_def del: upt_rec_numeral)
  show "argint 0 1 demo_full = Some 0" by (rule a1)
  let ?s1 = "upd_inode 3 (\<lambda>i. i\<lparr>i_flags := insert I_BUSY (i_flags i)\<rparr>) (upd_inode 3 (\<lambda>i. i\<lparr>i_ref := i_ref i + 1\<rparr>) demo_full)"
  have "cwd_of 0 demo_full = Some 3" by (simp add: cwd_of_def p demo_proc_def)
  then show "open_inode no_devices (cwd_of 0 demo_full) [] 0 demo_full = Ret (Some 3, ?s1)"
    by (simp add: open_inode_def namei_def namei_start_def namei_loop.simps skipelem_def idup_def ilock_def Let_def ic
      upd_inode_def demo_inode_def O_CREATE_def hd0_def SLASH_def)
  show "\<forall>fd < NOFILE. p_ofile (ptable ?s1 0) fd \<noteq> None" by (simp add: upd_inode_def p)
  have "f_type (ftable ?s1 7) = FD_CLOSED"
    by (simp add: upd_inode_def demo_full_def upd_proc_def demo_user_def demo_kernel_def file_state.extend_def demo_files_def fs_state.extend_def)
  then show "\<exists>f < NFILE. f_type (ftable ?s1 f) = FD_CLOSED" by (intro exI [of _ 7]) (simp add: NFILE_def)
qed

lemma written_block_held:
  fixes s :: "'a bio_state_scheme"
  assumes "ide_idle s" "dev = 0 \<or> disk_1_present s" "cache_inv s" "mt_size (curmt s) + 1 \<noteq> 0" "bread dev n s = Ret (b, s1)"
    and "bwrite b (upd_data b f s1) = Ret s2" "brelse b s2 = Ret s3"
    and t: "bufs t = bufs s3" "lru t = lru s3"
  shows "bread dev n (t :: 'a bio_state_scheme) = Blocked ''bget''"
proof -
  note r = bread_ok [OF assms(1-3,5)]
  have s2: "bufs s2 = (bufs s1)(b := (bufs s1 b)\<lparr>b_data := f (b_data (bufs s1 b)), b_flags := insert B_DIRTY (b_flags (bufs s1 b))\<rparr>)"
    "lru s2 = lru s1" "mt_size (curmt s2) \<noteq> 0"
    using assms(4,6) r by (auto simp: bwrite_def upd_data_def upd_buf_def Let_def split: if_splits)
  then have s3: "s3 = s2" using assms(7) by (auto simp: brelse_def split: if_splits)
  have mine: "cached dev n t b" "B_BUSY \<in> b_flags (bufs t b)" "b \<in> set (lru t)"
    using r by (auto simp: cached_def t s3 s2)
  have "cache_inv t" by (rule active_kept [of s1]) (use r in \<open>auto simp: t s3 s2 active_def\<close>)
  then have "\<forall>c \<in> set (lru t). cached dev n t c \<longrightarrow> c = b" using mine unfolding cache_inv_def cached_active by metis
  then have "List.find (cached dev n t) (lru t) = Some b"
    using mine by (metis (no_types, lifting) find_None_iff find_Some_iff nth_mem option.exhaust)
  then show ?thesis using mine by (simp add: bread_def bget_def)
qed

lemma free_direct_empty: "\<forall>k \<in> set ks. i_addrs (icache s ip) k = 0 \<Longrightarrow> free_direct ks ip s = Ret s"
  by (induction ks) auto

lemma icache_upd_bio [simp]:
  "bufs (upd_inode ip f s) = bufs s" "lru (upd_inode ip f s) = lru s" "curmt (upd_inode ip f s) = curmt s"
  "ide_idle (upd_inode ip f s) = ide_idle s" "cache_inv (upd_inode ip f s) = cache_inv s"
  "disk_1_present (upd_inode ip f s) = disk_1_present s" "icache (upd_inode ip f s) = (icache s)(ip := f (icache s ip))"
  by (simp_all add: upd_inode_def ide_idle_def cache_inv_def active_def)

text \<open>
  Removing the last link of an empty file never returns.  The new link count is written in the transaction, which
  holds the block of the inode; dropping the reference then truncates the file, finds no block whose release
  would commit the transaction, and waits for the same block to write the size.
\<close>

theorem unlink_empty_blocks:
  fixes s :: "'a kernel_scheme"
  assumes i_def: "i = icache s ip"
    and "ide_idle s" "cache_inv s" "i_dev i = 0 \<or> disk_1_present s" "mt_size (curmt s) + 1 \<noteq> 0"
    and "i_ref i = 1" "i_nlink i = 1" "i_flags i = {I_BUSY, I_VALID}" "\<forall>k < unat NDIRECT. i_addrs i k = 0"
    and "ip + 1 < NINODE" "i_dev (icache s (ip + 1)) = 0"
    and upd: "iupdate ip (add_nlink ip (-1) s) = Ret s'"
  shows "unlink_drop ip s = Blocked ''bget''"
proof -
  let ?s0 = "add_nlink ip (-1) s" and ?n = "IBLOCK (i_inum i)"
  obtain b s1 s2 f where b: "bread (i_dev i) ?n ?s0 = Ret (b, s1)" "bwrite b (upd_data b f s1) = Ret s2" "brelse b s2 = Ret s'"
    using upd by (auto simp: iupdate_def Let_def add_nlink_def i_def)
  have blocked: "bread (i_dev i) ?n t = Blocked ''bget''" if "bufs t = bufs s'" "lru t = lru s'" for t :: "'a kernel_scheme"
    by (rule written_block_held [OF _ _ _ _ b that]) (use assms(2-5) in \<open>simp_all add: add_nlink_def\<close>)
  have more: "bio_state.more s' = bio_state.more ?s0"
    using upd by (auto simp: iupdate_def Let_def upd_data_def upd_buf_def dest!: bread_more bwrite_more brelse_more)
  then have ic: "icache s' = icache ?s0" by (cases s', cases ?s0) simp
  then have i': "icache s' ip = i\<lparr>i_nlink := 0\<rparr>" "i_dev (icache s' (ip + 1)) = 0"
    using assms(6-11) by (simp_all add: add_nlink_def i_def)
  let ?t = "upd_inode ip (\<lambda>i. i\<lparr>i_flags := i_flags i - {I_BUSY}\<rparr>) s'"
  have "iunlock (Some ip) s' = Ret ?t" using i' assms(6-8) by (simp add: iunlock_def)
  moreover have "itrunc ip (upd_inode ip (\<lambda>i. i\<lparr>i_flags := insert I_BUSY (i_flags i)\<rparr>) ?t) = Blocked ''bget''" (is "itrunc ip ?u = _")
  proof -
    have "free_direct [0 ..< unat NDIRECT] ip ?u = Ret ?u"
      using assms(9) by (intro free_direct_empty) (simp add: i')
    moreover have "addrs_past ip ?u = Ret 0" using assms(10) i'(2) by (simp add: addrs_past_def)
    moreover have "iupdate ip (upd_inode ip (\<lambda>i. i\<lparr>i_size := 0\<rparr>) ?u) = Blocked ''bget''"
      using blocked by (simp add: iupdate_def Let_def i')
    ultimately show ?thesis by (simp add: itrunc_def)
  qed
  ultimately show ?thesis
    using assms(6-8) upd i' by (simp add: unlink_drop_def iunlockput_def iput_def)
qed

lemma iupdate_returns:
  assumes "ide_idle s" "i_dev (icache s ip) = 0 \<or> disk_1_present s" "bget_case (i_dev (icache s ip)) (IBLOCK (i_inum (icache s ip))) s = Miss b"
  shows "\<exists>s'. iupdate ip s = Ret s'"
  using bread_cases [OF assms(1,2)] assms(3)
  by (simp add: iupdate_def Let_def bwrite_def brelse_def jbrelse_def upd_data_def upd_buf_def loaded_def)

definition demo_unlink :: kernel where
  "demo_unlink = demo_user\<lparr>icache := (\<lambda>_. demo_inode\<lparr>i_dev := 0, i_flags := {I_BUSY, I_VALID}\<rparr>)\<rparr>"

theorem unlink_empty_blocks_witness: "unlink_drop 3 demo_unlink = Blocked ''bget''"
proof -
  have bio: "ide_idle demo_unlink" "cache_inv demo_unlink" "mt_size (curmt demo_unlink) = 0" "b_flags (bufs demo_unlink b) = {}"
    "lru demo_unlink = [7, 6, 5, 4, 3, 2, 1, 0]" for b
    by (simp_all add: demo_unlink_def demo_user_def demo_kernel_def file_state.extend_def demo_files_def fs_state.extend_def
      demo_fs_def bio_state.extend_def demo_boot_def ide_idle_def cache_inv_def active_def empty_trans_def upt_rec
      IDE_DRDY_def IDE_BSY_def IDE_DF_def IDE_ERR_def)
  have ic: "icache demo_unlink = (\<lambda>_. demo_inode\<lparr>i_dev := 0, i_flags := {I_BUSY, I_VALID}\<rparr>)" by (simp add: demo_unlink_def)
  have "bget_case 0 n (add_nlink 3 (-1) demo_unlink) = Miss 0" for n
    by (simp add: bget_case_def cached_def add_nlink_def bio)
  then obtain s' where "iupdate 3 (add_nlink 3 (-1) demo_unlink) = Ret s'"
    using iupdate_returns [of "add_nlink 3 (-1) demo_unlink" 3 0] by (auto simp: add_nlink_def bio ic)
  then show ?thesis
    by (intro unlink_empty_blocks [OF refl]) (simp_all add: bio ic demo_inode_def NINODE_def)
qed

end
