(* ===== verification/FileRefs.thy ===== *)
theory FileRefs
  imports Sysfile
begin

text \<open>
  The reference counts of open files.  The system calls that make, copy and drop descriptors, and the ones that
  create and end processes, keep the count of every entry of the file table equal to the number of descriptors
  that refer to it.  The devices behind the device switch are an interface: what the proof needs of them is the
  locale \<open>file_devices\<close>.
\<close>

section \<open>The view of the descriptors\<close>

text \<open>What matters of the state: count and type of each file, and the descriptors and the state of each process.\<close>

definition fds :: "'a kernel_scheme \<Rightarrow> (nat \<Rightarrow> int \<times> fdtype) \<times> (nat \<Rightarrow> (nat \<Rightarrow> nat option) \<times> procstate)" where
  "fds s = (\<lambda>f. (f_ref (ftable s f), f_type (ftable s f)), \<lambda>i. (p_ofile (ptable s i), p_state (ptable s i)))"

named_theorems fdframe

lemma fds_of_fs:
  fixes s s' :: "'a kernel_scheme"
  assumes "fs_state.more s' = fs_state.more s"
  shows "fds s' = fds s"
  using assms by (cases s, cases s') (simp add: fds_def)

lemma fds_upd [simp]:
  fixes s :: "'a kernel_scheme"
  shows "fds (upd_inode ip f s) = fds s" "fds (upd_data b g s) = fds s" "fds (kmem_update h s) = fds s" "fds (should_panic_update k s) = fds s"
    "fds (kst_update l s) = fds s" "fds (pipes_update q s) = fds s" "fds (ttltcts_update t s) = fds s" "fds (segs_update u s) = fds s"
    "fds (nextpid_update v s) = fds s" "fds (curproc_update w s) = fds s"
  by (simp_all add: fds_def upd_inode_def upd_data_def upd_buf_def)

lemma fds_upd_proc [simp]:
  "(\<And>p. p_ofile (g p) = p_ofile p \<and> p_state (g p) = p_state p) \<Longrightarrow> fds (upd_proc i g s) = fds s"
  by (auto simp: fds_def upd_proc_def)

lemma fds_upd_file [simp]:
  fixes s :: "'a kernel_scheme"
  shows "(\<And>x. f_ref (g x) = f_ref x \<and> f_type (g x) = f_type x) \<Longrightarrow> fds (upd_file f g s) = fds s"
  by (auto simp: fds_def upd_file_def)

lemma fds_setupsegs [simp]: "fds (setupsegs_of p s) = fds s"
  by (simp add: setupsegs_of_def)

subsection \<open>The file system\<close>

lemma trans_fsframe [fsframe]:
  fixes s s' :: "'a fs_state_scheme"
  shows "end_trans s = Ret s' \<Longrightarrow> fs_state.more s' = fs_state.more s"
  "jfull_flush s = Ret s' \<Longrightarrow> fs_state.more s' = fs_state.more s"
  by (auto intro!: fs_more_of_bio dest: frame)

lemma balloc_loop_fsframe: "balloc_loop k b sb dev s = Ret (r, s') \<Longrightarrow> fs_state.more s' = fs_state.more s"
  by (induction k arbitrary: b s) (auto split: if_splits option.splits dest!: fsframe)

lemma balloc_fsframe [fsframe]: "balloc dev s = Ret (r, s') \<Longrightarrow> fs_state.more s' = fs_state.more s"
  by (auto simp: balloc_def simp del: balloc_loop.simps dest!: balloc_loop_fsframe fsframe)

lemma inode_fsframe [fsframe]:
  "iget dev inum s = Ret (ip, s') \<Longrightarrow> fs_state.more s' = fs_state.more s"
  "idup ip s = (jp, s') \<Longrightarrow> fs_state.more s' = fs_state.more s"
  "ilock p s = Ret s' \<Longrightarrow> fs_state.more s' = fs_state.more s"
  "iunlock p s = Ret s' \<Longrightarrow> fs_state.more s' = fs_state.more s"
  "iunlockput ip s = Ret s' \<Longrightarrow> fs_state.more s' = fs_state.more s"
proof -
  show un: "iunlock p s = Ret s' \<Longrightarrow> fs_state.more s' = fs_state.more s" for s p s'
    by (auto simp: iunlock_def split: option.splits if_splits)
  show "iunlockput ip s = Ret s' \<Longrightarrow> fs_state.more s' = fs_state.more s"
    by (auto simp: iunlockput_def dest!: un iput_fsframe)
qed (auto simp: iget_def idup_def ilock_def Let_def split: option.splits if_splits dest!: fsframe)

lemma bmap_fsframe [fsframe]:
  "bmap_entry dev addr loc alloc s = Ret (r, s') \<Longrightarrow> fs_state.more s' = fs_state.more s"
  "bmap_slot ip k alloc s = Ret (r, s') \<Longrightarrow> fs_state.more s' = fs_state.more s"
  by (auto simp: bmap_entry_def bmap_slot_def Let_def split: if_splits dest!: fsframe)

lemma bmap_whole_fsframe [fsframe]: "bmap ip bn alloc s = Ret (r, s') \<Longrightarrow> fs_state.more s' = fs_state.more s"
  by (auto simp: bmap_def Let_def split: if_splits option.splits dest!: fsframe)

lemma chunk_left: "tot < n \<Longrightarrow> unat n - unat (tot + chunk off tot n) < unat n - unat tot"
  using chunk_progress [of tot n off] by linarith

lemma readi_loop_fsframe [fsframe]: "readi_loop ip off tot n s = Ret (cs, s') \<Longrightarrow> fs_state.more s' = fs_state.more s"
proof (induction "unat n - unat tot" arbitrary: off tot s cs rule: less_induct)
  case less
  show ?case
    using less.prems
    by (subst (asm) readi_loop.simps)
      (auto simp: Let_def split: if_splits dest!: less.hyps [OF chunk_left, rotated] fsframe)
qed

lemma writei_loop_fsframe [fsframe]: "writei_loop ip src off tot n s = Ret (off', s') \<Longrightarrow> fs_state.more s' = fs_state.more s"
proof (induction "unat n - unat tot" arbitrary: src off tot s rule: less_induct)
  case less
  show ?case
    using less.prems
    by (subst (asm) writei_loop.simps)
      (auto simp: Let_def split: if_splits dest!: less.hyps [OF chunk_left, rotated] fsframe)
qed

lemma dirlookup_loop_fsframe: "dirlookup_loop k off dp name s = Ret (r, s') \<Longrightarrow> fs_state.more s' = fs_state.more s"
  by (induction k arbitrary: off s) (auto simp: Let_def split: if_splits option.splits dest!: fsframe)

lemma dirlookup_fsframe [fsframe]: "dirlookup dp name s = Ret (r, s') \<Longrightarrow> fs_state.more s' = fs_state.more s"
  by (auto simp: dirlookup_def simp del: dirlookup_loop.simps split: if_splits dest: dirlookup_loop_fsframe)

lemma namei_loop_fsframe [fsframe]: "namei_loop parent ip path nm s = Ret (r, s') \<Longrightarrow> fs_state.more s' = fs_state.more s"
proof (induction path arbitrary: parent ip nm s rule: length_induct)
  case (1 path)
  then have IH: "\<exists>name. skipelem path = Some (name, rest) \<Longrightarrow> namei_loop parent ip rest nm s = Ret (r, s') \<Longrightarrow> fs_state.more s' = fs_state.more s"
    for rest parent ip nm and s :: "'a fs_state_scheme" using skipelem_length by blast
  show ?case using 1(2)
    by (subst (asm) namei_loop.simps) (auto split: if_splits option.splits dest!: IH [rotated] fsframe)
qed

lemma namei_fsframe [fsframe]:
  "namei cwd path s = Ret (r, s') \<Longrightarrow> fs_state.more s' = fs_state.more s"
  "nameiparent cwd path s = Ret (q, s') \<Longrightarrow> fs_state.more s' = fs_state.more s"
  by (auto simp: namei_def nameiparent_def namei_start_def split: if_splits option.splits prod.splits dest!: fsframe)

lemma icreate_loop_fsframe: "icreate_loop k inum sb dev di s = Ret (ip, s') \<Longrightarrow> fs_state.more s' = fs_state.more s"
  by (induction k arbitrary: inum s) (auto split: if_splits dest!: fsframe)

lemma icreate_fsframe [fsframe]: "icreate dev type major minor nlink s = Ret (ip, s') \<Longrightarrow> fs_state.more s' = fs_state.more s"
  by (auto simp: icreate_def simp del: icreate_loop.simps dest!: icreate_loop_fsframe fsframe)

lemmas fs_fds = fsframe [THEN fds_of_fs]

lemma add_nlink_fds [simp]: "fds (add_nlink ip d s) = fds s"
  by (simp add: add_nlink_def)

lemma commit_fds [fdframe]: "commit_ret v s = Ret (r, s') \<Longrightarrow> r = v \<and> fds s' = fds s"
  by (auto simp: commit_ret_def dest!: fs_fds)

lemma alloc_fds [fdframe]:
  "kalloc_st n s = Ret (p, s') \<Longrightarrow> fds s' = fds s" "kfree_st q n s = Ret s' \<Longrightarrow> fds s' = fds s"
  by (auto simp: kalloc_st_def kfree_st_def split: option.splits)

section \<open>Devices\<close>

text \<open>A device may do what it likes with its own state, but it leaves the files and the processes' descriptors alone.\<close>

locale file_devices =
  fixes dv :: "('a kernel_scheme) devsw"
  assumes read_fds: "devread dv k = Some f \<Longrightarrow> f ip n s = Ret (r, cs, s') \<Longrightarrow> fds s' = fds s"
    and write_fds: "devwrite dv k = Some g \<Longrightarrow> g ip src s = Ret (v, s') \<Longrightarrow> fds s' = fds s"
begin

lemma readi_fds: "readi dv ip off n s = Ret (r, cs, s') \<Longrightarrow> fds s' = fds s"
  by (auto simp: readi_def Let_def split: if_splits option.splits dest!: read_fds fs_fds)

lemma writei_fds: "writei dv ip src off n s = Ret (r, s') \<Longrightarrow> fds s' = fds s"
  by (auto simp: writei_def Let_def split: if_splits option.splits dest!: write_fds fs_fds)

lemma dirlink_scan_fds: "dirlink_scan k dv off dp s = Ret (r, s') \<Longrightarrow> fds s' = fds s"
  by (induction k arbitrary: off s) (auto split: if_splits dest!: readi_fds)

lemma dirlink_fds: "dirlink dv dp name ino s = Ret (r, s') \<Longrightarrow> fds s' = fds s"
  by (auto simp: dirlink_def simp del: dirlink_scan.simps split: option.splits if_splits dest!: dirlink_scan_fds writei_fds fs_fds)

lemma isdirempty_loop_fds: "isdirempty_loop k dv off dp s = Ret (r, s') \<Longrightarrow> fds s' = fds s"
  by (induction k arbitrary: off s) (auto split: if_splits dest!: readi_fds)

lemma isdirempty_fds: "isdirempty dv dp s = Ret (r, s') \<Longrightarrow> fds s' = fds s"
  by (auto simp: isdirempty_def simp del: isdirempty_loop.simps dest!: isdirempty_loop_fds)

lemma create_dots_fds: "create_dots dv dp ip s = Ret s' \<Longrightarrow> fds s' = fds s"
  by (auto simp: create_dots_def split: if_splits dest!: dirlink_fds fs_fds)

lemma create_new_fds: "create_new dv dp name type major minor s = Ret (r, s') \<Longrightarrow> fds s' = fds s"
  by (auto simp: create_new_def split: if_splits dest!: create_dots_fds dirlink_fds fs_fds)

lemma create_fds: "create dv cwd path canexist type major minor s = Ret (r, s') \<Longrightarrow> fds s' = fds s"
  by (auto simp: create_def Let_def split: if_splits option.splits dest!: create_new_fds fs_fds)

lemma open_inode_fds: "open_inode dv cwd path omode s = Ret (r, s') \<Longrightarrow> fds s' = fds s"
  by (auto simp: open_inode_def split: if_splits option.splits dest!: create_fds fs_fds)

lemma link_fds: "sys_link dv me s = Ret (r, s') \<Longrightarrow> fds s' = fds s"
  by (auto simp: sys_link_def link_bad_def split: if_splits option.splits dest!: dirlink_fds fs_fds fdframe)

lemma unlink_fds: "sys_unlink dv me s = Ret (r, s') \<Longrightarrow> fds s' = fds s"
  by (auto simp: sys_unlink_def unlink_entry_def unlink_drop_def split: if_splits option.splits
    dest!: isdirempty_fds writei_fds fs_fds fdframe)

lemma mknod_fds: "sys_mknod dv me s = Ret (r, s') \<Longrightarrow> fds s' = fds s"
  by (auto simp: sys_mknod_def split: option.splits dest!: create_fds fs_fds fdframe)

lemma mkdir_fds: "sys_mkdir dv me s = Ret (r, s') \<Longrightarrow> fds s' = fds s"
  by (auto simp: sys_mkdir_def split: option.splits dest!: create_fds fs_fds fdframe)

lemma fileread_fds: "fileread dv killed f n s = Ret (r, cs, s') \<Longrightarrow> fds s' = fds s"
  by (auto simp: fileread_def Let_def split: if_splits fdtype.splits pipe_end.splits prod.splits dest!: readi_fds fs_fds)

lemma filewrite_fds: "filewrite dv killed f src n s = Ret (r, s') \<Longrightarrow> fds s' = fds s"
  by (auto simp: filewrite_def Let_def split: if_splits fdtype.splits pipe_end.splits prod.splits dest!: writei_fds fs_fds)

lemma sys_read_fds: "sys_read dv me s = Ret (r, s') \<Longrightarrow> fds s' = fds s"
  by (auto simp: sys_read_def split: option.splits dest!: fileread_fds)

lemma sys_write_fds: "sys_write dv me s = Ret (r, s') \<Longrightarrow> fds s' = fds s"
  by (auto simp: sys_write_def split: option.splits dest!: filewrite_fds fdframe)

lemma exec_size_fds: "exec_size k dv ip off sz s = Ret (r, s') \<Longrightarrow> fds s' = fds s"
  by (induction k arbitrary: off sz s) (auto simp: Let_def split: if_splits dest!: readi_fds)

lemma exec_load_fds: "exec_load k dv ip off m sz s = Ret (r, s') \<Longrightarrow> fds s' = fds s"
  by (induction k arbitrary: off s) (auto simp: Let_def split: if_splits dest!: readi_fds)

lemma exec_fds: "exec dv me path argv s = Ret (r, s') \<Longrightarrow> fds s' = fds s"
proof -
  have bad: "exec_bad m sz ip s = Ret (r, s') \<Longrightarrow> fds s' = fds s" for m sz ip s s' r
    by (auto simp: exec_bad_def split: if_splits dest!: fs_fds fdframe)
  have commit: "exec_commit me path argv e m sz argp s = Ret (r, s') \<Longrightarrow> fds s' = fds s" for e m sz argp s s' r
    by (auto simp: exec_commit_def Let_def split: option.splits dest!: fdframe)
  have "exec_image dv me path argv ip elf s = Ret (r, s') \<Longrightarrow> fds s' = fds s" for ip elf s s' r
    by (auto simp: exec_image_def Let_def split: option.splits if_splits dest!: bad commit exec_size_fds exec_load_fds fs_fds fdframe)
  then show "exec dv me path argv s = Ret (r, s') \<Longrightarrow> fds s' = fds s"
    by (auto simp: exec_def Let_def split: option.splits if_splits dest!: bad readi_fds fs_fds)
qed

lemma sys_exec_fds: "sys_exec dv me s = Ret (r, s') \<Longrightarrow> fds s' = fds s"
  by (auto simp: sys_exec_def split: option.splits dest!: exec_fds)

end

lemma sys_chdir_fds: "sys_chdir me s = Ret (r, s') \<Longrightarrow> fds s' = fds s"
  by (auto simp: sys_chdir_def split: option.splits if_splits dest!: fs_fds fdframe)

lemma sys_fstat_fds: "sys_fstat me s = Ret (r, s') \<Longrightarrow> fds s' = fds s"
  by (auto simp: sys_fstat_def filestat_def Let_def split: option.splits if_splits dest!: fs_fds)

section \<open>Counting references\<close>

definition fd_refs :: "'a kernel_scheme \<Rightarrow> nat \<Rightarrow> (nat \<times> nat) set" where
  "fd_refs s f = {(i, fd). i < NPROC \<and> fd < NOFILE \<and> p_ofile (ptable s i) fd = Some f}"

definition idle :: "procstate \<Rightarrow> bool" where
  "idle st \<longleftrightarrow> st = UNUSED \<or> st = ZOMBIE"

text \<open>
  In the middle of a call the counts differ from the descriptors by \<open>e\<close>, the references the kernel code itself
  holds.  Unused entries and zombies have no descriptors.
\<close>

definition fd_inv :: "(nat \<Rightarrow> int) \<Rightarrow> 'a kernel_scheme \<Rightarrow> bool" where
  "fd_inv e s \<longleftrightarrow> ftable_ok s \<and> (\<forall>f. f_ref (ftable s f) = int (card (fd_refs s f)) + e f)
     \<and> (\<forall>i < NPROC. idle (p_state (ptable s i)) \<longrightarrow> (\<forall>fd < NOFILE. p_ofile (ptable s i) fd = None))"

definition bump :: "nat \<Rightarrow> int \<Rightarrow> (nat \<Rightarrow> int) \<Rightarrow> nat \<Rightarrow> int" where
  "bump f d e = e(f := e f + d)"

lemma bump_cancel [simp]: "bump f 1 (bump f (-1) e) = e" "bump f (-1) (bump f 1 e) = e"
  by (auto simp: bump_def)

lemma bump_commute: "bump f d (bump g c e) = bump g c (bump f d e)"
  by (auto simp: bump_def fun_eq_iff)

lemma fd_inv_fds: "fds s' = fds s \<Longrightarrow> fd_inv e s' = fd_inv e s"
  by (auto simp: fds_def fd_inv_def ftable_ok_def fd_refs_def fun_eq_iff)

lemma finite_fd_refs [simp]: "finite (fd_refs s f)"
  by (rule finite_subset [of _ "{..<NPROC} \<times> {..<NOFILE}"]) (auto simp: fd_refs_def)

lemma fd_refs_ftable [simp]:
  fixes s :: "'a kernel_scheme"
  shows "fd_refs (upd_file f g s) = fd_refs s"
  by (auto simp: fd_refs_def upd_file_def)

subsection \<open>One descriptor and one file\<close>

definition put_fd :: "nat \<Rightarrow> nat \<Rightarrow> nat option \<Rightarrow> 'a kernel_scheme \<Rightarrow> 'a kernel_scheme" where
  "put_fd i fd v s = upd_proc i (\<lambda>p. p\<lparr>p_ofile := (p_ofile p)(fd := v)\<rparr>) s"

lemma ftable_ok_put_fd [simp]: "ftable_ok (put_fd i fd v s) = ftable_ok s"
  by (simp add: ftable_ok_def put_fd_def upd_proc_def)

lemma card_put_fd:
  assumes "i < NPROC" "fd < NOFILE"
  shows "int (card (fd_refs (put_fd i fd v s) f))
    = int (card (fd_refs s f)) - of_bool (p_ofile (ptable s i) fd = Some f) + of_bool (v = Some f)"
proof -
  let ?A = "fd_refs s f - {(i, fd)}"
  have eq: "fd_refs (put_fd i fd v s) f = (if v = Some f then insert (i, fd) ?A else ?A)"
    using assms by (auto simp: fd_refs_def put_fd_def upd_proc_def split: if_splits)
  have A: "int (card ?A) = int (card (fd_refs s f)) - of_bool (p_ofile (ptable s i) fd = Some f)"
  proof (cases "(i, fd) \<in> fd_refs s f")
    case True
    then have "card (fd_refs s f) = Suc (card ?A)" by (intro card.remove) simp_all
    then show ?thesis using True by (simp add: fd_refs_def)
  next
    case False
    then show ?thesis using assms by (simp add: fd_refs_def)
  qed
  have "card (insert (i, fd) ?A) = Suc (card ?A)" by (intro card_insert_disjoint) auto
  then have "int (card (if v = Some f then insert (i, fd) ?A else ?A)) = int (card ?A) + of_bool (v = Some f)"
    by (cases "v = Some f") (simp_all only: if_True if_False of_bool_eq of_nat_Suc, simp_all)
  then show ?thesis unfolding eq A [symmetric] .
qed

lemma put_fd_inv:
  assumes "fd_inv e s" "i < NPROC" "fd < NOFILE" "\<not> idle (p_state (ptable s i))"
  shows "fd_inv (\<lambda>f. e f + of_bool (p_ofile (ptable s i) fd = Some f) - of_bool (v = Some f)) (put_fd i fd v s)"
  unfolding fd_inv_def
proof (intro conjI allI impI)
  show "ftable_ok (put_fd i fd v s)" using assms(1) by (simp add: fd_inv_def)
  show "f_ref (ftable (put_fd i fd v s) f) = int (card (fd_refs (put_fd i fd v s) f))
      + (e f + of_bool (p_ofile (ptable s i) fd = Some f) - of_bool (v = Some f))" for f
    unfolding card_put_fd [OF assms(2,3)] using assms(1) by (simp add: fd_inv_def put_fd_def upd_proc_def)
qed (use assms in \<open>auto simp: fd_inv_def put_fd_def upd_proc_def split: if_splits\<close>)

lemma clear_fd_inv:
  assumes "fd_inv e s" "i < NPROC" "fd < NOFILE" "\<not> idle (p_state (ptable s i))" "p_ofile (ptable s i) fd = Some f"
  shows "fd_inv (bump f 1 e) (put_fd i fd None s)"
proof -
  have "bump f 1 e = (\<lambda>g. e g + of_bool (p_ofile (ptable s i) fd = Some g) - of_bool (None = Some g))"
    using assms(5) by (auto simp: bump_def fun_eq_iff)
  then show ?thesis using put_fd_inv [OF assms(1-4), of None] by simp
qed

lemma fill_fd_inv:
  assumes "fd_inv e s" "i < NPROC" "fd < NOFILE" "\<not> idle (p_state (ptable s i))" "p_ofile (ptable s i) fd = None"
  shows "fd_inv (bump f (-1) e) (put_fd i fd (Some f) s)"
proof -
  have "bump f (-1) e = (\<lambda>g. e g + of_bool (p_ofile (ptable s i) fd = Some g) - of_bool (Some f = Some g))"
    using assms(5) by (auto simp: bump_def fun_eq_iff)
  then show ?thesis using put_fd_inv [OF assms(1-4), of "Some f"] by simp
qed

lemma fdalloc_inv:
  assumes "fd_inv e s" "me < NPROC" "\<not> idle (p_state (ptable s me))" "fdalloc me f s = (r, s')"
  shows "(case r of None \<Rightarrow> s' = s | Some fd \<Rightarrow> fd < NOFILE \<and> p_ofile (ptable s me) fd = None \<and> s' = put_fd me fd (Some f) s
    \<and> fd_inv (bump f (-1) e) s')"
proof (cases r)
  case (Some fd)
  then have "fd < NOFILE" "p_ofile (ptable s me) fd = None" "s' = put_fd me fd (Some f) s"
    using assms(4) by (auto simp: fdalloc_def put_fd_def find_Some_iff split: option.splits)
  then show ?thesis using fill_fd_inv [OF assms(1,2) _ assms(3)] Some by simp
qed (use assms(4) in \<open>auto simp: fdalloc_def split: option.splits\<close>)

lemma upd_file_inv:
  fixes s :: "'a kernel_scheme"
  assumes "fd_inv e s" "f_ref (g (ftable s f)) = f_ref (ftable s f) + d"
    "if f_type (g (ftable s f)) = FD_CLOSED then f_ref (g (ftable s f)) = 0 else 0 < f_ref (g (ftable s f))"
  shows "fd_inv (bump f d e) (upd_file f g s)"
  using assms by (auto simp: fd_inv_def ftable_ok_def bump_def) (auto simp: upd_file_def split: if_splits)

lemma filealloc_inv:
  assumes "fd_inv e s" "filealloc s = (Some f, s')"
  shows "fd_inv (bump f 1 e) s' \<and> ptable s' = ptable s \<and> f_type (ftable s' f) = FD_NONE"
proof -
  have s': "s' = upd_file f (\<lambda>x. x\<lparr>f_type := FD_NONE, f_ref := 1\<rparr>) s" and "f_type (ftable s f) = FD_CLOSED"
    using assms(2) by (auto simp: filealloc_def find_Some_iff split: option.splits)
  moreover from this(2) have "f_ref (ftable s f) = 0" using assms(1) unfolding fd_inv_def ftable_ok_def by metis
  ultimately show ?thesis
    using upd_file_inv [OF assms(1), of "\<lambda>x. x\<lparr>f_type := FD_NONE, f_ref := 1\<rparr>" f 1] by (simp add: upd_file_def)
qed

lemma filedup_inv:
  assumes "fd_inv e s" "filedup f s = Ret (g, s')"
  shows "g = f \<and> fd_inv (bump f 1 e) s' \<and> ptable s' = ptable s"
proof -
  have s': "g = f" "s' = upd_file f (\<lambda>x. x\<lparr>f_ref := f_ref x + 1\<rparr>) s" "f_type (ftable s f) \<noteq> FD_CLOSED" "1 \<le> f_ref (ftable s f)"
    using assms(2) by (auto simp: filedup_def split: if_splits)
  then show ?thesis using upd_file_inv [OF assms(1), of "\<lambda>x. x\<lparr>f_ref := f_ref x + 1\<rparr>" f 1] by (simp add: upd_file_def)
qed

lemma pipeclose_fds: "pipeclose p w s = Ret s' \<Longrightarrow> fds s' = fds s"
  by (auto simp: pipeclose_def Let_def split: prod.splits if_splits dest!: fdframe)

lemma fileclose_inv:
  assumes "fd_inv e s" "fileclose f s = Ret s'"
  shows "fd_inv (bump f (-1) e) s' \<and> ptable s' = ptable s"
proof
  show "ptable s' = ptable s" by (rule kernel_of_more, rule fileclose_frame, rule assms(2))
  have f: "f_type (ftable s f) \<noteq> FD_CLOSED" "1 \<le> f_ref (ftable s f)" using assms(2) by (auto simp: fileclose_def split: if_splits)
  show "fd_inv (bump f (-1) e) s'"
  proof (cases "f_ref (ftable s f) = 1")
    case True
    have "fds s' = fds (upd_file f (\<lambda>x. x\<lparr>f_ref := 0, f_type := FD_CLOSED\<rparr>) (upd_file f (\<lambda>x. x\<lparr>f_ref := f_ref x - 1\<rparr>) s))"
      using assms(2) f True by (auto simp: fileclose_def Let_def upd_file_def split: if_splits fdtype.splits dest!: pipeclose_fds fs_fds)
    also have "\<dots> = fds (upd_file f (\<lambda>x. x\<lparr>f_ref := 0, f_type := FD_CLOSED\<rparr>) s)" by (simp add: upd_file_def)
    finally show ?thesis
      using upd_file_inv [OF assms(1), of "\<lambda>x. x\<lparr>f_ref := 0, f_type := FD_CLOSED\<rparr>" f "-1"] True fd_inv_fds by auto
  next
    case False
    then have "s' = upd_file f (\<lambda>x. x\<lparr>f_ref := f_ref x - 1\<rparr>) s"
      using assms(2) f by (auto simp: fileclose_def Let_def upd_file_def split: if_splits)
    then show ?thesis using upd_file_inv [OF assms(1), of "\<lambda>x. x\<lparr>f_ref := f_ref x - 1\<rparr>" f "-1"] f False by auto
  qed
qed

subsection \<open>System calls\<close>

definition running :: "nat \<Rightarrow> 'a kernel_scheme \<Rightarrow> bool" where
  "running me s \<longleftrightarrow> me < NPROC \<and> \<not> idle (p_state (ptable s me))"

lemma running_table: "ptable s' = ptable s \<Longrightarrow> running me s' = running me s"
  by (simp add: running_def)

lemma running_put_fd [simp]: "running me (put_fd i fd v s) = running me s"
  by (simp add: running_def put_fd_def upd_proc_def)

lemma running_fds: "fds s' = fds s \<Longrightarrow> running me s' = running me s"
  by (auto simp: fds_def running_def fun_eq_iff)

lemma fds_ftable: "fds s' = fds s \<Longrightarrow> f_type (ftable s' f) = f_type (ftable s f)"
  by (auto simp: fds_def fun_eq_iff)

lemma fds_state: "fds s' = fds s \<Longrightarrow> p_state (ptable s' i) = p_state (ptable s i)"
  by (auto simp: fds_def fun_eq_iff)

lemma sint_nonneg_unat: "0 \<le> sint v \<Longrightarrow> int (unat v) = sint v" for v :: uint
  using sint_less [of v] uint_sint [of v] by (simp add: take_bit_int_eq_self)

lemma argfd_open:
  assumes "argfd me n s = Some (fd, f)" shows "fd < NOFILE \<and> p_ofile (ptable s me) fd = Some f"
proof -
  obtain v where "argint me n s = Some v" "\<not> sint v < 0" "sint v < int NOFILE" "fd = unat v" "p_ofile (ptable s me) fd = Some f"
    using assms by (auto simp: argfd_def split: option.splits if_splits)
  moreover from this have "int (unat v) = sint v" by (simp only: sint_nonneg_unat not_less)
  ultimately show ?thesis by (metis of_nat_less_iff)
qed

lemma commit_inv: "commit_ret v s = Ret (r, s') \<Longrightarrow> fd_inv e s \<Longrightarrow> fd_inv e s'"
  using fd_inv_fds commit_fds by metis

lemma sys_dup_inv:
  assumes inv: "fd_inv e s" and run: "running me s" and "sys_dup me s = Ret (r, s')"
  shows "fd_inv e s'"
proof (cases "argfd me 0 s")
  case (Some a)
  obtain fd f where a: "a = (fd, f)" by (cases a)
  obtain q s1 where q: "fdalloc me f s = (q, s1)" by (cases "fdalloc me f s")
  note alloc = fdalloc_inv [OF inv _ _ q] run [unfolded running_def]
  show ?thesis
  proof (cases q)
    case None
    then have "commit_ret (-1) s = Ret (r, s')" using assms(3) Some a q alloc by (simp add: sys_dup_def)
    then show ?thesis using inv by (rule commit_inv)
  next
    case (Some fd')
    then have "fd_inv (bump f (-1) e) s1" using alloc by auto
    moreover obtain s2 where "filedup f s1 = Ret (f, s2)" "commit_ret (int fd') s2 = Ret (r, s')"
      using assms(3) Some a q \<open>argfd me 0 s = Some a\<close> by (auto simp: sys_dup_def filedup_def split: if_splits)
    ultimately show ?thesis using filedup_inv [of "bump f (-1) e" s1 f f s2] by (auto intro: commit_inv)
  qed
qed (use assms in \<open>simp add: sys_dup_def\<close>)

lemma sys_close_inv:
  assumes inv: "fd_inv e s" and run: "running me s" and "sys_close me s = Ret (r, s')"
  shows "fd_inv e s'"
proof (cases "argfd me 0 s")
  case (Some a)
  obtain fd f where a: "a = (fd, f)" by (cases a)
  then obtain s1 where s1: "fileclose f (put_fd me fd None s) = Ret s1" "commit_ret 0 s1 = Ret (r, s')"
    using assms(3) Some by (auto simp: sys_close_def put_fd_def)
  have "fd_inv (bump f 1 e) (put_fd me fd None s)"
    using inv run argfd_open [of me 0 s fd f] Some a by (intro clear_fd_inv) (auto simp: running_def)
  then show ?thesis using fileclose_inv [OF _ s1(1)] commit_inv [OF s1(2)] by fastforce
qed (use assms in \<open>simp add: sys_close_def\<close>)

lemma set_type_inv:
  fixes s :: "'a kernel_scheme"
  assumes "fd_inv e s" "f_type (ftable s f) \<noteq> FD_CLOSED" "\<And>x. f_ref (g x) = f_ref x \<and> f_type (g x) \<noteq> FD_CLOSED"
  shows "fd_inv e (upd_file f g s)"
proof -
  have "0 < f_ref (ftable s f)" using assms(1,2) unfolding fd_inv_def ftable_ok_def by metis
  then show ?thesis using upd_file_inv [OF assms(1), of g f 0] assms(3) by (simp add: bump_def)
qed

lemma sys_open_inv:
  fixes s :: "'a kernel_scheme"
  assumes dv: "file_devices dv" and inv: "fd_inv e s" and run: "running me s" and "sys_open dv me s = Ret (r, s')"
  shows "fd_inv e s'"
proof -
  consider "s' = s" | path omode ip s1 where "open_inode dv (cwd_of me s) path omode s = Ret (ip, s1)"
      "argstr me 0 s = Some path" "argint me 1 s = Some omode"
    using assms(4) by (auto simp: sys_open_def split: option.splits)
  then show ?thesis
  proof cases
    case 2
    have s1: "fds s1 = fds s" using file_devices.open_inode_fds [OF dv 2(1)] .
    then have inv1: "fd_inv e s1" and run1: "running me s1" using inv run fd_inv_fds running_fds by metis+
    obtain f s2 where f: "filealloc s1 = (f, s2)" by (cases "filealloc s1")
    show ?thesis
    proof (cases "ip = None \<or> f = None")
      case True
      then have "fds s' = fds s1"
        using assms(4) 2 f by (auto simp: sys_open_def filealloc_def split: option.splits dest!: fs_fds fdframe)
      then show ?thesis using inv1 fd_inv_fds by metis
    next
      case False
      then obtain i fl where some: "ip = Some i" "f = Some fl" by auto
      note a = filealloc_inv [OF inv1, of fl s2] f
      then have inv2: "fd_inv (bump fl 1 e) s2" "running me s2" "f_type (ftable s2 fl) = FD_NONE" using some run1 running_table by auto
      obtain d s3 where d: "fdalloc me fl s2 = (d, s3)" by (cases "fdalloc me fl s2")
      note b = fdalloc_inv [OF inv2(1) _ _ d] inv2(2) [unfolded running_def]
      show ?thesis
      proof (cases d)
        case None
        then obtain s4 where "fileclose fl s2 = Ret s4" "fds s' = fds s4"
          using assms(4) 2 f some d b by (auto simp: sys_open_def dest!: fs_fds fdframe)
        then show ?thesis using fileclose_inv [OF inv2(1)] fd_inv_fds by fastforce
      next
        case (Some fd)
        then have inv3: "fd_inv e s3" "f_type (ftable s3 fl) = FD_NONE" using b inv2(3) by (auto simp: put_fd_def upd_proc_def)
        obtain s4 where "iunlock (Some i) s3 = Ret s4" "commit_ret (int fd) (upd_file fl (open_file_of i omode) s4) = Ret (r, s')"
          using assms(4) 2 f some d Some by (auto simp: sys_open_def)
        then have s4: "fds s4 = fds s3" "fds s' = fds (upd_file fl (open_file_of i omode) s4)" by (auto dest!: fs_fds fdframe)
        then have "fd_inv e (upd_file fl (open_file_of i omode) s4)"
          using inv3 fd_inv_fds [of s4 s3] fds_ftable [of s4 s3] by (intro set_type_inv) (auto simp: open_file_of_def)
        then show ?thesis using s4(2) fd_inv_fds by metis
      qed
    qed
  qed (use inv in simp)
qed

lemma pipealloc_bad_panics:
  "f_ref (ftable s i) = 1 \<Longrightarrow> pipealloc_bad (Some i) f s = Panic ''fileclose''"
  by (simp add: pipealloc_bad_def pipealloc_close_def fileclose_fresh upd_file_def)

lemma pipealloc_inv:
  fixes s :: "'a kernel_scheme"
  assumes inv: "fd_inv e s" and "pipealloc s = Ret (r, f0, f1, s')"
  shows "f0 = None \<and> s' = s \<or> (\<exists>i j. f0 = Some i \<and> f1 = Some j \<and> r = 0 \<and> fd_inv (bump j 1 (bump i 1 e)) s' \<and> ptable s' = ptable s)"
proof -
  obtain g0 s1 where a0: "filealloc s = (g0, s1)" by (cases "filealloc s")
  show ?thesis
  proof (cases g0)
    case None
    then show ?thesis using assms(2) a0 by (auto simp: pipealloc_def pipealloc_bad_def pipealloc_close_def filealloc_def split: option.splits)
  next
    case (Some i)
    note i = filealloc_inv [OF inv a0 [unfolded Some]]
    have one: "f_ref (ftable s1 i) = 1" using a0 Some by (auto simp: filealloc_def upd_file_def split: option.splits)
    obtain g1 s2 where a1: "filealloc s1 = (g1, s2)" by (cases "filealloc s1")
    show ?thesis
    proof (cases g1)
      case None
      then have "s2 = s1" using a1 by (auto simp: filealloc_def split: option.splits)
      then show ?thesis using assms(2) a0 a1 None Some pipealloc_bad_panics [OF one] by (simp add: pipealloc_def)
    next
      case j: (Some j)
      note j' = filealloc_inv [of "bump i 1 e", OF _ a1 [unfolded j]]
      have one2: "f_ref (ftable s2 i) = 1" using a1 j one by (auto simp: filealloc_def upd_file_def split: option.splits)
      have ne: "f_type (ftable s2 i) \<noteq> FD_CLOSED"
        using a1 j i by (auto simp: filealloc_def upd_file_def split: option.splits if_splits)
      obtain p s3 where p: "kalloc_st PAGE s2 = Ret (p, s3)" using assms(2) a0 a1 j Some
        by (auto simp: pipealloc_def)
      have s3: "ftable s3 = ftable s2" "ptable s3 = ptable s2"
        using p by (auto simp: kalloc_st_def split: option.splits)
      have "p \<noteq> 0"
      proof
        assume "p = 0"
        then show False using assms(2) a0 a1 j Some p one2 s3 by (simp add: pipealloc_def pipealloc_bad_panics)
      qed
      then have s': "s' = set_pipe_file j 0 1 p (set_pipe_file i 1 0 p (s3\<lparr>pipes := (pipes s3)(p := pipe_init (pipes s3 p))\<rparr>))"
        "f0 = Some i" "f1 = Some j" "r = 0"
        using assms(2) a0 a1 j Some p by (auto simp: pipealloc_def)
      have "fd_inv (bump j 1 (bump i 1 e)) (s3\<lparr>pipes := (pipes s3)(p := pipe_init (pipes s3 p))\<rparr>)"
        using j' i fd_inv_fds [OF alloc_fds(1) [OF p]] by (subst fd_inv_fds [of _ s3]) simp_all
      then have "fd_inv (bump j 1 (bump i 1 e)) s'"
        unfolding s' set_pipe_file_def by (intro set_type_inv) (use ne j' i s3 in \<open>auto simp: upd_file_def\<close>)
      moreover have "ptable s' = ptable s" using i j' s3 by (simp add: s' set_pipe_file_def upd_file_def)
      ultimately show ?thesis using s' by blast
    qed
  qed
qed

lemma sys_pipe_inv:
  assumes inv: "fd_inv e s" and run: "running me s" and "sys_pipe me s = Ret (r, s')"
  shows "fd_inv e s'"
proof -
  have close2: "fd_inv e s'" if "fd_inv (bump w 1 (bump f 1 e)) t" "obind (fileclose f t) (\<lambda>u. obind (fileclose w u) (commit_ret (-1))) = Ret (r, s')"
    for f w t using that fileclose_inv [of "bump w 1 (bump f 1 e)" t f] fileclose_inv [of "bump w 1 e" _ w]
    by (fastforce simp: bump_commute [of f "-1" w] intro: commit_inv)
  consider "s' = s" | p q f0 f1 s1 where "argptr me 0 8 s = Some p" "pipealloc s = Ret (q, f0, f1, s1)"
    using assms(3) by (auto simp: sys_pipe_def split: option.splits)
  then show ?thesis
  proof cases
    case 2
    consider "f0 = None" "s1 = s" | i j where "f0 = Some i" "f1 = Some j" "q = 0" "fd_inv (bump j 1 (bump i 1 e)) s1" "ptable s1 = ptable s"
      using pipealloc_inv [OF inv 2(2)] by blast
    then show ?thesis
    proof cases
      case 1
      then show ?thesis using assms(3) 2 inv by (auto simp: sys_pipe_def intro: commit_inv)
    next
      case ij: 2
      have run1: "running me s1" using run running_table [OF ij(5)] by simp
      obtain d0 s2 where d0: "fdalloc me i s1 = (d0, s2)" by (cases "fdalloc me i s1")
      note a0 = fdalloc_inv [OF ij(4) _ _ d0] run1 [unfolded running_def]
      show ?thesis
      proof (cases d0)
        case None
        then have "obind (fileclose i s1) (\<lambda>u. obind (fileclose j u) (commit_ret (-1))) = Ret (r, s')"
          using assms(3) 2 ij d0 a0 by (simp add: sys_pipe_def pipe_bad_def)
        then show ?thesis by (rule close2 [OF ij(4)])
      next
        case (Some fd0)
        then have s2: "fd_inv (bump j 1 e) s2" "running me s2" "fd0 < NOFILE" "p_ofile (ptable s2 me) fd0 = Some i"
          using a0 run1 by (auto simp: bump_commute [of i "-1" j], auto simp: put_fd_def upd_proc_def)
        obtain d1 s3 where d1: "fdalloc me j s2 = (d1, s3)" by (cases "fdalloc me j s2")
        note a1 = fdalloc_inv [OF s2(1) _ _ d1] s2(2) [unfolded running_def]
        show ?thesis
        proof (cases d1)
          case None
          then have "obind (fileclose i (put_fd me fd0 None s2)) (\<lambda>u. obind (fileclose j u) (commit_ret (-1))) = Ret (r, s')"
            using assms(3) 2 ij d0 Some d1 a1 by (simp add: sys_pipe_def pipe_bad_def put_fd_def)
          moreover have "fd_inv (bump i 1 (bump j 1 e)) (put_fd me fd0 None s2)"
            using s2 by (intro clear_fd_inv) (auto simp: running_def)
          ultimately show ?thesis by (intro close2 [of j i]) (simp_all add: bump_commute [of i 1 j])
        next
          case fd1: (Some fd1)
          then have "fd_inv e s3" using a1 by auto
          moreover obtain m where "commit_ret 0 (s3\<lparr>kmem := m\<rparr>) = Ret (r, s')"
            using assms(3) 2 ij d0 Some d1 fd1 by (auto simp: sys_pipe_def)
          ultimately show ?thesis using fd_inv_fds [of "s3\<lparr>kmem := m\<rparr>" s3] by (auto intro: commit_inv)
        qed
      qed
    qed
  qed (use inv in simp)
qed

subsection \<open>Processes\<close>

text \<open>Changes of the process table that leave the descriptors alone and make no process with descriptors idle.\<close>

lemma fd_inv_table:
  fixes s s' :: "'a kernel_scheme"
  assumes "fd_inv e s" "ftable s' = ftable s" "\<And>i. p_ofile (ptable s' i) = p_ofile (ptable s i)"
    and "\<And>i fd. i < NPROC \<Longrightarrow> idle (p_state (ptable s' i)) \<Longrightarrow> fd < NOFILE \<Longrightarrow> p_ofile (ptable s i) fd = None"
  shows "fd_inv e s'"
proof -
  have "ftable_ok s' = ftable_ok s" "fd_refs s' = fd_refs s"
    using assms(2,3) by (simp_all add: ftable_ok_def fd_refs_def fun_eq_iff)
  then show ?thesis using assms by (simp add: fd_inv_def)
qed

lemma idle_no_files:
  "fd_inv e s \<Longrightarrow> i < NPROC \<Longrightarrow> idle (p_state (ptable s i)) \<Longrightarrow> fd < NOFILE \<Longrightarrow> p_ofile (ptable s i) fd = None"
  by (simp add: fd_inv_def)

lemma dup_files_inv:
  assumes "fd_inv e s" "p \<noteq> np" "np < NPROC" "\<not> idle (p_state (ptable s np))" "set is \<subseteq> {..<NOFILE}" "distinct is"
    and "\<forall>i \<in> set is. p_ofile (ptable s np) i = None" "dup_files is p np s = Ret s'"
  shows "fd_inv e s' \<and> (\<forall>i. p_state (ptable s' i) = p_state (ptable s i)) \<and> (\<forall>i. p_cwd (ptable s' i) = p_cwd (ptable s i))"
  using assms
proof (induction "is" arbitrary: s)
  case (Cons i "is")
  show ?case
  proof (cases "p_ofile (ptable s p) i")
    case None
    then show ?thesis using Cons.IH [of s] Cons.prems by simp
  next
    case (Some f)
    then obtain g s1 where s1: "filedup f s = Ret (g, s1)" "dup_files is p np (put_fd np i (Some g) s1) = Ret s'"
      using Cons.prems(8) by (auto simp: put_fd_def)
    note d = filedup_inv [OF Cons.prems(1) s1(1)]
    have "fd_inv e (put_fd np i (Some g) s1)"
      using fill_fd_inv [of "bump f 1 e" s1 np i f] d Cons.prems by simp
    moreover have "\<forall>j \<in> set is. p_ofile (ptable (put_fd np i (Some g) s1) np) j = None"
      using d Cons.prems(6,7) by (auto simp: put_fd_def upd_proc_def)
    ultimately show ?thesis
      using Cons.IH [of "put_fd np i (Some g) s1"] d Cons.prems s1(2) by (auto simp: put_fd_def upd_proc_def)
  qed
qed simp

lemma kalloc_tables:
  fixes s :: "'a kernel_scheme"
  shows "kalloc_st n s = Ret (p, s') \<Longrightarrow> ftable s' = ftable s \<and> ptable s' = ptable s"
  and "kfree_st q n s = Ret s' \<Longrightarrow> ftable s' = ftable s \<and> ptable s' = ptable s"
  by (auto simp: kalloc_st_def kfree_st_def split: option.splits)

lemma allocproc_inv:
  assumes "fd_inv e s" "allocproc s = (Some np, s')"
  shows "fd_inv e s' \<and> np < NPROC \<and> idle (p_state (ptable s np)) \<and> p_state (ptable s' np) = EMBRYO
    \<and> (\<forall>fd < NOFILE. p_ofile (ptable s' np) fd = None) \<and> (\<forall>i. i \<noteq> np \<longrightarrow> ptable s' i = ptable s i)"
proof -
  have np: "np < NPROC" "p_state (ptable s np) = UNUSED"
    and s': "ftable s' = ftable s" "ptable s' = (ptable s)(np := (ptable s np)\<lparr>p_state := EMBRYO, p_pid := nextpid s, p_tctcnt := 100, p_ct := empty_trans\<rparr>)"
    using assms(2) by (auto simp: allocproc_def find_Some_iff upd_proc_def split: option.splits)
  have "fd_inv e s'"
    by (rule fd_inv_table [OF assms(1)]) (use s' idle_no_files [OF assms(1)] in \<open>auto simp: idle_def split: if_splits\<close>)
  then show ?thesis using np s' idle_no_files [OF assms(1) np(1)] by (auto simp: idle_def)
qed

lemma upd_proc_inv:
  assumes "fd_inv e s" "p_ofile (g (ptable s i)) = p_ofile (ptable s i)"
    "i < NPROC \<Longrightarrow> idle (p_state (g (ptable s i))) \<Longrightarrow> \<forall>fd < NOFILE. p_ofile (ptable s i) fd = None"
  shows "fd_inv e (upd_proc i g s)"
  by (rule fd_inv_table [OF assms(1)]) (use assms idle_no_files [OF assms(1)] in \<open>auto simp: upd_proc_def split: if_splits\<close>)

lemma copy_parent_inv:
  assumes inv: "fd_inv e s" and "p \<noteq> np" "np < NPROC" "p_state (ptable s np) = EMBRYO" "\<forall>fd < NOFILE. p_ofile (ptable s np) fd = None"
    and "copy_parent p np s = Ret (ok, s')"
  shows "fd_inv e s' \<and> (ok \<longrightarrow> p_state (ptable s' np) = EMBRYO)"
proof -
  let ?s1 = "upd_proc np (\<lambda>q. q\<lparr>p_parent := Some p, p_tf := p_tf (ptable s p), p_sz := p_sz (ptable s p)\<rparr>) s"
  obtain m s2 where k: "kalloc_st (sint (p_sz (ptable ?s1 np))) ?s1 = Ret (m, s2)"
    using assms(6) by (auto simp: copy_parent_def Let_def)
  note s2 = kalloc_tables(1) [OF k]
  have inv2: "fd_inv e s2" using inv by (subst fd_inv_fds [OF alloc_fds(1) [OF k]], subst fd_inv_fds) simp_all
  have np2: "p_state (ptable s2 np) = EMBRYO" "\<forall>fd < NOFILE. p_ofile (ptable s2 np) fd = None"
    using s2 assms(4,5) by (simp_all add: upd_proc_def)
  let ?s3 = "upd_proc np (\<lambda>q. q\<lparr>p_mem := m\<rparr>) s2"
  have inv3: "fd_inv e ?s3" using inv2 by (subst fd_inv_fds) simp_all
  show ?thesis
  proof (cases "m = 0")
    case True
    then obtain s4 where s4: "kfree_st (p_kstack (ptable ?s3 np)) PAGE ?s3 = Ret s4" "\<not> ok"
      "s' = upd_proc np (\<lambda>q. q\<lparr>p_kstack := 0, p_state := UNUSED, p_parent := None\<rparr>) s4"
      using assms(6) k by (auto simp: copy_parent_def Let_def)
    have "fd_inv e s4" using inv3 by (subst fd_inv_fds [OF alloc_fds(2) [OF s4(1)]])
    then show ?thesis unfolding s4(3) using kalloc_tables(2) [OF s4(1)] np2(2) s4(2)
      by (intro conjI upd_proc_inv) (auto simp: upd_proc_def)
  next
    case False
    let ?t = "?s3\<lparr>kmem := memmove (of_int m) (of_int (p_mem (ptable ?s3 p))) (p_sz (ptable ?s3 np)) (kmem ?s3)\<rparr>"
    obtain s4 c where s4: "dup_files [0 ..< NOFILE] p np ?t = Ret s4" "p_cwd (ptable s4 p) = Some c"
      "s' = upd_proc np (\<lambda>q. q\<lparr>p_cwd := Some c\<rparr>) (snd (idup c s4))"
      using assms(6) k False by (auto simp: copy_parent_def Let_def idup_def split: option.splits)
    have "fd_inv e s4 \<and> (\<forall>i. p_state (ptable s4 i) = p_state (ptable ?t i))"
      using dup_files_inv [OF _ assms(2,3) _ _ _ _ s4(1)] inv3 np2 fd_inv_fds [of ?t ?s3] by (simp add: upd_proc_def idle_def atLeast0LessThan)
    moreover have "fds s' = fds s4" unfolding s4(3) idup_def by simp
    ultimately show ?thesis using np2(1) fd_inv_fds [of s' s4] fds_state [of s' s4] by (simp add: upd_proc_def)
  qed
qed

lemma sys_fork_inv:
  assumes inv: "fd_inv e s" and run: "running me s" and fork: "sys_fork me s = Ret (r, s')"
  shows "fd_inv e s'"
proof -
  obtain a s1 where a: "allocproc s = (a, s1)" by (cases "allocproc s")
  show ?thesis
  proof (cases a)
    case None
    then show ?thesis using fork inv a by (auto simp: sys_fork_def copyproc_def allocproc_def split: option.splits)
  next
    case (Some np)
    note s1 = allocproc_inv [OF inv a [unfolded Some]]
    have "me \<noteq> np" using s1 run by (auto simp: running_def)
    obtain ks s2 where k: "kalloc_st PAGE s1 = Ret (ks, s2)" using fork a Some by (auto simp: sys_fork_def copyproc_def)
    note s2 = kalloc_tables(1) [OF k]
    let ?s3 = "upd_proc np (\<lambda>q. q\<lparr>p_kstack := ks\<rparr>) s2"
    have inv3: "fd_inv e ?s3"
      using s1 by (subst fd_inv_fds [of _ s2], simp, subst fd_inv_fds [OF alloc_fds(1) [OF k]]) simp
    show ?thesis
    proof (cases "ks = 0")
      case True
      then have s': "s' = upd_proc np (\<lambda>q. q\<lparr>p_state := UNUSED\<rparr>) ?s3" using fork a Some k by (auto simp: sys_fork_def copyproc_def)
      have "\<forall>fd < NOFILE. p_ofile (ptable ?s3 np) fd = None" using s1 s2 by (simp add: upd_proc_def)
      then show ?thesis unfolding s' by (intro upd_proc_inv [OF inv3]) simp_all
    next
      case False
      obtain ok s4 where c: "copy_parent me np ?s3 = Ret (ok, s4)" using fork a Some k False by (auto simp: sys_fork_def copyproc_def Let_def)
      have i4: "fd_inv e s4" "ok \<Longrightarrow> p_state (ptable s4 np) = EMBRYO"
        using copy_parent_inv [OF inv3 \<open>me \<noteq> np\<close> _ _ _ c] s1 s2 by (auto simp: upd_proc_def)
      show ?thesis
      proof (cases ok)
        case True
        then obtain c' t where "s' = upd_proc np (\<lambda>p. p\<lparr>p_state := RUNNABLE\<rparr>) (upd_proc np (\<lambda>q. q\<lparr>p_context := c', p_tf := (p_tf q)\<lparr>tf_eax := t\<rparr>\<rparr>) s4)"
          using fork a Some k False c by (auto simp: sys_fork_def copyproc_def Let_def)
        moreover have "fd_inv e (upd_proc np (\<lambda>q. q\<lparr>p_context := c', p_tf := (p_tf q)\<lparr>tf_eax := t\<rparr>\<rparr>) s4)"
          using i4(1) by (subst fd_inv_fds) simp_all
        ultimately show ?thesis by (auto intro!: upd_proc_inv simp: idle_def)
      next
        case no: False
        then show ?thesis using fork a Some k False c i4 by (auto simp: sys_fork_def copyproc_def Let_def)
      qed
    qed
  qed
qed

lemma close_files_inv:
  assumes "fd_inv e s" "running me s" "set fds' \<subseteq> {..<NOFILE}" "close_files fds' me s = Ret s'"
  shows "fd_inv e s' \<and> running me s' \<and> (\<forall>fd \<in> set fds'. p_ofile (ptable s' me) fd = None)
    \<and> (\<forall>fd. p_ofile (ptable s me) fd = None \<longrightarrow> p_ofile (ptable s' me) fd = None)"
  using assms
proof (induction fds' arbitrary: s)
  case (Cons fd fds')
  show ?case
  proof (cases "p_ofile (ptable s me) fd")
    case None
    then show ?thesis using Cons.IH [of s] Cons.prems by auto
  next
    case (Some f)
    then obtain s1 where s1: "fileclose f s = Ret s1" "close_files fds' me (put_fd me fd None s1) = Ret s'"
      using Cons.prems(4) by (auto simp: put_fd_def)
    note c = fileclose_inv [OF Cons.prems(1) s1(1)]
    have "fd_inv e (put_fd me fd None s1)"
      using clear_fd_inv [of "bump f (-1) e" s1 me fd f] c Cons.prems Some by (auto simp: running_def)
    moreover have "running me (put_fd me fd None s1)" using c Cons.prems(2) running_table [of s1 s] by simp
    ultimately show ?thesis
      using Cons.IH [of "put_fd me fd None s1"] c Cons.prems s1(2) by (auto simp: put_fd_def upd_proc_def)
  qed
qed simp

lemma wakeup1_files [simp]:
  "ftable (wakeup1 c s) = ftable s" "p_ofile (ptable (wakeup1 c s) i) = p_ofile (ptable s i)"
  "idle (p_state (ptable (wakeup1 c s) i)) = idle (p_state (ptable s i))"
  by (auto simp: wakeup1_def idle_def)

lemma reparent_files [simp]:
  "ftable (reparent is me s) = ftable s" "p_ofile (ptable (reparent is me s) i) = p_ofile (ptable s i)"
  "idle (p_state (ptable (reparent is me s) i)) = idle (p_state (ptable s i))"
  by (induction "is" arbitrary: s) (auto simp: Let_def upd_proc_def)

lemma leave_proc_files [simp]:
  "ftable (leave_proc s) = ftable s" "p_ofile (ptable (leave_proc s) i) = p_ofile (ptable s i)"
  "p_state (ptable (leave_proc s) i) = p_state (ptable s i)"
  by (auto simp: leave_proc_def Let_def setupsegs_of_def upd_proc_def split: option.splits)

text \<open>A process that is not a thread, whose parent has other memory.\<close>

lemma sys_exit_inv:
  assumes inv: "fd_inv e s" and run: "running me s" and "sys_exit me s = Ret (r, s')"
    and "p_parent (ptable s me) = Some par" "p_mem (ptable s par) \<noteq> p_mem (ptable s me)"
  shows "fd_inv e s'"
proof -
  let ?s1 = "s\<lparr>ttltcts := ttltcts s - p_tctcnt (ptable s me)\<rparr>"
  have inv1: "fd_inv e ?s1" "running me ?s1" using inv run fd_inv_fds [of ?s1 s] by (simp_all add: running_def)
  obtain s2 par2 where s2: "exit_files me ?s1 = Ret s2" "s' = leave_proc (exit_table me par2 s2)"
    using assms(3-5) by (auto simp: sys_exit_def exit_def sched_locked_def sched_def Let_def split: if_splits option.splits)
  then obtain s3 c s4 where s3: "close_files [0 ..< NOFILE] me ?s1 = Ret s3" "iput c s3 = Ret s4"
    "s2 = upd_proc me (\<lambda>p. p\<lparr>p_cwd := None\<rparr>) s4"
    by (auto simp: exit_files_def split: option.splits)
  have c: "fd_inv e s3" "\<forall>fd < NOFILE. p_ofile (ptable s3 me) fd = None"
    using close_files_inv [OF inv1 _ s3(1)] by (auto simp: atLeast0LessThan)
  have p4: "ptable s4 = ptable s3" by (rule kernel_of_more, rule iput_frame, rule s3(2))
  have "fds s2 = fds s3" unfolding s3(3) using fds_of_fs [OF iput_fsframe [OF s3(2)]] by simp
  then have inv2: "fd_inv e s2" using c(1) fd_inv_fds by metis
  have none: "\<forall>fd < NOFILE. p_ofile (ptable s2 me) fd = None" using c(2) p4 by (simp add: s3(3) upd_proc_def)
  show ?thesis unfolding s2(2) exit_table_def
    by (rule fd_inv_table [OF inv2]) (use none idle_no_files [OF inv2] in \<open>auto simp: upd_proc_def split: if_splits\<close>)
qed

lemma sys_wait_inv:
  assumes inv: "fd_inv e s" and "sys_wait me s = Ret (r, s')"
  shows "fd_inv e s'"
proof -
  consider "s' = s" | i pid where "i < NPROC" "p_state (ptable s i) = ZOMBIE" "reap me i s = Ret (pid, s')"
    using assms(2) by (auto simp: sys_wait_def wait_call_def wait_step_def find_Some_iff split: option.splits if_splits wait_result.splits)
  then show ?thesis
  proof cases
    case 2
    then obtain s2 where s2: "ftable s2 = ftable s" "ptable s2 = ptable s"
      "s' = upd_proc i (\<lambda>q. q\<lparr>p_state := UNUSED, p_pid := 0, p_parent := None, p_name := []\<rparr>) s2"
      by (auto simp: reap_def Let_def split: if_splits dest!: kalloc_tables)
    show ?thesis
      by (rule fd_inv_table [OF inv]) (use s2 2 idle_no_files [OF inv] in \<open>auto simp: upd_proc_def idle_def split: if_splits\<close>)
  qed (use inv in simp)
qed

lemma sys_kill_inv:
  assumes inv: "fd_inv e s" and "sys_kill me s = Ret (r, s')"
  shows "fd_inv e s'"
  by (rule fd_inv_table [OF inv])
    (use assms(2) idle_no_files [OF inv] in \<open>auto simp: sys_kill_def kill_def upd_proc_def idle_def split: option.splits if_splits\<close>)

section \<open>All calls\<close>

text \<open>
  The calls of running processes.  \<open>exit\<close> is the exit of a process that is not a thread: threads share the
  descriptors of their parent without counting them.
\<close>

inductive file_step :: "('a kernel_scheme) devsw \<Rightarrow> 'a kernel_scheme \<Rightarrow> 'a kernel_scheme \<Rightarrow> bool" for dv where
  step_fd: "running me s \<Longrightarrow> f \<in> {sys_dup, sys_close, sys_open dv, sys_pipe, sys_fork, sys_wait, sys_kill}
    \<Longrightarrow> f me s = Ret (r, s') \<Longrightarrow> file_step dv s s'"
| step_io: "running me s \<Longrightarrow> f \<in> {sys_read dv, sys_write dv, sys_fstat, sys_link dv, sys_unlink dv, sys_mknod dv, sys_mkdir dv,
    sys_chdir, sys_exec dv} \<Longrightarrow> f me s = Ret (r, s') \<Longrightarrow> file_step dv s s'"
| step_exit: "running me s \<Longrightarrow> p_parent (ptable s me) = Some par \<Longrightarrow> p_mem (ptable s par) \<noteq> p_mem (ptable s me)
    \<Longrightarrow> sys_exit me s = Ret (r, s') \<Longrightarrow> file_step dv s s'"

definition no_files :: "'a kernel_scheme \<Rightarrow> bool" where
  "no_files s \<longleftrightarrow> (\<forall>f. f_type (ftable s f) = FD_CLOSED \<and> f_ref (ftable s f) = 0) \<and> (\<forall>i fd. p_ofile (ptable s i) fd = None)"

context file_devices
begin

lemma io_fds:
  assumes "f \<in> {sys_read dv, sys_write dv, sys_fstat, sys_link dv, sys_unlink dv, sys_mknod dv, sys_mkdir dv, sys_chdir, sys_exec dv}"
    "f me s = Ret (r, s')"
  shows "fds s' = fds s"
  using assms by (auto dest: sys_read_fds sys_write_fds sys_fstat_fds link_fds unlink_fds mknod_fds mkdir_fds sys_chdir_fds sys_exec_fds)

lemma step_inv: "file_step dv s s' \<Longrightarrow> fd_inv e s \<Longrightarrow> fd_inv e s'"
proof (induction rule: file_step.induct)
  case (step_fd me s f r s')
  then show ?case
    using file_devices_axioms by (auto intro: sys_dup_inv sys_close_inv sys_open_inv sys_pipe_inv sys_fork_inv sys_wait_inv sys_kill_inv)
next
  case (step_io me s f r s')
  then show ?case using fd_inv_fds [OF io_fds [OF step_io(2,3)]] by simp
qed (rule sys_exit_inv)

end

sublocale file_devices \<subseteq> refs: inductive_invariant no_files "file_step dv" "fd_inv (\<lambda>_. 0)"
proof
  show "fd_inv (\<lambda>_. 0) s" if "no_files s" for s :: "'a kernel_scheme"
    using that by (simp add: no_files_def fd_inv_def ftable_ok_def fd_refs_def)
qed (rule step_inv)

context file_devices
begin

lemma reached_counted:
  assumes "reach no_files (file_step dv) s"
  shows "f_ref (ftable s f) = int (card (fd_refs s f))" "f_type (ftable s f) = FD_CLOSED \<longleftrightarrow> fd_refs s f = {}"
proof -
  have inv: "fd_inv (\<lambda>_. 0) s" using assms by (rule refs.reach_inv)
  then show c: "f_ref (ftable s f) = int (card (fd_refs s f))" by (simp add: fd_inv_def)
  have "if f_type (ftable s f) = FD_CLOSED then f_ref (ftable s f) = 0 else 0 < f_ref (ftable s f)"
    using inv unfolding fd_inv_def ftable_ok_def by blast
  then show "f_type (ftable s f) = FD_CLOSED \<longleftrightarrow> fd_refs s f = {}"
    using c by (cases "f_type (ftable s f) = FD_CLOSED") auto
qed

end

interpretation plain: file_devices no_devices
  by unfold_locales (simp_all add: no_devices_def)


definition demo_nofiles :: kernel where
  "demo_nofiles = demo_user\<lparr>ftable := (\<lambda>_. \<lparr>f_type = FD_CLOSED, f_ref = 0, f_readable = 0, f_writable = 0, f_pipe = 0, f_ip = 0, f_off = 0\<rparr>)\<rparr>"

lemma demo_pipe_call: "\<exists>s'. sys_pipe 0 demo_nofiles = Ret (0, s') \<and> f_ref (ftable s' 1) = 1"
proof -
  have p: "ptable demo_nofiles 0 = demo_proc\<lparr>p_state := RUNNING, p_mem := 0x100000, p_sz := 8192, p_tf := zero_tf\<lparr>tf_esp := 100\<rparr>\<rparr>"
    and ft: "ftable demo_nofiles = (\<lambda>_. \<lparr>f_type = FD_CLOSED, f_ref = 0, f_readable = 0, f_writable = 0, f_pipe = 0, f_ip = 0, f_off = 0\<rparr>)"
    and k: "kst demo_nofiles = demo_kstate" and m: "kmem demo_nofiles = (\<lambda>x. if x = 0x100068 then 200 else 0)"
    and c: "mt_size (curmt demo_nofiles) = 0"
    by (simp_all add: demo_nofiles_def demo_user_def demo_kernel_def file_state.extend_def demo_files_def fs_state.extend_def
      demo_fs_def bio_state.extend_def demo_boot_def empty_trans_def)
  have a: "argptr 0 0 8 demo_nofiles = Some 0x1000C8"
    by (simp add: argptr_def argint_def fetchint_def p m get_mem_u32_def zero_tf_def Let_def)
  have al: "kalloc PAGE demo_kstate = Some (Ret (16384, demo_kstate\<lparr>run_len := (run_len demo_kstate)(8192 := 8192)\<rparr>))"
    by (simp add: kalloc_def kalloc_loop.simps demo_kstate_def PAGE_def)
  have r: "[0 ..< NFILE] = 0 # 1 # [2 ..< NFILE]" "[0 ..< NOFILE] = 0 # 1 # [2 ..< NOFILE]"
    by (simp_all add: NFILE_def NOFILE_def upt_conv_Cons)
  show ?thesis
    by (simp add: sys_pipe_def a pipealloc_def filealloc_def r ft upd_file_def kalloc_st_def k al set_pipe_file_def fdalloc_def p upd_proc_def
      demo_proc_def commit_ret_def end_trans_def c Let_def)
qed


end
