(* ===== verification/Ulib.thy ===== *)
theory Ulib
  imports Kstring
begin

text \<open>
  The library of the user programs (\<^verbatim>\<open>ulib.c\<close>).  Like in the kernel, strings lie in memory and end with a zero
  byte; a loop that may not find one is a \<open>partial_function\<close>, whose value \<open>None\<close> means that it does not return.
  Names that the kernel library also has carry a \<open>u\<close>.
\<close>

section \<open>Definitions\<close>

partial_function (option) strcpy_loop :: "uint \<Rightarrow> uint \<Rightarrow> mem \<Rightarrow> mem option" where
  "strcpy_loop s t m = (if m t \<noteq> 0 then strcpy_loop (s + 1) (t + 1) (m(s := m t)) else Some (m(s := m t)))"

definition strcpy :: "uint \<Rightarrow> uint \<Rightarrow> mem \<Rightarrow> mem option" where
  "strcpy s t m = strcpy_loop s t m"

partial_function (option) strcmp :: "uint \<Rightarrow> uint \<Rightarrow> mem \<Rightarrow> int option" where
  "strcmp p q m = (if m p \<noteq> 0 \<and> m p = m q then strcmp (p + 1) (q + 1) m else Some (uint (m p) - uint (m q)))"

partial_function (option) ustrlen_loop :: "nat \<Rightarrow> uint \<Rightarrow> mem \<Rightarrow> nat option" where
  "ustrlen_loop n s m = (if m (s + of_nat n) \<noteq> 0 then ustrlen_loop (Suc n) s m else Some n)"

definition ustrlen :: "uint \<Rightarrow> mem \<Rightarrow> nat option" where
  "ustrlen s m = ustrlen_loop 0 s m"

primrec umemset_loop :: "nat \<Rightarrow> uint \<Rightarrow> uchar \<Rightarrow> mem \<Rightarrow> mem" where
  "umemset_loop 0 d c m = m"
| "umemset_loop (Suc n) d c m = umemset_loop n (d + 1) c (m(d := c))"

definition umemset :: "uint \<Rightarrow> int \<Rightarrow> uint \<Rightarrow> mem \<Rightarrow> mem" where
  "umemset dst c n m = umemset_loop (unat n) dst (of_int c) m"

text \<open>The address of the first \<open>c\<close>, or the null pointer.\<close>

partial_function (option) strchr :: "uint \<Rightarrow> uchar \<Rightarrow> mem \<Rightarrow> uint option" where
  "strchr s c m = (if m s = 0 then Some 0 else if m s = c then Some s else strchr (s + 1) c m)"

text \<open>
  \<open>gets\<close> reads single bytes from descriptor 0; the bytes it will get are a list, which ends where \<open>read\<close> returns
  less than one.  The result is what is stored in the buffer before the terminating zero, and the rest of the input.
\<close>

fun gets_loop :: "int \<Rightarrow> int \<Rightarrow> uchar list \<Rightarrow> uchar list \<times> uchar list" where
  "gets_loop i mx [] = ([], [])"
| "gets_loop i mx (c # cs) =
     (if i + 1 < mx then
        if c = 10 \<or> c = 13 then ([c], cs)
        else (let (line, rest) = gets_loop (i + 1) mx cs in (c # line, rest))
      else ([], c # cs))"

definition gets :: "int \<Rightarrow> uchar list \<Rightarrow> uchar list \<times> uchar list" where
  "gets mx input = gets_loop 0 mx input"

text \<open>\<open>stat\<close> on a path, with the system calls on it as arguments.\<close>

definition ustat :: "('s \<Rightarrow> int \<times> 's) \<Rightarrow> (int \<Rightarrow> 's \<Rightarrow> int \<times> 's) \<Rightarrow> (int \<Rightarrow> 's \<Rightarrow> 's) \<Rightarrow> 's \<Rightarrow> int \<times> 's" where
  "ustat opn fstt cls s =
     (let (fd, s1) = opn s in
      if fd < 0 then (-1, s1) else (let (r, s2) = fstt fd s1 in (r, cls fd s2)))"

text \<open>\<open>int\<close> arithmetic wraps around.\<close>

partial_function (option) atoi_loop :: "uint \<Rightarrow> uint \<Rightarrow> mem \<Rightarrow> uint option" where
  "atoi_loop n s m = (if 48 \<le> m s \<and> m s \<le> 57 then atoi_loop (n * 10 + ucast (m s) - 48) (s + 1) m else Some n)"

definition atoi :: "uint \<Rightarrow> mem \<Rightarrow> int option" where
  "atoi s m = map_option sint (atoi_loop 0 s m)"

text \<open>Unlike the kernel's, this \<open>memmove\<close> always copies upwards.\<close>

primrec umemmove_loop :: "nat \<Rightarrow> uint \<Rightarrow> uint \<Rightarrow> mem \<Rightarrow> mem" where
  "umemmove_loop 0 d s m = m"
| "umemmove_loop (Suc n) d s m = umemmove_loop n (d + 1) (s + 1) (m(d := m s))"

definition umemmove :: "uint \<Rightarrow> uint \<Rightarrow> int \<Rightarrow> mem \<Rightarrow> mem" where
  "umemmove dst src n m = umemmove_loop (nat n) dst src m"

section \<open>Their meaning\<close>

lemma strcmp_str:
  "str_at p cs m \<Longrightarrow> str_at q ds m \<Longrightarrow> \<exists>r. strcmp p q m = Some r \<and> (r = 0 \<longleftrightarrow> cs = ds)"
proof (induction cs arbitrary: p q ds)
  case Nil
  then show ?case by (subst strcmp.simps, cases ds) (auto simp: str_at_Cons uint_0_iff)
next
  case (Cons c cs)
  show ?case
  proof (cases ds)
    case Nil
    then show ?thesis using Cons.prems by (subst strcmp.simps) (auto simp: str_at_Cons uint_0_iff)
  next
    case ds: (Cons d ds')
    show ?thesis
    proof (cases "c = d")
      case True
      then obtain r where "strcmp (p + 1) (q + 1) m = Some r" "r = 0 \<longleftrightarrow> cs = ds'"
        using Cons.IH [of "p + 1" "q + 1" ds'] Cons.prems ds by (auto simp: str_at_Cons)
      then show ?thesis using Cons.prems ds True by (subst strcmp.simps) (auto simp: str_at_Cons)
    next
      case False
      then show ?thesis using Cons.prems ds by (subst strcmp.simps) (auto simp: str_at_Cons word_uint_eq_iff)
    qed
  qed
qed

lemma strchr_str:
  "str_at p cs m \<Longrightarrow> c \<noteq> 0 \<Longrightarrow>
    strchr p c m = Some (if c \<in> set cs then p + of_nat (length (takeWhile (\<lambda>x. x \<noteq> c) cs)) else 0)"
proof (induction cs arbitrary: p)
  case (Cons d cs)
  then show ?case by (subst strchr.simps) (auto simp: str_at_Cons algebra_simps)
qed (subst strchr.simps, simp)

lemma umemmove_loop_copied:
  "k < 2 ^ 32 \<Longrightarrow> \<forall>j < k. \<forall>i < j. d + of_nat i \<noteq> s + of_nat j \<Longrightarrow> umemmove_loop k d s m = copied d s k m"
proof -
  have "umemmove_loop k d s m = copy_up k d s m" by (induction k arbitrary: d s m) auto
  then show "k < 2 ^ 32 \<Longrightarrow> \<forall>j < k. \<forall>i < j. d + of_nat i \<noteq> s + of_nat j \<Longrightarrow> umemmove_loop k d s m = copied d s k m"
    using copy_up_copied by simp
qed

lemma gets_loop_input: "gets_loop i mx input = (line, rest) \<Longrightarrow> line @ rest = input \<and> int (length line) \<le> max 0 (mx - 1 - i)"
proof (induction i mx input arbitrary: line rest rule: gets_loop.induct)
  case (2 i mx c cs)
  then show ?case by (fastforce split: if_splits prod.splits)
qed auto

text \<open>Decimal digits and what they stand for.\<close>

definition digit_value :: "uchar list \<Rightarrow> nat" where
  "digit_value ds = foldl (\<lambda>n d. 10 * n + (unat d - 48)) 0 ds"

lemma digit_value_Nil [simp]: "digit_value [] = 0"
  by (simp add: digit_value_def)

lemma digit_value_snoc [simp]: "digit_value (ds @ [d]) = 10 * digit_value ds + (unat d - 48)"
  by (simp add: digit_value_def)

lemma atoi_loop_digits:
  assumes "\<forall>d \<in> set ds. 48 \<le> d \<and> d \<le> 57" "\<forall>i < length ds. m (s + of_nat i) = ds ! i" "\<not> (48 \<le> m (s + of_nat (length ds)) \<and> m (s + of_nat (length ds)) \<le> 57)"
  shows "atoi_loop n s m = Some (foldl (\<lambda>n d. n * 10 + ucast d - 48) n ds)"
  using assms
proof (induction ds arbitrary: n s)
  case Nil
  then show ?case by (subst atoi_loop.simps) auto
next
  case (Cons d ds)
  have "m s = d" using Cons.prems(2) [rule_format, of 0] by simp
  moreover have "m (s + 1 + of_nat i) = ds ! i" if "i < length ds" for i
    using Cons.prems(2) [rule_format, of "Suc i"] that by (simp add: algebra_simps)
  ultimately show ?case using Cons.IH [of "s + 1" "n * 10 + ucast d - 48"] Cons.prems
    by (subst atoi_loop.simps) (simp add: algebra_simps)
qed

lemma foldl_digits:
  "\<forall>d \<in> set ds. 48 \<le> d \<and> d \<le> 57 \<Longrightarrow> foldl (\<lambda>n d. n * 10 + ucast d - 48) 0 ds = (of_nat (digit_value ds) :: uint)"
proof (induction ds rule: rev_induct)
  case (snoc d ds)
  then have "48 \<le> unat d" by (simp add: word_le_nat_alt)
  then have "(of_nat (unat d - 48) :: uint) = ucast d - 48" by (simp add: of_nat_diff)
  then show ?case using snoc by (simp add: algebra_simps)
qed simp

end
