(* ===== verification/Printf.thy ===== *)
theory Printf
  imports Ulib
begin

text \<open>
  Formatted output of the user programs (\<^verbatim>\<open>printf.c\<close>).  The output is the list of the bytes written; \<open>putc\<close> writes
  one of them.  The variable arguments are the words on the stack after \<open>fmt\<close>.
\<close>

section \<open>Definitions\<close>

definition digits :: "uchar list" where
  "digits = [48, 49, 50, 51, 52, 53, 54, 55, 56, 57, 65, 66, 67, 68, 69, 70]"

text \<open>The digits from the lowest to the highest, as they are put into \<open>buf\<close>; \<open>base\<close> is 10 or 16.\<close>

function printint_loop :: "uint \<Rightarrow> uint \<Rightarrow> uchar list" where
  "printint_loop base x =
     (if base < 2 \<or> x div base = 0 then [digits ! unat (x mod base)]
      else digits ! unat (x mod base) # printint_loop base (x div base))"
  by auto
termination
proof (relation "measure (\<lambda>(base, x). unat x)", goal_cases)
  case (2 base x)
  then have "1 < unat base" "unat x div unat base \<noteq> 0"
    by (auto simp: word_less_nat_alt unat_div_distrib unat_eq_0 [symmetric])
  then have "unat x div unat base < unat x" by (intro div_less_dividend) (auto intro!: Nat.gr0I)
  then show ?case by (simp add: unat_div_distrib)
qed simp

declare printint_loop.simps [simp del]

definition printint :: "uint \<Rightarrow> uint \<Rightarrow> bool \<Rightarrow> uchar list" where
  "printint xx base sgnd =
     (let neg = sgnd \<and> sint xx < 0; x = (if neg then - xx else xx);
          buf = printint_loop base x @ (if neg then [45] else [])
      in rev buf)"

text \<open>The bytes of the string at \<open>s\<close>; the null pointer prints as \<^verbatim>\<open>(null)\<close>.\<close>

definition print_str :: "uint \<Rightarrow> mem \<Rightarrow> uchar list option" where
  "print_str s m =
     (if s = 0 then Some [40, 110, 117, 108, 108, 41]
      else map_option (\<lambda>n. map (\<lambda>k. m (s + of_nat k)) [0 ..< n]) (ustrlen s m))"

text \<open>\<open>pct\<close> is the state after a percent sign, \<open>ap\<close> the number of arguments taken.\<close>

primrec printf_loop :: "uchar list \<Rightarrow> bool \<Rightarrow> nat \<Rightarrow> (nat \<Rightarrow> uint) \<Rightarrow> mem \<Rightarrow> uchar list option" where
  "printf_loop [] pct ap arg m = Some []"
| "printf_loop (c # fmt) pct ap arg m =
     (if \<not> pct then
        if c = 37 then printf_loop fmt True ap arg m
        else map_option (\<lambda>out. c # out) (printf_loop fmt False ap arg m)
      else if c = 100 then
        map_option (\<lambda>out. printint (arg ap) 10 True @ out) (printf_loop fmt False (Suc ap) arg m)
      else if c = 120 \<or> c = 112 then
        map_option (\<lambda>out. printint (arg ap) 16 False @ out) (printf_loop fmt False (Suc ap) arg m)
      else if c = 115 then
        (case print_str (arg ap) m of
           None \<Rightarrow> None
         | Some cs \<Rightarrow> map_option (\<lambda>out. cs @ out) (printf_loop fmt False (Suc ap) arg m))
      else if c = 99 then
        map_option (\<lambda>out. ucast (arg ap) # out) (printf_loop fmt False (Suc ap) arg m)
      else if c = 37 then map_option (\<lambda>out. c # out) (printf_loop fmt False ap arg m)
      else map_option (\<lambda>out. 37 # c # out) (printf_loop fmt False ap arg m))"

definition printf :: "uchar list \<Rightarrow> (nat \<Rightarrow> uint) \<Rightarrow> mem \<Rightarrow> uchar list option" where
  "printf fmt arg m = printf_loop fmt False 0 arg m"

section \<open>Decimal numbers\<close>

lemma digit_10: "k < 10 \<Longrightarrow> unat (digits ! k) = 48 + k \<and> 48 \<le> digits ! k \<and> digits ! k \<le> 57"
proof -
  assume "k < 10"
  then have "k \<in> {0, 1, 2, 3, 4, 5, 6, 7, 8, 9}" by auto
  then show ?thesis by (elim insertE) (simp_all add: digits_def)
qed

lemma printint_loop_value:
  "digit_value (rev (printint_loop 10 x)) = unat x \<and> (\<forall>d \<in> set (printint_loop 10 x). 48 \<le> d \<and> d \<le> 57)
    \<and> (\<forall>k. unat x < 10 ^ Suc k \<longrightarrow> length (printint_loop 10 x) \<le> Suc k)"
proof (induction "unat x" arbitrary: x rule: less_induct)
  case less
  have m: "unat (x mod 10) = unat x mod 10" "unat (x div 10) = unat x div 10" by (simp_all add: unat_mod_distrib unat_div_distrib)
  then have d: "unat (x mod 10) < 10" by simp
  show ?case
  proof (cases "x div 10 = 0")
    case True
    then have "unat x < 10" using m(2) by simp
    then show ?thesis using True m d digit_10 [OF d] by (subst (1 2 3) printint_loop.simps) (auto simp: digit_value_def)
  next
    case False
    then have "unat x div 10 \<noteq> 0" using m(2) by (metis unat_eq_0)
    then have "unat (x div 10) < unat x" unfolding m(2) by (intro div_less_dividend) auto
    note IH = less(1) [OF this]
    have step: "printint_loop 10 x = digits ! unat (x mod 10) # printint_loop 10 (x div 10)"
      using False by (subst printint_loop.simps) simp
    have len: "length (printint_loop 10 x) \<le> Suc k" if "unat x < 10 ^ Suc k" for k
    proof (cases k)
      case 0
      then show ?thesis using that \<open>unat x div 10 \<noteq> 0\<close> by simp
    next
      case (Suc j)
      then have "unat (x div 10) < 10 ^ Suc j" using that m(2) by (simp add: less_mult_imp_div_less)
      then show ?thesis using IH Suc step by simp
    qed
    show ?thesis
      using IH len digit_10 [OF d] m unfolding step by (auto simp: algebra_simps)
  qed
qed

lemma unat_of_nonneg_int: "0 \<le> k \<Longrightarrow> k < 2 ^ 32 \<Longrightarrow> unat (word_of_int k :: uint) = nat k"
  by (simp add: unat_eq_nat_uint uint_word_of_int take_bit_int_eq_self)

lemma unat_magnitude: "unat (if sint n < 0 then - n else n) = nat \<bar>sint n\<bar>" for n :: uint
proof (cases "sint n < 0")
  case True
  have "- n = word_of_int (- sint n)" by simp
  then show ?thesis using True sint_ge [of n] unat_of_nonneg_int [of "- sint n"] by simp
next
  case False
  have "n = word_of_int (sint n)" by simp
  then show ?thesis using False sint_lt [of n] unat_of_nonneg_int [of "sint n"] by simp
qed

lemma printf_plain: "37 \<notin> set fmt \<Longrightarrow> printf_loop fmt False ap arg m = Some fmt"
  by (induction fmt) auto



end
