(* ===== verification/Spinlock.thy ===== *)
theory Spinlock
  imports Xv6_Prelude
begin

text \<open>
  The spin locks of \<^verbatim>\<open>spinlock.c\<close> and \<^verbatim>\<open>schedspinlock.c\<close> on a machine with several CPUs.  A call of
  \<open>acquire\<close> or \<open>release\<close> is a sequence of atomic steps (up to the exchange, the exchange, what follows
  it), which the steps of the other CPUs may interleave.  Shown are mutual exclusion, that the
  \<open>holding\<close> test is exact although it reads the lock without synchronisation, and that interrupts are
  off on a CPU as long as it holds a lock.
\<close>

section \<open>Definitions\<close>

record spinlock =
  locked :: uint
  lk_name :: string
  lk_cpu :: int
  pcs :: "uint list"

text \<open>
  Where a CPU is inside the lock functions: \<open>Spin l\<close> in the loop of \<open>acquire\<close>, \<open>Got l\<close> after the
  exchange that took the lock, \<open>Freeing l\<close> in \<open>release\<close> before the exchange.  \<open>held\<close> and \<open>extra\<close> are
  ghost fields: the locks the CPU has acquired and not released, and its unmatched calls of \<open>pushcli\<close>.
\<close>

datatype lock_pc = Out | Spin nat | Got nat | Freeing nat

record cpu =
  ncli :: int
  intena :: bool
  if_flag :: bool
  lpc :: lock_pc
  held :: "nat set"
  extra :: nat

record lock_state =
  locks :: "nat \<Rightarrow> spinlock"
  cpus :: "nat \<Rightarrow> cpu"

definition upd_cpu :: "nat \<Rightarrow> (cpu \<Rightarrow> cpu) \<Rightarrow> lock_state \<Rightarrow> lock_state" where
  "upd_cpu c f s = s\<lparr>cpus := (cpus s)(c := f (cpus s c))\<rparr>"

definition upd_lock :: "nat \<Rightarrow> (spinlock \<Rightarrow> spinlock) \<Rightarrow> lock_state \<Rightarrow> lock_state" where
  "upd_lock l f s = s\<lparr>locks := (locks s)(l := f (locks s l))\<rparr>"

definition initlock :: "nat \<Rightarrow> string \<Rightarrow> lock_state \<Rightarrow> lock_state" where
  "initlock l name s = upd_lock l (\<lambda>k. k\<lparr>lk_name := name, locked := 0, lk_cpu := -1\<rparr>) s"

text \<open>\<^verbatim>\<open>getcallerpcs\<close> follows the chain of saved frame pointers in \<open>m\<close>, a memory of 32-bit cells.\<close>

primrec callerpcs_loop :: "nat \<Rightarrow> uint \<Rightarrow> (uint \<Rightarrow> uint) \<Rightarrow> uint list" where
  "callerpcs_loop 0 ebp m = []"
| "callerpcs_loop (Suc k) ebp m =
     (if ebp = 0 \<or> ebp = 0xffffffff then replicate (Suc k) 0
      else m (ebp + 4) # callerpcs_loop k (m ebp) m)"

definition getcallerpcs :: "uint \<Rightarrow> (uint \<Rightarrow> uint) \<Rightarrow> uint list" where
  "getcallerpcs v m = callerpcs_loop 10 (v - 8) m"

definition holding :: "nat \<Rightarrow> nat \<Rightarrow> lock_state \<Rightarrow> bool" where
  "holding c l s \<longleftrightarrow> locked (locks s l) \<noteq> 0 \<and> lk_cpu (locks s l) = int c + 10"

definition pushcli :: "nat \<Rightarrow> lock_state \<Rightarrow> lock_state" where
  "pushcli c s = upd_cpu c (\<lambda>p. p\<lparr>if_flag := False, ncli := ncli p + 1,
     intena := if ncli p = 0 then if_flag p else intena p\<rparr>) s"

definition popcli :: "nat \<Rightarrow> lock_state \<Rightarrow> lock_state outcome" where
  "popcli c s =
     (if if_flag (cpus s c) then Panic ''popcli - interruptible''
      else if ncli (cpus s c) - 1 < 0 then Panic ''popcli''
      else Ret (upd_cpu c (\<lambda>p. p\<lparr>ncli := ncli p - 1,
        if_flag := (if ncli p - 1 = 0 \<and> intena p then True else if_flag p)\<rparr>) s))"

text \<open>\<open>xchg\<close> on the \<^verbatim>\<open>locked\<close> field: the old value and the new state.\<close>

definition xchg_locked :: "nat \<Rightarrow> uint \<Rightarrow> lock_state \<Rightarrow> uint \<times> lock_state" where
  "xchg_locked l v s = (locked (locks s l), upd_lock l (\<lambda>k. k\<lparr>locked := v\<rparr>) s)"

definition acquire_enter :: "nat \<Rightarrow> nat \<Rightarrow> lock_state \<Rightarrow> lock_state outcome" where
  "acquire_enter c l s =
     (let s1 = pushcli c s in
      if holding c l s1 then Panic ''acquire'' else Ret (upd_cpu c (\<lambda>p. p\<lparr>lpc := Spin l\<rparr>) s1))"

definition acquire_spin :: "nat \<Rightarrow> nat \<Rightarrow> lock_state \<Rightarrow> lock_state" where
  "acquire_spin c l s =
     (let (old, s1) = xchg_locked l 1 s in
      if old = 1 then s1 else upd_cpu c (\<lambda>p. p\<lparr>lpc := Got l\<rparr>) s1)"

definition acquire_done :: "nat \<Rightarrow> nat \<Rightarrow> uint list \<Rightarrow> lock_state \<Rightarrow> lock_state" where
  "acquire_done c l ps s =
     upd_cpu c (\<lambda>p. p\<lparr>lpc := Out, held := insert l (held p)\<rparr>)
       (upd_lock l (\<lambda>k. k\<lparr>lk_cpu := int c + 10, pcs := ps\<rparr>) s)"

definition release_enter :: "nat \<Rightarrow> nat \<Rightarrow> lock_state \<Rightarrow> lock_state outcome" where
  "release_enter c l s =
     (if \<not> holding c l s then Panic ''release''
      else Ret (upd_cpu c (\<lambda>p. p\<lparr>lpc := Freeing l, held := held p - {l}\<rparr>)
        (upd_lock l (\<lambda>k. k\<lparr>pcs := (pcs k)[0 := 0], lk_cpu := -1\<rparr>) s)))"

definition release_done :: "nat \<Rightarrow> nat \<Rightarrow> lock_state \<Rightarrow> lock_state outcome" where
  "release_done c l s =
     (let (old, s1) = xchg_locked l 0 s in popcli c (upd_cpu c (\<lambda>p. p\<lparr>lpc := Out\<rparr>) s1))"

text \<open>The whole calls, when no other CPU runs in between.\<close>

definition acquire :: "nat \<Rightarrow> nat \<Rightarrow> uint list \<Rightarrow> lock_state \<Rightarrow> lock_state outcome" where
  "acquire c l ps s =
     obind (acquire_enter c l s) (\<lambda>s1.
       let s2 = acquire_spin c l s1 in
       if lpc (cpus s2 c) = Got l then Ret (acquire_done c l ps s2) else Blocked ''acquire'')"

definition release :: "nat \<Rightarrow> nat \<Rightarrow> lock_state \<Rightarrow> lock_state outcome" where
  "release c l s = obind (release_enter c l s) (release_done c l)"

section \<open>Interleavings\<close>

text \<open>
  Any CPU may take its next step.  \<open>step_sti\<close> and \<open>step_cli\<close> are the scheduler and the trap entry, which
  change the interrupt flag directly, but only outside every critical section.
\<close>

inductive lock_step :: "lock_state \<Rightarrow> lock_state \<Rightarrow> bool" where
  step_acquire: "lpc (cpus s c) = Out \<Longrightarrow> acquire_enter c l s = Ret s' \<Longrightarrow> lock_step s s'"
| step_spin: "lpc (cpus s c) = Spin l \<Longrightarrow> lock_step s (acquire_spin c l s)"
| step_got: "lpc (cpus s c) = Got l \<Longrightarrow> lock_step s (acquire_done c l ps s)"
| step_release: "lpc (cpus s c) = Out \<Longrightarrow> release_enter c l s = Ret s' \<Longrightarrow> lock_step s s'"
| step_free: "lpc (cpus s c) = Freeing l \<Longrightarrow> release_done c l s = Ret s' \<Longrightarrow> lock_step s s'"
| step_push: "lpc (cpus s c) = Out \<Longrightarrow> lock_step s (upd_cpu c (\<lambda>p. p\<lparr>extra := Suc (extra p)\<rparr>) (pushcli c s))"
| step_pop: "lpc (cpus s c) = Out \<Longrightarrow> 0 < extra (cpus s c) \<Longrightarrow> popcli c s = Ret s' \<Longrightarrow>
    lock_step s (upd_cpu c (\<lambda>p. p\<lparr>extra := extra p - 1\<rparr>) s')"
| step_sti: "lpc (cpus s c) = Out \<Longrightarrow> ncli (cpus s c) = 0 \<Longrightarrow> lock_step s (upd_cpu c (\<lambda>p. p\<lparr>if_flag := b\<rparr>) s)"

definition lock_init :: "lock_state \<Rightarrow> bool" where
  "lock_init s \<longleftrightarrow> (\<forall>l. locked (locks s l) = 0 \<and> lk_cpu (locks s l) = -1)
     \<and> (\<forall>c. ncli (cpus s c) = 0 \<and> lpc (cpus s c) = Out \<and> held (cpus s c) = {} \<and> extra (cpus s c) = 0)"

definition owns :: "nat \<Rightarrow> nat \<Rightarrow> lock_state \<Rightarrow> bool" where
  "owns c l s \<longleftrightarrow> l \<in> held (cpus s c) \<or> lpc (cpus s c) = Got l \<or> lpc (cpus s c) = Freeing l"

text \<open>How many critical sections a CPU is in or about to enter, as \<^verbatim>\<open>ncli\<close> counts them.\<close>

definition depth :: "cpu \<Rightarrow> nat" where
  "depth p = card (held p) + extra p + (if lpc p = Out then 0 else 1)"

text \<open>What lock \<open>l\<close> looks like when \<open>ow\<close> is its owner.\<close>

definition lock_ok :: "nat \<Rightarrow> nat option \<Rightarrow> lock_state \<Rightarrow> bool" where
  "lock_ok l ow s \<longleftrightarrow> locked (locks s l) = (if ow = None then 0 else 1)
     \<and> (\<forall>c. owns c l s \<longleftrightarrow> ow = Some c)
     \<and> (\<forall>c. lk_cpu (locks s l) = int c + 10 \<longleftrightarrow> l \<in> held (cpus s c))
     \<and> (\<forall>c. l \<in> held (cpus s c) \<longrightarrow> lpc (cpus s c) \<notin> {Got l, Freeing l, Spin l})"

definition cpu_ok :: "cpu \<Rightarrow> bool" where
  "cpu_ok p \<longleftrightarrow> finite (held p) \<and> ncli p = int (depth p) \<and> (0 < depth p \<longrightarrow> \<not> if_flag p)"

definition lock_inv :: "lock_state \<Rightarrow> bool" where
  "lock_inv s \<longleftrightarrow> (\<forall>l. \<exists>ow. lock_ok l ow s) \<and> (\<forall>c. cpu_ok (cpus s c))"

lemmas lock_defs = upd_cpu_def upd_lock_def pushcli_def popcli_def xchg_locked_def acquire_enter_def
  acquire_spin_def acquire_done_def release_enter_def release_done_def holding_def Let_def

lemma lock_inv_init: "lock_init s \<Longrightarrow> lock_inv s"
  by (auto simp: lock_init_def lock_inv_def lock_ok_def cpu_ok_def owns_def depth_def intro!: exI [of _ None])

lemma lock_ok_cong:
  assumes "lock_ok l ow s" "locks s' l = locks s l"
    and "\<forall>c. (l \<in> held (cpus s' c)) = (l \<in> held (cpus s c)) \<and> (lpc (cpus s' c) = Got l) = (lpc (cpus s c) = Got l)
      \<and> (lpc (cpus s' c) = Freeing l) = (lpc (cpus s c) = Freeing l)
      \<and> (l \<in> held (cpus s c) \<longrightarrow> lpc (cpus s' c) \<noteq> Spin l)"
  shows "lock_ok l ow s'"
  using assms unfolding lock_ok_def owns_def by auto

lemma lock_inv_cpu: "lock_inv s \<Longrightarrow> cpu_ok (cpus s c)"
  by (simp add: lock_inv_def)

lemma lock_inv_holding:
  assumes "lock_inv s"
  shows "holding c l s \<longleftrightarrow> l \<in> held (cpus s c)"
proof -
  obtain ow where ow: "lock_ok l ow s" using assms by (auto simp: lock_inv_def)
  show ?thesis
  proof
    assume "l \<in> held (cpus s c)"
    moreover from this have "owns c l s" by (simp add: owns_def)
    ultimately show "holding c l s" using ow by (auto simp: lock_ok_def holding_def)
  qed (use ow in \<open>auto simp: lock_ok_def holding_def\<close>)
qed

lemma inv_acquire:
  assumes "lock_inv s" "lpc (cpus s c) = Out" "acquire_enter c l s = Ret s'"
  shows "lock_inv s'"
proof -
  have "holding c l (pushcli c s) = holding c l s" by (simp add: lock_defs)
  then have nh: "l \<notin> held (cpus s c)"
    using assms(3) lock_inv_holding [OF assms(1)] by (auto simp: acquire_enter_def Let_def split: if_splits)
  have s': "locks s' = locks s" "\<And>d. held (cpus s' d) = held (cpus s d)"
    "\<And>d. lpc (cpus s' d) = (if d = c then Spin l else lpc (cpus s d))"
    using assms(3) by (auto simp: lock_defs split: if_splits)
  have "\<exists>ow. lock_ok k ow s'" for k
  proof -
    obtain ow where ow: "lock_ok k ow s" using assms(1) by (auto simp: lock_inv_def)
    then have "lock_ok k ow s'" by (rule lock_ok_cong) (use s' nh assms(2) ow in \<open>auto simp: lock_ok_def\<close>)
    then show ?thesis ..
  qed
  moreover have "cpu_ok (cpus s' d)" for d
    using assms lock_inv_cpu [OF assms(1), of d] by (auto simp: cpu_ok_def depth_def lock_defs split: if_splits)
  ultimately show ?thesis by (simp add: lock_inv_def)
qed

lemma inv_spin:
  assumes "lock_inv s" "lpc (cpus s c) = Spin l"
  shows "lock_inv (acquire_spin c l s)"
proof -
  let ?s = "acquire_spin c l s"
  obtain ow where ow: "lock_ok l ow s" using assms(1) by (auto simp: lock_inv_def)
  have "\<exists>ow. lock_ok k ow ?s" for k
  proof (cases "k = l")
    case False
    obtain ow' where ow': "lock_ok k ow' s" using assms(1) by (auto simp: lock_inv_def)
    then have "lock_ok k ow' ?s" by (rule lock_ok_cong) (use ow' False assms(2) in \<open>auto simp: lock_defs lock_ok_def\<close>)
    then show ?thesis ..
  next
    case True
    show ?thesis
    proof (cases ow)
      case None
      then have "lock_ok l (Some c) ?s"
        using ow assms(2) by (auto simp: lock_ok_def owns_def lock_defs)
      then show ?thesis using True by blast
    next
      case (Some d)
      then have "lock_ok l ow ?s" using ow assms(2) by (auto simp: lock_ok_def owns_def lock_defs)
      then show ?thesis using True by blast
    qed
  qed
  moreover have "cpu_ok (cpus ?s d)" for d
    using assms(2) lock_inv_cpu [OF assms(1), of d] by (auto simp: cpu_ok_def depth_def lock_defs)
  ultimately show ?thesis by (simp add: lock_inv_def)
qed

lemma inv_got:
  assumes "lock_inv s" "lpc (cpus s c) = Got l"
  shows "lock_inv (acquire_done c l ps s)"
proof -
  let ?s = "acquire_done c l ps s"
  obtain ow where ow: "lock_ok l ow s" using assms(1) by (auto simp: lock_inv_def)
  have nh: "l \<notin> held (cpus s c)" using ow assms(2) by (auto simp: lock_ok_def)
  have mine: "ow = Some c" using ow assms(2) by (auto simp: lock_ok_def owns_def)
  have "\<exists>ow. lock_ok k ow ?s" for k
  proof (cases "k = l")
    case False
    obtain ow' where ow': "lock_ok k ow' s" using assms(1) by (auto simp: lock_inv_def)
    then have "lock_ok k ow' ?s" by (rule lock_ok_cong) (use ow' False assms(2) in \<open>auto simp: lock_defs lock_ok_def\<close>)
    then show ?thesis ..
  next
    case True
    have "l \<notin> held (cpus s d)" for d
      using ow mine nh unfolding lock_ok_def owns_def by auto
    then have "lock_ok l (Some c) ?s" using ow mine assms(2) by (auto simp: lock_ok_def owns_def lock_defs)
    then show ?thesis using True by blast
  qed
  moreover have "cpu_ok (cpus ?s d)" for d
    using assms(2) nh lock_inv_cpu [OF assms(1), of d] by (auto simp: cpu_ok_def depth_def lock_defs)
  ultimately show ?thesis by (simp add: lock_inv_def)
qed


lemma inv_release:
  assumes "lock_inv s" "lpc (cpus s c) = Out" "release_enter c l s = Ret s'"
  shows "lock_inv s'"
proof -
  obtain ow where ow: "lock_ok l ow s" using assms(1) by (auto simp: lock_inv_def)
  have h: "l \<in> held (cpus s c)"
    using assms(3) lock_inv_holding [OF assms(1)] by (auto simp: release_enter_def split: if_splits)
  then have mine: "ow = Some c" using ow by (auto simp: lock_ok_def owns_def)
  have s': "s' = upd_cpu c (\<lambda>p. p\<lparr>lpc := Freeing l, held := held p - {l}\<rparr>)
      (upd_lock l (\<lambda>k. k\<lparr>pcs := (pcs k)[0 := 0], lk_cpu := -1\<rparr>) s)"
    using assms(3) by (auto simp: release_enter_def split: if_splits)
  have "\<exists>ow. lock_ok k ow s'" for k
  proof (cases "k = l")
    case False
    obtain ow' where ow': "lock_ok k ow' s" using assms(1) by (auto simp: lock_inv_def)
    then have "lock_ok k ow' s'" by (rule lock_ok_cong) (use ow' False assms(2) in \<open>auto simp: s' lock_defs lock_ok_def\<close>)
    then show ?thesis ..
  next
    case True
    have "l \<notin> held (cpus s d)" if "d \<noteq> c" for d
      using ow mine that unfolding lock_ok_def owns_def by auto
    then have "lock_ok l (Some c) s'"
      using ow mine h assms(2) by (auto simp: lock_ok_def owns_def lock_defs s')
    then show ?thesis using True by blast
  qed
  moreover have "cpu_ok (cpus s' d)" for d
  proof -
    have "card (held (cpus s c)) = Suc (card (held (cpus s c) - {l}))"
      using h lock_inv_cpu [OF assms(1), of c] by (metis card_Suc_Diff1 cpu_ok_def)
    then show ?thesis
      using assms(2) lock_inv_cpu [OF assms(1), of d] by (auto simp: cpu_ok_def depth_def lock_defs s')
  qed
  ultimately show ?thesis by (simp add: lock_inv_def)
qed

lemma inv_free:
  assumes "lock_inv s" "lpc (cpus s c) = Freeing l" "release_done c l s = Ret s'"
  shows "lock_inv s'"
proof -
  obtain ow where ow: "lock_ok l ow s" using assms(1) by (auto simp: lock_inv_def)
  have mine: "ow = Some c" using ow assms(2) by (auto simp: lock_ok_def owns_def)
  have s': "locks s' = (locks s)(l := (locks s l)\<lparr>locked := 0\<rparr>)" "\<And>d. held (cpus s' d) = held (cpus s d)"
    "\<And>d. lpc (cpus s' d) = (if d = c then Out else lpc (cpus s d))"
    using assms(3) by (auto simp: lock_defs split: if_splits)
  have "\<exists>ow. lock_ok k ow s'" for k
  proof (cases "k = l")
    case False
    obtain ow' where ow': "lock_ok k ow' s" using assms(1) by (auto simp: lock_inv_def)
    then have "lock_ok k ow' s'" by (rule lock_ok_cong) (use ow' False assms(2) in \<open>auto simp: s' lock_ok_def\<close>)
    then show ?thesis ..
  next
    case True
    have "l \<notin> held (cpus s d)" for d
      using ow mine assms(2) unfolding lock_ok_def owns_def by auto
    moreover have "\<not> owns d l s" if "d \<noteq> c" for d using ow mine that by (auto simp: lock_ok_def)
    ultimately have "lock_ok l None s'" using ow unfolding lock_ok_def owns_def s' by auto
    then show ?thesis using True by blast
  qed
  moreover have "cpu_ok (cpus s' d)" for d
    using assms(2,3) lock_inv_cpu [OF assms(1), of d]
    by (auto simp: cpu_ok_def depth_def lock_defs split: if_splits)
  ultimately show ?thesis by (simp add: lock_inv_def)
qed

lemma inv_flags:
  assumes "lock_inv s" "locks s' = locks s" "\<forall>d. held (cpus s' d) = held (cpus s d) \<and> lpc (cpus s' d) = lpc (cpus s d)"
    and "\<forall>d. cpu_ok (cpus s' d)"
  shows "lock_inv s'"
  using assms unfolding lock_inv_def lock_ok_def owns_def by simp

lemma lock_inv_step: "lock_step s s' \<Longrightarrow> lock_inv s \<Longrightarrow> lock_inv s'"
proof (induction rule: lock_step.induct)
  case (step_push s c)
  show ?case
    by (rule inv_flags [OF step_push(2)])
      (use step_push lock_inv_cpu [OF step_push(2)] in \<open>auto simp: cpu_ok_def depth_def lock_defs\<close>)
next
  case (step_pop s c s')
  have "cpu_ok (cpus (upd_cpu c (\<lambda>p. p\<lparr>extra := extra p - 1\<rparr>) s') d)" for d
  proof (cases "d = c")
    case True
    let ?p = "cpus s c"
    let ?q = "?p\<lparr>ncli := ncli ?p - 1, if_flag := (if ncli ?p - 1 = 0 \<and> intena ?p then True else if_flag ?p), extra := extra ?p - 1\<rparr>"
    have q: "cpus (upd_cpu c (\<lambda>p. p\<lparr>extra := extra p - 1\<rparr>) s') c = ?q"
      using step_pop(3) by (auto simp: popcli_def upd_cpu_def split: if_splits)
    have "depth ?q = depth ?p - 1" "0 < depth ?p" using step_pop(1,2) by (simp_all add: depth_def)
    then show ?thesis
      using lock_inv_cpu [OF step_pop(4), of c] True q by (simp add: cpu_ok_def)
  next
    case False
    then show ?thesis
      using step_pop(3) lock_inv_cpu [OF step_pop(4), of d] by (auto simp: popcli_def upd_cpu_def split: if_splits)
  qed
  then show ?case
    by (intro inv_flags [OF step_pop(4)]) (use step_pop(3) in \<open>auto simp: lock_defs split: if_splits\<close>)
next
  case (step_sti s c b)
  show ?case
    by (rule inv_flags [OF step_sti(3)])
      (use step_sti lock_inv_cpu [OF step_sti(3)] in \<open>auto simp: cpu_ok_def depth_def lock_defs\<close>)
qed (blast intro: inv_acquire inv_spin inv_got inv_release inv_free)+

interpretation spin: inductive_invariant lock_init lock_step lock_inv
  by unfold_locales (auto intro: lock_inv_init lock_inv_step)

lemma depth_held: "cpu_ok p \<Longrightarrow> l \<in> held p \<Longrightarrow> 0 < depth p"
  by (auto simp: cpu_ok_def depth_def card_gt_0_iff)

lemma length_callerpcs [simp]: "length (callerpcs_loop k ebp m) = k"
  by (induction k arbitrary: ebp) auto

section \<open>Properties\<close>

text \<open>
  C3: mutual exclusion.  In every interleaving of any number of CPUs, at most one CPU is between the
  exchange that takes a lock and the one that frees it, and the word \<^verbatim>\<open>locked\<close> is 1 exactly while
  there is one.
\<close>

theorem mutual_exclusion:
  assumes "reach lock_init lock_step s" "owns c l s"
  shows "locked (locks s l) = 1 \<and> (\<forall>c'. owns c' l s \<longrightarrow> c' = c)"
proof -
  obtain ow where "lock_ok l ow s" using spin.reach_inv [OF assms(1)] by (auto simp: lock_inv_def)
  then show ?thesis using assms(2) by (auto simp: lock_ok_def)
qed

definition demo_locks :: lock_state where
  "demo_locks = \<lparr>locks = \<lambda>_. \<lparr>locked = 0, lk_name = [], lk_cpu = -1, pcs = []\<rparr>,
     cpus = \<lambda>_. \<lparr>ncli = 0, intena = False, if_flag = True, lpc = Out, held = {}, extra = 0\<rparr>\<rparr>"

lemma demo_locks_init: "lock_init demo_locks"
  by (simp add: lock_init_def demo_locks_def)

lemma acquire_reach:
  assumes "reach lock_init lock_step s" "lpc (cpus s c) = Out" "acquire c l ps s = Ret s'"
  shows "reach lock_init lock_step s'"
proof -
  obtain s1 where s1: "acquire_enter c l s = Ret s1" and got: "lpc (cpus (acquire_spin c l s1) c) = Got l"
    and s': "s' = acquire_done c l ps (acquire_spin c l s1)"
    using assms(3) by (auto simp: acquire_def Let_def split: if_splits)
  have "lpc (cpus s1 c) = Spin l" using s1 by (auto simp: lock_defs split: if_splits)
  then show ?thesis
    unfolding s' using assms(1,2) s1 got by (blast intro: reach_step step_acquire step_spin step_got)
qed

lemma demo_acquired:
  "\<exists>s. reach lock_init lock_step s \<and> acquire 0 7 [] demo_locks = Ret s \<and> 7 \<in> held (cpus s 0) \<and> lpc (cpus s 0) = Out"
proof -
  have "\<exists>s. acquire 0 7 [] demo_locks = Ret s \<and> 7 \<in> held (cpus s 0) \<and> lpc (cpus s 0) = Out"
    by (simp add: acquire_def lock_defs demo_locks_def)
  then show ?thesis
    using acquire_reach [OF reach_init [of lock_init demo_locks lock_step], of 0 7 "[]"] demo_locks_init
    by (force simp: demo_locks_def)
qed

theorem mutual_exclusion_witness:
  "\<exists>s. reach lock_init lock_step s \<and> owns 0 7 s \<and> locked (locks s 7) = 1 \<and> \<not> owns 1 7 s"
proof -
  obtain s where s: "reach lock_init lock_step s" "7 \<in> held (cpus s 0)" using demo_acquired by blast
  then have "owns 0 7 s" by (simp add: owns_def)
  then show ?thesis using mutual_exclusion [OF s(1)] s(1) by (metis zero_neq_one)
qed

text \<open>
  C8: \<^const>\<open>holding\<close> is exact, so \<^const>\<open>acquire_enter\<close> panics exactly when the CPU already holds the lock,
  and \<^const>\<open>release_enter\<close> exactly when it does not, although both read the fields of a lock that other
  CPUs may be changing; and on a CPU that holds a lock interrupts are disabled and \<^verbatim>\<open>ncli\<close> is positive.
\<close>

theorem holding_exact:
  assumes "reach lock_init lock_step s"
  shows "(acquire_enter c l s = Panic ''acquire'' \<longleftrightarrow> l \<in> held (cpus s c))
    \<and> (release_enter c l s = Panic ''release'' \<longleftrightarrow> l \<notin> held (cpus s c))
    \<and> (l \<in> held (cpus s c) \<longrightarrow> \<not> if_flag (cpus s c) \<and> 0 < ncli (cpus s c))"
proof -
  note inv = spin.reach_inv [OF assms]
  have "holding c l (pushcli c s) = holding c l s" by (simp add: lock_defs)
  moreover have "\<not> if_flag (cpus s c) \<and> 0 < ncli (cpus s c)" if "l \<in> held (cpus s c)"
    using depth_held [OF lock_inv_cpu [OF inv] that] lock_inv_cpu [OF inv, of c] by (simp add: cpu_ok_def)
  ultimately show ?thesis
    using lock_inv_holding [OF inv, of c l] by (simp add: acquire_enter_def release_enter_def Let_def)
qed

theorem holding_exact_witness:
  "\<exists>s. acquire 0 7 [] demo_locks = Ret s \<and> acquire_enter 0 7 s = Panic ''acquire''
     \<and> release_enter 1 7 s = Panic ''release'' \<and> \<not> if_flag (cpus s 0)"
proof -
  obtain s where s: "reach lock_init lock_step s" "acquire 0 7 [] demo_locks = Ret s" "7 \<in> held (cpus s 0)"
    using demo_acquired by blast
  have "cpus s 1 = cpus demo_locks 1" using s(2) by (auto simp: acquire_def lock_defs split: if_splits)
  then have "7 \<notin> held (cpus s 1)" by (simp add: demo_locks_def)
  then show ?thesis using holding_exact [OF s(1), of 0 7] holding_exact [OF s(1), of 1 7] s by auto
qed

end
