(* ===== verification/Kbd.thy ===== *)
theory Kbd
  imports Xv6_Prelude
begin

text \<open>
  The keyboard (\<^verbatim>\<open>kbd.c\<close>, \<^verbatim>\<open>kbd.h\<close>): scan codes from the controller, the state of the modifier keys and the three
  maps from keys to characters.
\<close>

section \<open>The maps\<close>

definition SHIFT :: uint where "SHIFT = 1"
definition CTL :: uint where "CTL = 2"
definition ALT :: uint where "ALT = 4"
definition CAPSLOCK :: uint where "CAPSLOCK = 8"
definition NUMLOCK :: uint where "NUMLOCK = 16"
definition SCROLLLOCK :: uint where "SCROLLLOCK = 32"
definition E0ESC :: uint where "E0ESC = 64"

definition KEY_HOME :: uchar where "KEY_HOME = 0xE0"
definition KEY_END :: uchar where "KEY_END = 0xE1"
definition KEY_UP :: uchar where "KEY_UP = 0xE2"
definition KEY_DN :: uchar where "KEY_DN = 0xE3"
definition KEY_LF :: uchar where "KEY_LF = 0xE4"
definition KEY_RT :: uchar where "KEY_RT = 0xE5"
definition KEY_PGUP :: uchar where "KEY_PGUP = 0xE6"
definition KEY_PGDN :: uchar where "KEY_PGDN = 0xE7"
definition KEY_INS :: uchar where "KEY_INS = 0xE8"
definition KEY_DEL :: uchar where "KEY_DEL = 0xE9"

lemmas modifier_defs = SHIFT_def CTL_def ALT_def CAPSLOCK_def NUMLOCK_def SCROLLLOCK_def E0ESC_def

type_synonym keymap = "nat \<Rightarrow> uchar"

definition shiftcode :: "nat \<Rightarrow> uint" where
  "shiftcode = (\<lambda>_. 0)(0x1D := CTL, 0x2A := SHIFT, 0x36 := SHIFT, 0x38 := ALT, 0x9D := CTL, 0xB8 := ALT)"

definition togglecode :: "nat \<Rightarrow> uint" where
  "togglecode = (\<lambda>_. 0)(0x3A := CAPSLOCK, 0x45 := NUMLOCK, 0x46 := SCROLLLOCK)"

text \<open>The entries a table lists from its start; the others are zero, up to those it names by their index.\<close>

definition keys_of :: "uchar list \<Rightarrow> keymap" where
  "keys_of ks = (\<lambda>i. if i < length ks then ks ! i else 0)"

definition normal_keys :: "uchar list" where
  "normal_keys = [
     0, 27, 49, 50, 51, 52, 53, 54, 55, 56, 57, 48, 45, 61, 8, 9,
     113, 119, 101, 114, 116, 121, 117, 105, 111, 112, 91, 93, 10, 0, 97, 115,
     100, 102, 103, 104, 106, 107, 108, 59, 39, 96, 0, 92, 122, 120, 99, 118,
     98, 110, 109, 44, 46, 47, 0, 42, 0, 32, 0, 0, 0, 0, 0, 0,
     0, 0, 0, 0, 0, 0, 0, 55, 56, 57, 45, 52, 53, 54, 43, 49,
     50, 51, 48, 46, 0, 0, 0, 0]"

definition normalmap :: keymap where
  "normalmap = (keys_of normal_keys)
     (0x9c := 10, 0xb5 := 47, 0xc8 := KEY_UP, 0xd0 := KEY_DN, 0xc9 := KEY_PGUP, 0xd1 := KEY_PGDN, 0xcb := KEY_LF, 0xcd := KEY_RT, 0x97 := KEY_HOME, 0xcf := KEY_END, 0xd2 := KEY_INS, 0xd3 := KEY_DEL)"

definition shift_keys :: "uchar list" where
  "shift_keys = [
     0, 27, 33, 64, 35, 36, 37, 94, 38, 42, 40, 41, 95, 43, 8, 9,
     81, 87, 69, 82, 84, 89, 85, 73, 79, 80, 123, 125, 10, 0, 65, 83,
     68, 70, 71, 72, 74, 75, 76, 58, 34, 126, 0, 124, 90, 88, 67, 86,
     66, 78, 77, 60, 62, 63, 0, 42, 0, 32, 0, 0, 0, 0, 0, 0,
     0, 0, 0, 0, 0, 0, 0, 55, 56, 57, 45, 52, 53, 54, 43, 49,
     50, 51, 48, 46, 0, 0, 0, 0]"

definition shiftmap :: keymap where
  "shiftmap = (keys_of shift_keys)
     (0x9c := 10, 0xb5 := 47, 0xc8 := KEY_UP, 0xd0 := KEY_DN, 0xc9 := KEY_PGUP, 0xd1 := KEY_PGDN, 0xcb := KEY_LF, 0xcd := KEY_RT, 0x97 := KEY_HOME, 0xcf := KEY_END, 0xd2 := KEY_INS, 0xd3 := KEY_DEL)"

definition ctl_keys :: "uchar list" where
  "ctl_keys = [
     0, 0, 0, 0, 0, 0, 0, 0, 0, 0, 0, 0, 0, 0, 0, 0,
     17, 23, 5, 18, 20, 25, 21, 9, 15, 16, 0, 0, 13, 0, 1, 19,
     4, 6, 7, 8, 10, 11, 12, 0, 0, 0, 0, 28, 26, 24, 3, 22,
     2, 14, 13, 0, 0, 239, 0, 0]"

definition ctlmap :: keymap where
  "ctlmap = (keys_of ctl_keys)
     (0x9c := 13, 0xb5 := 239, 0xc8 := KEY_UP, 0xd0 := KEY_DN, 0xc9 := KEY_PGUP, 0xd1 := KEY_PGDN, 0xcb := KEY_LF, 0xcd := KEY_RT, 0x97 := KEY_HOME, 0xcf := KEY_END, 0xd2 := KEY_INS, 0xd3 := KEY_DEL)"

section \<open>Reading a key\<close>

text \<open>\<open>kbd_in\<close> holds the scan codes the controller still has to deliver; without one its status port says so.\<close>

record kbd =
  kshift :: uint
  kbd_in :: "uchar list"

definition charcode :: "uint \<Rightarrow> keymap" where
  "charcode i = (if i = 0 then normalmap else if i = 1 then shiftmap else ctlmap)"

definition caps_case :: "uint \<Rightarrow> uint \<Rightarrow> uint" where
  "caps_case sh c =
     (if sh AND CAPSLOCK \<noteq> 0 then
        if 97 \<le> c \<and> c \<le> 122 then c + (65 - 97) else if 65 \<le> c \<and> c \<le> 90 then c + (97 - 65) else c
      else c)"

definition kbd_key :: "uint \<Rightarrow> uint \<Rightarrow> uint \<times> uint" where
  "kbd_key sh dat =
     (let sh1 = (sh OR shiftcode (unat dat)) XOR togglecode (unat dat) in
      (caps_case sh1 (ucast (charcode (sh1 AND (CTL OR SHIFT)) (unat dat))), sh1))"

definition kbd_getc :: "kbd \<Rightarrow> int \<times> kbd" where
  "kbd_getc k =
     (case kbd_in k of
        [] \<Rightarrow> (-1, k)
      | b # rest \<Rightarrow>
          (let dat = ucast b :: uint; sh = kshift k; k1 = k\<lparr>kbd_in := rest\<rparr> in
           if dat = 0xE0 then (0, k1\<lparr>kshift := sh OR E0ESC\<rparr>)
           else if dat AND 0x80 \<noteq> 0 then
             (let dat1 = (if sh AND E0ESC \<noteq> 0 then dat else dat AND 0x7F) in
              (0, k1\<lparr>kshift := sh AND NOT (shiftcode (unat dat1) OR E0ESC)\<rparr>))
           else
             (let (c, sh1) = (if sh AND E0ESC \<noteq> 0 then kbd_key (sh AND NOT E0ESC) (dat OR 0x80) else kbd_key sh dat) in
              (uint c, k1\<lparr>kshift := sh1\<rparr>))))"

section \<open>Letters\<close>

definition letter :: "uchar \<Rightarrow> bool" where
  "letter c \<longleftrightarrow> 97 \<le> c \<and> c \<le> 122"

definition letter_key :: "nat \<Rightarrow> bool" where
  "letter_key i \<longleftrightarrow> shiftcode i = 0 \<and> togglecode i = 0 \<and> shiftmap i = normalmap i - 32"

lemma letter_keys: "list_all (\<lambda>i. letter (normalmap i) \<longrightarrow> letter_key i) [0..<128]"
  by code_simp

lemma letter_keyI: "letter (normalmap i) \<Longrightarrow> i < 128 \<Longrightarrow> letter_key i"
  using letter_keys by (simp add: list_all_iff)

lemma and_SHIFT: "x AND SHIFT = (if bit x 0 then 1 else 0)" for x :: uint
  by (auto simp: SHIFT_def and_one_eq odd_iff_mod_2_eq_one bit_0)

lemma caps_case_small: "unat w \<in> {97..122} \<Longrightarrow> unat (caps_case sh w) = (if sh AND CAPSLOCK \<noteq> 0 then unat w - 32 else unat w)"
proof -
  assume w: "unat w \<in> {97..122}"
  have "w + (65 - 97) = w - 32" by simp
  moreover have "unat (w - 32) = unat w - 32" using w unat_sub [of 32 w] by (simp add: word_le_nat_alt)
  ultimately show ?thesis using w by (simp add: caps_case_def word_le_nat_alt)
qed

lemma caps_case_capital: "unat w \<in> {65..90} \<Longrightarrow> unat (caps_case sh w) = (if sh AND CAPSLOCK \<noteq> 0 then unat w + 32 else unat w)"
  using unat_add_uint [of w 32] by (auto simp: caps_case_def word_le_nat_alt)

text \<open>
  A letter key gives the capital letter when exactly one of shift and caps lock is on, and the small letter
  otherwise; the modifiers stay as they are.
\<close>

theorem kbd_letter_case:
  assumes "kbd_in k = b # rest" "b < 0x80" "letter (normalmap (unat b))" "kshift k AND E0ESC = 0" "kshift k AND CTL = 0"
  shows "kbd_getc k = ((if (kshift k AND SHIFT \<noteq> 0) = (kshift k AND CAPSLOCK \<noteq> 0) then uint (normalmap (unat b))
    else uint (normalmap (unat b)) - 32), k\<lparr>kbd_in := rest\<rparr>)"
proof -
  let ?c = "normalmap (unat b)"
  have b: "unat b < 128" using assms(2) by (simp add: word_less_nat_alt)
  have key: "shiftcode (unat b) = 0" "togglecode (unat b) = 0" "shiftmap (unat b) = ?c - 32"
    using letter_keyI [OF assms(3) b] by (simp_all add: letter_key_def)
  have c: "unat ?c \<in> {97..122}" "32 \<le> ?c" using assms(3) by (auto simp: letter_def word_le_nat_alt)
  then have low: "unat (?c - 32) = unat ?c - 32" by (simp add: unat_sub)
  have u: "unat (ucast x :: uint) = unat x" for x :: uchar 
    using unsigned_less [of x, where ?'a = nat] by (simp add: unsigned_ucast_eq take_bit_nat_eq_self)
  have e0: "(ucast b :: uint) \<noteq> 0xE0" using b u [of b] by (auto dest: arg_cong [of _ _ "unat :: uint \<Rightarrow> nat"])
  have "\<not> bit b 7" using assms(2) by (simp add: bit_iff_odd div_word_less)
  then have press: "(ucast b :: uint) AND 0x80 = 0"
    using bit_iff_and_push_bit_not_eq_0 [of "ucast b :: uint" 7] by (simp add: bit_ucast_iff push_bit_eq_mult)
  have sh: "kshift k AND (CTL OR SHIFT) = (if bit (kshift k) 0 then 1 else 0)"
    using assms(5) and_SHIFT by (simp add: bit.conj_disj_distrib)
  have small: "unat (caps_case (kshift k) (ucast ?c)) = (if kshift k AND CAPSLOCK \<noteq> 0 then unat ?c - 32 else unat ?c)"
    using caps_case_small [of "ucast ?c" "kshift k"] c(1) u [of ?c] by simp
  have "unat (ucast (?c - 32) :: uint) \<in> {65..90}" using c(1) u [of "?c - 32"] low by auto
  then have "unat (caps_case (kshift k) (ucast (?c - 32))) = (if kshift k AND CAPSLOCK \<noteq> 0 then unat ?c else unat ?c - 32)"
    using caps_case_capital [of "ucast (?c - 32)" "kshift k"] c(1) u [of "?c - 32"] low by auto
  then have "uint (caps_case (kshift k) (ucast (if bit (kshift k) 0 then ?c - 32 else ?c)))
    = (if bit (kshift k) 0 = (kshift k AND CAPSLOCK \<noteq> 0) then uint ?c else uint ?c - 32)"
    using small c(1) unfolding uint_nat by (cases "bit (kshift k) 0") (simp_all add: of_nat_diff)
  then show ?thesis
    using assms(1,4) e0 press key sh
    by (cases "bit (kshift k) 0") (auto simp: kbd_getc_def kbd_key_def Let_def u charcode_def and_SHIFT)
qed

theorem kbd_letter_case_witness: "fst (kbd_getc \<lparr>kshift = SHIFT, kbd_in = [0x1E]\<rparr>) = 65"
proof -
  have "letter (normalmap (unat (0x1E :: uchar)))" "uint (normalmap (unat (0x1E :: uchar))) = 97" by code_simp+
  then show ?thesis
    using kbd_letter_case [of "\<lparr>kshift = SHIFT, kbd_in = [0x1E]\<rparr>" "0x1E" "[]"] by (simp add: modifier_defs)
qed

end
