(* ===== verification/Console.thy ===== *)
theory Console
  imports FileRefs Printf Ring Spinlock Kbd
begin

text \<open>
  The console (\<^verbatim>\<open>console.c\<close>): characters on the screen and the printer, \<^verbatim>\<open>cprintf\<close> and \<^verbatim>\<open>panic\<close>, the line editor that the
  keyboard interrupt runs, with its history, and the device functions that \<^verbatim>\<open>readi\<close> and \<^verbatim>\<open>writei\<close> reach through \<^verbatim>\<open>devsw\<close>.
  The locks of the console are held over a whole call, which is one step here.
\<close>

section \<open>Characters on the screen\<close>

definition BACKSPACE :: int where "BACKSPACE = 0x100"
definition INPUT_BUF :: nat where "INPUT_BUF = 128"
definition HISTMAX :: nat where "HISTMAX = 10"

text \<open>
  \<open>crt\<close> is the text memory of the display, \<open>cursor\<close> the position its controller holds in two registers of eight bits,
  and \<open>lpt\<close> what the printer has received.
\<close>

record console =
  crt :: "int \<Rightarrow> ushort"
  cursor :: int
  lpt :: "uchar list"
  panicked :: bool
  in_buf :: "nat \<Rightarrow> uchar"
  in_r :: uint
  in_w :: uint
  in_e :: uint
  rhist :: "nat \<Rightarrow> uint"
  ehist :: "nat \<Rightarrow> uint"
  hist :: uint
  histIndex :: int
  startHistIndex :: int

definition lpt_putc :: "int \<Rightarrow> console \<Rightarrow> console" where
  "lpt_putc c s = s\<lparr>lpt := lpt s @ [of_int (if c = BACKSPACE then 8 else c)]\<rparr>"

definition blank :: ushort where "blank = 0x0720"

definition cga_place :: "int \<Rightarrow> int \<Rightarrow> (int \<Rightarrow> ushort) \<Rightarrow> int \<times> (int \<Rightarrow> ushort)" where
  "cga_place c pos m =
     (if c = 10 then (pos + (80 - pos mod 80), m)
      else if c = BACKSPACE then if pos > 0 then (pos - 1, m(pos - 1 := blank)) else (pos, m)
      else (pos + 1, m(pos := of_int (c AND 0xff) OR 0x0700)))"

definition cga_scroll :: "int \<Rightarrow> (int \<Rightarrow> ushort) \<Rightarrow> int \<times> (int \<Rightarrow> ushort)" where
  "cga_scroll pos m =
     (if pos div 80 \<ge> 24 then
        (pos - 80, \<lambda>i. if pos - 80 \<le> i \<and> i < 24 * 80 then 0 else if 0 \<le> i \<and> i < 23 * 80 then m (i + 80) else m i)
      else (pos, m))"

text \<open>With the cursor below the screen the length that \<^verbatim>\<open>memset\<close> gets would be negative.\<close>

definition cga_putc :: "int \<Rightarrow> console \<Rightarrow> console outcome" where
  "cga_putc c s =
     (let (pos1, m1) = cga_place c (cursor s) (crt s); (pos2, m2) = cga_scroll pos1 m1 in
      if pos1 div 80 \<ge> 24 \<and> pos2 > 24 * 80 then Fault ''cga_putc''
      else Ret (s\<lparr>crt := m2(pos2 := blank), cursor := pos2 mod 2 ^ 16\<rparr>))"

definition cons_putc :: "int \<Rightarrow> console \<Rightarrow> console outcome" where
  "cons_putc c s = (if panicked s then Blocked ''cons_putc'' else cga_putc c (lpt_putc c s))"

primrec cons_puts :: "int list \<Rightarrow> console \<Rightarrow> console outcome" where
  "cons_puts [] s = Ret s"
| "cons_puts (c # cs) s = obind (cons_putc c s) (cons_puts cs)"

section \<open>Printing\<close>

definition kprintint :: "uint \<Rightarrow> uint \<Rightarrow> bool \<Rightarrow> console \<Rightarrow> console outcome" where
  "kprintint xx base sgnd s =
     (let neg = sgnd \<and> sint xx < 0; x = (if neg then 0 - xx else xx);
          buf = printint_loop base x @ (if neg then [45] else [])
      in cons_puts (map sint (rev buf)) s)"

primrec cprintf_loop :: "uchar list \<Rightarrow> bool \<Rightarrow> nat \<Rightarrow> (nat \<Rightarrow> uint) \<Rightarrow> mem \<Rightarrow> console \<Rightarrow> console outcome" where
  "cprintf_loop [] pct ap arg m s = Ret s"
| "cprintf_loop (c # fmt) pct ap arg m s =
     (if \<not> pct then
        if c = 37 then cprintf_loop fmt True ap arg m s
        else obind (cons_putc (uint c) s) (cprintf_loop fmt False ap arg m)
      else if c = 100 then obind (kprintint (arg ap) 10 True s) (cprintf_loop fmt False (Suc ap) arg m)
      else if c = 120 \<or> c = 112 then obind (kprintint (arg ap) 16 False s) (cprintf_loop fmt False (Suc ap) arg m)
      else if c = 115 then
        (case print_str (arg ap) m of
           None \<Rightarrow> Blocked ''cprintf''
         | Some cs \<Rightarrow> obind (cons_puts (map sint cs) s) (cprintf_loop fmt False (Suc ap) arg m))
      else if c = 37 then obind (cons_putc 37 s) (cprintf_loop fmt False ap arg m)
      else obind (cons_puts [37, uint c] s) (cprintf_loop fmt False ap arg m))"

definition cprintf :: "uchar list \<Rightarrow> (nat \<Rightarrow> uint) \<Rightarrow> mem \<Rightarrow> console \<Rightarrow> console outcome" where
  "cprintf fmt arg m s = cprintf_loop fmt False 0 arg m s"

definition chars :: "string \<Rightarrow> uchar list" where
  "chars = map of_char"

primrec cprint_pcs :: "uint list \<Rightarrow> console \<Rightarrow> console outcome" where
  "cprint_pcs [] s = Ret s"
| "cprint_pcs (p # ps) s = obind (cprintf (chars '' %p'') (\<lambda>_. p) (\<lambda>_. 0) s) (cprint_pcs ps)"

text \<open>
  The state in which \<^verbatim>\<open>panic\<close> stops: every later character of any processor waits for ever.  \<open>stk\<close> are the words that
  \<^verbatim>\<open>cprintf\<close> would find as arguments of a message with a percent sign.
\<close>

definition kpanic :: "uint \<Rightarrow> uchar list \<Rightarrow> (nat \<Rightarrow> uint) \<Rightarrow> uint list \<Rightarrow> mem \<Rightarrow> console \<Rightarrow> console outcome" where
  "kpanic cpu msg stk ps m s =
     obind (cprintf (chars ''cpu%d: panic: '') (\<lambda>_. cpu) m s) (\<lambda>s1.
     obind (cprintf msg stk m s1) (\<lambda>s2.
     obind (cprintf [10] stk m s2) (\<lambda>s3.
     obind (cprint_pcs ps s3) (\<lambda>s4.
     Ret (s4\<lparr>panicked := True\<rparr>)))))"

section \<open>The line editor\<close>

text \<open>The keys that the interrupt routine treats itself.\<close>

definition CtrlP :: int where "CtrlP = 16"
definition CtrlU :: int where "CtrlU = 21"
definition CtrlH :: int where "CtrlH = 8"
definition CtrlD :: int where "CtrlD = 4"

definition in_at :: "uint \<Rightarrow> console \<Rightarrow> uchar" where
  "in_at i s = in_buf s (unat i mod INPUT_BUF)"

definition in_store :: "uchar \<Rightarrow> console \<Rightarrow> console" where
  "in_store c s = s\<lparr>in_buf := (in_buf s)(unat (in_e s) mod INPUT_BUF := c), in_e := in_e s + 1\<rparr>"

lemma cons_putc_frame: "cons_putc c s = Ret s' \<Longrightarrow> \<exists>l m p. s' = s\<lparr>lpt := l, crt := m, cursor := p\<rparr>"
  by (auto simp: cons_putc_def cga_putc_def lpt_putc_def Let_def split: if_splits prod.splits)

text \<open>Killing a line takes back its characters one by one; the loop ends because the edit index comes down to the write index.\<close>

function kill_line :: "console \<Rightarrow> console outcome" where
  "kill_line s =
     (if in_e s \<noteq> in_w s \<and> in_at (in_e s - 1) s \<noteq> 10
      then obind (cons_putc BACKSPACE (s\<lparr>in_e := in_e s - 1\<rparr>)) kill_line
      else Ret s)"
  by auto
termination
proof (relation "measure (\<lambda>s. unat (in_e s - in_w s))", goal_cases)
  case (2 s s')
  then obtain l m p where "s' = s\<lparr>in_e := in_e s - 1\<rparr>\<lparr>lpt := l, crt := m, cursor := p\<rparr>" using cons_putc_frame by blast
  then have "in_e s' - in_w s' = in_e s - in_w s - 1" by simp
  moreover have "in_e s - in_w s \<noteq> 0" using 2(1) by simp
  ultimately show ?case using unat_minus_one [of "in_e s - in_w s"] by (simp add: unat_gt_0)
qed simp

declare kill_line.simps [simp del]

text \<open>Typing a line of the history again: \<open>x\<close> runs from the start of the line to \<open>lim\<close>, its last character.\<close>

function replay :: "uint \<Rightarrow> uint \<Rightarrow> console \<Rightarrow> console outcome" where
  "replay x lim s =
     (if x < lim then
        (let mc = in_at x s in obind (cons_putc (sint mc) (in_store mc s)) (replay (x + 1) lim))
      else Ret s)"
  by auto
termination
  by (relation "measure (\<lambda>(x, lim, s). unat lim - unat x)") (auto simp: unat_inc_less word_less_nat_alt diff_less_mono2)

declare replay.simps [simp del]

section \<open>The console in the kernel\<close>

text \<open>\<open>input_addr\<close> is the address of \<^verbatim>\<open>input.r\<close>, the channel on which readers sleep.\<close>

record con_kernel = kernel +
  con :: console
  keyboard :: kbd
  input_addr :: uint

definition on_con :: "(console \<Rightarrow> console outcome) \<Rightarrow> 'a con_kernel_scheme \<Rightarrow> 'a con_kernel_scheme outcome" where
  "on_con f s = obind (f (con s)) (\<lambda>c. Ret (s\<lparr>con := c\<rparr>))"

fun state_name :: "procstate \<Rightarrow> string" where
  "state_name UNUSED = ''unused''"
| "state_name EMBRYO = ''embryo''"
| "state_name SLEEPING = ''sleep ''"
| "state_name RUNNABLE = ''runble''"
| "state_name RUNNING = ''run   ''"
| "state_name ZOMBIE = ''zombie''"

definition procdump_entry :: "mem \<Rightarrow> proc \<Rightarrow> console \<Rightarrow> console outcome" where
  "procdump_entry m p c =
     (if p_state p = UNUSED then Ret c
      else
        obind (kprintint (p_pid p) 10 True c) (\<lambda>c1.
        obind (cons_puts (map sint (chars ('' '' @ state_name (p_state p) @ '' '') @ takeWhile (\<lambda>x. x \<noteq> 0) (p_name p))) c1) (\<lambda>c2.
        obind (if p_state p = SLEEPING
               then cprint_pcs (takeWhile (\<lambda>x. x \<noteq> 0) (getcallerpcs (c_ebp (p_context p) + 8) (\<lambda>a. get_mem_u32 a m))) c2
               else Ret c2) (\<lambda>c3.
        cons_putc 10 c3))))"

primrec procdump_loop :: "nat list \<Rightarrow> mem \<Rightarrow> (nat \<Rightarrow> proc) \<Rightarrow> console \<Rightarrow> console outcome" where
  "procdump_loop [] m t c = Ret c"
| "procdump_loop (i # is) m t c = obind (procdump_entry m (t i) c) (procdump_loop is m t)"

definition procdump :: "'a con_kernel_scheme \<Rightarrow> 'a con_kernel_scheme outcome" where
  "procdump s = on_con (procdump_loop [0 ..< NPROC] (kmem s) (ptable s)) s"

definition erase_char :: "console \<Rightarrow> console outcome" where
  "erase_char c = (if in_e c \<noteq> in_w c then cons_putc BACKSPACE (c\<lparr>in_e := in_e c - 1\<rparr>) else Ret c)"

definition hist_line :: "nat \<Rightarrow> console \<Rightarrow> console outcome" where
  "hist_line h c = replay (rhist c h) (ehist c h - 1) c"

text \<open>The history indices are unsigned, so that the test of \<^verbatim>\<open>rhist[histIndex] >= 0\<close> always holds.\<close>

definition key_up :: "console \<Rightarrow> console outcome" where
  "key_up c =
     (let start = histIndex c;
          h = (if start - 1 < 0 then int HISTMAX - 1 else start - 1);
          c1 = c\<lparr>startHistIndex := start, histIndex := h\<rparr>
      in if hist c \<noteq> 0 then
           obind (kill_line c1) (\<lambda>c2.
           obind (if uint (hist c mod of_nat HISTMAX) = h then cprintf (chars ''end of buffer, looping'' @ [10]) (\<lambda>_. 0) (\<lambda>_. 0) c2 else Ret c2)
             (hist_line (nat h)))
         else Ret (c1\<lparr>histIndex := start\<rparr>))"

definition key_down :: "console \<Rightarrow> console outcome" where
  "key_down c =
     (let start = histIndex c;
          h = (if start + 1 \<ge> int HISTMAX then 0 else start + 1);
          c1 = c\<lparr>startHistIndex := start, histIndex := h\<rparr>
      in obind (kill_line c1) (\<lambda>c2.
         if uint (hist c mod of_nat HISTMAX) \<noteq> h then hist_line (nat h) c2 else Ret (c2\<lparr>histIndex := start\<rparr>)))"

definition commit_line :: "console \<Rightarrow> console" where
  "commit_line c =
     (let h = unat (hist c mod of_nat HISTMAX) in
      c\<lparr>in_w := in_e c, rhist := (rhist c)(h := in_r c), ehist := (ehist c)(h := in_e c),
        hist := hist c + 1, histIndex := uint ((hist c + 1) mod of_nat HISTMAX)\<rparr>)"

definition key_char :: "int \<Rightarrow> 'a con_kernel_scheme \<Rightarrow> 'a con_kernel_scheme outcome" where
  "key_char c s =
     (if c \<noteq> 0 \<and> in_e (con s) - in_r (con s) < of_nat INPUT_BUF then
        obind (cons_putc c (in_store (of_int c) (con s))) (\<lambda>c1.
        if c = 10 \<or> c = CtrlD \<or> in_e c1 = in_r c1 + of_nat INPUT_BUF
        then Ret (wakeup (OtherChan (input_addr s)) (s\<lparr>con := commit_line c1\<rparr>))
        else Ret (s\<lparr>con := c1\<rparr>))
      else Ret s)"

definition console_key :: "int \<Rightarrow> 'a con_kernel_scheme \<Rightarrow> 'a con_kernel_scheme outcome" where
  "console_key c s =
     (if c = CtrlP then procdump s
      else if c = CtrlU then on_con kill_line s
      else if c = CtrlH then on_con erase_char s
      else if c = 226 then on_con key_up s
      else if c = 227 then on_con key_down s
      else key_char c s)"

text \<open>
  The keyboard interrupt: the loop reads keys until the controller has none.  What the keys are does not depend on how they
  are handled, so they are read first.
\<close>

primrec console_intr :: "int list \<Rightarrow> 'a con_kernel_scheme \<Rightarrow> 'a con_kernel_scheme outcome" where
  "console_intr [] s = Ret s"
| "console_intr (c # cs) s = obind (console_key c s) (console_intr cs)"

fun kbd_keys :: "nat \<Rightarrow> kbd \<Rightarrow> int list \<times> kbd" where
  "kbd_keys n k = (case n of 0 \<Rightarrow> ([], k) | Suc n' \<Rightarrow>
     (let (c, k1) = kbd_getc k in if c < 0 then ([], k1) else (let (cs, k2) = kbd_keys n' k1 in (c # cs, k2))))"

definition kbd_intr :: "'a con_kernel_scheme \<Rightarrow> 'a con_kernel_scheme outcome" where
  "kbd_intr s =
     (let (cs, k) = kbd_keys (Suc (length (kbd_in (keyboard s)))) (keyboard s) in console_intr cs (s\<lparr>keyboard := k\<rparr>))"

section \<open>Reading and writing the device\<close>

text \<open>
  \<^verbatim>\<open>console_read\<close> takes characters up to the end of a line, the end of file or the number asked for; \<open>got\<close> tells
  that some have been taken.  \<open>CWait\<close> is the point where it sleeps.
\<close>

datatype cread = CDone "uchar list" | CWait

primrec cread_cons :: "uchar \<Rightarrow> cread \<times> console \<Rightarrow> cread \<times> console" where
  "cread_cons ch (r, c) = ((case r of CDone bs \<Rightarrow> CDone (ch # bs) | CWait \<Rightarrow> CWait), c)"

primrec cread_loop :: "nat \<Rightarrow> bool \<Rightarrow> console \<Rightarrow> cread \<times> console" where
  "cread_loop 0 got c = (CDone [], c)"
| "cread_loop (Suc n) got c =
     (if in_r c = in_w c then (CWait, c)
      else
        (let ch = in_at (in_r c) c; c1 = c\<lparr>in_r := in_r c + 1\<rparr> in
         if ch = of_int CtrlD then (CDone [], if got then c1\<lparr>in_r := in_r c1 - 1\<rparr> else c1)
         else if ch = 10 then (CDone [ch], c1)
         else cread_cons ch (cread_loop n True c1)))"

definition console_read :: "bool \<Rightarrow> nat \<Rightarrow> uint \<Rightarrow> 'a con_kernel_scheme \<Rightarrow> (int \<times> uchar list \<times> 'a con_kernel_scheme) outcome" where
  "console_read killed ip n s =
     obind (iunlock (Some ip) s) (\<lambda>s1.
     let (r, c) = cread_loop (nat (sint n)) False (con s1); s2 = s1\<lparr>con := c\<rparr> in
     case r of
       CDone bs \<Rightarrow> obind (ilock (Some ip) s2) (\<lambda>s3. Ret (int (length bs), bs, s3))
     | CWait \<Rightarrow> if killed then obind (ilock (Some ip) s2) (\<lambda>s3. Ret (-1, [], s3)) else Blocked ''console_read'')"

definition console_write :: "nat \<Rightarrow> uchar list \<Rightarrow> 'a con_kernel_scheme \<Rightarrow> (int \<times> 'a con_kernel_scheme) outcome" where
  "console_write ip src s =
     obind (iunlock (Some ip) s) (\<lambda>s1.
     obind (on_con (cons_puts (map uint src)) s1) (\<lambda>s2.
     obind (ilock (Some ip) s2) (\<lambda>s3. Ret (int (length src), s3))))"

definition CONSOLE :: nat where "CONSOLE = 1"

text \<open>\<open>console_init\<close> puts both functions into the device switch and marks the history as empty.\<close>

definition console_devsw :: "('a con_kernel_scheme \<Rightarrow> bool) \<Rightarrow> ('a con_kernel_scheme) devsw" where
  "console_devsw killed =
     \<lparr>devread = (\<lambda>k. if k = CONSOLE then Some (\<lambda>ip n s. console_read (killed s) ip n s) else None),
      devwrite = (\<lambda>k. if k = CONSOLE then Some console_write else None)\<rparr>"

definition console_init :: "console \<Rightarrow> console" where
  "console_init c = c\<lparr>rhist := (\<lambda>i. if i < HISTMAX then -1 else rhist c i)\<rparr>"

section \<open>Output stays on the screen\<close>

definition on_screen :: "console \<Rightarrow> bool" where
  "on_screen c \<longleftrightarrow> 0 \<le> cursor c \<and> cursor c < 24 * 80 \<and> \<not> panicked c"

text \<open>What output may change: the cells of the screen, the cursor and the printer.\<close>

definition printed_only :: "console \<Rightarrow> console \<Rightarrow> bool" where
  "printed_only c c' \<longleftrightarrow> (\<exists>l m p. c' = c\<lparr>lpt := lpt c @ l, crt := m, cursor := p\<rparr> \<and> 0 \<le> p \<and> p < 24 * 80
     \<and> (\<forall>i. i \<notin> {0..<24 * 80} \<longrightarrow> m i = crt c i))"

lemma printed_only_refl: "on_screen c \<Longrightarrow> printed_only c c"
  unfolding printed_only_def on_screen_def by (intro exI [of _ "[]"] exI [of _ "crt c"] exI [of _ "cursor c"]) simp

lemma printed_only_trans: "printed_only a b \<Longrightarrow> printed_only b c \<Longrightarrow> printed_only a c"
  unfolding printed_only_def by (elim exE conjE, intro exI conjI) (auto; fail)+

lemma printed_only_on_screen: "printed_only c c' \<Longrightarrow> on_screen c \<Longrightarrow> on_screen c'"
  by (auto simp: printed_only_def on_screen_def)

definition prints :: "(console \<Rightarrow> console outcome) \<Rightarrow> bool" where
  "prints f \<longleftrightarrow> (\<forall>c. on_screen c \<longrightarrow> (\<exists>c'. f c = Ret c' \<and> printed_only c c'))"

named_theorems printing

lemma prints_Ret [printing]: "prints Ret"
  by (simp add: prints_def printed_only_refl)

lemma prints_bind [printing]: "prints f \<Longrightarrow> prints g \<Longrightarrow> prints (\<lambda>c. obind (f c) g)"
  unfolding prints_def by (metis obind.simps(1) printed_only_on_screen printed_only_trans)

lemma cga_scroll_screen:
  assumes "0 \<le> pos" "pos \<le> 24 * 80" "cga_scroll pos m = (pos', m')"
  shows "0 \<le> pos' \<and> pos' < 24 * 80 \<and> (\<forall>i. i \<notin> {0..<24 * 80} \<longrightarrow> m' i = m i)"
  using assms by (auto simp: cga_scroll_def split: if_splits)

lemma cga_place_screen:
  assumes "0 \<le> pos" "pos < 24 * 80" "cga_place c pos m = (pos', m')"
  shows "0 \<le> pos' \<and> pos' \<le> 24 * 80 \<and> (\<forall>i. i \<notin> {0..<24 * 80} \<longrightarrow> m' i = m i)"
proof -
  have "pos + (80 - pos mod 80) \<le> 24 * 80" using assms(1,2) by presburger
  moreover have "0 \<le> pos + (80 - pos mod 80)" using assms(1) pos_mod_bound [of 80 pos] by linarith
  ultimately show ?thesis using assms by (auto simp: cga_place_def split: if_splits)
qed

lemma prints_putc [printing]: "prints (cons_putc x)"
  unfolding prints_def
proof (intro allI impI)
  fix c
  assume c: "on_screen c"
  obtain p1 m1 where 1: "cga_place x (cursor c) (crt c) = (p1, m1)" by fastforce
  obtain p2 m2 where 2: "cga_scroll p1 m1 = (p2, m2)" by fastforce
  have s1: "0 \<le> p1 \<and> p1 \<le> 24 * 80 \<and> (\<forall>i. i \<notin> {0..<24 * 80} \<longrightarrow> m1 i = crt c i)"
    using cga_place_screen [OF _ _ 1] c unfolding on_screen_def by blast
  then have s2: "0 \<le> p2 \<and> p2 < 24 * 80 \<and> (\<forall>i. i \<notin> {0..<24 * 80} \<longrightarrow> m2 i = m1 i)" using cga_scroll_screen [OF _ _ 2] by blast
  let ?l = "[of_int (if x = BACKSPACE then 8 else x)]"
  have "cons_putc x c = Ret (c\<lparr>lpt := lpt c @ ?l, crt := m2(p2 := blank), cursor := p2\<rparr>)"
    using c 1 2 s2 by (simp add: cons_putc_def cga_putc_def lpt_putc_def on_screen_def)
  moreover have "printed_only c (c\<lparr>lpt := lpt c @ ?l, crt := m2(p2 := blank), cursor := p2\<rparr>)"
    unfolding printed_only_def using s1 s2 by (intro exI conjI refl) auto
  ultimately show "\<exists>c'. cons_putc x c = Ret c' \<and> printed_only c c'" by blast
qed

lemma prints_puts [printing]: "prints (cons_puts cs)"
proof (induction cs)
  case (Cons x cs)
  have "cons_puts (x # cs) = (\<lambda>c. obind (cons_putc x c) (cons_puts cs))" by (rule ext) simp
  then show ?case using Cons printing by simp
qed (simp add: prints_def printed_only_refl)

lemma prints_printint [printing]: "prints (kprintint x base sgnd)"
  unfolding kprintint_def Let_def by (rule prints_puts)

lemma prints_text [printing]: "37 \<notin> set fmt \<Longrightarrow> prints (cprintf_loop fmt False ap arg m)"
proof (induction fmt)
  case (Cons x fmt)
  then have "cprintf_loop (x # fmt) False ap arg m = (\<lambda>c. obind (cons_putc (uint x) c) (cprintf_loop fmt False ap arg m))"
    by (intro ext) auto
  then show ?case using Cons printing by simp
qed (simp add: prints_def printed_only_refl)

lemma prints_pcs [printing]: "prints (cprint_pcs ps)"
proof (induction ps)
  case (Cons x ps)
  have "cprint_pcs (x # ps) = (\<lambda>c. obind (cons_putc 32 c) (\<lambda>c. obind (kprintint x 16 False c) (cprint_pcs ps)))"
    by (rule ext) (simp add: cprintf_def chars_def obind_assoc of_char_def)
  then show ?case using Cons by (simp add: prints_bind printing)
qed (simp add: prints_def printed_only_refl)

lemma prints_if [printing]: "prints f \<Longrightarrow> prints g \<Longrightarrow> prints (\<lambda>c. if b then f c else g c)"
  by (cases b) simp_all

lemma prints_procdump_entry [printing]: "prints (procdump_entry m p)"
  unfolding procdump_entry_def by (intro printing)

lemma prints_procdump [printing]: "prints (procdump_loop is m t)"
proof (induction "is")
  case (Cons x "is")
  have "procdump_loop (x # is) m t = (\<lambda>c. obind (procdump_entry m (t x) c) (procdump_loop is m t))" by (rule ext) simp
  then show ?case using Cons by (simp add: prints_bind printing)
qed (simp add: prints_def printed_only_refl)

section \<open>The line editor on lists\<close>

text \<open>The characters that wait for a reader and those of the line that is still edited.\<close>

definition unread :: "console \<Rightarrow> uchar list" where
  "unread c = ring INPUT_BUF (in_buf c) (in_r c) (in_w c)"

definition edited :: "console \<Rightarrow> uchar list" where
  "edited c = ring INPUT_BUF (in_buf c) (in_w c) (in_e c)"

definition con_inv :: "console \<Rightarrow> bool" where
  "con_inv c \<longleftrightarrow> unat (in_w c - in_r c) \<le> unat (in_e c - in_r c) \<and> unat (in_e c - in_r c) \<le> INPUT_BUF
     \<and> 10 \<notin> set (edited c) \<and> on_screen c"

lemma ring_size_INPUT_BUF [simp]: "ring_size INPUT_BUF"
  by (simp add: ring_size_def INPUT_BUF_def)

lemma ring_eq_size: "ring_size K \<Longrightarrow> x = of_nat K \<longleftrightarrow> unat x = K" for x :: uint
proof -
  assume "ring_size K"
  then have "unat (of_nat K :: uint) = K" by (simp add: ring_size_def unat_of_nat)
  then show ?thesis by (metis unsigned_word_eqI)
qed

lemma lengths: "con_inv c \<Longrightarrow> length (unread c) + length (edited c) = unat (in_e c - in_r c)"
  using ring_append(2) [of INPUT_BUF "in_w c" "in_r c" "in_e c"] by (auto simp: con_inv_def unread_def edited_def)

lemma printed_only_fields:
  assumes "printed_only c c'"
  shows "in_buf c' = in_buf c" "in_r c' = in_r c" "in_w c' = in_w c" "in_e c' = in_e c" "unread c' = unread c" "edited c' = edited c"
    "rhist c' = rhist c" "ehist c' = ehist c" "hist c' = hist c" "histIndex c' = histIndex c"
  using assms by (auto simp: printed_only_def unread_def edited_def)

lemma con_inv_printed: "printed_only c c' \<Longrightarrow> con_inv c \<Longrightarrow> con_inv c'"
  using printed_only_on_screen [of c c'] printed_only_fields [of c c'] by (simp add: con_inv_def)

lemma printed_only_upd_e:
  assumes "printed_only c c'"
  shows "printed_only (c\<lparr>in_e := x\<rparr>) (c'\<lparr>in_e := x\<rparr>)"
proof -
  obtain l m p where "c' = c\<lparr>lpt := lpt c @ l, crt := m, cursor := p\<rparr>" "0 \<le> p" "p < 24 * 80"
    "\<forall>i. i \<notin> {0..<24 * 80} \<longrightarrow> m i = crt c i" using assms unfolding printed_only_def by blast
  then show ?thesis unfolding printed_only_def by (intro exI [of _ l] exI [of _ m] exI [of _ p]) simp
qed

lemma edited_pred:
  assumes "in_e c \<noteq> in_w c"
  shows "edited (c\<lparr>in_e := in_e c - 1\<rparr>) = butlast (edited c)" "in_at (in_e c - 1) c = last (edited c)"
  using ring_butlast [of INPUT_BUF "in_w c" "in_e c" "in_buf c"] assms by (auto simp: edited_def in_at_def)

lemma kill_line_edited:
  "on_screen c \<Longrightarrow> 10 \<notin> set (edited c) \<Longrightarrow> \<exists>c'. kill_line c = Ret c' \<and> printed_only (c\<lparr>in_e := in_w c\<rparr>) c'"
proof (induction c rule: kill_line.induct)
  case (1 c)
  show ?case
  proof (cases "in_e c = in_w c")
    case True
    then have eq: "c\<lparr>in_e := in_w c\<rparr> = c" by simp
    show ?thesis unfolding eq using 1(2) True printed_only_refl by (subst kill_line.simps) simp
  next
    case False
    let ?c = "c\<lparr>in_e := in_e c - 1\<rparr>"
    have ne: "edited c \<noteq> []" using False by (simp add: edited_def ring_Nil_iff)
    then have cond: "in_at (in_e c - 1) c \<noteq> 10" using edited_pred(2) [OF False] 1(3) last_in_set by fastforce
    have "on_screen ?c" using 1(2) by (simp add: on_screen_def)
    then obtain c1 where c1: "cons_putc BACKSPACE ?c = Ret c1" "printed_only ?c c1" "on_screen c1"
      using prints_putc printed_only_on_screen unfolding prints_def by blast
    have "edited c1 = butlast (edited c)" "in_w c1 = in_w c"
      using printed_only_fields [OF c1(2)] edited_pred(1) [OF False] by simp_all
    then obtain c2 where c2: "kill_line c1 = Ret c2" "printed_only (c1\<lparr>in_e := in_w c\<rparr>) c2"
      using 1(1) [OF _ c1(1)] False cond c1(3) 1(3) by (auto dest: in_set_butlastD)
    have "printed_only (?c\<lparr>in_e := in_w c\<rparr>) c2"
      using printed_only_trans [OF printed_only_upd_e [OF c1(2)] c2(2)] .
    then show ?thesis using c1 c2 False cond by (subst kill_line.simps) simp
  qed
qed

text \<open>What a key does to the characters that wait and to the edited line.\<close>

definition edit_key :: "int \<Rightarrow> uchar list \<times> uchar list \<Rightarrow> uchar list \<times> uchar list" where
  "edit_key k = (\<lambda>(u, l).
     if k = CtrlU then (u, [])
     else if k = CtrlH then (u, butlast l)
     else if k = CtrlP \<or> k = 0 \<or> length u + length l \<ge> INPUT_BUF then (u, l)
     else
       let l' = l @ [of_int k] in
       if k = 10 \<or> k = CtrlD \<or> length u + length l' = INPUT_BUF then (u @ l', []) else (u, l'))"

definition lines_of :: "console \<Rightarrow> uchar list \<times> uchar list" where
  "lines_of c = (unread c, edited c)"

lemma kill_line_sim: "con_inv c \<Longrightarrow> \<exists>c'. kill_line c = Ret c' \<and> con_inv c' \<and> lines_of c' = (unread c, [])"
proof -
  assume c: "con_inv c"
  then obtain c' where c': "kill_line c = Ret c'" "printed_only (c\<lparr>in_e := in_w c\<rparr>) c'"
    using kill_line_edited [of c] by (auto simp: con_inv_def)
  have "con_inv (c\<lparr>in_e := in_w c\<rparr>)" using c by (auto simp: con_inv_def edited_def on_screen_def)
  then show ?thesis
    using c' con_inv_printed [OF c'(2)] printed_only_fields [OF c'(2)] by (simp add: lines_of_def unread_def edited_def)
qed

lemma erase_char_sim: "con_inv c \<Longrightarrow> \<exists>c'. erase_char c = Ret c' \<and> con_inv c' \<and> lines_of c' = (unread c, butlast (edited c))"
proof (cases "in_e c = in_w c")
  case False
  assume c: "con_inv c"
  let ?c = "c\<lparr>in_e := in_e c - 1\<rparr>"
  note e = edited_pred(1) [OF False]
  have l0: "0 < length (edited c)" using False by (simp add: edited_def unat_gt_0)
  then have "in_r c \<noteq> in_e c" using lengths [OF c] by auto
  then have pred: "unat (in_e c - 1 - in_r c) = unat (in_e c - in_r c) - 1" by (intro unat_dist_pred(2))
  have wr: "length (unread c) = unat (in_w c - in_r c)" by (simp add: unread_def)
  have "unat (in_w c - in_r c) \<le> unat (in_e c - 1 - in_r c)" "unat (in_e c - 1 - in_r c) \<le> INPUT_BUF"
    using lengths [OF c] l0 wr pred c unfolding con_inv_def by linarith+
  then have inv: "con_inv ?c" using c e by (auto simp: con_inv_def on_screen_def dest: in_set_butlastD)
  then obtain c' where c': "cons_putc BACKSPACE ?c = Ret c'" "printed_only ?c c'"
    using prints_putc unfolding prints_def con_inv_def by blast
  then show ?thesis
    using False e con_inv_printed [OF c'(2) inv] printed_only_fields [OF c'(2)] by (simp add: erase_char_def lines_of_def unread_def)
qed (auto simp: erase_char_def lines_of_def edited_def)

lemma in_store_sim:
  assumes "con_inv c" "length (unread c) + length (edited c) < INPUT_BUF"
  shows "unread (in_store x c) = unread c" "edited (in_store x c) = edited c @ [x]"
    "unat (in_e c + 1 - in_r c) = Suc (length (unread c) + length (edited c))"
    "ring INPUT_BUF (in_buf (in_store x c)) (in_r c) (in_e c + 1) = unread c @ edited c @ [x]"
proof -
  have e: "unat (in_e c - in_r c) < INPUT_BUF" and w: "unat (in_w c - in_r c) \<le> unat (in_e c - in_r c)"
    using assms lengths [OF assms(1)] by (auto simp: con_inv_def)
  show u: "unread (in_store x c) = unread c" using e w by (simp add: unread_def in_store_def ring_store_outside)
  have "unat (in_e c - in_w c) < INPUT_BUF" using assms(2) by (simp add: edited_def)
  then show l: "edited (in_store x c) = edited c @ [x]" by (simp add: edited_def in_store_def ring_snoc)
  show n: "unat (in_e c + 1 - in_r c) = Suc (length (unread c) + length (edited c))"
    using e lengths [OF assms(1)] by (simp add: unat_dist_Suc [of INPUT_BUF])
  have "unat (in_w c - in_r c) \<le> unat (in_e c + 1 - in_r c)" using n w lengths [OF assms(1)] by simp
  from ring_append(1) [OF ring_size_INPUT_BUF this, of "in_buf (in_store x c)"]
  show "ring INPUT_BUF (in_buf (in_store x c)) (in_r c) (in_e c + 1) = unread c @ edited c @ [x]"
    using u l by (simp add: unread_def edited_def in_store_def)
qed

lemma on_screen_in_store: "on_screen c \<Longrightarrow> on_screen (in_store x c)"
  by (simp add: on_screen_def in_store_def)

lemma commit_line_lines:
  assumes "con_inv c" "length (unread c) + length (edited c) < INPUT_BUF" "printed_only (in_store x c) c1"
  shows "con_inv (commit_line c1)" "lines_of (commit_line c1) = (unread c @ edited c @ [x], [])"
proof -
  note f = printed_only_fields [OF assms(3)] and st = in_store_sim(3) [OF assms(1,2)] in_store_sim(4) [OF assms(1,2), of x]
  have "on_screen c1" using assms(1,3) on_screen_in_store printed_only_on_screen unfolding con_inv_def by blast
  then show "con_inv (commit_line c1)"
    using f st(1) assms(2) by (simp add: con_inv_def commit_line_def Let_def edited_def on_screen_def in_store_def)
  show "lines_of (commit_line c1) = (unread c @ edited c @ [x], [])"
    using f st(2) by (simp add: lines_of_def commit_line_def Let_def unread_def edited_def in_store_def)
qed

lemma of_int_uchar: "0 \<le> k \<Longrightarrow> k < 256 \<Longrightarrow> 0 \<le> j \<Longrightarrow> j < 256 \<Longrightarrow> (of_int k = (of_int j :: uchar)) \<longleftrightarrow> k = j"
  by (simp add: word_of_int_eq_iff take_bit_int_eq_self)

lemma key_char_sim:
  assumes "con_inv (con s)" "0 \<le> k" "k < 256" "k \<notin> {CtrlP, CtrlU, CtrlH, 226, 227}"
  shows "\<exists>s'. key_char k s = Ret s' \<and> con_inv (con s') \<and> lines_of (con s') = edit_key k (lines_of (con s))"
proof (cases "k \<noteq> 0 \<and> length (unread (con s)) + length (edited (con s)) < INPUT_BUF")
  case False
  have "in_e (con s) - in_r (con s) < of_nat INPUT_BUF \<longleftrightarrow> length (unread (con s)) + length (edited (con s)) < INPUT_BUF"
    using lengths [OF assms(1)] by (simp add: word_less_nat_alt INPUT_BUF_def)
  then show ?thesis using False assms by (auto simp: key_char_def edit_key_def lines_of_def)
next
  case True
  let ?c = "con s" and ?x = "of_int k :: uchar"
  note room = True [THEN conjunct2]
  have lt: "in_e ?c - in_r ?c < of_nat INPUT_BUF"
    using True lengths [OF assms(1)] by (simp add: word_less_nat_alt INPUT_BUF_def)
  have "on_screen (in_store ?x ?c)" using assms(1) on_screen_in_store by (simp add: con_inv_def)
  then obtain c1 where c1: "cons_putc k (in_store ?x ?c) = Ret c1" "printed_only (in_store ?x ?c) c1" "on_screen c1"
    using prints_putc printed_only_on_screen unfolding prints_def by blast
  note f = printed_only_fields [OF c1(2)] and len = in_store_sim(3) [OF assms(1) room]
    and u = in_store_sim(1) [OF assms(1) room, of ?x] and l = in_store_sim(2) [OF assms(1) room, of ?x]
  have "in_e c1 = in_r c1 + of_nat INPUT_BUF \<longleftrightarrow> in_e ?c + 1 - in_r ?c = of_nat INPUT_BUF"
    using f by (auto simp: in_store_def algebra_simps)
  also have "\<dots> \<longleftrightarrow> unat (in_e ?c + 1 - in_r ?c) = INPUT_BUF" by (rule ring_eq_size) simp
  finally have full: "in_e c1 = in_r c1 + of_nat INPUT_BUF \<longleftrightarrow> Suc (length (unread ?c) + length (edited ?c)) = INPUT_BUF" by (simp add: len)
  show ?thesis
  proof (cases "k = 10 \<or> k = CtrlD \<or> in_e c1 = in_r c1 + of_nat INPUT_BUF")
    case True
    then show ?thesis
      using commit_line_lines [OF assms(1) room c1(2)] c1(1) lt \<open>k \<noteq> 0 \<and> _\<close> assms(4) full
      by (auto simp: key_char_def wakeup_def wakeup1_def edit_key_def lines_of_def)
  next
    case False
    have "?x \<noteq> 10" using False of_int_uchar [of k 10] assms(2,3) by simp
    moreover have "unat (in_w c1 - in_r c1) \<le> unat (in_e c1 - in_r c1)" "unat (in_e c1 - in_r c1) \<le> INPUT_BUF"
      using f len room by (simp_all add: in_store_def unread_def)
    ultimately have "con_inv c1" using f l c1(3) assms(1) by (auto simp: con_inv_def)
    then show ?thesis
      using False c1(1) lt \<open>k \<noteq> 0 \<and> _\<close> assms(4) full f u l by (auto simp: key_char_def edit_key_def lines_of_def)
  qed
qed

lemma console_key_sim:
  assumes "con_inv (con s)" "0 \<le> k" "k < 256" "k \<noteq> 226" "k \<noteq> 227"
  shows "\<exists>s'. console_key k s = Ret s' \<and> con_inv (con s') \<and> lines_of (con s') = edit_key k (lines_of (con s))"
proof -
  consider "k = CtrlP" | "k = CtrlU" | "k = CtrlH" | "k \<notin> {CtrlP, CtrlU, CtrlH, 226, 227}" using assms(4,5) by blast
  then show ?thesis
  proof cases
    case 1
    obtain c' where c': "procdump_loop [0..<NPROC] (kmem s) (ptable s) (con s) = Ret c'" "printed_only (con s) c'"
      using prints_procdump assms(1) unfolding prints_def con_inv_def by blast
    then show ?thesis
      using 1 con_inv_printed [OF c'(2) assms(1)] printed_only_fields [OF c'(2)]
      by (simp add: console_key_def procdump_def on_con_def lines_of_def edit_key_def CtrlP_def CtrlU_def CtrlH_def)
  next
    case 2
    then show ?thesis using kill_line_sim [OF assms(1)]
      by (auto simp: console_key_def on_con_def lines_of_def edit_key_def CtrlP_def CtrlU_def)
  next
    case 3
    then show ?thesis using erase_char_sim [OF assms(1)]
      by (auto simp: console_key_def on_con_def lines_of_def edit_key_def CtrlP_def CtrlU_def CtrlH_def)
  next
    case 4
    then show ?thesis using key_char_sim [OF assms(1-3)] by (simp add: console_key_def)
  qed
qed

lemma console_intr_sim:
  assumes "con_inv (con s)" "\<forall>k \<in> set ks. 0 \<le> k \<and> k < 256 \<and> k \<noteq> 226 \<and> k \<noteq> 227"
  shows "\<exists>s'. console_intr ks s = Ret s' \<and> con_inv (con s') \<and> lines_of (con s') = fold edit_key ks (lines_of (con s))"
  using assms
proof (induction ks arbitrary: s)
  case (Cons k ks)
  then obtain s1 where s1: "console_key k s = Ret s1" "con_inv (con s1)" "lines_of (con s1) = edit_key k (lines_of (con s))"
    using console_key_sim [of s k] by auto
  then show ?case using Cons.IH [of s1] Cons.prems(2) by simp
qed simp

text \<open>
  C30: The keyboard interrupt edits a line as a user expects, whatever keys come and however the ring buffer has wrapped
  around: it always ends, and the waiting characters and the edited line are what the list operations give, in which
  control-U clears the line, control-H takes back a character, and a line goes to the readers when it ends, at the end of
  file and when the buffer is full.  The keys that recall the history are left out.
\<close>

theorem console_intr_edits:
  assumes "con_inv (con s)" "\<forall>k \<in> set ks. 0 \<le> k \<and> k < 256 \<and> k \<noteq> 226 \<and> k \<noteq> 227"
  shows "\<exists>s'. console_intr ks s = Ret s' \<and> con_inv (con s') \<and> lines_of (con s') = fold edit_key ks (lines_of (con s))"
  using console_intr_sim [OF assms] .

section \<open>Reading a line\<close>

definition next_read :: "bool \<Rightarrow> nat \<Rightarrow> uchar list \<Rightarrow> uchar list option \<times> uchar list" where
  "next_read got n u =
     (let pre = takeWhile (\<lambda>x. x \<noteq> 10 \<and> x \<noteq> 4) u in
      if n \<le> length pre then (Some (take n u), drop n u)
      else if pre = u then (None, [])
      else if u ! length pre = 10 then (Some (pre @ [10]), drop (length pre + 1) u)
      else (Some pre, drop (if pre = [] \<and> \<not> got then 1 else length pre) u))"

definition cread_result :: "cread \<times> console \<Rightarrow> uchar list option \<times> uchar list" where
  "cread_result rc = ((case fst rc of CDone bs \<Rightarrow> Some bs | CWait \<Rightarrow> None), unread (snd rc))"

lemma unread_Cons: "in_r c \<noteq> in_w c \<Longrightarrow> unread c = in_at (in_r c) c # unread (c\<lparr>in_r := in_r c + 1\<rparr>)"
  by (simp add: unread_def in_at_def ring_Cons)

lemma next_read_Cons:
  "x \<noteq> 10 \<Longrightarrow> x \<noteq> 4 \<Longrightarrow> next_read got (Suc n) (x # u) = (map_option ((#) x) (fst (next_read True n u)), snd (next_read True n u))"
  by (simp add: next_read_def Let_def)

lemma cread_loop_sim:
  "cread_result (cread_loop n got c) = next_read got n (unread c)
    \<and> (\<exists>r. snd (cread_loop n got c) = c\<lparr>in_r := r\<rparr>)"
proof (induction n arbitrary: got c)
  case 0
  then show ?case by (auto simp: cread_result_def next_read_def Let_def intro: exI [of _ "in_r c"])
next
  case (Suc n)
  show ?case
  proof (cases "in_r c = in_w c")
    case True
    then have "unread c = []" by (simp add: unread_def)
    then show ?thesis using True by (auto simp: cread_result_def next_read_def intro: exI [of _ "in_r c"])
  next
    case False
    let ?c1 = "c\<lparr>in_r := in_r c + 1\<rparr>" let ?x = "in_at (in_r c) c"
    note u = unread_Cons [OF False]
    have self: "\<exists>r. c = c\<lparr>in_r := r\<rparr>" by (intro exI [of _ "in_r c"]) simp
    show ?thesis
    proof (cases "?x = 10 \<or> ?x = 4")
      case True
      then show ?thesis using False u self by (auto simp: CtrlD_def cread_result_def next_read_def Let_def)
    next
      case ne: False
      obtain r c' where l: "cread_loop n True ?c1 = (r, c')" by fastforce
      then have "next_read True n (unread ?c1) = cread_result (r, c')" "\<exists>r. c' = c\<lparr>in_r := r\<rparr>"
        using Suc.IH [of True ?c1] by simp_all
      then show ?thesis using False ne l u
        by (auto simp: CtrlD_def cread_result_def next_read_Cons Let_def split: cread.splits)
    qed
  qed
qed

lemma ilock_iunlock:
  assumes "1 \<le> i_ref (icache s ip)" "{I_BUSY, I_VALID} \<subseteq> i_flags (icache s ip)"
  shows "\<exists>s1. iunlock (Some ip) s = Ret s1 \<and> con s1 = con s \<and> (\<forall>c. ilock (Some ip) (s1\<lparr>con := c\<rparr>) = Ret (s\<lparr>con := c\<rparr>))"
  using assms by (auto simp: iunlock_def ilock_def upd_inode_def Let_def insert_absorb fun_upd_idem)

lemma console_read_next:
  assumes "1 \<le> i_ref (icache s ip)" "{I_BUSY, I_VALID} \<subseteq> i_flags (icache s ip)"
    and "next_read False (nat (sint n)) (unread (con s)) = (Some bs, rest)"
  shows "\<exists>s'. console_read killed ip n s = Ret (int (length bs), bs, s') \<and> unread (con s') = rest
    \<and> (\<exists>r. s' = s\<lparr>con := (con s)\<lparr>in_r := r\<rparr>\<rparr>)"
proof -
  obtain s1 where s1: "iunlock (Some ip) s = Ret s1" "con s1 = con s" "\<And>c. ilock (Some ip) (s1\<lparr>con := c\<rparr>) = Ret (s\<lparr>con := c\<rparr>)"
    using ilock_iunlock [OF assms(1,2)] by blast
  obtain x c where l: "cread_loop (nat (sint n)) False (con s) = (x, c)" by fastforce
  have "x = CDone bs" "unread c = rest" "\<exists>r. c = (con s)\<lparr>in_r := r\<rparr>"
    using cread_loop_sim [of "nat (sint n)" False "con s"] l assms(3) by (auto simp: cread_result_def split: cread.splits)
  then show ?thesis using s1 l by (auto simp: console_read_def)
qed

text \<open>
  C31: A read of the console returns the next characters in the order they were typed: up to and including the end of the
  line, at most the number asked for, and an empty result for an end of file at the beginning; the characters it did not
  return stay for the next read.
\<close>

theorem console_read_line:
  assumes "1 \<le> i_ref (icache s ip)" "{I_BUSY, I_VALID} \<subseteq> i_flags (icache s ip)"
    and "next_read False (nat (sint n)) (unread (con s)) = (Some bs, rest)"
  shows "\<exists>s'. console_read killed ip n s = Ret (int (length bs), bs, s') \<and> unread (con s') = rest
    \<and> (\<exists>r. s' = s\<lparr>con := (con s)\<lparr>in_r := r\<rparr>\<rparr>)"
  using console_read_next [OF assms] .

section \<open>The history\<close>

lemma replay_advances:
  "on_screen c \<Longrightarrow> x \<le> lim \<Longrightarrow> \<exists>c'. replay x lim c = Ret c' \<and> in_e c' = in_e c + (lim - x) \<and> in_r c' = in_r c \<and> in_w c' = in_w c"
proof (induction "unat lim - unat x" arbitrary: x c)
  case 0
  then have "x = lim" by (simp add: word_le_nat_alt) (metis le_antisym unsigned_word_eqI)
  then show ?case by (subst replay.simps) simp
next
  case (Suc d)
  then have lt: "x < lim" by (simp add: word_less_nat_alt)
  let ?c = "in_store (in_at x c) c"
  have "on_screen ?c" using Suc.prems(1) by (rule on_screen_in_store)
  then obtain c1 where c1: "cons_putc (sint (in_at x c)) ?c = Ret c1" "printed_only ?c c1" "on_screen c1"
    using prints_putc printed_only_on_screen unfolding prints_def by blast
  have "unat lim - unat (x + 1) = d" "x + 1 \<le> lim" using Suc.hyps(2) lt by (auto simp: unat_inc_less word_le_nat_alt word_less_nat_alt)
  from Suc.hyps(1) [OF this(1) [symmetric] c1(3) this(2)] show ?case
    using lt c1(1) printed_only_fields [OF c1(2)] by (subst replay.simps) (auto simp: Let_def in_store_def)
qed

lemma word_le_minus_one: "x < y \<Longrightarrow> x \<le> y - 1" for x y :: uint
proof -
  assume "x < y"
  then have "unat x < unat y" "y \<noteq> 0" by (auto simp: word_less_nat_alt)
  then show ?thesis using unat_minus_one [of y] by (simp add: word_le_nat_alt)
qed

text \<open>
  The keys that recall a line do not look for room: with unread input and a recalled line that together exceed the buffer,
  the recalled characters overwrite the input that waits for its reader.
\<close>

theorem history_overruns:
  assumes "con_inv (con s)" "edited (con s) = []" "hist (con s) = 1" "histIndex (con s) = 1"
    and "rhist (con s) 0 < ehist (con s) 0" "length (unread (con s)) + unat (ehist (con s) 0 - 1 - rhist (con s) 0) > INPUT_BUF"
    and "unat (ehist (con s) 0 - 1 - rhist (con s) 0) \<le> INPUT_BUF"
  shows "\<exists>s'. console_key 226 s = Ret s' \<and> \<not> con_inv (con s')"
proof -
  let ?c = "con s" let ?c1 = "?c\<lparr>startHistIndex := 1, histIndex := 0\<rparr>"
  let ?n = "ehist ?c 0 - 1 - rhist ?c 0"
  have e: "in_e ?c = in_w ?c" using assms(2) by (simp add: edited_def ring_Nil_iff)
  have "on_screen ?c1" using assms(1) by (simp add: con_inv_def on_screen_def)
  moreover have "rhist ?c 0 \<le> ehist ?c 0 - 1"
    using assms(5) by (rule word_le_minus_one)
  ultimately obtain c' where c': "replay (rhist ?c 0) (ehist ?c 0 - 1) ?c1 = Ret c'" "in_e c' = in_w ?c + ?n" "in_r c' = in_r ?c"
    using replay_advances [of ?c1 "rhist ?c 0" "ehist ?c 0 - 1"] e by auto
  have "kill_line ?c1 = Ret ?c1" using e by (subst kill_line.simps) simp
  then have "console_key 226 s = Ret (s\<lparr>con := c'\<rparr>)"
    using assms(3,4) c'(1) by (simp add: console_key_def on_con_def key_up_def hist_line_def CtrlP_def CtrlU_def CtrlH_def HISTMAX_def Let_def)
  moreover have "in_e c' - in_r c' = (in_w ?c - in_r ?c) + ?n" using c' by simp
  then have "unat (in_e c' - in_r c') = length (unread ?c) + unat ?n"
    using assms(1,7) e unat_add_uint [of "in_w ?c - in_r ?c" ?n] by (simp add: unread_def con_inv_def INPUT_BUF_def)
  then have "\<not> con_inv c'" using assms(6) by (simp add: con_inv_def)
  ultimately show ?thesis by (intro exI [of _ "s\<lparr>con := c'\<rparr>"]) simp
qed

section \<open>The console as a device\<close>

lemma fds_con [simp]: "fds (s\<lparr>con := c\<rparr>) = fds s"
  by (simp add: fds_def)

text \<open>The console keeps what the calls on files rely on, so their lemmas hold of the kernel with this device.\<close>

interpretation condev: file_devices "console_devsw killed" for killed
proof
  show "fds s' = fds s" if "devread (console_devsw killed) k = Some f" "f ip n s = Ret (r, cs, s')" for k f ip n s r cs s'
    using that by (auto simp: console_devsw_def console_read_def Let_def split: if_splits prod.splits cread.splits dest!: fs_fds)
  show "fds s' = fds s" if "devwrite (console_devsw killed) k = Some g" "g ip src s = Ret (v, s')" for k g ip src s v s'
    using that by (auto simp: console_devsw_def console_write_def on_con_def split: if_splits dest!: fs_fds)
qed

section \<open>From the keyboard to the reader\<close>

lemma kbd_enter: "kbd_getc \<lparr>kshift = 0, kbd_in = 0x1C # rest\<rparr> = (10, \<lparr>kshift = 0, kbd_in = rest\<rparr>)"
proof -
  have "kbd_getc \<lparr>kshift = 0, kbd_in = 0x1C # rest\<rparr> = (let c = caps_case 0 (ucast (normalmap 28)) in (uint c, \<lparr>kshift = 0, kbd_in = rest\<rparr>))"
    by (simp add: kbd_getc_def kbd_key_def charcode_def shiftcode_def togglecode_def)
  also have "normalmap 28 = 10" by (simp add: normalmap_def keys_of_def normal_keys_def)
  finally show ?thesis by (simp add: caps_case_def)
qed

definition letter_code :: "uchar \<Rightarrow> bool" where
  "letter_code b \<longleftrightarrow> b < 0x80 \<and> letter (normalmap (unat b))"

lemma kbd_keys_line:
  "list_all letter_code scs \<Longrightarrow> length scs + 2 \<le> n \<Longrightarrow>
    kbd_keys n \<lparr>kshift = 0, kbd_in = scs @ [0x1C]\<rparr> = (map (\<lambda>b. uint (normalmap (unat b))) scs @ [10], \<lparr>kshift = 0, kbd_in = []\<rparr>)"
proof (induction scs arbitrary: n)
  case Nil
  then obtain m where "n = Suc (Suc m)" by (metis add_2_eq_Suc le_Suc_ex list.size(3) plus_nat.add_0)
  then show ?case by (simp add: kbd_enter) (simp add: kbd_getc_def)
next
  case (Cons b scs)
  then obtain m where m: "n = Suc m" by (cases n) auto
  have "kbd_getc \<lparr>kshift = 0, kbd_in = (b # scs) @ [0x1C]\<rparr> = (uint (normalmap (unat b)), \<lparr>kshift = 0, kbd_in = scs @ [0x1C]\<rparr>)"
    using Cons.prems(1) kbd_letter_case [of "\<lparr>kshift = 0, kbd_in = (b # scs) @ [0x1C]\<rparr>" b "scs @ [0x1C]"] by (simp add: letter_code_def)
  then show ?case using Cons.IH [of m] Cons.prems m by (subst kbd_keys.simps) simp
qed

lemma edit_letters:
  "list_all letter ls \<Longrightarrow> length l + length ls < INPUT_BUF \<Longrightarrow> fold edit_key (map uint ls) ([], l) = ([], l @ ls)"
proof (induction ls arbitrary: l)
  case (Cons x ls)
  have "97 \<le> uint x" "uint x \<le> 122" using Cons.prems(1) by (auto simp: letter_def word_le_def)
  then have "edit_key (uint x) ([], l) = ([], l @ [x])"
    using Cons.prems(2) by (simp add: edit_key_def CtrlU_def CtrlH_def CtrlP_def CtrlD_def Let_def)
  then show ?case using Cons by simp
qed simp

lemma on_con_icache: "on_con f s = Ret s' \<Longrightarrow> icache s' = icache s"
  by (auto simp: on_con_def)

lemma console_key_icache: "console_key k s = Ret s' \<Longrightarrow> icache s' = icache s"
  by (auto simp: console_key_def procdump_def key_char_def wakeup_def wakeup1_def split: if_splits dest: on_con_icache)

lemma console_intr_icache: "console_intr ks s = Ret s' \<Longrightarrow> icache s' = icache s"
  by (induction ks arbitrary: s) (auto dest!: console_key_icache)

section \<open>Examples\<close>

definition demo_console :: console where
  "demo_console = \<lparr>crt = (\<lambda>_. blank), cursor = 0, lpt = [], panicked = False, in_buf = (\<lambda>_. 0), in_r = 0, in_w = 0, in_e = 0,
     rhist = (\<lambda>_. -1), ehist = (\<lambda>_. 0), hist = 0, histIndex = 0, startHistIndex = 0\<rparr>"

definition demo_con :: con_kernel where
  "demo_con = kernel.extend demo_nofiles \<lparr>con = demo_console, keyboard = \<lparr>kshift = 0, kbd_in = []\<rparr>, input_addr = 0\<rparr>"

lemma demo_console_inv: "con_inv demo_console" "lines_of demo_console = ([], [])"
  by (simp_all add: con_inv_def demo_console_def edited_def on_screen_def lines_of_def unread_def)

lemma con_demo: "con demo_con = demo_console"
  by (simp add: demo_con_def kernel.extend_def)

theorem console_intr_edits_witness:
  "\<exists>s'. console_intr [108, 115, 8, 110, 10] demo_con = Ret s' \<and> unread (con s') = [108, 110, 10] \<and> edited (con s') = []"
proof -
  have "fold edit_key [108, 115, 8, 110, 10] ([], []) = ([108, 110, 10], [])" by code_simp
  then show ?thesis using console_intr_edits [of demo_con "[108, 115, 8, 110, 10]"] demo_console_inv con_demo by (auto simp: lines_of_def)
qed

definition demo_typed :: con_kernel where
  "demo_typed = demo_con\<lparr>con := demo_console\<lparr>in_buf := (\<lambda>i. [108, 115, 10] ! i), in_w := 3, in_e := 3\<rparr>,
     icache := (\<lambda>_. (icache demo_con 0)\<lparr>i_ref := 1, i_flags := {I_BUSY, I_VALID}\<rparr>)\<rparr>"

theorem console_read_line_witness:
  "\<exists>s'. console_read False 0 10 demo_typed = Ret (3, [108, 115, 10], s') \<and> unread (con s') = []"
proof -
  have "unread (con demo_typed) = [108, 115, 10]"
    by (simp add: demo_typed_def unread_def ring_def INPUT_BUF_def demo_console_def upt_rec)
  then have "next_read False (nat (sint (10 :: uint))) (unread (con demo_typed)) = (Some [108, 115, 10], [])"
    by (simp add: next_read_def)
  from console_read_line [of demo_typed 0, OF _ _ this, of False] show ?thesis by (auto simp: demo_typed_def)
qed

end
