(* ===== verification/Grep.thy ===== *)
theory Grep
  imports Ulib
begin

text \<open>
  The program \<^verbatim>\<open>grep\<close> (\<^verbatim>\<open>grep.c\<close>): the matcher of regular expressions, on the bytes of its two strings, and the loop that
  reads a file into a buffer and prints the lines that match.
\<close>

section \<open>The matcher\<close>

definition CARET :: uchar where "CARET = 94"
definition DOLLAR :: uchar where "DOLLAR = 36"
definition STAR :: uchar where "STAR = 42"
definition PERIOD :: uchar where "PERIOD = 46"
definition NL :: uchar where "NL = 10"

lemmas regex_chars = CARET_def DOLLAR_def STAR_def PERIOD_def

function matchhere :: "uchar list \<Rightarrow> uchar list \<Rightarrow> bool" and matchstar :: "uchar \<Rightarrow> uchar list \<Rightarrow> uchar list \<Rightarrow> bool" where
  "matchhere re text =
     (if re = [] then True
      else if tl re \<noteq> [] \<and> hd (tl re) = STAR then matchstar (hd re) (tl (tl re)) text
      else if hd re = DOLLAR \<and> tl re = [] then text = []
      else if text \<noteq> [] \<and> (hd re = PERIOD \<or> hd re = hd text) then matchhere (tl re) (tl text)
      else False)"
| "matchstar c re text =
     (if matchhere re text then True
      else if text \<noteq> [] \<and> (hd text = c \<or> c = PERIOD) then matchstar c re (tl text)
      else False)"
  by pat_completeness auto
termination
  by (relation "measure (\<lambda>x. case x of Inl (re, text) \<Rightarrow> 2 * (length re + length text)
      | Inr (c, re, text) \<Rightarrow> 2 * (length re + length text) + 1)")
    (auto simp: neq_Nil_conv)

declare matchhere.simps [simp del] matchstar.simps [simp del]

primrec match_any :: "uchar list \<Rightarrow> uchar list \<Rightarrow> bool" where
  "match_any re [] = matchhere re []"
| "match_any re (c # text) = (if matchhere re (c # text) then True else match_any re text)"

definition match :: "uchar list \<Rightarrow> uchar list \<Rightarrow> bool" where
  "match re text = (if re \<noteq> [] \<and> hd re = CARET then matchhere (tl re) text else match_any re text)"

subsection \<open>What a pattern means\<close>

datatype item = One uchar | Many uchar

fun parse :: "uchar list \<Rightarrow> item list \<times> bool" where
  "parse [] = ([], False)"
| "parse [c] = (if c = DOLLAR then ([], True) else ([One c], False))"
| "parse (c # d # re) =
     (if d = STAR then (Many c # fst (parse re), snd (parse re)) else (One c # fst (parse (d # re)), snd (parse (d # re))))"

definition fits :: "uchar \<Rightarrow> uchar \<Rightarrow> bool" where
  "fits c x \<longleftrightarrow> c = PERIOD \<or> c = x"

inductive words :: "item list \<Rightarrow> uchar list \<Rightarrow> bool" where
  words_Nil: "words [] []"
| words_One: "fits c x \<Longrightarrow> words is w \<Longrightarrow> words (One c # is) (x # w)"
| words_Many: "\<forall>x \<in> set u. fits c x \<Longrightarrow> words is w \<Longrightarrow> words (Many c # is) (u @ w)"

inductive_cases words_NilE: "words [] w"
inductive_cases words_OneE: "words (One c # is) w"
inductive_cases words_ManyE: "words (Many c # is) w"

definition matches_prefix :: "uchar list \<Rightarrow> uchar list \<Rightarrow> bool" where
  "matches_prefix re text \<longleftrightarrow> (\<exists>w rest. text = w @ rest \<and> words (fst (parse re)) w \<and> (snd (parse re) \<longrightarrow> rest = []))"

lemma prefix_items:
  assumes "parse re = (One c # is, e)" "parse re' = (is, e)"
  shows "matches_prefix re text \<longleftrightarrow> text \<noteq> [] \<and> fits c (hd text) \<and> matches_prefix re' (tl text)"
proof
  assume "matches_prefix re text"
  then obtain w rest where "text = w @ rest" "words (One c # is) w" "e \<longrightarrow> rest = []" using assms(1) by (auto simp: matches_prefix_def)
  moreover from this(2) obtain x w' where "w = x # w'" "fits c x" "words is w'" by (rule words_OneE)
  ultimately show "text \<noteq> [] \<and> fits c (hd text) \<and> matches_prefix re' (tl text)" using assms(2) by (auto simp: matches_prefix_def)
next
  assume a: "text \<noteq> [] \<and> fits c (hd text) \<and> matches_prefix re' (tl text)"
  then obtain w rest where "tl text = w @ rest" "words is w" "e \<longrightarrow> rest = []" using assms(2) by (auto simp: matches_prefix_def)
  then have "text = (hd text # w) @ rest" "words (One c # is) (hd text # w)" using a words_One [of c "hd text"] by (cases "text"; simp)+
  then show "matches_prefix re text" unfolding matches_prefix_def assms(1) using \<open>e \<longrightarrow> rest = []\<close> by (metis fst_conv snd_conv)
qed

lemma prefix_One: "d \<noteq> STAR \<Longrightarrow> matches_prefix (c # d # re) text \<longleftrightarrow> text \<noteq> [] \<and> fits c (hd text) \<and> matches_prefix (d # re) (tl text)"
  using prefix_items [of "c # d # re" c _ _ "d # re"] by (cases "parse (d # re)") simp

lemma prefix_Nil: "matches_prefix [] text"
  by (auto simp: matches_prefix_def intro: words_Nil)

lemma prefix_single: "c \<noteq> DOLLAR \<Longrightarrow> matches_prefix [c] text \<longleftrightarrow> text \<noteq> [] \<and> fits c (hd text)"
  using prefix_items [of "[c]" c "[]" False "[]"] prefix_Nil by simp

lemma prefix_dollar: "matches_prefix [DOLLAR] text \<longleftrightarrow> text = []"
  by (auto simp: matches_prefix_def elim!: words_NilE intro: words_Nil)

lemma prefix_ManyE:
  assumes "matches_prefix (c # STAR # re) text"
  obtains u w rest where "text = u @ w @ rest" "\<forall>x \<in> set u. fits c x" "words (fst (parse re)) w" "snd (parse re) \<longrightarrow> rest = []"
proof -
  obtain v rest where v: "text = v @ rest" "words (Many c # fst (parse re)) v" "snd (parse re) \<longrightarrow> rest = []"
    using assms by (auto simp: matches_prefix_def)
  from v(2) obtain u w where "v = u @ w" "\<forall>x \<in> set u. fits c x" "words (fst (parse re)) w" by (rule words_ManyE)
  then show thesis using v that by simp
qed

lemma prefix_ManyI:
  "\<forall>x \<in> set u. fits c x \<Longrightarrow> words (fst (parse re)) w \<Longrightarrow> snd (parse re) \<longrightarrow> rest = [] \<Longrightarrow> matches_prefix (c # STAR # re) (u @ w @ rest)"
  using words_Many [of u c "fst (parse re)" w] unfolding matches_prefix_def by (intro exI [of _ "u @ w"] exI [of _ rest]) simp

lemma prefix_Many:
  "matches_prefix (c # STAR # re) text
    \<longleftrightarrow> matches_prefix re text \<or> text \<noteq> [] \<and> fits c (hd text) \<and> matches_prefix (c # STAR # re) (tl text)"
proof
  assume "matches_prefix (c # STAR # re) text"
  then obtain u w rest where t: "text = u @ w @ rest" "\<forall>x \<in> set u. fits c x" "words (fst (parse re)) w" "snd (parse re) \<longrightarrow> rest = []"
    by (rule prefix_ManyE)
  show "matches_prefix re text \<or> text \<noteq> [] \<and> fits c (hd text) \<and> matches_prefix (c # STAR # re) (tl text)"
  proof (cases u)
    case Nil
    then show ?thesis using t unfolding matches_prefix_def [of re] by auto
  next
    case (Cons x u')
    then show ?thesis using t prefix_ManyI [of u' c re w rest] by simp
  qed
next
  assume "matches_prefix re text \<or> text \<noteq> [] \<and> fits c (hd text) \<and> matches_prefix (c # STAR # re) (tl text)"
  then show "matches_prefix (c # STAR # re) text"
  proof
    assume "matches_prefix re text"
    then show ?thesis unfolding matches_prefix_def [of re] using prefix_ManyI [of "[]" c re] by auto
  next
    assume a: "text \<noteq> [] \<and> fits c (hd text) \<and> matches_prefix (c # STAR # re) (tl text)"
    then obtain u w rest where "tl text = u @ w @ rest" "\<forall>x \<in> set u. fits c x" "words (fst (parse re)) w" "snd (parse re) \<longrightarrow> rest = []"
      using prefix_ManyE by metis
    then show ?thesis using prefix_ManyI [of "hd text # u" c re w rest] a by (cases "text") auto
  qed
qed

lemma matchhere_prefix: "matchhere re text \<longleftrightarrow> matches_prefix re text"
  and matchstar_prefix: "matchstar c re text \<longleftrightarrow> matches_prefix (c # STAR # re) text"
proof (induction re "text" and c re "text" rule: matchhere_matchstar.induct)
  case (1 re "text")
  show ?case
  proof (cases re)
    case Nil
    then show ?thesis by (subst matchhere.simps) (simp add: prefix_Nil)
  next
    case (Cons c re')
    show ?thesis
    proof (cases re')
      case Nil
      then show ?thesis using Cons 1(2) prefix_Nil
        by (subst matchhere.simps, cases "c = DOLLAR") (auto simp: prefix_single prefix_dollar fits_def)
    next
      case re': (Cons d re'')
      then show ?thesis using 1 Cons by (subst matchhere.simps) (auto simp: prefix_One fits_def)
    qed
  qed
next
  case (2 c re "text")
  then show ?case by (subst matchstar.simps, subst prefix_Many) (auto simp: fits_def)
qed

lemma match_any_prefix: "match_any re text \<longleftrightarrow> (\<exists>pre post. text = pre @ post \<and> matches_prefix re post)"
proof (induction "text")
  case (Cons c "text")
  then show ?case by (auto simp: matchhere_prefix Cons_eq_append_conv)
qed (simp add: matchhere_prefix)

text \<open>
  C28: \<open>match\<close> decides what the pattern means: \<^verbatim>\<open>c*\<close> stands for any number of \<open>c\<close>, a period for any byte, a final
  dollar for the end of the text and an initial caret for its beginning; without the caret the pattern may match
  anywhere.  The mutual recursion that tries the repetitions one after the other finds a match whenever there is one.
\<close>

theorem match_correct:
  "match re text \<longleftrightarrow>
     (if re \<noteq> [] \<and> hd re = CARET then matches_prefix (tl re) text else \<exists>pre post. text = pre @ post \<and> matches_prefix re post)"
  by (simp add: match_def matchhere_prefix match_any_prefix)

section \<open>The loop over the input\<close>

text \<open>
  \<open>buf\<close> is the address of the buffer of 1024 bytes.  \<open>grep_lines\<close> is the inner loop: from \<open>p\<close> on it looks for ends of
  lines; the line is cut off with a zero byte for the matcher, which stays there when the line does not match.  It
  returns where it stopped, the memory and the bytes written.
\<close>

definition bytes_at :: "uint \<Rightarrow> nat \<Rightarrow> mem \<Rightarrow> uchar list" where
  "bytes_at p n m = map (\<lambda>k. m (p + of_nat k)) [0 ..< n]"

definition store_bytes :: "uint \<Rightarrow> uchar list \<Rightarrow> mem \<Rightarrow> mem" where
  "store_bytes p bs m = (\<lambda>x. if unat (x - p) < length bs then bs ! unat (x - p) else m x)"

partial_function (option) grep_lines :: "uchar list \<Rightarrow> uint \<Rightarrow> mem \<Rightarrow> (uint \<times> mem \<times> uchar list) option" where
  "grep_lines pat p m =
     Option.bind (strchr p NL m) (\<lambda>q.
       if q = 0 then Some (p, m, [])
       else
         (let line = bytes_at p (unat (q - p)) m in
          if match pat line
          then Option.bind (grep_lines pat (q + 1) m) (\<lambda>(p', m', out). Some (p', m', line @ NL # out))
          else grep_lines pat (q + 1) (m(q := 0))))"

text \<open>
  \<open>rd n\<close> is the system call \<open>read\<close> for \<open>n\<close> bytes on the descriptor, as a function of the state of what it reads from;
  no bytes mean a result that is not positive.  \<open>k\<close> is the variable \<^verbatim>\<open>m\<close>, which may become negative.
\<close>

partial_function (option) grep_loop :: "(nat \<Rightarrow> 'i \<Rightarrow> uchar list \<times> 'i) \<Rightarrow> uchar list \<Rightarrow> uint \<Rightarrow> 'i \<Rightarrow> int \<Rightarrow> mem \<Rightarrow> uchar list option" where
  "grep_loop rd pat buf i k m =
     (case rd (nat (1024 - k)) i of (bs, i') \<Rightarrow>
        if bs = [] then Some []
        else
          Option.bind (grep_lines pat buf (store_bytes (buf + of_int k) bs m)) (\<lambda>(p, m2, out).
            let k1 = (if p = buf then 0 else k + int (length bs));
                k2 = (if k1 > 0 then k1 - sint (p - buf) else k1);
                m3 = (if k1 > 0 then umemmove buf p k2 m2 else m2)
            in Option.bind (grep_loop rd pat buf i' k2 m3) (\<lambda>rest. Some (out @ rest))))"

definition grep :: "(nat \<Rightarrow> 'i \<Rightarrow> uchar list \<times> 'i) \<Rightarrow> uchar list \<Rightarrow> uint \<Rightarrow> 'i \<Rightarrow> mem \<Rightarrow> uchar list option" where
  "grep rd pat buf i m = grep_loop rd pat buf i 0 m"

subsection \<open>Lines\<close>

function lines :: "uchar list \<Rightarrow> uchar list list" where
  "lines cs = (if NL \<in> set cs then takeWhile (\<lambda>c. c \<noteq> NL) cs # lines (tl (dropWhile (\<lambda>c. c \<noteq> NL) cs)) else [])"
  by auto
termination
proof (relation "measure length", goal_cases)
  case (2 cs)
  then have "dropWhile (\<lambda>c. c \<noteq> NL) cs \<noteq> []" by (auto simp: dropWhile_eq_Nil_conv)
  then show ?case using length_dropWhile_le [of "\<lambda>c. c \<noteq> NL" cs] by (cases "dropWhile (\<lambda>c. c \<noteq> NL) cs") auto
qed simp

declare lines.simps [simp del]

definition printed :: "uchar list \<Rightarrow> uchar list \<Rightarrow> uchar list" where
  "printed pat cs = concat (map (\<lambda>l. l @ [NL]) (filter (match pat) (lines cs)))"

lemma lines_cut:
  assumes "cs \<noteq> []" "last cs = NL"
  obtains line rest where "cs = line @ NL # rest" "NL \<notin> set line" "rest = [] \<or> last rest = NL" "lines cs = line # lines rest"
    "takeWhile (\<lambda>c. c \<noteq> NL) cs = line" "NL \<in> set cs"
proof -
  have nl: "NL \<in> set cs" using assms last_in_set by metis
  define line where "line = takeWhile (\<lambda>c. c \<noteq> NL) cs"
  have "dropWhile (\<lambda>c. c \<noteq> NL) cs \<noteq> []" "hd (dropWhile (\<lambda>c. c \<noteq> NL) cs) = NL"
    using nl hd_dropWhile [of "\<lambda>c. c \<noteq> NL" cs] by (auto simp: dropWhile_eq_Nil_conv)
  then obtain rest where rest: "dropWhile (\<lambda>c. c \<noteq> NL) cs = NL # rest" by (cases "dropWhile (\<lambda>c. c \<noteq> NL) cs") auto
  have cs: "cs = line @ NL # rest" using takeWhile_dropWhile_id [of "\<lambda>c. c \<noteq> NL" cs] rest by (simp add: line_def)
  moreover have "NL \<notin> set line" by (auto simp: line_def dest: set_takeWhileD)
  moreover have "rest = [] \<or> last rest = NL" using assms(2) cs by (cases "rest = []") auto
  moreover have "lines cs = line # lines rest" using nl rest by (subst lines.simps) (simp add: line_def)
  ultimately show thesis using that nl by (simp add: line_def)
qed

lemma str_at_append: "str_at p (xs @ x # ys) m \<longleftrightarrow> (\<forall>i < length xs. m (p + of_nat i) = xs ! i) \<and> 0 \<notin> set xs \<and> str_at (p + of_nat (length xs)) (x # ys) m"
  by (induction xs arbitrary: p) (auto simp: str_at_Cons less_Suc_eq_0_disj algebra_simps)

text \<open>The inner loop on a text that ends with an end of line.\<close>

lemma grep_lines_text:
  assumes "str_at p cs m" "cs = [] \<or> last cs = NL" "unat p + length cs < 2 ^ 32" "p \<noteq> 0"
  shows "\<exists>m'. grep_lines pat p m = Some (p + of_nat (length cs), m', printed pat cs) \<and> (list_all (match pat) (lines cs) \<longrightarrow> m' = m)"
  using assms
proof (induction "length cs" arbitrary: p cs m rule: less_induct)
  case less
  show ?case
  proof (cases "cs = []")
    case True
    then have "strchr p NL m = Some 0" using strchr_str [OF less.prems(1), of NL] by (simp add: NL_def)
    then show ?thesis using True by (subst grep_lines.simps) (simp add: printed_def lines.simps)
  next
    case False
    then obtain line rest where l: "cs = line @ NL # rest" "rest = [] \<or> last rest = NL" "lines cs = line # lines rest"
      "takeWhile (\<lambda>c. c \<noteq> NL) cs = line" "NL \<in> set cs"
      using lines_cut [of cs] less.prems(2) by metis
    define q where "q = p + of_nat (length line)"
    have uq: "unat q = unat p + length line" unfolding q_def using less.prems(3) l(1) by (intro unat_offset [of p "Suc (length line)"]) auto
    have q0: "q \<noteq> 0" using uq less.prems(4) by (metis add_is_0 unat_0 unat_eq_0)
    have sc: "strchr p NL m = Some q" using strchr_str [OF less.prems(1), of NL] l by (simp add: NL_def q_def)
    have len: "unat (q - p) = length line" using uq by (subst unat_sub) (simp_all add: word_le_nat_alt)
    have str: "\<forall>i < length line. m (p + of_nat i) = line ! i" "str_at (q + 1) rest m"
      using less.prems(1) unfolding l(1) str_at_append by (auto simp: q_def str_at_Cons)
    have line: "bytes_at p (unat (q - p)) m = line"
      unfolding len bytes_at_def by (rule nth_equalityI) (use str(1) in auto)
    have uq1: "unat (q + 1) = unat q + 1" using uq less.prems(3) l(1) by (subst unat_add_uint) auto
    have far: "str_at (q + 1) rest (m(q := 0))"
    proof (rule str_at_cong [OF str(2)])
      show "\<forall>x \<in> region (q + 1) (Suc (length rest)). (m(q := 0)) x = m x"
        using uq uq1 less.prems(3) l(1) by (auto simp: region_iff)
    qed
    have fin: "q + 1 + of_nat (length rest) = p + of_nat (length cs)" by (simp add: l(1) q_def algebra_simps)
    have IH: "\<exists>m'. grep_lines pat (q + 1) t = Some (q + 1 + of_nat (length rest), m', printed pat rest)
        \<and> (list_all (match pat) (lines rest) \<longrightarrow> m' = t)" if "str_at (q + 1) rest t" for t
      using that l uq uq1 less.prems(3) by (intro less.hyps) (auto simp: unat_eq_0 [symmetric])
    show ?thesis
    proof (cases "match pat line")
      case True
      obtain m' where "grep_lines pat (q + 1) m = Some (q + 1 + of_nat (length rest), m', printed pat rest)"
        "list_all (match pat) (lines rest) \<longrightarrow> m' = m" using IH [OF str(2)] by blast
      then show ?thesis using True sc q0 line fin l(3) by (subst grep_lines.simps) (simp add: printed_def)
    next
      case no: False
      obtain m' where "grep_lines pat (q + 1) (m(q := 0)) = Some (q + 1 + of_nat (length rest), m', printed pat rest)"
        using IH [OF far] by blast
      then show ?thesis using no sc q0 line fin l(3) by (subst grep_lines.simps) (simp add: printed_def)
    qed
  qed
qed

subsection \<open>Reading a file, and reading from a pipe\<close>

text \<open>A file of the given bytes, and a descriptor that delivers the given chunks one by one, as a pipe may.\<close>

definition read_file :: "nat \<Rightarrow> uchar list \<Rightarrow> uchar list \<times> uchar list" where
  "read_file n cs = (take n cs, drop n cs)"

primrec read_chunks :: "nat \<Rightarrow> uchar list list \<Rightarrow> uchar list \<times> uchar list list" where
  "read_chunks n [] = ([], [])"
| "read_chunks n (c # cs) = (if length c \<le> n then (c, cs) else (take n c, drop n c # cs))"

lemma store_bytes_at:
  assumes "unat p + length bs < 2 ^ 32"
  shows "i < length bs \<Longrightarrow> store_bytes p bs m (p + of_nat i) = bs ! i"
    "length bs \<le> i \<Longrightarrow> i < 2 ^ 32 \<Longrightarrow> store_bytes p bs m (p + of_nat i) = m (p + of_nat i)"
  using assms by (auto simp: store_bytes_def unat_of_nat)

lemma str_at_store:
  assumes "unat p + length bs + length cs < 2 ^ 32" "str_at (p + of_nat (length bs)) cs m" "0 \<notin> set bs"
  shows "str_at p (bs @ cs) (store_bytes p bs m)"
proof -
  have at: "store_bytes p bs m (p + of_nat i) = (if i < length bs then bs ! i else m (p + of_nat i))" if "i \<le> length (bs @ cs)" for i
    using store_bytes_at [of p bs i m] assms(1) that by auto
  have m: "m (p + of_nat i) = cs ! (i - length bs)" if "length bs \<le> i" "i < length (bs @ cs)" for i
    using assms(2) that unfolding str_at_def by (auto dest!: spec [of _ "i - length bs"] simp: of_nat_diff)
  have z: "m (p + of_nat (length (bs @ cs))) = 0" using assms(2) by (simp add: str_at_def add.assoc)
  have "store_bytes p bs m (p + of_nat i) = (bs @ cs) ! i" if "i < length (bs @ cs)" for i
    using at [of i] m [of i] that by (simp add: nth_append)
  moreover have "store_bytes p bs m (p + of_nat (length (bs @ cs))) = 0" using at [of "length (bs @ cs)"] z by simp
  ultimately show ?thesis using assms(2,3) by (auto simp: str_at_def)
qed

text \<open>One turn of the outer loop from an empty buffer.\<close>

lemma grep_turn:
  assumes "rd 1024 i = (bs, i')" "bs \<noteq> []" "str_at buf cs (store_bytes buf bs m)" "cs \<noteq> []" "last cs = NL" "length bs \<le> length cs"
    and "unat buf + length cs < 2 ^ 31" "buf \<noteq> 0"
  shows "\<exists>m'. grep_loop rd pat buf i 0 m
      = Option.bind (grep_loop rd pat buf i' (int (length bs) - int (length cs)) m') (\<lambda>rest. Some (printed pat cs @ rest))
    \<and> (list_all (match pat) (lines cs) \<longrightarrow> m' = store_bytes buf bs m)"
proof -
  obtain m' where g: "grep_lines pat buf (store_bytes buf bs m) = Some (buf + of_nat (length cs), m', printed pat cs)"
    "list_all (match pat) (lines cs) \<longrightarrow> m' = store_bytes buf bs m"
    using grep_lines_text [OF assms(3), of pat] assms(5,7,8) by auto
  have "unat (of_nat (length cs) :: uint) = length cs" using assms(7) by (simp add: unat_of_nat)
  then have s: "sint (of_nat (length cs) :: uint) = int (length cs)" "(of_nat (length cs) :: uint) \<noteq> 0"
    using assms(4,7) sint_small [of "of_nat (length cs)"] by (auto simp: unat_eq_0 [symmetric])
  show ?thesis
    using g s assms(1,2,6) by (intro exI [of _ m'], subst grep_loop.simps) (simp add: Let_def umemmove_def)
qed

lemma grep_loop_end: "fst (rd (nat (1024 - k)) i) = [] \<Longrightarrow> grep_loop rd pat buf i k m = Some []"
  by (subst grep_loop.simps) (simp add: case_prod_beta)

lemma str_at_fresh:
  assumes "\<And>x. x \<in> region buf 1024 \<Longrightarrow> m x = 0" "length cs < 1024" "unat buf + 1024 < 2 ^ 31" "0 \<notin> set cs"
  shows "str_at buf cs (store_bytes buf cs m)"
proof -
  have "m (buf + of_nat (length cs)) = 0" using assms(1,2) by (auto simp: region_def)
  then show ?thesis using str_at_store [of buf cs "[]" m] assms(2-4) by (simp add: str_at_def)
qed



text \<open>A second read shorter than the first leaves the tail of the first in the buffer behind it; the search for the
  newline runs on into that tail, and its lines are printed a second time.\<close>

theorem grep_stale_tail:
  assumes "\<And>x. x \<in> region buf 1024 \<Longrightarrow> m x = 0" "length t1 < 1024" "unat buf + 1024 < 2 ^ 31" "buf \<noteq> 0"
    and "0 \<notin> set t1" "last t1 = NL" "list_all (match pat) (lines t1)"
    and "0 \<notin> set t2" "t2 \<noteq> []" "length t2 < length t1"
  shows "grep read_chunks pat buf [t1, t2] m = Some (printed pat t1 @ printed pat (t2 @ drop (length t2) t1))"
proof -
  have t1: "t1 \<noteq> []" using assms(10) by auto
  let ?m1 = "store_bytes buf t1 m" let ?t = "t2 @ drop (length t2) t1"
  have s1: "str_at buf t1 ?m1" using assms(1-3,5) by (intro str_at_fresh) auto
  have "read_chunks 1024 [t1, t2] = (t1, [t2])" using assms(2) by simp
  from grep_turn [of read_chunks, OF this t1 s1 t1, of pat]
  have one: "grep read_chunks pat buf [t1, t2] m
      = Option.bind (grep_loop read_chunks pat buf [t2] 0 ?m1) (\<lambda>rest. Some (printed pat t1 @ rest))"
    using assms(2-4,6,7) t1 by (auto simp: grep_def)
  have "str_at (buf + of_nat (length t2)) (drop (length t2) t1) ?m1"
    using s1 str_at_append [of buf "take (length t2) t1" "t1 ! length t2" "drop (Suc (length t2)) t1" ?m1] assms(10)
    by (simp add: min_def Cons_nth_drop_Suc)
  then have s2: "str_at buf ?t (store_bytes buf t2 ?m1)" using assms(2,3,8,10) by (intro str_at_store) auto
  have "read_chunks 1024 [t2] = (t2, [])" using assms(2,10) by simp
  from grep_turn [of read_chunks, OF this assms(9) s2, of pat] show ?thesis
    using one assms(2-4,6,9,10) by (auto simp: grep_loop_end)
qed

end
