(* ===== verification/Sh.thy ===== *)
theory Sh
  imports Xv6_Prelude "HOL-Library.Sublist"
begin

text \<open>
  The command parser of the shell (\<^verbatim>\<open>sh.c\<close>).  A pointer into the line is the rest of the line from there on, so that the
  end \<^verbatim>\<open>es\<close> is the empty list; a string of the command is a pair of pointers to its first character and behind its last,
  as in \<^verbatim>\<open>argv\<close> and \<^verbatim>\<open>eargv\<close>, until \<^verbatim>\<open>nulterminate\<close> writes the zeros.
\<close>

section \<open>Commands\<close>

type_synonym str = "uchar list"
type_synonym span = "str \<times> str"

definition MAXARGS :: nat where "MAXARGS = 10"

datatype 't cmd =
    EXEC "'t list"
  | REDIR "'t cmd" 't int int
  | PIPE "'t cmd" "'t cmd"
  | LIST "'t cmd" "'t cmd"
  | BACK "'t cmd"

text \<open>The functions that build a command get their memory from \<^verbatim>\<open>malloc\<close>, which is taken to succeed, as they do.\<close>

definition execcmd :: "'t list \<Rightarrow> 't cmd" where [simp]: "execcmd argv = EXEC argv"
definition redircmd :: "'t cmd \<Rightarrow> 't \<Rightarrow> int \<Rightarrow> int \<Rightarrow> 't cmd" where [simp]: "redircmd subcmd f mode fd = REDIR subcmd f mode fd"
definition pipecmd :: "'t cmd \<Rightarrow> 't cmd \<Rightarrow> 't cmd" where [simp]: "pipecmd l r = PIPE l r"
definition listcmd :: "'t cmd \<Rightarrow> 't cmd \<Rightarrow> 't cmd" where [simp]: "listcmd l r = LIST l r"
definition backcmd :: "'t cmd \<Rightarrow> 't cmd" where [simp]: "backcmd subcmd = BACK subcmd"

section \<open>Tokens\<close>

definition whitespace :: str where "whitespace = [32, 9, 13, 10, 11]"
definition symbols :: str where "symbols = [60, 124, 62, 38, 59, 40, 41]"

primrec skip_white :: "str \<Rightarrow> str" where
  "skip_white [] = []"
| "skip_white (c # s) = (if c \<in> set whitespace then skip_white s else c # s)"

primrec skip_word :: "str \<Rightarrow> str" where
  "skip_word [] = []"
| "skip_word (c # s) = (if c \<notin> set whitespace \<and> c \<notin> set symbols then skip_word s else c # s)"

definition token_end :: "str \<Rightarrow> uchar \<times> str" where
  "token_end q =
     (case q of
        [] \<Rightarrow> (0, [])
      | c # s \<Rightarrow>
          if c \<in> {124, 40, 41, 59, 38, 60} then (c, s)
          else if c = 62 then if s \<noteq> [] \<and> hd s = 62 then (43, tl s) else (62, s)
          else (97, skip_word q))"

text \<open>The kind of the token, the pointers to its start and its end, and the new position.\<close>

definition gettoken :: "str \<Rightarrow> uchar \<times> span \<times> str" where
  "gettoken ps = (let q = skip_white ps; (ret, eq) = token_end q in (ret, (q, eq), skip_white eq))"

definition peek :: "str \<Rightarrow> str \<Rightarrow> bool \<times> str" where
  "peek toks ps = (let s = skip_white ps in (s \<noteq> [] \<and> hd s \<in> set toks, s))"

lemma skip_white_length: "length (skip_white s) \<le> length s"
  by (induction s) auto

lemma skip_white_hd: "skip_white s = c # r \<Longrightarrow> c \<notin> set whitespace"
  by (induction s) (auto split: if_splits)

lemma skip_white_idem [simp]: "skip_white (skip_white s) = skip_white s"
  by (induction s) auto

lemma skip_word_length: "length (skip_word s) \<le> length s"
  by (induction s) auto

lemma token_end_length: "skip_white s = q \<Longrightarrow> q \<noteq> [] \<Longrightarrow> token_end q = (ret, eq) \<Longrightarrow> length eq < length q"
proof (cases q)
  case (Cons c r)
  assume "skip_white s = q" "token_end q = (ret, eq)"
  then show ?thesis
    using Cons skip_white_hd [of s c r] skip_word_length [of r]
    by (auto simp: token_end_def symbols_def split: if_splits)
qed simp

lemma gettoken_length:
  assumes "gettoken ps = (ret, sp, s)"
  shows "length s \<le> length ps" "ret \<noteq> 0 \<Longrightarrow> length s < length ps" "peek toks ps = (True, ps') \<Longrightarrow> length s < length ps"
proof -
  let ?q = "skip_white ps"
  obtain eq where e: "token_end ?q = (ret, eq)" "s = skip_white eq" using assms by (auto simp: gettoken_def Let_def split: prod.splits)
  have q: "?q = [] \<Longrightarrow> ret = 0 \<and> s = []" using e by (simp add: token_end_def)
  have lt: "?q \<noteq> [] \<Longrightarrow> length s < length ps"
    using token_end_length [OF refl _ e(1)] e(2) skip_white_length [of eq] skip_white_length [of ps] by fastforce
  then show "length s \<le> length ps" "ret \<noteq> 0 \<Longrightarrow> length s < length ps" "peek toks ps = (True, ps') \<Longrightarrow> length s < length ps"
    using q by (cases "?q = []", auto simp: peek_def Let_def)+
qed

lemma peek_length: "peek toks ps = (b, s) \<Longrightarrow> length s \<le> length ps" "peek toks ps = (True, s) \<Longrightarrow> peek toks s = (True, s)"
  using skip_white_length by (auto simp: peek_def Let_def)

lemma peek_gettoken_length: "peek toks ps = (True, ps1) \<Longrightarrow> gettoken ps1 = (a, b, ps2) \<Longrightarrow> length ps2 < length ps"
  using peek_length(1) [of toks ps True ps1] peek_length(2) [of toks ps ps1] gettoken_length(3) [of ps1 a b ps2 toks ps1] by simp

lemma gettoken_gettoken_length:
  "peek toks ps = (True, ps1) \<Longrightarrow> gettoken ps1 = (a, b, ps2) \<Longrightarrow> gettoken ps2 = (c, d, ps3) \<Longrightarrow> length ps3 < length ps"
  using peek_gettoken_length gettoken_length(1) by (meson le_less_trans)

section \<open>The parser\<close>

text \<open>A redirection: the file, the mode with which it is opened and the descriptor.\<close>

type_synonym redir = "span \<times> int \<times> int"

definition redir_of :: "uchar \<Rightarrow> span \<Rightarrow> redir" where
  "redir_of tok f = (if tok = 60 then (f, 0, 0) else (f, 0x201, 1))"

primrec redirs_cmd :: "'t cmd \<Rightarrow> ('t \<times> int \<times> int) list \<Rightarrow> 't cmd" where
  "redirs_cmd c [] = c"
| "redirs_cmd c (r # rs) = redirs_cmd (case r of (f, mode, fd) \<Rightarrow> redircmd c f mode fd) rs"

function parseredirs :: "str \<Rightarrow> (redir list \<times> str) outcome" where
  "parseredirs ps =
     (case peek [60, 62] ps of (b, ps1) \<Rightarrow>
        if \<not> b then Ret ([], ps1)
        else
          (case gettoken ps1 of (tok, _, ps2) \<Rightarrow>
             (case gettoken ps2 of (tok2, f, ps3) \<Rightarrow>
                if tok2 \<noteq> 97 then Panic ''missing file for redirection''
                else obind (parseredirs ps3) (\<lambda>(rs, ps4). Ret (redir_of tok f # rs, ps4)))))"
  by auto
termination
proof (relation "measure length", goal_cases)
  case 2
  then show ?case
    by (auto intro: gettoken_gettoken_length [OF sym sym sym])
qed simp

declare parseredirs.simps [simp del]

lemma parseredirs_length: "parseredirs ps = Ret (rs, ps') \<Longrightarrow> length ps' \<le> length ps"
proof (induction ps arbitrary: rs rule: parseredirs.induct)
  case (1 ps)
  obtain b ps1 where p: "peek [60, 62] ps = (b, ps1)" by fastforce
  show ?case
  proof (cases b)
    case True
    obtain tok sp ps2 where g: "gettoken ps1 = (tok, sp, ps2)" by (cases "gettoken ps1") auto
    obtain tok2 f ps3 where g2: "gettoken ps2 = (tok2, f, ps3)" by (cases "gettoken ps2") auto
    obtain rs' where "tok2 = 97" "parseredirs ps3 = Ret (rs', ps')"
      using 1(2) True p g g2 by (subst (asm) parseredirs.simps) (auto split: if_splits)
    then have "length ps' \<le> length ps3" using 1(1) [OF p [symmetric] _ g [symmetric] refl g2 [symmetric] refl] True by simp
    then show ?thesis using gettoken_gettoken_length [of _ ps] p g g2 True by fastforce
  next
    case False
    then show ?thesis using 1(2) p peek_length(1) by (subst (asm) parseredirs.simps) auto
  qed
qed

lemma word_length:
  "peek toks ps = (b, ps1) \<Longrightarrow> gettoken ps1 = (tok, w, ps2) \<Longrightarrow> tok \<noteq> 0 \<Longrightarrow> parseredirs ps2 = Ret (rs, ps3) \<Longrightarrow> length ps3 < length ps"
  using peek_length(1) gettoken_length(2) parseredirs_length by (meson le_less_trans less_le_trans)

text \<open>The words of a simple command, with the redirections between them; at most nine words fit.\<close>

function parse_args :: "nat \<Rightarrow> str \<Rightarrow> (span list \<times> redir list \<times> str) outcome" where
  "parse_args argc ps =
     (case peek [124, 41, 38, 59] ps of (b, ps1) \<Rightarrow>
        if b then Ret ([], [], ps1)
        else
          (case gettoken ps1 of (tok, w, ps2) \<Rightarrow>
             if tok = 0 then Ret ([], [], ps2)
             else if tok \<noteq> 97 then Panic ''syntax''
             else if argc + 1 \<ge> MAXARGS then Panic ''too many args''
             else
               obind (parseredirs ps2) (\<lambda>(rs, ps3).
               obind (parse_args (argc + 1) ps3) (\<lambda>(ws, rs2, ps4). Ret (w # ws, rs @ rs2, ps4)))))"
  by auto
termination
proof (relation "measure (\<lambda>(_, ps). length ps)", goal_cases)
  case 2
  then show ?case
    by (auto intro: word_length [OF sym sym])
qed simp


declare parse_args.simps [simp del]

lemma parse_args_length: "parse_args argc ps = Ret (ws, rs, ps') \<Longrightarrow> length ps' \<le> length ps"
proof (induction argc ps arbitrary: ws rs rule: parse_args.induct)
  case (1 argc ps)
  obtain b ps1 where p: "peek [124, 41, 38, 59] ps = (b, ps1)" by fastforce
  obtain tok w ps2 where g: "gettoken ps1 = (tok, w, ps2)" by (cases "gettoken ps1") auto
  show ?case
  proof (cases "b \<or> tok = 0")
    case True
    then show ?thesis using 1(2) p g peek_length(1) [OF p] gettoken_length(1) [OF g] by (subst (asm) parse_args.simps) (auto split: if_splits)
  next
    case False
    obtain rs1 ps3 ws2 rs2 where r: "tok = 97" "\<not> argc + 1 \<ge> MAXARGS" "parseredirs ps2 = Ret (rs1, ps3)" "parse_args (argc + 1) ps3 = Ret (ws2, rs2, ps')"
      using 1(2) False p g by (subst (asm) parse_args.simps) (auto split: if_splits)
    then have "length ps' \<le> length ps3" using 1(1) [OF p [symmetric] _ g [symmetric] refl _ _ _ r(3) refl] False by simp
    then show ?thesis using word_length [OF p g _ r(3)] False by simp
  qed
qed

text \<open>The ampersands behind a pipeline.\<close>

function parse_backs :: "span cmd \<Rightarrow> str \<Rightarrow> span cmd \<times> str" where
  "parse_backs c ps =
     (case peek [38] ps of (b, ps1) \<Rightarrow> if b then (case gettoken ps1 of (_, _, ps2) \<Rightarrow> parse_backs (backcmd c) ps2) else (c, ps1))"
  by auto
termination
  by (relation "measure (\<lambda>(_, ps). length ps)") (auto intro: peek_gettoken_length [OF sym sym])

declare parse_backs.simps [simp del]

lemma parse_backs_length: "parse_backs c ps = (c', ps') \<Longrightarrow> length ps' \<le> length ps"
proof (induction c ps rule: parse_backs.induct)
  case (1 c ps)
  obtain b ps1 where p: "peek [38] ps = (b, ps1)" by fastforce
  obtain tok w ps2 where g: "gettoken ps1 = (tok, w, ps2)" by (cases "gettoken ps1") auto
  show ?case
  proof (cases b)
    case True
    then show ?thesis using 1(1) [OF p [symmetric] _ g [symmetric] refl] 1(2) p g peek_gettoken_length [of "[38]" ps ps1 tok w ps2]
      by (subst (asm) (2) parse_backs.simps) (auto simp: less_imp_le dest: le_trans)
  next
    case False
    then show ?thesis using 1(2) p peek_length(1) [OF p] by (subst (asm) parse_backs.simps) auto
  qed
qed

function parseline :: "str \<Rightarrow> (span cmd \<times> str) outcome" and parsepipe :: "str \<Rightarrow> (span cmd \<times> str) outcome"
  and parseexec :: "str \<Rightarrow> (span cmd \<times> str) outcome" and parseblock :: "str \<Rightarrow> (span cmd \<times> str) outcome" where
  "parseline ps =
     obind (parsepipe ps) (\<lambda>(c, ps1).
       case parse_backs c ps1 of (c1, ps2) \<Rightarrow>
         case peek [59] ps2 of (b, ps3) \<Rightarrow>
           if b then
             (case gettoken ps3 of (_, _, ps4) \<Rightarrow> obind (parseline ps4) (\<lambda>(c2, ps5). Ret (listcmd c1 c2, ps5)))
           else Ret (c1, ps3))"
| "parsepipe ps =
     obind (parseexec ps) (\<lambda>(c, ps1).
       case peek [124] ps1 of (b, ps2) \<Rightarrow>
         if b then
           (case gettoken ps2 of (_, _, ps3) \<Rightarrow> obind (parsepipe ps3) (\<lambda>(c2, ps4). Ret (pipecmd c c2, ps4)))
         else Ret (c, ps2))"
| "parseexec ps =
     (case peek [40] ps of (b, ps1) \<Rightarrow>
        if b then parseblock ps1
        else
          obind (parseredirs ps1) (\<lambda>(rs, ps2).
          obind (parse_args 0 ps2) (\<lambda>(ws, rs2, ps3).
          Ret (redirs_cmd (execcmd ws) (rs @ rs2), ps3))))"
| "parseblock ps =
     (case peek [40] ps of (b, ps1) \<Rightarrow>
        if \<not> b then Panic ''parseblock''
        else
          (case gettoken ps1 of (_, _, ps2) \<Rightarrow>
             obind (parseline ps2) (\<lambda>(c, ps3).
               case peek [41] ps3 of (b2, ps4) \<Rightarrow>
                 if \<not> b2 then Panic ''syntax - missing )''
                 else
                   (case gettoken ps4 of (_, _, ps5) \<Rightarrow>
                      obind (parseredirs ps5) (\<lambda>(rs, ps6). Ret (redirs_cmd c rs, ps6))))))"
  by pat_completeness auto


text \<open>Before the recursion is known to end: what it returns is not longer than what it got.\<close>

lemma parse_length_dom:
  "parseline_parsepipe_parseexec_parseblock_dom (Inl (Inl ps)) \<Longrightarrow> parseline ps = Ret (c, ps') \<Longrightarrow> length ps' \<le> length ps"
  "parseline_parsepipe_parseexec_parseblock_dom (Inl (Inr ps)) \<Longrightarrow> parsepipe ps = Ret (c, ps') \<Longrightarrow> length ps' \<le> length ps"
  "parseline_parsepipe_parseexec_parseblock_dom (Inr (Inl ps)) \<Longrightarrow> parseexec ps = Ret (c, ps') \<Longrightarrow> length ps' \<le> length ps"
  "parseline_parsepipe_parseexec_parseblock_dom (Inr (Inr ps)) \<Longrightarrow> parseblock ps = Ret (c, ps') \<Longrightarrow> length ps' \<le> length ps"
proof (induction ps and ps and ps and ps arbitrary: c ps' and c ps' and c ps' and c ps' rule: parseline_parsepipe_parseexec_parseblock.pinduct)
  case (1 ps)
  obtain c0 ps1 where a: "parsepipe ps = Ret (c0, ps1)" using 1(4) by (auto simp: parseline.psimps [OF 1(1)])
  obtain c1 ps2 where b: "parse_backs c0 ps1 = (c1, ps2)" by fastforce
  obtain x ps3 where p: "peek [59] ps2 = (x, ps3)" by fastforce
  obtain t w ps4 where g: "gettoken ps3 = (t, w, ps4)" by (cases "gettoken ps3") auto
  note le = 1(2) [OF a] parse_backs_length [OF b]
  show ?case
  proof (cases x)
    case True
    then obtain c2 where "parseline ps4 = Ret (c2, ps')" using 1(4) a b p g by (auto simp: parseline.psimps [OF 1(1)])
    then have "length ps' \<le> length ps4" using 1(3) [OF a refl b [symmetric] p [symmetric] True g [symmetric] refl] by blast
    then show ?thesis using le peek_gettoken_length [of "[59]" ps2 ps3 t w ps4] p g True by simp
  next
    case False
    then show ?thesis using 1(4) a b p le peek_length(1) [OF p] by (auto simp: parseline.psimps [OF 1(1)])
  qed
next
  case (2 ps)
  obtain c0 ps1 where a: "parseexec ps = Ret (c0, ps1)" using 2(4) by (auto simp: parsepipe.psimps [OF 2(1)])
  obtain x ps2 where p: "peek [124] ps1 = (x, ps2)" by fastforce
  obtain t w ps3 where g: "gettoken ps2 = (t, w, ps3)" by (cases "gettoken ps2") auto
  note le = 2(2) [OF a]
  show ?case
  proof (cases x)
    case True
    then obtain c2 where "parsepipe ps3 = Ret (c2, ps')" using 2(4) a p g by (auto simp: parsepipe.psimps [OF 2(1)])
    then have "length ps' \<le> length ps3" using 2(3) [OF a refl p [symmetric] True g [symmetric] refl] by blast
    then show ?thesis using le peek_gettoken_length [of "[124]" ps1 ps2 t w ps3] p g True by simp
  next
    case False
    then show ?thesis using 2(4) a p le peek_length(1) [OF p] by (auto simp: parsepipe.psimps [OF 2(1)])
  qed
next
  case (3 ps)
  obtain x ps1 where p: "peek [40] ps = (x, ps1)" by fastforce
  note le = peek_length(1) [OF p]
  show ?case
  proof (cases x)
    case True
    then have "parseblock ps1 = Ret (c, ps')" using 3(3) p by (simp add: parseexec.psimps [OF 3(1)])
    then show ?thesis using 3(2) [OF p [symmetric] True] le by (meson le_trans)
  next
    case False
    then show ?thesis using 3(3) p le by (auto simp: parseexec.psimps [OF 3(1)] dest!: parseredirs_length parse_args_length)
  qed
next
  case (4 ps)
  obtain x ps1 where p: "peek [40] ps = (x, ps1)" by fastforce
  obtain t w ps2 where g: "gettoken ps1 = (t, w, ps2)" by (cases "gettoken ps1") auto
  have x: x using 4(3) p by (auto simp: parseblock.psimps [OF 4(1)] split: if_splits)
  obtain c0 ps3 where a: "parseline ps2 = Ret (c0, ps3)" using 4(3) p g x by (auto simp: parseblock.psimps [OF 4(1)])
  obtain y ps4 where p2: "peek [41] ps3 = (y, ps4)" by fastforce
  obtain t2 w2 ps5 where g2: "gettoken ps4 = (t2, w2, ps5)" by (cases "gettoken ps4") auto
  have "length ps3 \<le> length ps2" using 4(2) [OF p [symmetric] _ g [symmetric] refl a] x by simp
  moreover have "length ps2 < length ps" using peek_gettoken_length [of "[40]" ps ps1 t w ps2] p g x by simp
  moreover have "length ps5 \<le> length ps3" using peek_length(1) [OF p2] gettoken_length(1) [OF g2] by simp
  ultimately show ?case
    using 4(3) p g x a p2 g2 by (auto simp: parseblock.psimps [OF 4(1)] split: if_splits dest!: parseredirs_length)
qed

lemma line_shorter:
  assumes "parseline_parsepipe_parseexec_parseblock_dom (Inl (Inr ps))" "parsepipe ps = Ret (c, ps1)" "(c1, ps2) = parse_backs c ps1"
    "(True, ps3) = peek [59] ps2" "(t, w, ps4) = gettoken ps3"
  shows "length ps4 < length ps"
  using parse_length_dom(2) [OF assms(1,2)] parse_backs_length [OF assms(3) [symmetric]]
    peek_gettoken_length [OF assms(4) [symmetric] assms(5) [symmetric]] by simp

lemma pipe_shorter:
  assumes "parseline_parsepipe_parseexec_parseblock_dom (Inr (Inl ps))" "parseexec ps = Ret (c, ps1)"
    "(True, ps2) = peek [124] ps1" "(t, w, ps3) = gettoken ps2"
  shows "length ps3 < length ps"
  using parse_length_dom(3) [OF assms(1,2)] peek_gettoken_length [OF assms(3) [symmetric] assms(4) [symmetric]] by simp

lemma block_shorter:
  "(True, ps1) = peek [40] ps \<Longrightarrow> (t, w, ps2) = gettoken ps1 \<Longrightarrow> 4 * length ps2 + 3 < 4 * length ps"
  "(True, ps1) = peek [40] ps \<Longrightarrow> 4 * length ps1 < Suc (4 * length ps)"
  using peek_gettoken_length [of "[40]" ps ps1 t w ps2] peek_length(1) [of "[40]" ps True ps1] by simp_all

termination parseline
  by (relation "measure (\<lambda>x. case x of Inl (Inl ps) \<Rightarrow> 4 * length ps + 3 | Inl (Inr ps) \<Rightarrow> 4 * length ps + 2
      | Inr (Inl ps) \<Rightarrow> 4 * length ps + 1 | Inr (Inr ps) \<Rightarrow> 4 * length (ps :: str))")
    (auto intro: line_shorter pipe_shorter block_shorter)

declare parseline.simps [simp del] parsepipe.simps [simp del] parseexec.simps [simp del] parseblock.simps [simp del]

section \<open>The whole line\<close>

text \<open>
  The buffer as \<^verbatim>\<open>nulterminate\<close> leaves it: the pointer \<open>p\<close>, a rest of the line, is the place where that rest begins; the
  place behind the line holds its zero already.
\<close>

definition put_nul :: "nat \<Rightarrow> str \<Rightarrow> str \<Rightarrow> str" where
  "put_nul n p buf = buf[n - length p := 0]"

primrec nulterminate :: "nat \<Rightarrow> span cmd \<Rightarrow> str \<Rightarrow> str" where
  "nulterminate n (EXEC ws) buf = foldl (\<lambda>b w. put_nul n (snd w) b) buf ws"
| "nulterminate n (REDIR c f mode fd) buf = put_nul n (snd f) (nulterminate n c buf)"
| "nulterminate n (PIPE l r) buf = nulterminate n r (nulterminate n l buf)"
| "nulterminate n (LIST l r) buf = nulterminate n r (nulterminate n l buf)"
| "nulterminate n (BACK c) buf = nulterminate n c buf"

definition parsecmd :: "str \<Rightarrow> (span cmd \<times> str) outcome" where
  "parsecmd s =
     obind (parseline s) (\<lambda>(c, ps).
       case peek [] ps of (_, ps1) \<Rightarrow>
         if ps1 \<noteq> [] then Panic ''syntax'' else Ret (c, nulterminate (length s) c (s @ [0])))"

section \<open>The strings of a command\<close>

definition word_char :: "uchar \<Rightarrow> bool" where
  "word_char c \<longleftrightarrow> c \<notin> set whitespace \<and> c \<notin> set symbols"

definition span_text :: "span \<Rightarrow> str" where
  "span_text sp = take (length (fst sp) - length (snd sp)) (fst sp)"

text \<open>A word of the line: it consists of word characters and ends where they end.\<close>

definition word_in :: "str \<Rightarrow> span \<Rightarrow> bool" where
  "word_in s sp \<longleftrightarrow> suffix (fst sp) s \<and> fst sp = span_text sp @ snd sp \<and> span_text sp \<noteq> [] \<and> list_all word_char (span_text sp)
     \<and> (snd sp = [] \<or> \<not> word_char (hd (snd sp)))"

lemma word_in_mono: "word_in s sp \<Longrightarrow> suffix s s' \<Longrightarrow> word_in s' sp"
  by (auto simp: word_in_def intro: suffix_order.trans)

lemma skip_white_suffix: "suffix (skip_white s) s"
  by (induction s) (auto intro: suffix_ConsI)

lemma skip_word_Cons: "skip_word (c # s) = (if word_char c then skip_word s else c # s)"
  by (simp add: word_char_def)

lemma skip_word_split: "\<exists>w. s = w @ skip_word s \<and> list_all word_char w \<and> (skip_word s = [] \<or> \<not> word_char (hd (skip_word s)))"
proof (induction s)
  case (Cons c s)
  then obtain w where "s = w @ skip_word s" "list_all word_char w" "skip_word s = [] \<or> \<not> word_char (hd (skip_word s))" by blast
  then show ?case
    by (cases "word_char c") (auto simp: skip_word_Cons simp del: skip_word.simps intro: exI [of _ "c # w"] exI [of _ "[]"])
qed simp

lemma token_end_suffix: "token_end q = (ret, eq) \<Longrightarrow> suffix eq q"
proof (cases q)
  case (Cons c r)
  assume "token_end q = (ret, eq)"
  moreover have "suffix (skip_word q) q" using skip_word_split [of q] by (auto simp: suffix_def)
  moreover have "suffix (tl r) (c # r)" by (cases r) (auto intro: suffix_ConsI)
  ultimately show ?thesis using Cons by (auto simp: token_end_def suffix_ConsI split: if_splits)
qed (simp add: token_end_def)

lemma gettoken_suffix: "gettoken ps = (ret, sp, s) \<Longrightarrow> suffix s ps"
  using suffix_order.trans [OF skip_white_suffix suffix_order.trans [OF token_end_suffix skip_white_suffix]]
  by (auto simp: gettoken_def Let_def split: prod.splits)

lemma peek_suffix: "peek toks ps = (b, s) \<Longrightarrow> suffix s ps"
  using skip_white_suffix by (auto simp: peek_def Let_def)

lemma gettoken_word:
  assumes "gettoken ps = (97, sp, s)"
  shows "word_in ps sp"
proof -
  let ?q = "skip_white ps"
  have e: "token_end ?q = (97, snd sp)" "fst sp = ?q" using assms by (auto simp: gettoken_def Let_def split: prod.splits)
  obtain c r where q: "?q = c # r" using e by (cases ?q) (auto simp: token_end_def)
  then have c: "c \<notin> set symbols" "snd sp = skip_word ?q"
    using e by (auto simp: token_end_def symbols_def split: if_splits)
  then have wc: "word_char c" using skip_white_hd [OF q] by (simp add: word_char_def)
  obtain w where w: "?q = w @ snd sp" "list_all word_char w" "snd sp = [] \<or> \<not> word_char (hd (snd sp))"
    using skip_word_split [of ?q] c(2) by auto
  then have "span_text sp = w" using e(2) by (simp add: span_text_def)
  moreover have "w \<noteq> []" using w(1,3) q wc by (cases "snd sp"; cases w) auto
  ultimately show ?thesis using w e(2) skip_white_suffix [of ps] by (simp add: word_in_def)
qed

text \<open>Every string of a parsed command is a word of the line.\<close>

lemma set_redirs_cmd: "set_cmd (redirs_cmd c rs) = set_cmd c \<union> fst ` set rs"
  by (induction rs arbitrary: c) auto

lemma fst_redir_of [simp]: "fst (redir_of tok f) = f"
  by (simp add: redir_of_def)

lemma parseredirs_words:
  "parseredirs ps = Ret (rs, ps') \<Longrightarrow> suffix ps' ps \<and> (\<forall>r \<in> set rs. word_in ps (fst r))"
proof (induction ps arbitrary: rs rule: parseredirs.induct)
  case (1 ps)
  obtain b ps1 where p: "peek [60, 62] ps = (b, ps1)" by fastforce
  note s1 = peek_suffix [OF p]
  show ?case
  proof (cases b)
    case True
    obtain tok sp ps2 where g: "gettoken ps1 = (tok, sp, ps2)" by (cases "gettoken ps1") auto
    obtain tok2 f ps3 where g2: "gettoken ps2 = (tok2, f, ps3)" by (cases "gettoken ps2") auto
    obtain rs' where r: "tok2 = 97" "parseredirs ps3 = Ret (rs', ps')" "rs = redir_of tok f # rs'"
      using 1(2) True p g g2 by (subst (asm) parseredirs.simps) (auto split: if_splits)
    then have IH: "suffix ps' ps3 \<and> (\<forall>r \<in> set rs'. word_in ps3 (fst r))"
      using 1(1) [OF p [symmetric] _ g [symmetric] refl g2 [symmetric] refl] True by simp
    have s2: "suffix ps2 ps" using gettoken_suffix [OF g] s1 by (rule suffix_order.trans)
    have s3: "suffix ps3 ps" using gettoken_suffix [OF g2] s2 by (rule suffix_order.trans)
    have "word_in ps f" using gettoken_word [of ps2 f ps3] g2 r(1) word_in_mono [OF _ s2] by simp
    then show ?thesis using IH r(3) s3 by (auto intro: suffix_order.trans word_in_mono)
  next
    case False
    then show ?thesis using 1(2) p s1 by (subst (asm) parseredirs.simps) auto
  qed
qed

lemma parse_args_words:
  "parse_args argc ps = Ret (ws, rs, ps') \<Longrightarrow>
    suffix ps' ps \<and> (\<forall>w \<in> set ws. word_in ps w) \<and> (\<forall>r \<in> set rs. word_in ps (fst r)) \<and> argc + length ws < max MAXARGS (Suc argc)"
proof (induction argc ps arbitrary: ws rs rule: parse_args.induct)
  case (1 argc ps)
  obtain b ps1 where p: "peek [124, 41, 38, 59] ps = (b, ps1)" by fastforce
  obtain tok w ps2 where g: "gettoken ps1 = (tok, w, ps2)" by (cases "gettoken ps1") auto
  note s1 = peek_suffix [OF p]
  note s2 = suffix_order.trans [OF gettoken_suffix [OF g] s1]
  show ?case
  proof (cases "b \<or> tok = 0")
    case True
    then show ?thesis using 1(2) p g s1 s2 by (subst (asm) parse_args.simps) (auto split: if_splits)
  next
    case False
    obtain rs1 ps3 ws2 rs2 where r: "tok = 97" "\<not> argc + 1 \<ge> MAXARGS" "parseredirs ps2 = Ret (rs1, ps3)"
      "parse_args (argc + 1) ps3 = Ret (ws2, rs2, ps')" "ws = w # ws2" "rs = rs1 @ rs2"
      using 1(2) False p g by (subst (asm) parse_args.simps) (auto split: if_splits)
    have IH: "suffix ps' ps3 \<and> (\<forall>w \<in> set ws2. word_in ps3 w) \<and> (\<forall>r \<in> set rs2. word_in ps3 (fst r))
        \<and> argc + 1 + length ws2 < max MAXARGS (Suc (argc + 1))"
      using 1(1) [OF p [symmetric] _ g [symmetric] refl _ _ _ r(3) refl r(4)] r(1,2) False by simp
    note red = parseredirs_words [OF r(3)]
    have s3: "suffix ps3 ps" using red s2 suffix_order.trans by blast
    have "word_in ps w" using gettoken_word [of ps1 w ps2] g r(1) word_in_mono [OF _ s1] by simp
    then show ?thesis using IH r(2,5,6) red s2 s3 by (auto intro: suffix_order.trans word_in_mono)
  qed
qed

lemma parse_backs_words: "parse_backs c ps = (c', ps') \<Longrightarrow> suffix ps' ps \<and> set_cmd c' = set_cmd c"
proof (induction c ps rule: parse_backs.induct)
  case (1 c ps)
  obtain b ps1 where p: "peek [38] ps = (b, ps1)" by fastforce
  obtain tok w ps2 where g: "gettoken ps1 = (tok, w, ps2)" by (cases "gettoken ps1") auto
  note s1 = peek_suffix [OF p]
  show ?case
  proof (cases b)
    case True
    then have "suffix ps' ps2 \<and> set_cmd c' = set_cmd (BACK c)"
      using 1(1) [OF p [symmetric] _ g [symmetric] refl] 1(2) p g by (subst (asm) (2) parse_backs.simps) simp
    then show ?thesis using suffix_order.trans [OF gettoken_suffix [OF g] s1] by (auto intro: suffix_order.trans)
  next
    case False
    then show ?thesis using 1(2) p s1 by (subst (asm) parse_backs.simps) auto
  qed
qed

definition parsed :: "str \<Rightarrow> span cmd \<times> str \<Rightarrow> bool" where
  "parsed ps r \<longleftrightarrow> suffix (snd r) ps \<and> (\<forall>sp \<in> set_cmd (fst r). word_in ps sp)"

lemma parsed_mono: "parsed ps (c, ps') \<Longrightarrow> suffix ps ps0 \<Longrightarrow> parsed ps0 (c, ps')"
  by (auto simp: parsed_def intro: suffix_order.trans word_in_mono)

lemma redir_words: "\<forall>r \<in> set rs. word_in s (fst r) \<Longrightarrow> suffix s s' \<Longrightarrow> \<forall>sp \<in> fst ` set rs. word_in s' sp"
  by (blast intro: word_in_mono)

lemma parse_words:
  "parseline ps = Ret r \<Longrightarrow> parsed ps r"
  "parsepipe ps = Ret r \<Longrightarrow> parsed ps r"
  "parseexec ps = Ret r \<Longrightarrow> parsed ps r"
  "parseblock ps = Ret r \<Longrightarrow> parsed ps r"
proof (induction ps and ps and ps and ps arbitrary: r and r and r and r rule: parseline_parsepipe_parseexec_parseblock.induct)
  case (1 ps)
  obtain c0 ps1 where a: "parsepipe ps = Ret (c0, ps1)" using 1(3) by (auto simp: parseline.simps [of ps])
  obtain c1 ps2 where b: "parse_backs c0 ps1 = (c1, ps2)" by fastforce
  obtain x ps3 where p: "peek [59] ps2 = (x, ps3)" by fastforce
  obtain t w ps4 where g: "gettoken ps3 = (t, w, ps4)" by (cases "gettoken ps3") auto
  have c0: "parsed ps (c0, ps1)" using 1(1) [OF a] .
  then have s3: "suffix ps3 ps" "parsed ps (c1, ps2)"
    using parse_backs_words [OF b] peek_suffix [OF p] by (auto simp: parsed_def intro: suffix_order.trans)
  then have s4: "suffix ps4 ps" using gettoken_suffix [OF g] suffix_order.trans by blast
  show ?case
  proof (cases x)
    case True
    then obtain c2 ps5 where r: "parseline ps4 = Ret (c2, ps5)" "r = (LIST c1 c2, ps5)"
      using 1(3) a b p g by (auto simp: parseline.simps [of ps])
    then have "parsed ps (c2, ps5)" using parsed_mono [OF 1(2) [OF a refl b [symmetric] p [symmetric] True g [symmetric] refl r(1)] s4] by simp
    then show ?thesis using s3 r(2) by (auto simp: parsed_def)
  next
    case False
    then show ?thesis using 1(3) a b p s3 by (auto simp: parseline.simps [of ps] parsed_def)
  qed
next
  case (2 ps)
  obtain c0 ps1 where a: "parseexec ps = Ret (c0, ps1)" using 2(3) by (auto simp: parsepipe.simps [of ps])
  obtain x ps2 where p: "peek [124] ps1 = (x, ps2)" by fastforce
  obtain t w ps3 where g: "gettoken ps2 = (t, w, ps3)" by (cases "gettoken ps2") auto
  have c0: "parsed ps (c0, ps1)" using 2(1) [OF a] .
  then have s2: "suffix ps2 ps" using peek_suffix [OF p] by (auto simp: parsed_def intro: suffix_order.trans)
  then have s3: "suffix ps3 ps" using gettoken_suffix [OF g] suffix_order.trans by blast
  show ?case
  proof (cases x)
    case True
    then obtain c2 ps4 where r: "parsepipe ps3 = Ret (c2, ps4)" "r = (PIPE c0 c2, ps4)"
      using 2(3) a p g by (auto simp: parsepipe.simps [of ps])
    then have "parsed ps (c2, ps4)" using parsed_mono [OF 2(2) [OF a refl p [symmetric] True g [symmetric] refl r(1)] s3] by simp
    then show ?thesis using c0 r(2) by (auto simp: parsed_def)
  next
    case False
    then show ?thesis using 2(3) a p c0 s2 by (auto simp: parsepipe.simps [of ps] parsed_def)
  qed
next
  case (3 ps)
  obtain x ps1 where p: "peek [40] ps = (x, ps1)" by fastforce
  note s1 = peek_suffix [OF p]
  show ?case
  proof (cases x)
    case True
    then have "parseblock ps1 = Ret r" using 3(2) p by (simp add: parseexec.simps [of ps])
    then show ?thesis using 3(1) [OF p [symmetric] True] parsed_mono [OF _ s1] by (cases r) blast
  next
    case False
    then obtain rs ps2 ws rs2 ps3 where q: "parseredirs ps1 = Ret (rs, ps2)" "parse_args 0 ps2 = Ret (ws, rs2, ps3)"
      "r = (redirs_cmd (EXEC ws) (rs @ rs2), ps3)" using 3(2) p by (auto simp: parseexec.simps [of ps])
    have "suffix ps2 ps" using parseredirs_words [OF q(1)] s1 suffix_order.trans by blast
    then show ?thesis
      using parseredirs_words [OF q(1)] parse_args_words [OF q(2)] q(3) s1 redir_words [of rs ps1 ps] redir_words [of rs2 ps2 ps]
      by (simp add: parsed_def set_redirs_cmd image_Un ball_Un) (meson suffix_order.trans word_in_mono)
  qed
next
  case (4 ps)
  obtain x ps1 where p: "peek [40] ps = (x, ps1)" by fastforce
  obtain t w ps2 where g: "gettoken ps1 = (t, w, ps2)" by (cases "gettoken ps1") auto
  have x: x using 4(2) p by (auto simp: parseblock.simps [of ps] split: if_splits)
  obtain c0 ps3 where a: "parseline ps2 = Ret (c0, ps3)" using 4(2) p g x by (auto simp: parseblock.simps [of ps])
  obtain y ps4 where p2: "peek [41] ps3 = (y, ps4)" by fastforce
  obtain t2 w2 ps5 where g2: "gettoken ps4 = (t2, w2, ps5)" by (cases "gettoken ps4") auto
  obtain rs ps6 where q: "parseredirs ps5 = Ret (rs, ps6)" "r = (redirs_cmd c0 rs, ps6)"
    using 4(2) p g x a p2 g2 by (auto simp: parseblock.simps [of ps] split: if_splits)
  have s2: "suffix ps2 ps" using gettoken_suffix [OF g] peek_suffix [OF p] by (rule suffix_order.trans)
  have c0: "parsed ps (c0, ps3)" using parsed_mono [OF 4(1) [OF p [symmetric] _ g [symmetric] refl a] s2] x by simp
  have "suffix ps5 ps" using suffix_order.trans [OF gettoken_suffix [OF g2] suffix_order.trans [OF peek_suffix [OF p2]]] c0
    by (auto simp: parsed_def)
  then show ?case using c0 q(2) parseredirs_words [OF q(1)] redir_words [of rs ps5 ps]
    by (simp add: parsed_def set_redirs_cmd ball_Un) (meson suffix_order.trans)
qed

definition nuls :: "nat \<Rightarrow> span cmd \<Rightarrow> nat set" where
  "nuls n c = (\<lambda>sp. n - length (snd sp)) ` set_cmd c"

definition zeroed :: "nat set \<Rightarrow> str \<Rightarrow> str \<Rightarrow> bool" where
  "zeroed P buf buf' \<longleftrightarrow> length buf' = length buf \<and> (\<forall>i < length buf. buf' ! i = (if i \<in> P then 0 else buf ! i))"

lemma zeroed_trans: "zeroed P a b \<Longrightarrow> zeroed Q b c \<Longrightarrow> zeroed (P \<union> Q) a c"
  by (auto simp: zeroed_def)

lemma zeroed_put: "zeroed {n - length p} buf (put_nul n p buf)"
  by (auto simp: zeroed_def put_nul_def nth_list_update)

lemma nulterminate_zeroed: "zeroed (nuls n c) buf (nulterminate n c buf)"
proof (induction c arbitrary: buf)
  case (EXEC ws)
  have "zeroed ((\<lambda>sp. n - length (snd sp)) ` set ws) buf (foldl (\<lambda>b w. put_nul n (snd w) b) buf ws)"
  proof (induction ws arbitrary: buf)
    case (Cons w ws)
    then show ?case using zeroed_trans [OF zeroed_put [of n "snd w" buf]] by fastforce
  qed (simp add: zeroed_def)
  then show ?case by (simp add: nuls_def)
next
  case (REDIR c f mode fd)
  then show ?case using zeroed_trans [OF REDIR zeroed_put [of n "snd f"]] by (simp add: nuls_def)
next
  case (PIPE l r)
  then show ?case using zeroed_trans [OF PIPE(1) [of buf] PIPE(2)] by (simp add: nuls_def image_Un)
next
  case (LIST l r)
  then show ?case using zeroed_trans [OF LIST(1) [of buf] LIST(2)] by (simp add: nuls_def image_Un)
qed (simp add: nuls_def)

text \<open>The string that a C program finds at an offset.\<close>

definition c_string :: "str \<Rightarrow> nat \<Rightarrow> str" where
  "c_string buf i = takeWhile (\<lambda>x. x \<noteq> 0) (drop i buf)"

definition arg_string :: "str \<Rightarrow> str \<Rightarrow> span \<Rightarrow> str" where
  "arg_string s buf sp = c_string buf (length s - length (fst sp))"

lemma word_end_nth:
  assumes "word_in s sp" "i = length s - length (snd sp)" "i < length s"
  shows "\<not> word_char (s ! i)"
proof -
  obtain pre where s: "s = pre @ span_text sp @ snd sp" using assms(1) by (auto simp: word_in_def suffix_def)
  then have "snd sp \<noteq> []" "i = length (pre @ span_text sp)" using assms(2,3) by auto
  then show ?thesis using assms(1) s by (simp add: word_in_def nth_append hd_conv_nth)
qed

lemma arg_string_word:
  assumes "0 \<notin> set s" "\<forall>sp \<in> S. word_in s sp" "sp \<in> S" "zeroed ((\<lambda>sp. length s - length (snd sp)) ` S) (s @ [0]) buf"
  shows "arg_string s buf sp = span_text sp"
proof -
  obtain pre where s: "s = pre @ span_text sp @ snd sp" using assms(2,3) by (auto simp: word_in_def suffix_def)
  let ?o = "length pre" and ?w = "span_text sp"
  have w: "list_all word_char ?w" "fst sp = ?w @ snd sp" using assms(2,3) by (auto simp: word_in_def)
  have at: "buf ! (?o + i) = ?w ! i" if "i < length ?w" for i
  proof -
    have si: "s ! (?o + i) = ?w ! i" by (subst s) (simp add: nth_append that)
    then have "word_char (s ! (?o + i))" using w(1) that by (simp add: list_all_length)
    then have "?o + i \<notin> (\<lambda>sp. length s - length (snd sp)) ` S" using word_end_nth assms(2) that s by fastforce
    then show ?thesis using assms(4) si that s by (auto simp: zeroed_def nth_append)
  qed
  have z: "buf ! (?o + length ?w) = 0" using assms(3,4) s by (auto simp: zeroed_def nth_append image_iff)
  have len: "length buf = Suc (length s)" using assms(4) by (simp add: zeroed_def)
  have "drop ?o buf = ?w @ 0 # drop (Suc (?o + length ?w)) buf"
  proof -
    have "take (length ?w) (drop ?o buf) = ?w" using at len s by (intro nth_equalityI) auto
    moreover have "drop (?o + length ?w) buf = 0 # drop (Suc (?o + length ?w)) buf"
      using Cons_nth_drop_Suc [of "?o + length ?w" buf] z len s by simp
    ultimately show ?thesis by (metis append_take_drop_id drop_drop add.commute)
  qed
  moreover have "0 \<notin> set ?w" using assms(1) s by auto
  moreover have "length s - length (fst sp) = ?o" using s w(2) by simp
  ultimately show ?thesis by (auto simp: arg_string_def c_string_def takeWhile_append takeWhile_eq_all_conv)
qed

lemma parsecmd_words:
  assumes "0 \<notin> set s" "parsecmd s = Ret (c, buf)"
  shows "map_cmd (arg_string s buf) c = map_cmd span_text c"
proof -
  obtain ps where ps: "parseline s = Ret (c, ps)" "buf = nulterminate (length s) c (s @ [0])"
    using assms(2) by (auto simp: parsecmd_def split: prod.splits if_splits)
  then have "\<forall>sp \<in> set_cmd c. word_in s sp" using parse_words(1) by (fastforce simp: parsed_def)
  then show ?thesis
    using arg_string_word [OF assms(1)] nulterminate_zeroed [of "length s" c "s @ [0]"] ps(2)
    by (intro cmd.map_cong0) (auto simp: nuls_def)
qed

section \<open>The grammar\<close>

text \<open>
  The command language as the comments of the parser functions leave it to be guessed: a line is a sequence of pipelines,
  each with any number of ampersands; a pipeline consists of simple commands and of lines in parentheses; redirections
  may stand before, between and after the words.
\<close>

type_synonym sredir = "uchar \<times> str"

datatype sline = SLast spipe nat | SSeq spipe nat sline
  and spipe = SOne satom | SPipe satom spipe
  and satom = SSimple "sredir list" "(str \<times> sredir list) list" | SBlock sline "sredir list"

fun sredir_cmd :: "sredir \<Rightarrow> str \<times> int \<times> int" where
  "sredir_cmd (k, f) = (if k = 60 then (f, 0, 0) else (f, 0x201, 1))"

primrec line_tree :: "sline \<Rightarrow> str cmd" and pipe_tree :: "spipe \<Rightarrow> str cmd" and atom_tree :: "satom \<Rightarrow> str cmd" where
  "line_tree (SLast p k) = (BACK ^^ k) (pipe_tree p)"
| "line_tree (SSeq p k l) = LIST ((BACK ^^ k) (pipe_tree p)) (line_tree l)"
| "pipe_tree (SOne a) = atom_tree a"
| "pipe_tree (SPipe a p) = PIPE (atom_tree a) (pipe_tree p)"
| "atom_tree (SSimple rs ws) = redirs_cmd (EXEC (map fst ws)) (map sredir_cmd (rs @ concat (map snd ws)))"
| "atom_tree (SBlock l rs) = redirs_cmd (line_tree l) (map sredir_cmd rs)"

fun redir_toks :: "sredir \<Rightarrow> str list" where
  "redir_toks (k, f) = [if k = 43 then [62, 62] else [k], f]"

definition redirs_toks :: "sredir list \<Rightarrow> str list" where
  "redirs_toks rs = concat (map redir_toks rs)"

definition words_toks :: "(str \<times> sredir list) list \<Rightarrow> str list" where
  "words_toks ws = concat (map (\<lambda>(w, rs). w # redirs_toks rs) ws)"

primrec line_toks :: "sline \<Rightarrow> str list" and pipe_toks :: "spipe \<Rightarrow> str list" and atom_toks :: "satom \<Rightarrow> str list" where
  "line_toks (SLast p k) = pipe_toks p @ replicate k [38]"
| "line_toks (SSeq p k l) = pipe_toks p @ replicate k [38] @ [59] # line_toks l"
| "pipe_toks (SOne a) = atom_toks a"
| "pipe_toks (SPipe a p) = atom_toks a @ [124] # pipe_toks p"
| "atom_toks (SSimple rs ws) = redirs_toks rs @ words_toks ws"
| "atom_toks (SBlock l rs) = [40] # line_toks l @ [41] # redirs_toks rs"

definition word_ok :: "str \<Rightarrow> bool" where
  "word_ok w \<longleftrightarrow> w \<noteq> [] \<and> list_all word_char w \<and> 0 \<notin> set w"

definition redirs_ok :: "sredir list \<Rightarrow> bool" where
  "redirs_ok rs \<longleftrightarrow> list_all (\<lambda>(k, f). k \<in> {60, 62, 43} \<and> word_ok f) rs"

primrec line_ok :: "sline \<Rightarrow> bool" and pipe_ok :: "spipe \<Rightarrow> bool" and atom_ok :: "satom \<Rightarrow> bool" where
  "line_ok (SLast p k) \<longleftrightarrow> pipe_ok p"
| "line_ok (SSeq p k l) \<longleftrightarrow> pipe_ok p \<and> line_ok l"
| "pipe_ok (SOne a) \<longleftrightarrow> atom_ok a"
| "pipe_ok (SPipe a p) \<longleftrightarrow> atom_ok a \<and> pipe_ok p"
| "atom_ok (SSimple rs ws) \<longleftrightarrow> redirs_ok rs \<and> list_all (\<lambda>(w, rs). word_ok w \<and> redirs_ok rs) ws \<and> length ws < MAXARGS"
| "atom_ok (SBlock l rs) \<longleftrightarrow> line_ok l \<and> redirs_ok rs"

text \<open>A line is written with the same white space behind every token.\<close>

definition spaced :: "str \<Rightarrow> str list \<Rightarrow> str" where
  "spaced sp ts = concat (map (\<lambda>t. t @ sp) ts)"

definition token_ok :: "str \<Rightarrow> bool" where
  "token_ok t \<longleftrightarrow> word_ok t \<or> t \<in> {[124], [40], [41], [59], [38], [60], [62], [62, 62]}"

definition token_kind :: "str \<Rightarrow> uchar" where
  "token_kind t = (if t = [62, 62] then 43 else if hd t \<in> set symbols then hd t else 97)"

definition text_redir :: "redir \<Rightarrow> str \<times> int \<times> int" where
  "text_redir r = (span_text (fst r), snd r)"

lemma text_redir_of: "text_redir (redir_of k f) = sredir_cmd (k, span_text f)"
  by (simp add: text_redir_def redir_of_def)

text \<open>What may stand behind a simple command.\<close>

definition stops :: "str list \<Rightarrow> bool" where
  "stops ts \<longleftrightarrow> list_all token_ok ts \<and> (ts = [] \<or> hd (hd ts) \<in> {124, 41, 38, 59})"

locale separator =
  fixes sp :: str
  assumes blank: "sp \<noteq> []" "set sp \<subseteq> set whitespace"
begin

lemma spaced_simps [simp]: "spaced sp [] = []" "spaced sp (t # ts) = t @ sp @ spaced sp ts" "spaced sp (ts @ ts') = spaced sp ts @ spaced sp ts'"
  by (simp_all add: spaced_def)

lemma skip_white_blank: "set xs \<subseteq> set whitespace \<Longrightarrow> skip_white (xs @ s) = skip_white s"
  by (induction xs) auto

lemma token_hd: "token_ok t \<Longrightarrow> \<exists>c r. t = c # r \<and> c \<notin> set whitespace"
  by (cases t) (auto simp: token_ok_def word_ok_def word_char_def whitespace_def)

lemma skip_white_spaced: "list_all token_ok ts \<Longrightarrow> skip_white (spaced sp ts) = spaced sp ts"
  using token_hd by (cases ts) fastforce+

lemma skip_word_spaced: "list_all word_char w \<Longrightarrow> skip_word (w @ sp @ s) = sp @ s"
proof (induction w)
  case Nil
  then show ?case using blank by (cases sp) auto
qed (simp add: skip_word_Cons del: skip_word.simps)

lemma gettoken_spaced:
  assumes "token_ok t" "list_all token_ok ts"
  shows "gettoken (spaced sp (t # ts)) = (token_kind t, (spaced sp (t # ts), sp @ spaced sp ts), spaced sp ts)"
proof -
  have "skip_white (spaced sp (t # ts)) = spaced sp (t # ts)" using assms by (intro skip_white_spaced) simp
  moreover have "skip_white (sp @ spaced sp ts) = spaced sp ts" using skip_white_blank blank(2) skip_white_spaced assms(2) by simp
  moreover have "token_end (spaced sp (t # ts)) = (token_kind t, sp @ spaced sp ts)"
  proof (cases "word_ok t")
    case True
    then obtain c r where t: "t = c # r" "c \<notin> set symbols" by (cases t) (auto simp: word_ok_def word_char_def)
    then show ?thesis using skip_word_spaced [of t "spaced sp ts"] True
      by (auto simp: token_end_def token_kind_def symbols_def word_ok_def)
  next
    case False
    have "sp @ spaced sp ts \<noteq> []" "hd (sp @ spaced sp ts) \<noteq> 62" using blank by (cases sp; auto simp: whitespace_def)+
    then show ?thesis using False assms(1) by (auto simp: token_ok_def token_end_def token_kind_def symbols_def)
  qed
  ultimately show ?thesis by (simp add: gettoken_def Let_def del: spaced_simps)
qed

lemma gettoken_end: "gettoken [] = (0, ([], []), [])"
  by (simp add: gettoken_def token_end_def)

lemma peek_spaced: "list_all token_ok ts \<Longrightarrow> peek toks (spaced sp ts) = (ts \<noteq> [] \<and> hd (hd ts) \<in> set toks, spaced sp ts)"
  using skip_white_spaced [of ts] token_hd by (cases ts) (fastforce simp: peek_def Let_def)+

lemma span_text_spaced [simp]: "span_text (t @ sp @ s, sp @ s) = t"
  by (simp add: span_text_def)

lemma redirs_toks_ok: "redirs_ok rs \<Longrightarrow> list_all token_ok (redirs_toks rs)"
  by (induction rs) (auto simp: redirs_ok_def redirs_toks_def token_ok_def)

lemma words_toks_ok: "list_all (\<lambda>(w, rs). word_ok w \<and> redirs_ok rs) ws \<Longrightarrow> list_all token_ok (words_toks ws)"
  using redirs_toks_ok by (induction ws) (auto simp: words_toks_def token_ok_def)

lemma word_hd: "word_ok w \<Longrightarrow> hd w \<notin> set symbols \<and> token_kind w = 97 \<and> token_ok w"
  by (cases w) (auto simp: word_ok_def word_char_def token_kind_def token_ok_def symbols_def)

lemma parseredirs_spaced:
  assumes "redirs_ok rs" "list_all token_ok ts" "ts = [] \<or> hd (hd ts) \<notin> {60, 62}"
  shows "\<exists>R. parseredirs (spaced sp (redirs_toks rs @ ts)) = Ret (R, spaced sp ts) \<and> map text_redir R = map sredir_cmd rs"
  using assms(1)
proof (induction rs)
  case Nil
  then show ?case using assms(2,3) by (subst parseredirs.simps) (auto simp: redirs_toks_def peek_spaced)
next
  case (Cons r rs)
  obtain k f where r: "r = (k, f)" "k \<in> {60, 62, 43}" "word_ok f" "redirs_ok rs"
    using Cons.prems by (cases r) (auto simp: redirs_ok_def)
  obtain R where R: "parseredirs (spaced sp (redirs_toks rs @ ts)) = Ret (R, spaced sp ts)" "map text_redir R = map sredir_cmd rs"
    using Cons.IH r(4) by blast
  let ?t = "if k = 43 then [62, 62] else [k]" and ?rest = "redirs_toks rs @ ts"
  have ok: "list_all token_ok ?rest" "token_ok ?t" "token_ok f" "token_kind f = 97" "token_kind ?t = k" "hd ?t \<in> {60, 62}"
    using redirs_toks_ok [OF r(4)] assms(2) r(2,3) word_hd by (auto simp: token_ok_def token_kind_def symbols_def)
  have p: "peek [60, 62] (spaced sp (?t # f # ?rest)) = (True, spaced sp (?t # f # ?rest))"
    using ok by (subst peek_spaced) auto
  note g1 = gettoken_spaced [of ?t "f # ?rest"] and g2 = gettoken_spaced [of f ?rest]
  have "redirs_toks (r # rs) @ ts = ?t # f # ?rest" using r(1) by (simp add: redirs_toks_def)
  moreover have "parseredirs (spaced sp (?t # f # ?rest)) = Ret (redir_of k (spaced sp (f # ?rest), sp @ spaced sp ?rest) # R, spaced sp ts)"
    using p g1 g2 ok R(1) by (subst parseredirs.simps) (simp del: spaced_simps)
  ultimately show ?case using R(2) r(1) text_redir_of by auto
qed

lemma parse_args_spaced:
  assumes "list_all (\<lambda>(w, rs). word_ok w \<and> redirs_ok rs) ws" "stops ts" "argc + length ws < MAXARGS"
  shows "\<exists>W R. parse_args argc (spaced sp (words_toks ws @ ts)) = Ret (W, R, spaced sp ts) \<and> map span_text W = map fst ws
    \<and> map text_redir R = map sredir_cmd (concat (map snd ws))"
  using assms(1,3)
proof (induction ws arbitrary: argc)
  case Nil
  then show ?case using assms(2) gettoken_end
    by (subst parse_args.simps) (auto simp: words_toks_def peek_spaced stops_def)
next
  case (Cons x ws)
  obtain w rs where x: "x = (w, rs)" "word_ok w" "redirs_ok rs" using Cons.prems(1) by (cases x) auto
  obtain W R where W: "parse_args (argc + 1) (spaced sp (words_toks ws @ ts)) = Ret (W, R, spaced sp ts)"
    "map span_text W = map fst ws" "map text_redir R = map sredir_cmd (concat (map snd ws))"
    using Cons.IH [of "argc + 1"] Cons.prems by auto
  let ?rest = "words_toks ws @ ts"
  have ok: "list_all token_ok ?rest" using words_toks_ok Cons.prems(1) assms(2) by (simp add: stops_def)
  have hd: "?rest = [] \<or> hd (hd ?rest) \<notin> {60, 62}"
    using Cons.prems(1) assms(2) word_hd by (cases ws) (fastforce simp: words_toks_def stops_def symbols_def)+
  obtain R1 where R1: "parseredirs (spaced sp (redirs_toks rs @ ?rest)) = Ret (R1, spaced sp ?rest)" "map text_redir R1 = map sredir_cmd rs"
    using parseredirs_spaced [OF x(3) ok hd] by blast
  have ok2: "list_all token_ok (redirs_toks rs @ ?rest)" using redirs_toks_ok [OF x(3)] ok by simp
  have p: "peek [124, 41, 38, 59] (spaced sp (w # redirs_toks rs @ ?rest)) = (False, spaced sp (w # redirs_toks rs @ ?rest))"
    using word_hd [OF x(2)] ok2 by (subst peek_spaced) (auto simp: symbols_def)
  note g = gettoken_spaced [of w "redirs_toks rs @ ?rest"]
  have "parse_args argc (spaced sp (w # redirs_toks rs @ ?rest))
      = Ret ((spaced sp (w # redirs_toks rs @ ?rest), sp @ spaced sp (redirs_toks rs @ ?rest)) # W, R1 @ R, spaced sp ts)"
    using p g word_hd [OF x(2)] ok2 R1(1) W(1) Cons.prems(2) by (subst parse_args.simps) (simp del: spaced_simps)
  moreover have "words_toks (x # ws) @ ts = w # redirs_toks rs @ ?rest" using x(1) by (simp add: words_toks_def)
  ultimately show ?case using W(2,3) R1(2) x(1) by simp
qed

lemma symbol_ok: "token_ok [38]" "token_ok [59]" "token_ok [124]" "token_ok [40]" "token_ok [41]"
  by (simp_all add: token_ok_def)

lemma backs_ok: "list_all token_ok (replicate k [38])"
  using symbol_ok by (simp add: list_all_iff)

lemma parse_backs_spaced:
  assumes "list_all token_ok ts" "ts = [] \<or> hd (hd ts) \<noteq> 38"
  shows "parse_backs c (spaced sp (replicate k [38] @ ts)) = ((BACK ^^ k) c, spaced sp ts)"
proof (induction k arbitrary: c)
  case 0
  then show ?case using assms by (subst parse_backs.simps) (auto simp: peek_spaced)
next
  case (Suc k)
  have ok: "list_all token_ok (replicate k [38] @ ts)" "token_ok [38]" using assms(1) backs_ok symbol_ok by simp_all
  have p: "peek [38] (spaced sp ([38] # replicate k [38] @ ts)) = (True, spaced sp ([38] # replicate k [38] @ ts))"
    using ok by (subst peek_spaced) auto
  have "parse_backs c (spaced sp ([38] # replicate k [38] @ ts)) = ((BACK ^^ k) (BACK c), spaced sp ts)"
    using p gettoken_spaced [OF ok(2,1)] Suc by (subst parse_backs.simps) (simp del: spaced_simps)
  then show ?case by (simp add: funpow_swap1)
qed

lemma toks_ok:
  "line_ok l \<Longrightarrow> list_all token_ok (line_toks l)" "pipe_ok p \<Longrightarrow> list_all token_ok (pipe_toks p)" "atom_ok a \<Longrightarrow> list_all token_ok (atom_toks a)"
  by (induction l and p and a) (use redirs_toks_ok words_toks_ok backs_ok symbol_ok in auto)

lemma text_redirs_cmd: "map_cmd span_text (redirs_cmd c R) = redirs_cmd (map_cmd span_text c) (map text_redir R)"
  by (induction R arbitrary: c) (auto simp: text_redir_def split: prod.splits)

lemma text_backs: "map_cmd f ((BACK ^^ k) c) = (BACK ^^ k) (map_cmd f c)"
  by (induction k) auto

text \<open>A simple command does not begin with a parenthesis.\<close>

lemma simple_hd: "stops ts \<Longrightarrow> redirs_ok rs \<Longrightarrow> list_all (\<lambda>(w, rs). word_ok w \<and> redirs_ok rs) ws \<Longrightarrow>
    redirs_toks rs @ words_toks ws @ ts = [] \<or> hd (hd (redirs_toks rs @ words_toks ws @ ts)) \<noteq> 40"
  using word_hd by (cases rs; cases ws) (fastforce simp: redirs_toks_def words_toks_def redirs_ok_def stops_def symbols_def)+

lemma words_hd: "stops ts \<Longrightarrow> list_all (\<lambda>(w, rs). word_ok w \<and> redirs_ok rs) ws \<Longrightarrow>
    words_toks ws @ ts = [] \<or> hd (hd (words_toks ws @ ts)) \<notin> {60, 62}"
  using word_hd by (cases ws) (fastforce simp: words_toks_def stops_def symbols_def)+

lemma parse_simple:
  assumes "atom_ok (SSimple rs ws)" "stops ts"
  shows "\<exists>c. parseexec (spaced sp (atom_toks (SSimple rs ws) @ ts)) = Ret (c, spaced sp ts) \<and> map_cmd span_text c = atom_tree (SSimple rs ws)"
proof -
  have ok: "redirs_ok rs" "list_all (\<lambda>(w, rs). word_ok w \<and> redirs_ok rs) ws" "length ws < MAXARGS" "list_all token_ok (words_toks ws @ ts)"
    using assms words_toks_ok by (auto simp: stops_def)
  let ?rest = "words_toks ws @ ts"
  obtain R where R: "parseredirs (spaced sp (redirs_toks rs @ ?rest)) = Ret (R, spaced sp ?rest)" "map text_redir R = map sredir_cmd rs"
    using parseredirs_spaced [OF ok(1,4) words_hd [OF assms(2) ok(2)]] by blast
  obtain W R2 where W: "parse_args 0 (spaced sp ?rest) = Ret (W, R2, spaced sp ts)" "map span_text W = map fst ws"
    "map text_redir R2 = map sredir_cmd (concat (map snd ws))" using parse_args_spaced [OF ok(2) assms(2), of 0] ok(3) by auto
  have "peek [40] (spaced sp (redirs_toks rs @ ?rest)) = (False, spaced sp (redirs_toks rs @ ?rest))"
    using simple_hd [OF assms(2) ok(1,2)] redirs_toks_ok [OF ok(1)] ok(4) by (subst peek_spaced) auto
  then have "parseexec (spaced sp (redirs_toks rs @ ?rest)) = Ret (redirs_cmd (EXEC W) (R @ R2), spaced sp ts)"
    using R(1) W(1) by (subst parseexec.simps) (simp del: spaced_simps)
  then show ?thesis using R(2) W(2,3) by (simp add: text_redirs_cmd)
qed

lemma peek_symbol: "list_all token_ok ts \<Longrightarrow> token_ok [c] \<Longrightarrow> peek [c] (spaced sp ([c] # ts)) = (True, spaced sp ([c] # ts))"
  by (subst peek_spaced) auto

lemma gettoken_symbol: "list_all token_ok ts \<Longrightarrow> token_ok [c] \<Longrightarrow> snd (snd (gettoken (spaced sp ([c] # ts)))) = spaced sp ts"
  using gettoken_spaced [of "[c]" ts] by (simp del: spaced_simps)

lemma parse_spaced:
  "line_ok l \<Longrightarrow> list_all token_ok ts \<Longrightarrow> ts = [] \<or> hd (hd ts) = 41 \<Longrightarrow>
    \<exists>c. parseline (spaced sp (line_toks l @ ts)) = Ret (c, spaced sp ts) \<and> map_cmd span_text c = line_tree l"
  "pipe_ok p \<Longrightarrow> list_all token_ok ts \<Longrightarrow> ts = [] \<or> hd (hd ts) \<in> {41, 38, 59} \<Longrightarrow>
    \<exists>c. parsepipe (spaced sp (pipe_toks p @ ts)) = Ret (c, spaced sp ts) \<and> map_cmd span_text c = pipe_tree p"
  "atom_ok a \<Longrightarrow> stops ts \<Longrightarrow>
    \<exists>c. parseexec (spaced sp (atom_toks a @ ts)) = Ret (c, spaced sp ts) \<and> map_cmd span_text c = atom_tree a"
proof (induction l and p and a arbitrary: ts and ts and ts)
  case (SLast p k)
  let ?r = "replicate k [38] @ ts"
  have "list_all token_ok ?r" "?r = [] \<or> hd (hd ?r) \<in> {41, 38, 59}" using SLast.prems backs_ok by (auto simp: hd_append)
  then obtain c where c: "parsepipe (spaced sp (pipe_toks p @ ?r)) = Ret (c, spaced sp ?r)" "map_cmd span_text c = pipe_tree p"
    using SLast.IH [of ?r] SLast.prems(1) by auto
  have "parse_backs c (spaced sp ?r) = ((BACK ^^ k) c, spaced sp ts)" using SLast.prems by (intro parse_backs_spaced) auto
  moreover have "peek [59] (spaced sp ts) = (False, spaced sp ts)" using SLast.prems by (subst peek_spaced) auto
  ultimately have "parseline (spaced sp (pipe_toks p @ ?r)) = Ret ((BACK ^^ k) c, spaced sp ts)"
    using c(1) by (subst parseline.simps) (simp del: spaced_simps)
  then show ?case using c(2) by (simp add: text_backs)
next
  case (SSeq p k l)
  let ?s = "[59] # line_toks l @ ts" let ?r = "replicate k [38] @ ?s"
  have ok: "list_all token_ok (line_toks l @ ts)" "list_all token_ok ?s" using SSeq.prems toks_ok(1) symbol_ok by auto
  then have "list_all token_ok ?r" "?r = [] \<or> hd (hd ?r) \<in> {41, 38, 59}" using backs_ok by (auto simp: hd_append)
  then obtain c where c: "parsepipe (spaced sp (pipe_toks p @ ?r)) = Ret (c, spaced sp ?r)" "map_cmd span_text c = pipe_tree p"
    using SSeq.IH(1) [of ?r] SSeq.prems(1) by auto
  obtain d where d: "parseline (spaced sp (line_toks l @ ts)) = Ret (d, spaced sp ts)" "map_cmd span_text d = line_tree l"
    using SSeq.IH(2) [of ts] SSeq.prems by auto
  have "parse_backs c (spaced sp ?r) = ((BACK ^^ k) c, spaced sp ?s)" using ok by (intro parse_backs_spaced) auto
  then have "parseline (spaced sp (pipe_toks p @ ?r)) = Ret (LIST ((BACK ^^ k) c) d, spaced sp ts)"
    using c(1) d(1) peek_symbol [OF ok(1) symbol_ok(2)] gettoken_symbol [OF ok(1) symbol_ok(2)]
    by (subst parseline.simps) (simp del: spaced_simps add: case_prod_beta)
  then show ?case using c(2) d(2) by (simp add: text_backs)
next
  case (SOne a)
  then have "stops ts" by (auto simp: stops_def)
  then obtain c where c: "parseexec (spaced sp (atom_toks a @ ts)) = Ret (c, spaced sp ts)" "map_cmd span_text c = atom_tree a"
    using SOne by auto
  have "peek [124] (spaced sp ts) = (False, spaced sp ts)" using SOne.prems by (subst peek_spaced) auto
  then have "parsepipe (spaced sp (atom_toks a @ ts)) = Ret (c, spaced sp ts)"
    using c(1) by (subst parsepipe.simps) (simp del: spaced_simps)
  then show ?case using c(2) by simp
next
  case (SPipe a p)
  let ?s = "[124] # pipe_toks p @ ts"
  have ok: "list_all token_ok (pipe_toks p @ ts)" using SPipe.prems toks_ok(2) by auto
  then have "stops ?s" using symbol_ok by (simp add: stops_def)
  then obtain c where c: "parseexec (spaced sp (atom_toks a @ ?s)) = Ret (c, spaced sp ?s)" "map_cmd span_text c = atom_tree a"
    using SPipe.IH(1) [of ?s] SPipe.prems(1) by auto
  obtain d where d: "parsepipe (spaced sp (pipe_toks p @ ts)) = Ret (d, spaced sp ts)" "map_cmd span_text d = pipe_tree p"
    using SPipe.IH(2) [of ts] SPipe.prems by auto
  have "parsepipe (spaced sp (atom_toks a @ ?s)) = Ret (PIPE c d, spaced sp ts)"
    using c(1) d(1) peek_symbol [OF ok symbol_ok(3)] gettoken_symbol [OF ok symbol_ok(3)]
    by (subst parsepipe.simps) (simp del: spaced_simps add: case_prod_beta)
  then show ?case using c(2) d(2) by simp
next
  case (SSimple rs ws)
  then show ?case using parse_simple by blast
next
  case (SBlock l rs)
  let ?r = "redirs_toks rs @ ts" let ?s = "[41] # ?r"
  have ts: "list_all token_ok ts" "ts = [] \<or> hd (hd ts) \<notin> {60, 62}" using SBlock.prems(2) by (auto simp: stops_def)
  have ok: "list_all token_ok ?r" "list_all token_ok ?s" "list_all token_ok (line_toks l @ ?s)"
    using SBlock.prems(1) toks_ok(1) redirs_toks_ok ts symbol_ok by auto
  obtain c where c: "parseline (spaced sp (line_toks l @ ?s)) = Ret (c, spaced sp ?s)" "map_cmd span_text c = line_tree l"
    using SBlock.IH [of ?s] SBlock.prems(1) ok(2) by auto
  obtain R where R: "parseredirs (spaced sp ?r) = Ret (R, spaced sp ts)" "map text_redir R = map sredir_cmd rs"
    using parseredirs_spaced [of rs ts] SBlock.prems(1) ts by auto
  let ?b = "[40] # line_toks l @ ?s"
  note p = peek_symbol [OF ok(3) symbol_ok(4)] and g = gettoken_symbol [OF ok(3) symbol_ok(4)]
  have "parseblock (spaced sp ?b) = Ret (redirs_cmd c R, spaced sp ts)"
    using p g c(1) R(1) peek_symbol [OF ok(1) symbol_ok(5)] gettoken_symbol [OF ok(1) symbol_ok(5)]
    by (subst parseblock.simps) (simp del: spaced_simps add: case_prod_beta)
  then have "parseexec (spaced sp ?b) = Ret (redirs_cmd c R, spaced sp ts)"
    using p by (subst parseexec.simps) (simp del: spaced_simps)
  then show ?case using c(2) R(2) by (simp add: text_redirs_cmd)
qed

lemma spaced_nonzero: "list_all token_ok ts \<Longrightarrow> 0 \<notin> set (spaced sp ts)"
proof (induction ts)
  case (Cons t ts)
  have "0 \<notin> set t" using Cons.prems by (auto simp: token_ok_def word_ok_def)
  moreover have "0 \<notin> set sp" using blank(2) by (auto simp: whitespace_def)
  ultimately show ?case using Cons by simp
qed simp

lemma parsecmd_spaced:
  assumes "line_ok l"
  shows "\<exists>c buf. parsecmd (spaced sp (line_toks l)) = Ret (c, buf) \<and> map_cmd (arg_string (spaced sp (line_toks l)) buf) c = line_tree l"
proof -
  let ?s = "spaced sp (line_toks l)"
  obtain c where c: "parseline ?s = Ret (c, [])" "map_cmd span_text c = line_tree l"
    using parse_spaced(1) [OF assms, of "[]"] by auto
  then have p: "parsecmd ?s = Ret (c, nulterminate (length ?s) c (?s @ [0]))" by (simp add: parsecmd_def peek_def)
  show ?thesis using p parsecmd_words [OF spaced_nonzero [OF toks_ok(1) [OF assms]] p] c(2) by auto
qed

end

interpretation blank: separator "[32]"
  by unfold_locales (simp_all add: whitespace_def)



section \<open>The parser ends\<close>

definition parse_errors :: "string set" where
  "parse_errors = {''missing file for redirection'', ''syntax'', ''too many args'', ''syntax - missing )''}"

definition ends :: "'b outcome \<Rightarrow> bool" where
  "ends r \<longleftrightarrow> (case r of Ret _ \<Rightarrow> True | Panic m \<Rightarrow> m \<in> parse_errors | _ \<Rightarrow> False)"

lemma ends_bind: "ends r \<Longrightarrow> (\<And>x. r = Ret x \<Longrightarrow> ends (f x)) \<Longrightarrow> ends (obind r f)"
  by (cases r) (auto simp: ends_def)

lemma ends_Ret [simp]: "ends (Ret x)"
  by (simp add: ends_def)

lemma ends_Panic [simp]: "ends (Panic m) \<longleftrightarrow> m \<in> parse_errors"
  by (simp add: ends_def)

lemma ends_parseredirs: "ends (parseredirs ps)"
proof (induction ps rule: parseredirs.induct)
  case (1 ps)
  then show ?case
    by (subst parseredirs.simps) (auto split: prod.splits simp: parse_errors_def intro!: ends_bind)
qed

lemma ends_parse_args: "ends (parse_args argc ps)"
proof (induction argc ps rule: parse_args.induct)
  case (1 argc ps)
  then show ?case
    by (subst parse_args.simps) (auto split: prod.splits simp: parse_errors_def intro!: ends_bind ends_parseredirs)
qed

lemma peek_again: "peek toks ps = (True, s) \<Longrightarrow> fst (peek toks s)"
  using peek_length(2) by fastforce

lemma ends_parse: "ends (parseline ps)" "ends (parsepipe ps)" "ends (parseexec ps)" "fst (peek [40] ps) \<Longrightarrow> ends (parseblock ps)"
proof (induction ps and ps and ps and ps rule: parseline_parsepipe_parseexec_parseblock.induct)
  case (1 ps)
  then show ?case by (subst parseline.simps) (auto split: prod.splits intro!: ends_bind)
next
  case (2 ps)
  then show ?case by (subst parsepipe.simps) (auto split: prod.splits intro!: ends_bind)
next
  case (3 ps)
  obtain b ps1 where p: "peek [40] ps = (b, ps1)" by fastforce
  then have "b \<Longrightarrow> ends (parseblock ps1)" using 3 [OF p [symmetric]] peek_again [of "[40]" ps ps1] by simp
  then show ?case using p
    by (subst parseexec.simps) (auto split: prod.splits intro!: ends_bind ends_parseredirs ends_parse_args)
next
  case (4 ps)
  then show ?case
    by (subst parseblock.simps) (auto split: prod.splits simp: parse_errors_def intro!: ends_bind ends_parseredirs)
qed

text \<open>
  C34: The parser ends on every line: it returns a command or stops the shell with one of its four messages; the test at the
  start of \<open>parseblock\<close> never fails.
\<close>

theorem parsecmd_ends:
  "(\<exists>c buf. parsecmd s = Ret (c, buf) \<and> length buf = Suc (length s)) \<or> (\<exists>m \<in> parse_errors. parsecmd s = Panic m)"
proof -
  have "ends (parsecmd s)"
    unfolding parsecmd_def using ends_parse(1) by (auto intro!: ends_bind split: prod.splits simp: parse_errors_def)
  moreover have "length (nulterminate (length s) c (s @ [0])) = Suc (length s)" for c
    using nulterminate_zeroed [of "length s" c "s @ [0]"] by (simp add: zeroed_def)
  ultimately show ?thesis
    by (cases "parsecmd s") (auto simp: ends_def parsecmd_def split: prod.splits if_splits)
qed

end
