(* ===== verification/ShRun.thy ===== *)
theory ShRun
  imports Sh
begin

text \<open>
  How the shell runs a command (\<^verbatim>\<open>runcmd\<close> of \<^verbatim>\<open>sh.c\<close>): the system calls it makes, as a tree that branches where a call
  returns a value or creates a process, and the descriptors with which each program of the command is started.
\<close>

section \<open>The calls of the shell\<close>

datatype prog =
    Exit
  | Exec "str list" prog
  | Message string prog
  | Close nat prog
  | Open str int "int \<Rightarrow> prog"
  | MkPipe "(nat \<times> nat) option \<Rightarrow> prog"
  | Dup nat prog
  | Fork prog prog
  | Wait prog

text \<open>
  \<^verbatim>\<open>exec\<close> returns only when it fails.  \<^verbatim>\<open>fork1\<close> stops the shell when \<^verbatim>\<open>fork\<close> fails, so that a process that goes on has
  its child.
\<close>

primrec runcmd :: "str cmd \<Rightarrow> prog" where
  "runcmd (EXEC ws) = (if ws = [] then Exit else Exec ws (Message ''exec failed'' Exit))"
| "runcmd (REDIR c f mode fd) =
     Close (nat fd) (Open f mode (\<lambda>r. if r < 0 then Message ''open failed'' Exit else runcmd c))"
| "runcmd (LIST l r) = Fork (runcmd l) (Wait (runcmd r))"
| "runcmd (PIPE l r) =
     MkPipe (\<lambda>p. case p of
       None \<Rightarrow> Message ''pipe'' Exit
     | Some (p0, p1) \<Rightarrow>
         Fork (Close 1 (Dup p1 (Close p0 (Close p1 (runcmd l)))))
          (Fork (Close 0 (Dup p0 (Close p0 (Close p1 (runcmd r)))))
            (Close p0 (Close p1 (Wait (Wait Exit))))))"
| "runcmd (BACK c) = Fork (runcmd c) Exit"

section \<open>The programs that are started\<close>

text \<open>A table of descriptors; a call that allocates one takes the lowest that is free, as \<^verbatim>\<open>fdalloc\<close> does.\<close>

datatype obj = Inherited nat | FileObj str int | ReadEnd nat | WriteEnd nat

type_synonym fdtable = "nat \<Rightarrow> obj option"

definition lowest :: "fdtable \<Rightarrow> nat option" where
  "lowest t = List.find (\<lambda>i. t i = None) [0 ..< NOFILE]"

definition install :: "obj \<Rightarrow> fdtable \<Rightarrow> (nat \<times> fdtable) option" where
  "install x t = map_option (\<lambda>i. (i, t(i := Some x))) (lowest t)"

text \<open>
  The programs that the processes of a tree start, each with its arguments and its descriptors; \<open>n\<close> numbers the pipes.
  \<open>ok\<close> tells which files can be opened.
\<close>

primrec started :: "(str \<Rightarrow> int \<Rightarrow> bool) \<Rightarrow> prog \<Rightarrow> nat \<Rightarrow> fdtable \<Rightarrow> (str list \<times> fdtable) list \<times> nat" where
  "started ok Exit n t = ([], n)"
| "started ok (Exec ws p) n t = ([(ws, t)], n)"
| "started ok (Message m p) n t = started ok p n t"
| "started ok (Close fd p) n t = started ok p n (t(fd := None))"
| "started ok (Open f mode k) n t =
     (case install (FileObj f mode) t of
        None \<Rightarrow> started ok (k (-1)) n t
      | Some (i, t') \<Rightarrow> if ok f mode then started ok (k (int i)) n t' else started ok (k (-1)) n t)"
| "started ok (MkPipe k) n t =
     (case install (ReadEnd n) t of
        None \<Rightarrow> started ok (k None) n t
      | Some (i, t1) \<Rightarrow>
          (case install (WriteEnd n) t1 of
             None \<Rightarrow> started ok (k None) n t
           | Some (j, t2) \<Rightarrow> started ok (k (Some (i, j))) (Suc n) t2))"
| "started ok (Dup fd p) n t =
     (case t fd of
        None \<Rightarrow> started ok p n t
      | Some x \<Rightarrow> (case install x t of None \<Rightarrow> started ok p n t | Some (i, t') \<Rightarrow> started ok p n t'))"
| "started ok (Fork child parent) n t =
     (let (xs, n1) = started ok child n t; (ys, n2) = started ok parent n1 t in (xs @ ys, n2))"
| "started ok (Wait p) n t = started ok p n t"

text \<open>What a command means: a redirection replaces a descriptor, a pipe the output of one side and the input of the other.\<close>

primrec wired :: "str cmd \<Rightarrow> nat \<Rightarrow> fdtable \<Rightarrow> (str list \<times> fdtable) list \<times> nat" where
  "wired (EXEC ws) n t = (if ws = [] then [] else [(ws, t)], n)"
| "wired (REDIR c f mode fd) n t = wired c n (t(nat fd \<mapsto> FileObj f mode))"
| "wired (LIST l r) n t = (let (xs, n1) = wired l n t; (ys, n2) = wired r n1 t in (xs @ ys, n2))"
| "wired (PIPE l r) n t =
     (let (xs, n1) = wired l (Suc n) (t(1 \<mapsto> WriteEnd n)); (ys, n2) = wired r n1 (t(0 \<mapsto> ReadEnd n)) in (xs @ ys, n2))"
| "wired (BACK c) n t = wired c n t"

definition standard :: "fdtable \<Rightarrow> bool" where
  "standard t \<longleftrightarrow> (\<forall>i. t i = None \<longleftrightarrow> 3 \<le> i)"

primrec redirs_standard :: "(str \<Rightarrow> int \<Rightarrow> bool) \<Rightarrow> str cmd \<Rightarrow> bool" where
  "redirs_standard ok (EXEC ws) \<longleftrightarrow> True"
| "redirs_standard ok (REDIR c f mode fd) \<longleftrightarrow> (fd = 0 \<or> fd = 1) \<and> ok f mode \<and> redirs_standard ok c"
| "redirs_standard ok (LIST l r) \<longleftrightarrow> redirs_standard ok l \<and> redirs_standard ok r"
| "redirs_standard ok (PIPE l r) \<longleftrightarrow> redirs_standard ok l \<and> redirs_standard ok r"
| "redirs_standard ok (BACK c) \<longleftrightarrow> redirs_standard ok c"

lemma fds_upt: "[0 ..< NOFILE] = 0 # 1 # 2 # 3 # 4 # [5 ..< NOFILE]"
  by (simp add: NOFILE_def upt_conv_Cons)

lemma standard_slots: "standard t \<Longrightarrow> t 0 \<noteq> None \<and> t 1 \<noteq> None \<and> t 2 \<noteq> None \<and> t 3 = None \<and> t 4 = None"
  unfolding standard_def by (simp del: not_None_eq)

lemma standard_upd: "standard t \<Longrightarrow> i < 3 \<Longrightarrow> standard (t(i \<mapsto> x))"
  by (auto simp: standard_def)

lemma install_free:
  assumes "standard t"
  shows "i = 0 \<or> i = 1 \<Longrightarrow> install x (t(i := None)) = Some (i, t(i \<mapsto> x))" "install x t = Some (3, t(3 \<mapsto> x))"
    "install y (t(3 \<mapsto> x)) = Some (4, t(3 \<mapsto> x, 4 \<mapsto> y))"
    "i = 0 \<or> i = 1 \<Longrightarrow> install z (t(3 \<mapsto> x, 4 \<mapsto> y, i := None)) = Some (i, t(3 \<mapsto> x, 4 \<mapsto> y, i \<mapsto> z))"
  using standard_slots [OF assms] by (auto simp: install_def lowest_def fds_upt)

lemma close_pipe: "standard t \<Longrightarrow> i = 0 \<or> i = 1 \<Longrightarrow> (t(3 \<mapsto> x, 4 \<mapsto> y, i \<mapsto> z))(3 := None, 4 := None) = t(i \<mapsto> z)"
  using standard_slots [of t] by (auto simp: fun_eq_iff)

lemma started_wired:
  "redirs_standard ok c \<Longrightarrow> standard t \<Longrightarrow> started ok (runcmd c) n t = wired c n t"
proof (induction c arbitrary: n t)
  case (REDIR c f mode fd)
  then have "nat fd = 0 \<or> nat fd = 1" by auto
  then show ?case using REDIR install_free(1) [OF REDIR.prems(2), of "nat fd"] standard_upd [OF REDIR.prems(2), of "nat fd"] by auto
next
  case (PIPE l r)
  note st = PIPE.prems(2)
  have "standard (t(1 \<mapsto> WriteEnd n))" "standard (t(0 \<mapsto> ReadEnd n))" using standard_upd [OF st] by simp_all
  then show ?case
    using PIPE.IH PIPE.prems install_free [OF st] close_pipe [OF st] by (simp add: Let_def case_prod_beta)
qed (auto simp: Let_def case_prod_beta)

lemma redirs_standard_redirs:
  "redirs_standard (\<lambda>_ _. True) c \<Longrightarrow> redirs_standard (\<lambda>_ _. True) (redirs_cmd c (map sredir_cmd rs))"
  by (induction rs arbitrary: c) auto

lemma redirs_standard_backs: "redirs_standard ok ((BACK ^^ k) c) = redirs_standard ok c"
  by (induction k) auto

lemma redirs_standard_tree:
  "redirs_standard (\<lambda>_ _. True) (line_tree l)" "redirs_standard (\<lambda>_ _. True) (pipe_tree p)" "redirs_standard (\<lambda>_ _. True) (atom_tree a)"
  by (induction l and p and a) (simp_all add: redirs_standard_redirs redirs_standard_backs del: map_append )



end
