(* ===== verification/Umalloc.thy ===== *)
theory Umalloc
  imports Xv6_Prelude
begin

text \<open>
  The memory allocator of the user library (\<^verbatim>\<open>umalloc.c\<close>): a circular list of free blocks, sorted by address, that begins
  with an empty block in static memory.  The headers of the blocks are two functions of their address; a block of \<open>n\<close> units
  is the \<open>8 * n\<close> bytes from its header on.
\<close>

section \<open>The allocator\<close>

text \<open>\<open>base\<close> is the address of the static block and \<open>brk\<close> the size of the process, at which \<^verbatim>\<open>sbrk\<close> adds memory.\<close>

record uheap =
  hptr :: "uint \<Rightarrow> uint"
  hsize :: "uint \<Rightarrow> uint"
  freep :: uint
  base :: uint
  brk :: uint

definition hinc :: "uint \<Rightarrow> uint \<Rightarrow> uint" where
  "hinc p n = p + 8 * n"

partial_function (option) free_find :: "uheap \<Rightarrow> uint \<Rightarrow> uint \<Rightarrow> uint option" where
  "free_find s bp p =
     (if bp > p \<and> bp < hptr s p then Some p
      else if p \<ge> hptr s p \<and> (bp > p \<or> bp < hptr s p) then Some p
      else free_find s bp (hptr s p))"

definition join_upper :: "uint \<Rightarrow> uint \<Rightarrow> uheap \<Rightarrow> uheap" where
  "join_upper bp p s =
     (if hinc bp (hsize s bp) = hptr s p
      then s\<lparr>hsize := (hsize s)(bp := hsize s bp + hsize s (hptr s p)), hptr := (hptr s)(bp := hptr s (hptr s p))\<rparr>
      else s\<lparr>hptr := (hptr s)(bp := hptr s p)\<rparr>)"

definition join_lower :: "uint \<Rightarrow> uint \<Rightarrow> uheap \<Rightarrow> uheap" where
  "join_lower bp p s =
     (if hinc p (hsize s p) = bp
      then s\<lparr>hsize := (hsize s)(p := hsize s p + hsize s bp), hptr := (hptr s)(p := hptr s bp)\<rparr>
      else s\<lparr>hptr := (hptr s)(p := bp)\<rparr>)"

definition free :: "uint \<Rightarrow> uheap \<Rightarrow> uheap option" where
  "free ap s =
     (let bp = ap - 8 in
      map_option (\<lambda>p. (join_lower bp p (join_upper bp p s))\<lparr>freep := p\<rparr>) (free_find s bp (freep s)))"

text \<open>What the system call does for the allocator: it grants the bytes behind the process or refuses.\<close>

definition sbrk :: "(uint \<Rightarrow> bool) \<Rightarrow> uint \<Rightarrow> uheap \<Rightarrow> uint \<times> uheap" where
  "sbrk grant n s = (if grant (brk s + n) then (brk s, s\<lparr>brk := brk s + n\<rparr>) else (-1, s))"

definition morecore :: "(uint \<Rightarrow> bool) \<Rightarrow> uint \<Rightarrow> uheap \<Rightarrow> (uint \<times> uheap) option" where
  "morecore grant nu s =
     (let nu1 = (if nu < 4096 then 4096 else nu); (p, s1) = sbrk grant (nu1 * 8) s in
      if p = -1 then Some (0, s1)
      else map_option (\<lambda>s2. (freep s2, s2)) (free (p + 8) (s1\<lparr>hsize := (hsize s1)(p := nu1)\<rparr>)))"

definition take_block :: "uint \<Rightarrow> uint \<Rightarrow> uint \<Rightarrow> uheap \<Rightarrow> uint \<times> uheap" where
  "take_block nunits prevp p s =
     (if hsize s p = nunits
      then (p + 8, s\<lparr>hptr := (hptr s)(prevp := hptr s p), freep := prevp\<rparr>)
      else
        (let rest = hsize s p - nunits; q = hinc p rest in
         (q + 8, s\<lparr>hsize := (hsize s)(p := rest, q := nunits), freep := prevp\<rparr>)))"

partial_function (option) malloc_loop :: "(uint \<Rightarrow> bool) \<Rightarrow> uint \<Rightarrow> uint \<Rightarrow> uint \<Rightarrow> uheap \<Rightarrow> (uint \<times> uheap) option" where
  "malloc_loop grant nunits prevp p s =
     (if hsize s p \<ge> nunits then Some (take_block nunits prevp p s)
      else if p = freep s then
        Option.bind (morecore grant nunits s) (\<lambda>(q, s1).
          if q = 0 then Some (0, s1) else malloc_loop grant nunits q (hptr s1 q) s1)
      else malloc_loop grant nunits p (hptr s p) s)"

definition units :: "uint \<Rightarrow> uint" where
  "units nbytes = (nbytes + 8 - 1) div 8 + 1"

definition malloc :: "(uint \<Rightarrow> bool) \<Rightarrow> uint \<Rightarrow> uheap \<Rightarrow> (uint \<times> uheap) option" where
  "malloc grant nbytes s =
     (let s1 = (if freep s = 0
        then s\<lparr>hptr := (hptr s)(base s := base s), freep := base s, hsize := (hsize s)(base s := 0)\<rparr> else s)
      in malloc_loop grant (units nbytes) (freep s1) (hptr s1 (freep s1)) s1)"

section \<open>Circular lists\<close>

fun links :: "(uint \<Rightarrow> uint) \<Rightarrow> uint list \<Rightarrow> uint \<Rightarrow> bool" where
  "links f [] z \<longleftrightarrow> True"
| "links f [a] z \<longleftrightarrow> f a = z"
| "links f (a # b # r) z \<longleftrightarrow> f a = b \<and> links f (b # r) z"

lemma links_append: "ys \<noteq> [] \<Longrightarrow> links f (xs @ ys) z \<longleftrightarrow> links f xs (hd ys) \<and> links f ys z"
  by (induction f xs "hd ys" rule: links.induct) (auto simp: neq_Nil_conv)

lemma links_cong: "(\<And>a. a \<in> set xs \<Longrightarrow> f a = g a) \<Longrightarrow> links f xs z = links g xs z"
  by (induction f xs z rule: links.induct) auto

lemma links_at: "links f (xs @ p # ys) z \<Longrightarrow> f p = hd (ys @ [z])"
  by (cases ys) (auto simp: links_append)

text \<open>The end of a block, and blocks one behind the other with a gap between them.\<close>

definition upper :: "uheap \<Rightarrow> uint \<Rightarrow> nat" where
  "upper s b = unat b + 8 * unat (hsize s b)"

definition apart :: "uheap \<Rightarrow> uint list \<Rightarrow> bool" where
  "apart s bs \<longleftrightarrow> sorted_wrt (\<lambda>a b. upper s a < unat b) bs"

definition heap_ok :: "uheap \<Rightarrow> uint list \<Rightarrow> bool" where
  "heap_ok s bs \<longleftrightarrow> bs \<noteq> [] \<and> hd bs = base s \<and> base s \<noteq> 0 \<and> base s < brk s \<and> hsize s (base s) = 0 \<and> links (hptr s) bs (base s) \<and> apart s bs
     \<and> freep s \<in> set bs \<and> (\<forall>b \<in> set (tl bs). 0 < unat (hsize s b)) \<and> (\<forall>b \<in> set bs. upper s b \<le> unat (brk s))"

definition bytes_of :: "uheap \<Rightarrow> uint \<Rightarrow> nat set" where
  "bytes_of s b = {unat b ..< upper s b}"

definition free_bytes :: "uheap \<Rightarrow> uint list \<Rightarrow> nat set" where
  "free_bytes s bs = (\<Union>b \<in> set bs. bytes_of s b)"

section \<open>Finding the place of a block\<close>

lemma apart_sorted: "apart s bs \<Longrightarrow> sorted_wrt (<) bs"
  unfolding apart_def by (erule sorted_wrt_mono_rel [rotated]) (auto simp: upper_def word_less_nat_alt)

lemma free_find_here:
  assumes "heap_ok s (xs @ p # ys)" "p < bp" "\<forall>q \<in> set ys. bp < q" "base s < bp"
  shows "free_find s bp p = Some p"
proof -
  have n: "hptr s p = hd (ys @ [base s])" using assms(1) links_at by (auto simp: heap_ok_def)
  have "ys = [] \<Longrightarrow> base s \<le> p"
  proof -
    assume "ys = []"
    then show "base s \<le> p" using assms(1) apart_sorted [of s "xs @ [p]"] by (cases xs) (auto simp: heap_ok_def less_imp_le)
  qed
  then show ?thesis using assms n by (subst free_find.simps) (cases ys; auto)
qed

lemma free_find_below:
  assumes "heap_ok s (us @ vs @ p # ys)" "\<forall>q \<in> set (vs @ [p]). q < bp" "\<forall>q \<in> set ys. bp < q" "base s < bp"
  shows "free_find s bp (hd (vs @ [p])) = Some p"
  using assms
proof (induction vs arbitrary: us)
  case Nil
  then show ?case using free_find_here [of s us p ys bp] by simp
next
  case (Cons v vs)
  have "hptr s v = hd (vs @ [p])"
    using Cons.prems(1) links_at [of "hptr s" us v "vs @ p # ys" "base s"] by (cases vs) (auto simp: heap_ok_def)
  moreover have "free_find s bp (hd (vs @ [p])) = Some p" using Cons.IH [of "us @ [v]"] Cons.prems by simp
  moreover have "v < hd (vs @ [p])"
    using Cons.prems(1) apart_sorted [of s "us @ (v # vs) @ p # ys"] by (cases vs) (auto simp: heap_ok_def sorted_wrt_append)
  moreover have "hd (vs @ [p]) < bp" using Cons.prems(2) by (cases vs) auto
  ultimately show ?case by (subst free_find.simps) auto
qed

lemma free_find_above:
  assumes "heap_ok s (xs @ p # us @ vs)" "\<forall>q \<in> set (xs @ [p]). q < bp" "\<forall>q \<in> set (us @ vs). bp < q" "base s < bp" "vs \<noteq> []"
  shows "free_find s bp (hd vs) = Some p"
  using assms
proof (induction vs arbitrary: us)
  case step: (Cons v vs)
  have n: "hptr s v = hd (vs @ [base s])"
    using step.prems(1) links_at [of "hptr s" "xs @ p # us" v vs "base s"] by (auto simp: heap_ok_def)
  have v: "bp < v" using step.prems(3) by simp
  show ?case
  proof (cases vs)
    case Nil
    have "hd (xs @ [p]) = base s" using step.prems(1) by (cases xs) (auto simp: heap_ok_def)
    then have "free_find s bp (base s) = Some p"
      using free_find_below [of s "[]" xs p "us @ v # vs" bp] step.prems by simp
    then show ?thesis using n v Nil step.prems(4) by (subst free_find.simps) auto
  next
    case (Cons w ws)
    have "v < w" using step.prems(1) Cons apart_sorted [of s "xs @ p # us @ v # vs"] by (auto simp: heap_ok_def sorted_wrt_append)
    moreover have "free_find s bp w = Some p" using step.IH [of "us @ [v]"] step.prems Cons by simp
    ultimately show ?thesis using n v Cons by (subst free_find.simps) auto
  qed
qed simp

lemma free_find_pred:
  assumes "heap_ok s (xs @ p # ys)" "\<forall>q \<in> set (xs @ [p]). q < bp" "\<forall>q \<in> set ys. bp < q" "base s < bp" "q \<in> set (xs @ p # ys)"
  shows "free_find s bp q = Some p"
proof (cases "q \<in> set ys")
  case True
  then obtain us vs where "ys = us @ q # vs" by (meson split_list)
  then show ?thesis using free_find_above [of s xs p us "q # vs" bp] assms by simp
next
  case False
  then have "q \<in> set (xs @ [p])" using assms(5) by auto
  then obtain us vs where v: "xs @ [p] = us @ q # vs" by (meson split_list)
  show ?thesis
  proof (cases "vs = []")
    case True
    then show ?thesis using v free_find_here [of s xs p ys bp] assms by auto
  next
    case False
    then obtain ws where "vs = ws @ [p]" "xs = us @ q # ws" using v by (cases vs rule: rev_cases) auto
    then show ?thesis using free_find_below [of s us "q # ws" p ys bp] assms by simp
  qed
qed

section \<open>Joining blocks\<close>

text \<open>A block that is not free: it lies behind \<open>p\<close>, the block before it in the list, and before the blocks \<open>ys\<close> that follow.\<close>

definition between :: "uheap \<Rightarrow> uint \<Rightarrow> uint \<Rightarrow> uint list \<Rightarrow> bool" where
  "between s p bp ys \<longleftrightarrow> 0 < unat (hsize s bp) \<and> p < bp \<and> upper s p \<le> unat bp \<and> upper s bp \<le> unat (brk s) \<and> (\<forall>y \<in> set ys. upper s bp \<le> unat y)"

lemma unat_lt: "unat (x :: uint) < 2 ^ 32"
  using unsigned_less [of x, where ?'a = nat] by simp

lemma hinc_upper: "upper s b \<le> unat (brk s) \<Longrightarrow> unat (hinc b (hsize s b)) = upper s b"
proof -
  assume "upper s b \<le> unat (brk s)"
  then have b: "unat b + 8 * unat (hsize s b) < 2 ^ 32" using unat_lt [of "brk s"] by (simp add: upper_def)
  then have "unat (8 * hsize s b) = 8 * unat (hsize s b)" by (simp add: unat_word_ariths)
  then show ?thesis using b unat_add_uint [of b "8 * hsize s b"] by (simp add: hinc_def upper_def)
qed

lemma hinc_eq: "upper s b \<le> unat (brk s) \<Longrightarrow> hinc b (hsize s b) = y \<longleftrightarrow> upper s b = unat y"
  using hinc_upper [of s b] by (metis unsigned_word_eqI)

lemma unat_size_add: "8 * (unat x + unat y) < 2 ^ 32 \<Longrightarrow> unat (x + y) = unat x + unat (y :: uint)"
  by (rule unat_add_uint) simp

text \<open>The part of the list behind \<open>p\<close> after a block has been joined with the one above it.\<close>

definition joined :: "uheap \<Rightarrow> uint \<Rightarrow> uint list \<Rightarrow> uheap \<Rightarrow> uint list \<Rightarrow> bool" where
  "joined s bp ys s1 zs \<longleftrightarrow> s1 = s\<lparr>hptr := (hptr s)(bp := hd (zs @ [base s])), hsize := (hsize s)(bp := hsize s1 bp)\<rparr>
     \<and> set zs \<subseteq> set ys \<and> links (hptr s) zs (base s) \<and> apart s zs \<and> (\<forall>z \<in> set zs. upper s1 bp < unat z) \<and> 0 < unat (hsize s1 bp)
     \<and> upper s1 bp \<le> unat (brk s) \<and> bytes_of s1 bp \<union> free_bytes s zs = bytes_of s bp \<union> free_bytes s ys"

lemma links_tl: "links f (xs @ ys) z \<Longrightarrow> links f ys z"
  by (cases ys) (auto simp: links_append)

lemma apart_Nil [simp]: "apart s []"
  by (simp add: apart_def)

lemma apart_Cons: "apart s (a # bs) \<longleftrightarrow> (\<forall>b \<in> set bs. upper s a < unat b) \<and> apart s bs"
  by (simp add: apart_def)

lemma apart_append: "apart s (xs @ ys) \<longleftrightarrow> apart s xs \<and> apart s ys \<and> (\<forall>x \<in> set xs. \<forall>y \<in> set ys. upper s x < unat y)"
  by (auto simp: apart_def sorted_wrt_append)

lemma base_smallest: "heap_ok s bs \<Longrightarrow> b \<in> set bs \<Longrightarrow> base s \<le> b"
  using apart_sorted [of s bs] by (cases bs) (auto simp: heap_ok_def less_imp_le)

lemma join_upper_joined:
  assumes "heap_ok s (xs @ p # ys)" "between s p bp ys"
  shows "\<exists>zs. joined s bp ys (join_upper bp p s) zs"
proof -
  let ?s1 = "join_upper bp p s"
  have n: "hptr s p = hd (ys @ [base s])" using assms(1) links_at by (auto simp: heap_ok_def)
  have up: "upper s bp \<le> unat (brk s)" "0 < unat (hsize s bp)" "p < bp" using assms(2) by (auto simp: between_def)
  have ys: "links (hptr s) ys (base s)" "apart s ys"
    using assms(1) links_tl [of _ "xs @ [p]" ys] by (auto simp: heap_ok_def apart_append apart_Cons)
  show ?thesis
  proof (cases "ys \<noteq> [] \<and> upper s bp = unat (hd ys)")
    case True
    then obtain y zs where y: "ys = y # zs" "upper s bp = unat y" by (cases ys) auto
    have yok: "upper s y \<le> unat (brk s)" "0 < unat (hsize s y)" "y \<noteq> bp"
      using assms(1) y up by (auto simp: heap_ok_def upper_def split: list.splits) (cases xs; auto)+
    have "hinc bp (hsize s bp) = hptr s p" using n y hinc_eq [OF up(1)] by simp
    then have s1: "?s1 = s\<lparr>hsize := (hsize s)(bp := hsize s bp + hsize s y), hptr := (hptr s)(bp := hptr s y)\<rparr>"
      using n y by (simp add: join_upper_def)
    have "hptr s y = hd (zs @ [base s])" using ys(1) y(1) links_at [of _ "[]" y zs] by auto
    moreover have sz: "unat (hsize s bp + hsize s y) = unat (hsize s bp) + unat (hsize s y)"
      using yok(1) y(2) unat_lt [of "brk s"] by (intro unat_size_add) (simp add: upper_def)
    then have u: "upper ?s1 bp = upper s y" using y(2) by (simp add: s1 upper_def)
    moreover have "bytes_of s bp \<union> bytes_of s y = bytes_of ?s1 bp"
      using y(2) u by (auto simp: bytes_of_def upper_def)
    ultimately have "joined s bp ys ?s1 zs"
      using y ys yok up sz links_tl [of "hptr s" "[y]" zs "base s"] unfolding joined_def
      by (auto simp: s1 apart_Cons free_bytes_def)
    then show ?thesis by blast
  next
    case False
    have "hinc bp (hsize s bp) \<noteq> hptr s p"
    proof (cases ys)
      case Nil
      have "base s < bp" using base_smallest [OF assms(1), of p] up(3) by auto
      then have "unat (base s) < upper s bp" by (simp add: upper_def word_less_nat_alt)
      then show ?thesis using n Nil hinc_eq [OF up(1)] by auto
    qed (use False n hinc_eq [OF up(1)] in auto)
    then have s1: "?s1 = s\<lparr>hptr := (hptr s)(bp := hd (ys @ [base s]))\<rparr>" using n by (simp add: join_upper_def)
    have "\<forall>z \<in> set ys. upper s bp < unat z"
    proof (cases ys)
      case (Cons y zs)
      then have "upper s bp < unat y" using False assms(2) by (auto simp: between_def le_less)
      then show ?thesis using ys(2) Cons by (auto simp: apart_Cons upper_def intro: less_trans le_less_trans)
    qed simp
    then have "joined s bp ys ?s1 ys" using ys up unfolding joined_def by (auto simp: s1 upper_def bytes_of_def)
    then show ?thesis by blast
  qed
qed

lemma links_relink:
  assumes "links f (xs @ p # ys) z" "links f zs z" "p \<notin> set xs" "p \<notin> set zs"
  shows "links (f(p := hd (zs @ [z]))) (xs @ p # zs) z"
proof -
  let ?f = "f(p := hd (zs @ [z]))"
  have "links ?f xs p = links f xs p" using assms(3) by (intro links_cong) auto
  then have "links ?f xs p" using assms(1) by (simp add: links_append)
  moreover have "links ?f zs z = links f zs z" using assms(4) by (intro links_cong) auto
  then have "links ?f zs z" using assms(2) by simp
  then have "links ?f (p # zs) z" by (cases zs) auto
  ultimately show ?thesis by (simp add: links_append)
qed

text \<open>Only the headers of the blocks of a list matter to it.\<close>

lemma upper_cong: "hsize s b = hsize s' b \<Longrightarrow> upper s b = upper s' b"
  by (simp add: upper_def)

lemma apart_cong: "(\<And>b. b \<in> set bs \<Longrightarrow> hsize s b = hsize s' b) \<Longrightarrow> apart s bs = apart s' bs"
  by (induction bs) (auto simp: apart_Cons upper_cong [of s _ s'])

lemma free_bytes_list: "free_bytes s (xs @ ys) = free_bytes s xs \<union> free_bytes s ys" "free_bytes s (b # xs) = bytes_of s b \<union> free_bytes s xs"
  by (auto simp: free_bytes_def)

lemma free_bytes_cong: "(\<And>b. b \<in> set bs \<Longrightarrow> hsize s b = hsize s' b) \<Longrightarrow> free_bytes s bs = free_bytes s' bs"
  by (auto simp: free_bytes_def bytes_of_def upper_cong [of s _ s'])

text \<open>A list in which the block \<open>p\<close> has got a new size and new blocks behind it.\<close>

lemma heap_ok_replace:
  assumes "heap_ok s (xs @ p # ys)"
    and "base s' = base s" "brk s' = brk s" "freep s' \<in> set (xs @ p # zs)"
    and "\<And>b. b \<in> set xs \<Longrightarrow> hptr s' b = hptr s b \<and> hsize s' b = hsize s b"
    and "links (hptr s') (p # zs) (base s)" "apart s' (p # zs)" "\<forall>b \<in> set (p # zs). upper s' b \<le> unat (brk s)"
    and "\<forall>b \<in> set zs. 0 < unat (hsize s' b)" "p = base s \<Longrightarrow> hsize s' p = 0" "p \<noteq> base s \<Longrightarrow> 0 < unat (hsize s' p)"
    and "\<forall>z \<in> set zs. p < z"
  shows "heap_ok s' (xs @ p # zs)"
proof -
  have ok: "links (hptr s) (xs @ p # ys) (base s)" "apart s (xs @ p # ys)" "hd (xs @ [p]) = base s"
    using assms(1) by (auto simp: heap_ok_def hd_append)
  have "links (hptr s') xs p = links (hptr s) xs p" using assms(5) by (intro links_cong) auto
  then have l: "links (hptr s') (xs @ p # zs) (base s)" using ok(1) assms(6) by (simp add: links_append)
  have up: "upper s' b = upper s b" if "b \<in> set xs" for b using assms(5) [OF that] by (simp add: upper_def)
  have "apart s' xs = apart s xs" using assms(5) by (intro apart_cong) auto
  moreover have "\<forall>x \<in> set xs. upper s' x < unat p" using ok(2) up by (simp add: apart_append)
  moreover have "\<forall>z \<in> set zs. unat p < unat z" using assms(12) by (auto simp: word_less_nat_alt)
  ultimately have a: "apart s' (xs @ p # zs)" using ok(2) assms(7) by (auto simp: apart_append intro: less_trans)
  have "\<forall>b \<in> set xs. upper s' b \<le> unat (brk s)" using assms(1) up by (simp add: heap_ok_def)
  moreover have "hd (xs @ p # zs) = base s" using ok(3) by (cases xs) auto
  moreover have "hsize s' (base s) = 0"
    using assms(1,5,10) ok(3) by (cases xs) (auto simp: heap_ok_def)
  moreover have "\<forall>b \<in> set (tl (xs @ p # zs)). 0 < unat (hsize s' b)"
  proof (cases xs)
    case (Cons x xs')
    then have "p \<noteq> base s" using apart_sorted [OF ok(2)] ok(3) by auto
    then show ?thesis using Cons assms(1,5,9,11) by (auto simp: heap_ok_def)
  qed (use assms(9) in auto)
  ultimately show ?thesis using l a assms by (auto simp: heap_ok_def)
qed

lemma join_lower_ok:
  assumes "heap_ok s (xs @ p # ys)" "between s p bp ys" "joined s bp ys s1 zs"
  shows "\<exists>bs. heap_ok ((join_lower bp p s1)\<lparr>freep := p\<rparr>) bs
    \<and> free_bytes (join_lower bp p s1) bs = free_bytes s (xs @ p # ys) \<union> bytes_of s bp \<and> p \<in> set bs"
proof -
  let ?s2 = "join_lower bp p s1"
  have ok: "links (hptr s) (xs @ p # ys) (base s)" "apart s (xs @ p # ys)" "hd (xs @ [p]) = base s" "base s \<noteq> 0" "hsize s (base s) = 0"
    "\<forall>b \<in> set (xs @ p # ys). upper s b \<le> unat (brk s)" "\<forall>b \<in> set (tl (xs @ p # ys)). 0 < unat (hsize s b)"
    using assms(1) by (auto simp: heap_ok_def hd_append)
  have sorted: "sorted_wrt (<) (xs @ p # ys)" using ok(2) by (rule apart_sorted)
  have bp: "p < bp" "upper s p \<le> unat bp" "\<forall>y \<in> set ys. bp < y" "\<forall>x \<in> set xs. x < bp"
    using assms(2) sorted by (auto simp: between_def sorted_wrt_append upper_def word_less_nat_alt)
  have j: "s1 = s\<lparr>hptr := (hptr s)(bp := hd (zs @ [base s])), hsize := (hsize s)(bp := hsize s1 bp)\<rparr>" "set zs \<subseteq> set ys"
    "links (hptr s) zs (base s)" "apart s zs" "\<forall>z \<in> set zs. upper s1 bp < unat z" "0 < unat (hsize s1 bp)" "upper s1 bp \<le> unat (brk s)"
    "bytes_of s1 bp \<union> free_bytes s zs = bytes_of s bp \<union> free_bytes s ys"
    using assms(3) by (auto simp: joined_def)
  have f: "hptr s1 = (hptr s)(bp := hd (zs @ [base s]))" "hsize s1 = (hsize s)(bp := hsize s1 bp)" "base s1 = base s" "brk s1 = brk s"
    using arg_cong [OF j(1), of hptr] arg_cong [OF j(1), of hsize] arg_cong [OF j(1), of base] arg_cong [OF j(1), of brk] by simp_all
  have sz1: "hsize s1 b = hsize s b" if "b \<noteq> bp" for b using fun_cong [OF f(2), of b] that by simp
  have p1: "hptr s1 p = hptr s p" "hsize s1 p = hsize s p" "upper s1 p = upper s p" using bp(1) f(1) sz1 [of p] by (auto simp: upper_def)
  have hi: "hptr s1 bp = hd (zs @ [base s])" using f(1) by simp
  have ne: "b \<noteq> p \<and> b \<noteq> bp" if "b \<in> set (xs @ zs)" for b
    using that bp j(2) sorted unfolding sorted_wrt_append by (auto dest!: subsetD [OF j(2)])
  have pz: "p < z" if "z \<in> set zs" for z using that j(2) sorted by (auto simp: sorted_wrt_append)
  have zpos: "0 < unat (hsize s z)" if "z \<in> set zs" for z using that j(2) ok(7) by (cases xs) auto
  have ppos: "p \<noteq> base s \<Longrightarrow> 0 < unat (hsize s p)" using ok(3,7) by (cases xs) auto
  show ?thesis
  proof (cases "upper s p = unat bp")
    case True
    let ?bs = "xs @ p # zs"
    have pb: "p \<noteq> base s" using True bp(1) ok(5) by (auto simp: upper_def word_less_nat_alt)
    have eq: "hinc p (hsize s1 p) = bp" using True p1 hinc_eq [of s p bp] ok(6) by simp
    then have s2: "?s2 = s1\<lparr>hsize := (hsize s1)(p := hsize s p + hsize s1 bp), hptr := (hptr s1)(p := hd (zs @ [base s]))\<rparr>"
      using p1 hi by (simp add: join_lower_def)
    have sz: "unat (hsize s p + hsize s1 bp) = unat (hsize s p) + unat (hsize s1 bp)"
      using True j(7) unat_lt [of "brk s"] by (intro unat_size_add) (simp add: upper_def)
    then have u: "upper ?s2 p = upper s1 bp" using True by (simp add: s2 upper_def)
    have keep: "hsize ?s2 b = hsize s b" "hptr ?s2 b = hptr s b" if "b \<in> set (xs @ zs)" for b
      using ne [OF that] sz1 f(1) by (auto simp: s2)
    have "links (hptr ?s2) zs (base s) = links (hptr s) zs (base s)" using keep(2) by (intro links_cong) auto
    then have l: "links (hptr ?s2) (p # zs) (base s)" using j(3) by (cases zs) (auto simp: s2)
    have az: "apart ?s2 zs = apart s zs" using keep by (intro apart_cong) auto
    have uz: "upper ?s2 z = upper s z" if "z \<in> set zs" for z using keep(1) [of z] that by (simp add: upper_def)
    have "heap_ok (?s2\<lparr>freep := p\<rparr>) ?bs"
    proof (rule heap_ok_replace [OF assms(1)])
      show "apart (?s2\<lparr>freep := p\<rparr>) (p # zs)" using az u j(4,5) by (simp add: apart_def apart_Cons upper_def)
    qed (use l u uz pz zpos keep pb sz j f ok in \<open>auto simp: s2 upper_def\<close>)
    moreover have "bytes_of ?s2 p = bytes_of s p \<union> bytes_of s1 bp" using True u by (auto simp: bytes_of_def upper_def)
    then have "free_bytes ?s2 ?bs = free_bytes s xs \<union> bytes_of s p \<union> (bytes_of s1 bp \<union> free_bytes s zs)"
      using free_bytes_cong [of "xs @ zs" ?s2 s] keep(1) by (auto simp: free_bytes_def)
    ultimately show ?thesis using j(8) by (intro exI [of _ ?bs]) (auto simp: free_bytes_def)
  next
    case False
    let ?bs = "xs @ p # bp # zs"
    have "hinc p (hsize s1 p) \<noteq> bp" using False p1 hinc_eq [of s p bp] ok(6) by simp
    then have s2: "?s2 = s1\<lparr>hptr := (hptr s1)(p := bp)\<rparr>" using p1 by (simp add: join_lower_def)
    have keep: "hsize ?s2 b = hsize s b" "hptr ?s2 b = hptr s b" if "b \<in> set (xs @ zs)" for b
      using ne [OF that] sz1 f(1) by (auto simp: s2)
    have "links (hptr ?s2) zs (base s) = links (hptr s) zs (base s)" using keep(2) by (intro links_cong) auto
    then have l: "links (hptr ?s2) (p # bp # zs) (base s)" using j(3) bp(1) hi by (cases zs) (auto simp: s2)
    have az: "apart ?s2 zs = apart s zs" using keep by (intro apart_cong) auto
    have uz: "upper ?s2 z = upper s z" if "z \<in> set zs" for z using keep(1) [of z] that by (simp add: upper_def)
    have u: "upper ?s2 bp = upper s1 bp" "upper ?s2 p = upper s p" using p1 by (auto simp: s2 upper_def)
    have h: "hsize ?s2 p = hsize s p" "hsize ?s2 bp = hsize s1 bp" "base ?s2 = base s" "brk ?s2 = brk s" using p1 f by (simp_all add: s2)
    have lt: "upper s p < unat bp" "\<forall>z \<in> set zs. upper s p < unat z"
      using False bp(2) ok(2) j(2) by (auto simp: apart_append apart_Cons)
    have "heap_ok (?s2\<lparr>freep := p\<rparr>) ?bs"
    proof (rule heap_ok_replace [OF assms(1)])
      show "apart (?s2\<lparr>freep := p\<rparr>) (p # bp # zs)" using az u lt j(4,5) by (simp add: apart_def apart_Cons upper_def)
    qed (use l u uz pz zpos ppos keep bp j h ok in \<open>auto simp: upper_def\<close>)
    moreover have "free_bytes ?s2 ?bs = free_bytes s xs \<union> bytes_of s p \<union> (bytes_of s1 bp \<union> free_bytes s zs)"
      using free_bytes_cong [of "xs @ zs" ?s2 s] keep(1) u by (auto simp: free_bytes_def bytes_of_def)
    ultimately show ?thesis using j(8) by (intro exI [of _ ?bs]) (auto simp: free_bytes_def)
  qed
qed

section \<open>Freeing a block\<close>

text \<open>A block that the program holds: behind the static block, within its memory, and apart from the free blocks.\<close>

definition held :: "uheap \<Rightarrow> uint list \<Rightarrow> uint \<Rightarrow> bool" where
  "held s bs bp \<longleftrightarrow> base s < bp \<and> 0 < unat (hsize s bp) \<and> upper s bp \<le> unat (brk s) \<and> bytes_of s bp \<inter> free_bytes s bs = {}"

lemma held_place:
  assumes "heap_ok s bs" "held s bs bp"
  shows "\<exists>xs p ys. bs = xs @ p # ys \<and> (\<forall>q \<in> set (xs @ [p]). q < bp) \<and> (\<forall>q \<in> set ys. bp < q) \<and> between s p bp ys"
proof -
  let ?l = "takeWhile (\<lambda>b. b < bp) bs" and ?ys = "dropWhile (\<lambda>b. b < bp) bs"
  have bp: "base s < bp" "0 < unat (hsize s bp)" "upper s bp \<le> unat (brk s)" "bytes_of s bp \<inter> free_bytes s bs = {}"
    using assms(2) by (auto simp: held_def)
  have "?l \<noteq> []" using assms(1) bp(1) by (cases bs) (auto simp: heap_ok_def)
  then obtain xs p where l: "?l = xs @ [p]" by (cases ?l rule: rev_cases) auto
  then have bs: "bs = xs @ p # ?ys" using takeWhile_dropWhile_id [of "\<lambda>b. b < bp" bs] by simp
  have lt: "\<forall>q \<in> set (xs @ [p]). q < bp" using l set_takeWhileD [of _ "\<lambda>b. b < bp" bs] by auto
  have sorted: "sorted_wrt (<) bs" using assms(1) apart_sorted by (auto simp: heap_ok_def)
  have sub: "set ?ys \<subseteq> set bs" "p \<in> set bs" using set_takeWhileD [of p "\<lambda>b. b < bp" bs] l by (auto dest: set_dropWhileD)
  have bpb: "unat bp \<in> bytes_of s bp" using bp(2) by (simp add: bytes_of_def upper_def)
  have ge: "bp \<le> q" if "q \<in> set ?ys" for q
  proof (cases ?ys)
    case (Cons y zs)
    then have "bp \<le> y" using hd_dropWhile [of "\<lambda>b. b < bp" bs] by simp
    moreover have "sorted_wrt (<) (y # zs)" using sorted bs Cons by (metis sorted_wrt_append sorted_wrt.simps(2))
    ultimately show ?thesis using that Cons by auto
  next
    case Nil
    then show ?thesis using that by (simp only: list.set) simp
  qed
  have pos: "0 < unat (hsize s q)" if "q \<in> set ?ys" for q
  proof -
    have "set ?ys \<subseteq> set (tl (xs @ p # ?ys))" by (cases xs) auto
    then have "q \<in> set (tl bs)" using that bs by auto
    then show ?thesis using assms(1) by (simp add: heap_ok_def)
  qed
  have gt: "bp < q" if "q \<in> set ?ys" for q
  proof -
    have "unat q \<in> bytes_of s q" using pos [OF that] by (simp add: bytes_of_def upper_def)
    then have "q \<noteq> bp" using that bp(4) bpb sub by (auto simp: free_bytes_def)
    then show ?thesis using ge [OF that] by simp
  qed
  have "upper s p \<le> unat bp"
  proof (rule ccontr)
    assume "\<not> upper s p \<le> unat bp"
    then have "unat bp \<in> bytes_of s p" using lt by (simp add: bytes_of_def word_less_nat_alt less_imp_le)
    then show False using bp(4) bpb sub by (auto simp: free_bytes_def)
  qed
  moreover have "upper s bp \<le> unat q" if "q \<in> set ?ys" for q
  proof (rule ccontr)
    assume "\<not> upper s bp \<le> unat q"
    then have "unat q \<in> bytes_of s bp" using gt [OF that] by (simp add: bytes_of_def word_less_nat_alt less_imp_le)
    moreover have "unat q \<in> bytes_of s q" using pos [OF that] by (simp add: bytes_of_def upper_def)
    ultimately show False using bp(4) sub that by (auto simp: free_bytes_def)
  qed
  ultimately have "between s p bp ?ys" using bp lt by (auto simp: between_def)
  then show ?thesis using bs lt gt by blast
qed

text \<open>The headers outside the bytes \<open>X\<close> keep what they hold, and so does what the program keeps there.\<close>

definition untouched :: "nat set \<Rightarrow> uheap \<Rightarrow> uheap \<Rightarrow> bool" where
  "untouched X s s' \<longleftrightarrow> (\<forall>a. a \<noteq> base s \<longrightarrow> unat a \<notin> X \<longrightarrow> hptr s' a = hptr s a \<and> hsize s' a = hsize s a)"

lemma untouched_trans: "untouched X s s1 \<Longrightarrow> untouched Y s1 s2 \<Longrightarrow> base s1 = base s \<Longrightarrow> X \<union> Y \<subseteq> Z \<Longrightarrow> untouched Z s s2"
  by (fastforce simp: untouched_def)

lemma header_free: "heap_ok s bs \<Longrightarrow> b \<in> set bs \<Longrightarrow> b \<noteq> base s \<Longrightarrow> unat b \<in> free_bytes s bs"
proof -
  assume ok: "heap_ok s bs" "b \<in> set bs" "b \<noteq> base s"
  then have "b \<in> set (tl bs)" by (cases bs) (auto simp: heap_ok_def)
  then have "unat b \<in> bytes_of s b" using ok(1) by (auto simp: heap_ok_def bytes_of_def upper_def)
  then show ?thesis using ok(2) by (auto simp: free_bytes_def)
qed

lemma header_held: "held s bs b \<Longrightarrow> unat b \<in> bytes_of s b"
  by (auto simp: held_def bytes_of_def upper_def)

lemma join_untouched:
  assumes "heap_ok s bs" "p \<in> set bs" "held s bs bp"
  shows "untouched (free_bytes s bs \<union> bytes_of s bp) s ((join_lower bp p (join_upper bp p s))\<lparr>freep := q\<rparr>)"
  using header_free [OF assms(1,2)] header_held [OF assms(3)] by (auto simp: untouched_def join_lower_def join_upper_def)

lemma brk_join [simp]: "brk (join_lower bp p s) = brk s" "brk (join_upper bp p s) = brk s" "base (join_lower bp p s) = base s" "base (join_upper bp p s) = base s"
  by (simp_all add: join_lower_def join_upper_def)

lemma free_ok:
  assumes "heap_ok s bs" "held s bs (ap - 8)"
  shows "\<exists>s' bs'. free ap s = Some s' \<and> heap_ok s' bs' \<and> free_bytes s' bs' = free_bytes s bs \<union> bytes_of s (ap - 8)
    \<and> brk s' = brk s \<and> base s' = base s \<and> untouched (free_bytes s bs \<union> bytes_of s (ap - 8)) s s'"
proof -
  let ?bp = "ap - 8"
  obtain xs p ys where bs: "bs = xs @ p # ys" "\<forall>q \<in> set (xs @ [p]). q < ?bp" "\<forall>q \<in> set ys. ?bp < q" "between s p ?bp ys"
    using held_place [OF assms] by blast
  have f: "free_find s ?bp (freep s) = Some p"
    using assms bs by (intro free_find_pred [of s xs p ys]) (auto simp: heap_ok_def held_def)
  obtain zs where z: "joined s ?bp ys (join_upper ?bp p s) zs" using join_upper_joined assms(1) bs by blast
  obtain bs' where "heap_ok ((join_lower ?bp p (join_upper ?bp p s))\<lparr>freep := p\<rparr>) bs'"
    "free_bytes (join_lower ?bp p (join_upper ?bp p s)) bs' = free_bytes s bs \<union> bytes_of s ?bp"
    using join_lower_ok [OF _ bs(4) z, of xs] assms(1) bs(1) by blast
  moreover have "free_bytes (t\<lparr>freep := p\<rparr>) l = free_bytes t l" for t l by (intro free_bytes_cong) simp
  ultimately show ?thesis using f join_untouched [OF assms(1) _ assms(2), of p p] bs(1) by (auto simp: free_def Let_def)
qed

section \<open>Taking a block\<close>

lemma links_map: "bs \<noteq> [] \<Longrightarrow> links f bs z \<longleftrightarrow> map f bs = tl bs @ [z]"
  by (induction f bs z rule: links.induct) auto

lemma heap_inj: "heap_ok s bs \<Longrightarrow> a \<in> set bs \<Longrightarrow> b \<in> set bs \<Longrightarrow> hptr s a = hptr s b \<Longrightarrow> a = b"
proof -
  assume ok: "heap_ok s bs" and ab: "a \<in> set bs" "b \<in> set bs" "hptr s a = hptr s b"
  have d: "distinct bs" using ok apart_sorted [of s bs] by (auto simp: heap_ok_def strict_sorted_iff)
  have "map (hptr s) bs = tl bs @ [hd bs]" using ok links_map [of bs "hptr s" "base s"] by (auto simp: heap_ok_def)
  moreover have "distinct (tl bs @ [hd bs])" using d ok by (cases bs) (auto simp: heap_ok_def)
  ultimately have "inj_on (hptr s) (set bs)" by (metis distinct_map)
  then show ?thesis using ab by (auto dest: inj_onD)
qed

text \<open>A block that the allocator hands out: it was free and no longer is, and its header holds its size.\<close>

definition handed :: "uheap \<Rightarrow> uint list \<Rightarrow> uint \<Rightarrow> uint \<times> uheap \<Rightarrow> bool" where
  "handed s bs n r \<longleftrightarrow> (\<exists>bs'. fst r \<noteq> 0 \<and> heap_ok (snd r) bs' \<and> held (snd r) bs' (fst r - 8) \<and> hsize (snd r) (fst r - 8) = n
     \<and> free_bytes (snd r) bs' \<union> bytes_of (snd r) (fst r - 8) = free_bytes s bs \<and> brk (snd r) = brk s \<and> base (snd r) = base s
     \<and> untouched (free_bytes s bs) s (snd r))"

lemma pointer_nonzero: "upper s b \<le> unat (brk s) \<Longrightarrow> 0 < unat (hsize s b) \<Longrightarrow> b + 8 \<noteq> 0"
proof
  assume b: "upper s b \<le> unat (brk s)" "0 < unat (hsize s b)" and z: "b + 8 = 0"
  have "unat (b + 8) = unat b + 8" using b unat_lt [of "brk s"] by (subst unat_add_uint) (auto simp: upper_def)
  then show False using z by simp
qed

lemma take_whole:
  assumes "heap_ok s bs" "p \<in> set bs" "prevp \<in> set bs" "hptr s prevp = p" "hsize s p = n" "0 < unat n"
  shows "handed s bs n (take_block n prevp p s)"
proof -
  have pb: "p \<noteq> base s" using assms(1,5,6) by (auto simp: heap_ok_def)
  obtain us vs where bs0: "bs = us @ p # vs" using assms(2) by (meson split_list)
  then have "us \<noteq> []" using assms(1) pb by (auto simp: heap_ok_def)
  then obtain xs w where us: "us = xs @ [w]" by (cases us rule: rev_cases) auto
  then have bs: "bs = xs @ w # p # vs" using bs0 by simp
  have ok: "links (hptr s) (xs @ w # p # vs) (base s)" "apart s (xs @ w # p # vs)" "\<forall>b \<in> set bs. upper s b \<le> unat (brk s)"
    using assms(1) bs by (auto simp: heap_ok_def)
  have "hptr s w = p" using links_at [OF ok(1)] by simp
  then have w: "prevp = w" using heap_inj [OF assms(1,3), of w] assms(4) bs by simp
  have sorted: "sorted_wrt (<) (xs @ w # p # vs)" using ok(2) by (rule apart_sorted)
  let ?s = "s\<lparr>hptr := (hptr s)(w := hptr s p), freep := w\<rparr>" and ?bs = "xs @ w # vs"
  have t: "take_block n prevp p s = (p + 8, ?s)" using assms(5) w by (simp add: take_block_def)
  have hp: "hptr s p = hd (vs @ [base s])" using links_at [of _ "xs @ [w]" p vs] ok(1) by simp
  have lv: "links (hptr s) vs (base s)" using links_tl [of _ "xs @ [w, p]" vs] ok(1) by simp
  have "links (hptr ?s) vs (base s) = links (hptr s) vs (base s)" using sorted by (intro links_cong) (auto simp: sorted_wrt_append)
  then have l: "links (hptr ?s) (w # vs) (base s)" using lv hp by (cases vs) auto
  have a: "apart s (w # vs)" using ok(2) by (simp add: apart_append apart_Cons)
  have heap: "heap_ok ?s ?bs"
  proof (rule heap_ok_replace [of s xs w "p # vs"])
    show "apart ?s (w # vs)" using a by (simp add: apart_def upper_def)
    show "links (hptr ?s) (w # vs) (base s)" by (rule l)
    show "\<forall>b \<in> set vs. 0 < unat (hsize ?s b)" using assms(1) bs by (cases xs) (auto simp: heap_ok_def)
    show "0 < unat (hsize ?s w)" if "w \<noteq> base s" using that assms(1) bs by (cases xs) (auto simp: heap_ok_def)
  qed (use assms(1) bs ok sorted in \<open>auto simp: heap_ok_def upper_def sorted_wrt_append\<close>)
  have hb: "hsize ?s = hsize s" by simp
  have fb: "free_bytes ?s ?bs = free_bytes s ?bs" "bytes_of ?s p = bytes_of s p" by (auto simp: free_bytes_def bytes_of_def upper_def)
  have "bytes_of s p \<inter> free_bytes s ?bs = {}"
    using ok(2) sorted by (fastforce simp: free_bytes_def bytes_of_def apart_append apart_Cons word_less_nat_alt)
  moreover have "base s < p" using base_smallest [OF assms(1,2)] pb by simp
  moreover have "upper s p \<le> unat (brk s)" using ok(3) bs by simp
  ultimately have "held ?s ?bs p" using assms(5,6) fb by (auto simp: held_def upper_def)
  moreover have "free_bytes s ?bs \<union> bytes_of s p = free_bytes s bs" using bs by (auto simp: free_bytes_def)
  moreover have "p + 8 \<noteq> 0" using pointer_nonzero [of s p] \<open>upper s p \<le> _\<close> assms(5,6) by simp
  moreover have "untouched (free_bytes s bs) s ?s" using header_free [OF assms(1), of w] bs by (auto simp: untouched_def)
  ultimately show ?thesis unfolding handed_def t using heap fb assms(5) by (intro exI [of _ ?bs]) simp
qed

lemma take_part:
  assumes "heap_ok s bs" "p \<in> set bs" "prevp \<in> set bs" "n < hsize s p" "0 < unat n"
  shows "handed s bs n (take_block n prevp p s)"
proof -
  have pb: "p \<noteq> base s" using assms(1,4) by (auto simp: heap_ok_def)
  obtain us vs where bs: "bs = us @ p # vs" using assms(2) by (meson split_list)
  have ok: "links (hptr s) (us @ p # vs) (base s)" "apart s (us @ p # vs)" "\<forall>b \<in> set bs. upper s b \<le> unat (brk s)"
    using assms(1) bs by (auto simp: heap_ok_def)
  have sorted: "sorted_wrt (<) (us @ p # vs)" using ok(2) by (rule apart_sorted)
  define rest where "rest = hsize s p - n"
  define q where "q = hinc p rest"
  have r: "unat rest = unat (hsize s p) - unat n" "unat n < unat (hsize s p)"
    using assms(4) unat_sub [of n "hsize s p"] by (auto simp: rest_def word_less_nat_alt word_le_nat_alt)
  have up: "upper s p \<le> unat (brk s)" using ok(3) bs by simp
  have q: "unat q = unat p + 8 * unat rest"
    using hinc_upper [of "s\<lparr>hsize := (hsize s)(p := rest)\<rparr>" p] up r by (simp add: q_def upper_def)
  have qb: "b \<noteq> q" if b: "b \<in> set bs" for b
  proof -
    consider "b = p" | "upper s b < unat p" | "upper s p < unat b" using b ok(2) bs by (auto simp: apart_append apart_Cons)
    then show ?thesis using q r by cases (auto simp: upper_def)
  qed
  let ?s = "s\<lparr>hsize := (hsize s)(p := rest, q := n), freep := prevp\<rparr>"
  have t: "take_block n prevp p s = (q + 8, ?s)" using assms(4) by (auto simp: take_block_def Let_def rest_def q_def)
  have sz: "hsize ?s p = rest" "hsize ?s q = n" "\<And>b. b \<in> set bs \<Longrightarrow> b \<noteq> p \<Longrightarrow> hsize ?s b = hsize s b"
    using qb bs by auto
  have u: "upper ?s p = unat q" "upper ?s q = upper s p" using sz q r by (auto simp: upper_def)
  have p_vs: "p \<notin> set us" "p \<notin> set vs" using sorted by (auto simp: sorted_wrt_append)
  have q_out: "q \<notin> set us" "q \<notin> set vs" "q \<noteq> p" using qb bs by auto
  have av: "apart ?s vs = apart s vs" using q_out p_vs by (intro apart_cong) auto
  have heap: "heap_ok ?s bs" unfolding bs
  proof (rule heap_ok_replace [of s us p vs])
    have "\<forall>b \<in> set vs. unat q < unat b" using ok(2) q r by (auto simp: apart_append apart_Cons upper_def)
    then show "apart ?s (p # vs)" using av ok(2) u(1) by (simp add: apart_Cons apart_append)
    show "links (hptr ?s) (p # vs) (base s)" using links_tl [of _ us "p # vs"] ok(1) by simp
    show "\<forall>b \<in> set (p # vs). upper ?s b \<le> unat (brk s)" using ok(3) bs p_vs q_out q r up by (auto simp: upper_def)
    show "\<forall>b \<in> set vs. 0 < unat (hsize ?s b)" using assms(1) bs p_vs q_out by (cases us) (auto simp: heap_ok_def)
    show "0 < unat (hsize ?s p)" using sz r by simp
    show "freep ?s \<in> set (us @ p # vs)" using assms(3) bs by simp
    show "hptr ?s b = hptr s b \<and> hsize ?s b = hsize s b" if "b \<in> set us" for b using p_vs q_out that by auto
  qed (use assms(1) bs pb sorted in \<open>auto simp: sorted_wrt_append\<close>)
  have fb: "free_bytes ?s bs = free_bytes s us \<union> free_bytes s vs \<union> {unat p ..< unat q}"
  proof -
    have "free_bytes ?s us = free_bytes s us" "free_bytes ?s vs = free_bytes s vs" using p_vs q_out by (intro free_bytes_cong; auto)+
    moreover have "bytes_of ?s p = {unat p ..< unat q}" using u(1) by (simp add: bytes_of_def)
    ultimately show ?thesis unfolding bs free_bytes_list by blast
  qed
  have qbytes: "bytes_of ?s q = {unat q ..< upper s p}" using u(2) by (simp add: bytes_of_def)
  have pbytes: "bytes_of s p = {unat p ..< unat q} \<union> {unat q ..< upper s p}" using q r by (auto simp: bytes_of_def upper_def)
  have dis: "bytes_of s p \<inter> (free_bytes s us \<union> free_bytes s vs) = {}"
    using ok(2) sorted by (fastforce simp: free_bytes_def bytes_of_def apart_append apart_Cons word_less_nat_alt)
  have "base s < q" using base_smallest [OF assms(1,2)] q r unfolding word_le_nat_alt word_less_nat_alt by linarith
  then have held: "held ?s bs q" using assms(5) sz(2) u(2) up dis pbytes by (auto simp: held_def qbytes fb)
  have un: "free_bytes ?s bs \<union> bytes_of ?s q = free_bytes s bs" unfolding fb qbytes using pbytes bs by (auto simp: free_bytes_def)
  have "q + 8 \<noteq> 0" using pointer_nonzero [of ?s q] held by (simp add: held_def)
  moreover have "unat q \<in> free_bytes s bs" using un header_held [OF held] by blast
  then have "untouched (free_bytes s bs) s ?s" using header_free [OF assms(1,2) pb] by (auto simp: untouched_def)
  ultimately show ?thesis unfolding handed_def t using heap held un sz(2) by (intro exI [of _ bs]) simp
qed

lemma take_ok:
  assumes "heap_ok s bs" "p \<in> set bs" "prevp \<in> set bs" "hptr s prevp = p" "n \<le> hsize s p" "0 < unat n"
  shows "handed s bs n (take_block n prevp p s)"
  using take_whole [OF assms(1-4)] take_part [OF assms(1-3)] assms(5,6) by (cases "hsize s p = n") auto

section \<open>Looking for a block\<close>

lemma links_Cons_hd: "links f (a # xs) z \<Longrightarrow> f a = hd (xs @ [z])"
  by (cases xs) auto

lemma scan_found:
  assumes "links (hptr s) (vs @ [freep s]) v0" "freep s \<notin> set vs" "hptr s prevp = hd (vs @ [freep s])" "prevp \<in> set bs" "set vs \<subseteq> set bs"
    and "freep s \<in> set bs" "\<exists>w \<in> set (vs @ [freep s]). n \<le> hsize s w"
  shows "\<exists>q w. malloc_loop grant n prevp (hd (vs @ [freep s])) s = Some (take_block n q w s) \<and> q \<in> set bs \<and> w \<in> set bs
    \<and> hptr s q = w \<and> n \<le> hsize s w"
  using assms
proof (induction vs arbitrary: prevp)
  case Nil
  then show ?case by (intro exI [of _ prevp] exI [of _ "freep s"], subst malloc_loop.simps) auto
next
  case (Cons v vs)
  show ?case
  proof (cases "n \<le> hsize s v")
    case True
    then show ?thesis using Cons.prems by (intro exI [of _ prevp] exI [of _ v], subst malloc_loop.simps) auto
  next
    case False
    have n: "hptr s v = hd (vs @ [freep s])" using links_Cons_hd [of "hptr s" v "vs @ [freep s]" v0] Cons.prems(1) by (cases vs) auto
    have l: "links (hptr s) (vs @ [freep s]) v0" using links_tl [of _ "[v]" "vs @ [freep s]"] Cons.prems(1) by simp
    have "\<exists>q w. malloc_loop grant n v (hd (vs @ [freep s])) s = Some (take_block n q w s) \<and> q \<in> set bs \<and> w \<in> set bs
        \<and> hptr s q = w \<and> n \<le> hsize s w"
      using Cons.prems False by (intro Cons.IH [OF l _ n]) auto
    then show ?thesis using False n Cons.prems(2) by (subst malloc_loop.simps) auto
  qed
qed

lemma scan_fails:
  assumes "links (hptr s) (vs @ [freep s]) v0" "freep s \<notin> set vs" "\<forall>w \<in> set (vs @ [freep s]). \<not> n \<le> hsize s w"
  shows "\<exists>prev. malloc_loop grant n prevp (hd (vs @ [freep s])) s = malloc_loop grant n prev (freep s) s"
  using assms
proof (induction vs arbitrary: prevp)
  case (Cons v vs)
  have n: "hptr s v = hd (vs @ [freep s])" using links_Cons_hd [of "hptr s" v "vs @ [freep s]" v0] Cons.prems(1) by (cases vs) auto
  have l: "links (hptr s) (vs @ [freep s]) v0" using links_tl [of _ "[v]" "vs @ [freep s]"] Cons.prems(1) by simp
  obtain prev where "malloc_loop grant n v (hd (vs @ [freep s])) s = malloc_loop grant n prev (freep s) s"
    using Cons.IH [OF l] Cons.prems by auto
  then show ?case using n Cons.prems by (intro exI [of _ prev], subst malloc_loop.simps) auto
qed auto

text \<open>The circular list as the loop sees it, from the block behind \<^verbatim>\<open>freep\<close> on.\<close>

lemma rotate_list:
  assumes "heap_ok s bs"
  shows "\<exists>vs. links (hptr s) (vs @ [freep s]) (hd (vs @ [freep s])) \<and> freep s \<notin> set vs \<and> set (vs @ [freep s]) = set bs
    \<and> hptr s (freep s) = hd (vs @ [freep s])"
proof -
  obtain xs ys where bs: "bs = xs @ freep s # ys" using assms split_list [of "freep s" bs] by (auto simp: heap_ok_def)
  have ok: "links (hptr s) (xs @ freep s # ys) (base s)" "hd (xs @ [freep s]) = base s" "sorted_wrt (<) (xs @ freep s # ys)"
    using assms bs apart_sorted by (auto simp: heap_ok_def hd_append)
  let ?vs = "ys @ xs"
  have x: "links (hptr s) (xs @ [freep s]) (hd (ys @ [base s]))"
    using ok(1) links_at [OF ok(1)] by (simp add: links_append)
  have y: "ys \<noteq> [] \<Longrightarrow> links (hptr s) ys (base s)" using links_tl [of _ "xs @ [freep s]" ys] ok(1) by simp
  have "links (hptr s) (?vs @ [freep s]) (hd (?vs @ [freep s]))"
  proof (cases "ys = []")
    case True
    then show ?thesis using x ok(2) by simp
  next
    case False
    then have "hd (ys @ z) = hd ys" for z by simp
    then show ?thesis using x y [OF False] ok(2) links_append [of "xs @ [freep s]" "hptr s" ys] False by simp
  qed
  moreover have "hptr s (freep s) = hd (?vs @ [freep s])" using links_at [OF ok(1)] ok(2) by (cases ys) auto
  moreover have "freep s \<notin> set ?vs" using ok(3) by (auto simp: sorted_wrt_append)
  ultimately show ?thesis using bs by (intro exI [of _ ?vs]) auto
qed

lemma loop_found:
  assumes "heap_ok s bs" "0 < unat n" "\<exists>w \<in> set bs. n \<le> hsize s w"
  shows "\<exists>r. malloc_loop grant n (freep s) (hptr s (freep s)) s = Some r \<and> handed s bs n r"
proof -
  obtain vs where vs: "links (hptr s) (vs @ [freep s]) (hd (vs @ [freep s]))" "freep s \<notin> set vs" "set (vs @ [freep s]) = set bs"
    "hptr s (freep s) = hd (vs @ [freep s])" using rotate_list [OF assms(1)] by blast
  have "\<exists>q w. malloc_loop grant n (freep s) (hd (vs @ [freep s])) s = Some (take_block n q w s) \<and> q \<in> set bs \<and> w \<in> set bs
      \<and> hptr s q = w \<and> n \<le> hsize s w"
    using vs assms by (intro scan_found [OF vs(1)]) auto
  then obtain q w where "malloc_loop grant n (freep s) (hptr s (freep s)) s = Some (take_block n q w s)" "q \<in> set bs" "w \<in> set bs"
    "hptr s q = w" "n \<le> hsize s w" using vs(4) by auto
  then show ?thesis using take_ok [OF assms(1) _ _ _ _ assms(2)] by blast
qed

lemma loop_grows:
  assumes "heap_ok s bs" "\<forall>w \<in> set bs. \<not> n \<le> hsize s w"
  shows "malloc_loop grant n (freep s) (hptr s (freep s)) s = Option.bind (morecore grant n s) (\<lambda>(q, s1).
     if q = 0 then Some (0, s1) else malloc_loop grant n q (hptr s1 q) s1)"
proof -
  obtain vs where vs: "links (hptr s) (vs @ [freep s]) (hd (vs @ [freep s]))" "freep s \<notin> set vs" "set (vs @ [freep s]) = set bs"
    "hptr s (freep s) = hd (vs @ [freep s])" using rotate_list [OF assms(1)] by blast
  obtain prev where "malloc_loop grant n (freep s) (hd (vs @ [freep s])) s = malloc_loop grant n prev (freep s) s"
    using scan_fails [OF vs(1,2)] assms(2) vs(3) by metis
  moreover have "freep s \<in> set bs" using assms(1) by (simp add: heap_ok_def)
  ultimately show ?thesis using vs(4) assms(2) by (subst (asm) (2) malloc_loop.simps) simp
qed

section \<open>Memory from the kernel\<close>

text \<open>A stretch of free bytes lies in one block, since there is a gap between any two.\<close>

lemma stretch_in_block:
  assumes "heap_ok s bs" "{a ..< c} \<subseteq> free_bytes s bs" "a < c"
  shows "\<exists>b \<in> set bs. {a ..< c} \<subseteq> bytes_of s b"
proof -
  have "a \<in> free_bytes s bs" using assms(2,3) by auto
  then obtain b where b: "b \<in> set bs" "unat b \<le> a" "a < upper s b" by (auto simp: free_bytes_def bytes_of_def)
  have "c \<le> upper s b"
  proof (rule ccontr)
    assume "\<not> c \<le> upper s b"
    then have "upper s b \<in> free_bytes s bs" using assms(2) b(3) by auto
    then obtain d where d: "d \<in> set bs" "unat d \<le> upper s b" "upper s b < upper s d" by (auto simp: free_bytes_def bytes_of_def)
    then have "d \<noteq> b" by auto
    then have "upper s b < unat d \<or> upper s d < unat b"
      using assms(1) b(1) d(1) by (auto simp: heap_ok_def apart_def sorted_wrt_iff_nth_less in_set_conv_nth) (metis linorder_neqE_nat)
    then show False using d(2,3) by (auto simp: upper_def)
  qed
  then show ?thesis using b by (auto simp: bytes_of_def)
qed

text \<open>What the allocator may rely on: the kernel refuses to let a process grow beyond two gigabytes.\<close>

definition bounded :: "(uint \<Rightarrow> bool) \<Rightarrow> bool" where
  "bounded grant \<longleftrightarrow> (\<forall>z. grant z \<longrightarrow> unat z \<le> 2 ^ 31)"

lemma morecore_ok:
  assumes "heap_ok s bs" "bounded grant" "unat (brk s) \<le> 2 ^ 31" "8 * unat n < 2 ^ 31" "0 < unat n"
  shows "morecore grant n s = Some (0, s)
    \<or> (\<exists>s' bs'. morecore grant n s = Some (freep s', s') \<and> freep s' \<noteq> 0 \<and> heap_ok s' bs' \<and> base s' = base s \<and> unat (brk s') \<le> 2 ^ 31 \<and> brk s \<le> brk s'
       \<and> free_bytes s' bs' = free_bytes s bs \<union> {unat (brk s) ..< unat (brk s')} \<and> (\<exists>w \<in> set bs'. n \<le> hsize s' w)
       \<and> untouched (free_bytes s' bs') s s')"
proof -
  define nu where "nu = (if n < 4096 then 4096 else n)"
  have nu: "8 * unat nu < 2 ^ 31" "n \<le> nu" "0 < unat nu" using assms(4,5) by (auto simp: nu_def)
  have n8: "unat (nu * 8) = 8 * unat nu" using nu(1) by (simp add: unat_word_ariths)
  have br: "unat (brk s + nu * 8) = unat (brk s) + 8 * unat nu" using nu(1) n8 assms(3) by (subst unat_add_uint) auto
  have ne: "brk s \<noteq> -1"
  proof
    assume "brk s = -1"
    then have "brk s + 1 = 0" by simp
    then show False using unat_add_uint [of "brk s" 1] assms(3) by simp
  qed
  show ?thesis
  proof (cases "grant (brk s + nu * 8)")
    case False
    then show ?thesis by (simp add: morecore_def sbrk_def Let_def nu_def [symmetric])
  next
    case True
    let ?p = "brk s" and ?s1 = "s\<lparr>brk := brk s + nu * 8, hsize := (hsize s)(brk s := nu)\<rparr>"
    have out: "b \<noteq> ?p" if "b \<in> set bs" for b
    proof (cases "b = base s")
      case False
      then have "b \<in> set (tl bs)" using that assms(1) by (cases bs) (auto simp: heap_ok_def)
      then have "0 < unat (hsize s b)" "upper s b \<le> unat (brk s)" using assms(1) that by (auto simp: heap_ok_def)
      then show ?thesis by (auto simp: upper_def)
    qed (use assms(1) in \<open>auto simp: heap_ok_def\<close>)
    have keep: "hsize ?s1 b = hsize s b" if "b \<in> set bs" for b using out [OF that] by simp
    then have up: "upper ?s1 b = upper s b" if "b \<in> set bs" for b using that by (simp add: upper_def)
    have "apart ?s1 bs = apart s bs" using keep by (intro apart_cong) auto
    moreover have "base s \<in> set bs" using assms(1) by (cases bs) (auto simp: heap_ok_def)
    moreover have le: "brk s \<le> brk s + nu * 8" using br by (simp add: word_le_nat_alt)
    ultimately have heap: "heap_ok ?s1 bs"
      using assms(1) keep up br nu(3) unfolding heap_ok_def by (auto dest: list.set_sel(2) intro: less_le_trans le_trans)
    have u: "upper ?s1 ?p = unat (brk s) + 8 * unat nu" by (simp add: upper_def)
    have fb: "free_bytes ?s1 bs = free_bytes s bs" using keep by (intro free_bytes_cong) auto
    have pb: "bytes_of ?s1 ?p = {unat (brk s) ..< unat (brk ?s1)}" using u br by (simp add: bytes_of_def)
    have "free_bytes s bs \<subseteq> {..< unat (brk s)}" using assms(1) by (fastforce simp: free_bytes_def bytes_of_def heap_ok_def)
    then have "held ?s1 bs ?p" using assms(1) u br nu(3) fb pb by (auto simp: held_def heap_ok_def)
    then obtain s' bs' where f: "free (?p + 8) ?s1 = Some s'" "heap_ok s' bs'" "brk s' = brk ?s1" "base s' = base s"
      "free_bytes s' bs' = free_bytes s bs \<union> {unat (brk s) ..< unat (brk ?s1)}" "untouched (free_bytes s' bs') ?s1 s'"
      using free_ok [OF heap, of "?p + 8"] fb pb by auto
    have "untouched {unat (brk s) ..< unat (brk ?s1)} s ?s1" using br nu(3) by (auto simp: untouched_def)
    then have un: "untouched (free_bytes s' bs') s s'" using untouched_trans [OF _ f(6)] f(5) by simp
    have "\<exists>w \<in> set bs'. {unat (brk s) ..< unat (brk ?s1)} \<subseteq> bytes_of s' w"
      using f(2,5) br nu(3) by (intro stretch_in_block) auto
    then obtain w where w: "w \<in> set bs'" "{unat (brk s) ..< unat (brk ?s1)} \<subseteq> bytes_of s' w" by blast
    then have "unat nu \<le> unat (hsize s' w)" using br nu(3) by (auto simp: bytes_of_def upper_def)
    then have "n \<le> hsize s' w" using nu(2) by (auto simp: word_le_nat_alt)
    moreover have "freep s' \<noteq> 0" using f(2,4) base_smallest [OF f(2), of "freep s'"] assms(1) by (auto simp: heap_ok_def)
    moreover have "unat (brk s') \<le> 2 ^ 31" using f(3) assms(2) True by (simp add: bounded_def)
    moreover have "morecore grant n s = Some (freep s', s')"
      using True ne f(1) by (simp add: morecore_def sbrk_def Let_def nu_def [symmetric])
    ultimately show ?thesis using f w(1) un le by auto
  qed
qed

section \<open>The contract\<close>

text \<open>A program that has not allocated yet, and one in the middle of its work.\<close>

definition uheap_ok :: "uheap \<Rightarrow> uint list \<Rightarrow> bool" where
  "uheap_ok s bs \<longleftrightarrow> unat (brk s) \<le> 2 ^ 31
     \<and> (if freep s = 0 then bs = [] \<and> base s \<noteq> 0 \<and> base s < brk s else heap_ok s bs)"

lemma unat_units: "unat nbytes \<le> 2 ^ 30 \<Longrightarrow> unat (units nbytes) = (unat nbytes + 7) div 8 + 1"
proof -
  assume n: "unat nbytes \<le> 2 ^ 30"
  have "nbytes + 8 - 1 = nbytes + 7" by simp
  moreover have "unat (nbytes + 7) = unat nbytes + 7" using n by (subst unat_add_uint) auto
  moreover have "unat (8 :: uint) = 8" by simp
  ultimately have d: "unat ((nbytes + 8 - 1) div 8) = (unat nbytes + 7) div 8" by (simp only: unat_div_distrib)
  have "(unat nbytes + 7) div 8 + 1 < 2 ^ 32" using n by simp
  then show ?thesis unfolding units_def using d by (subst unat_add_uint) auto
qed

lemma heap_ok_nonzero: "heap_ok s bs \<Longrightarrow> freep s \<noteq> 0"
  using base_smallest [of s bs "freep s"] by (auto simp: heap_ok_def)

lemma malloc_start:
  assumes "uheap_ok s bs"
  shows "\<exists>s1 bs1. heap_ok s1 bs1 \<and> free_bytes s1 bs1 = free_bytes s bs \<and> brk s1 = brk s \<and> base s1 = base s \<and> untouched {} s s1
    \<and> malloc grant nbytes s = malloc_loop grant (units nbytes) (freep s1) (hptr s1 (freep s1)) s1"
proof (cases "freep s = 0")
  case True
  let ?s1 = "s\<lparr>hptr := (hptr s)(base s := base s), freep := base s, hsize := (hsize s)(base s := 0)\<rparr>"
  have "heap_ok ?s1 [base s]"
    using assms True by (auto simp: uheap_ok_def heap_ok_def apart_def upper_def word_less_nat_alt)
  then show ?thesis using True assms
    by (intro exI [of _ ?s1] exI [of _ "[base s]"])
      (simp add: malloc_def free_bytes_def bytes_of_def upper_def uheap_ok_def untouched_def)
next
  case False
  then show ?thesis using assms by (intro exI [of _ s] exI [of _ bs]) (simp add: malloc_def uheap_ok_def untouched_def)
qed

text \<open>A refused request leaves the free bytes alone; a granted one yields a block of its own that is large enough.\<close>

definition allocated :: "uheap \<Rightarrow> uint list \<Rightarrow> uint \<Rightarrow> uint \<times> uheap \<Rightarrow> uint list \<Rightarrow> bool" where
  "allocated s bs nbytes r bs' \<longleftrightarrow> freep (snd r) \<noteq> 0 \<and> uheap_ok (snd r) bs' \<and> base (snd r) = base s
     \<and> (if fst r = 0 then free_bytes (snd r) bs' = free_bytes s bs \<and> brk (snd r) = brk s \<and> untouched {} s (snd r)
        else held (snd r) bs' (fst r - 8) \<and> unat nbytes + 8 \<le> 8 * unat (hsize (snd r) (fst r - 8))
          \<and> free_bytes (snd r) bs' \<union> bytes_of (snd r) (fst r - 8) = free_bytes s bs \<union> {unat (brk s) ..< unat (brk (snd r))}
          \<and> untouched (free_bytes s bs \<union> {unat (brk s) ..< unat (brk (snd r))}) s (snd r) \<and> brk s \<le> brk (snd r))"

lemma handed_allocated:
  assumes "handed s2 bs2 (units nbytes) r" "unat nbytes \<le> 2 ^ 30" "unat (brk s2) \<le> 2 ^ 31" "base s2 = base s" "brk s \<le> brk s2"
    and "free_bytes s2 bs2 = free_bytes s bs \<union> {unat (brk s) ..< unat (brk s2)}" "untouched (free_bytes s2 bs2) s s2"
  shows "\<exists>bs'. allocated s bs nbytes r bs'"
proof -
  obtain bs' where b: "fst r \<noteq> 0" "heap_ok (snd r) bs'" "held (snd r) bs' (fst r - 8)" "hsize (snd r) (fst r - 8) = units nbytes"
    "free_bytes (snd r) bs' \<union> bytes_of (snd r) (fst r - 8) = free_bytes s2 bs2" "brk (snd r) = brk s2" "base (snd r) = base s2"
    "untouched (free_bytes s2 bs2) s2 (snd r)" using assms(1) unfolding handed_def by blast
  have "unat nbytes + 8 \<le> 8 * unat (units nbytes)" using unat_units [OF assms(2)] by simp
  moreover have "untouched (free_bytes s2 bs2) s (snd r)" using untouched_trans [OF assms(7) b(8) assms(4)] by simp
  ultimately show ?thesis
    using b assms heap_ok_nonzero [OF b(2)] by (intro exI [of _ bs']) (simp add: allocated_def uheap_ok_def)
qed

lemma malloc_ok:
  assumes "uheap_ok s bs" "bounded grant" "unat nbytes \<le> 2 ^ 30"
  shows "\<exists>r bs'. malloc grant nbytes s = Some r \<and> allocated s bs nbytes r bs'"
proof -
  let ?n = "units nbytes"
  obtain s1 bs1 where s1: "heap_ok s1 bs1" "free_bytes s1 bs1 = free_bytes s bs" "brk s1 = brk s" "base s1 = base s" "untouched {} s s1"
    "malloc grant nbytes s = malloc_loop grant ?n (freep s1) (hptr s1 (freep s1)) s1" using malloc_start [OF assms(1)] by blast
  have n: "0 < unat ?n" "8 * unat ?n < 2 ^ 31" using unat_units [OF assms(3)] assms(3) by auto
  have b: "unat (brk s) \<le> 2 ^ 31" using assms(1) by (simp add: uheap_ok_def)
  have m: "unat (brk s1) \<le> 2 ^ 31" using b s1(3) by simp
  have un: "untouched Z s s1" for Z using s1(5) by (simp add: untouched_def)
  show ?thesis
  proof (cases "\<exists>w \<in> set bs1. ?n \<le> hsize s1 w")
    case True
    then obtain r where r: "malloc grant nbytes s = Some r" "handed s1 bs1 ?n r" using loop_found [OF s1(1) n(1)] s1(6) by metis
    then show ?thesis using handed_allocated [OF r(2) assms(3), of s bs] s1 b un by auto
  next
    case False
    then have g: "malloc grant nbytes s = Option.bind (morecore grant ?n s1) (\<lambda>(q, s1).
        if q = 0 then Some (0, s1) else malloc_loop grant ?n q (hptr s1 q) s1)" using loop_grows [OF s1(1)] s1(6) by simp
    consider "morecore grant ?n s1 = Some (0, s1)"
      | s2 bs2 where "morecore grant ?n s1 = Some (freep s2, s2)" "freep s2 \<noteq> 0" "heap_ok s2 bs2" "base s2 = base s1" "unat (brk s2) \<le> 2 ^ 31"
        "free_bytes s2 bs2 = free_bytes s1 bs1 \<union> {unat (brk s1) ..< unat (brk s2)}" "\<exists>w \<in> set bs2. ?n \<le> hsize s2 w"
        "untouched (free_bytes s2 bs2) s1 s2" "brk s1 \<le> brk s2"
      using morecore_ok [OF s1(1) assms(2) m n(2,1)] by blast
    then show ?thesis
    proof cases
      case 1
      have "allocated s bs nbytes (0, s1) bs1" using s1 b heap_ok_nonzero [OF s1(1)] by (simp add: allocated_def uheap_ok_def)
      then show ?thesis using g 1 by auto
    next
      case 2
      then obtain r where r: "malloc grant nbytes s = Some r" "handed s2 bs2 ?n r" using loop_found [OF 2(3) n(1)] g by force
      have "untouched (free_bytes s2 bs2) s s2" using untouched_trans [OF un [of "{}"] 2(8) s1(4)] by simp
      then have "\<exists>bs'. allocated s bs nbytes r bs'" using handed_allocated [OF r(2) assms(3) 2(5), of s bs] s1(2-4) 2(4,6,9) by simp
      then show ?thesis using r(1) by blast
    qed
  qed
qed

section \<open>Programs that allocate\<close>

text \<open>
  A program asks for memory and gives back what it got, in any order; a system call may be refused at any time.  The second
  component of the state lists the blocks that it holds, by the addresses of their headers.
\<close>

datatype uop = Malloc "uint \<Rightarrow> bool" uint | Free uint

fun uop_step :: "uop \<Rightarrow> uheap \<times> uint list \<Rightarrow> (uheap \<times> uint list) option" where
  "uop_step (Malloc grant nbytes) (s, hs) = map_option (\<lambda>(r, s1). (s1, if r = 0 then hs else (r - 8) # hs)) (malloc grant nbytes s)"
| "uop_step (Free b) (s, hs) = (if b \<in> set hs then map_option (\<lambda>s1. (s1, remove1 b hs)) (free (b + 8) s) else Some (s, hs))"

fun uop_run :: "uop list \<Rightarrow> uheap \<times> uint list \<Rightarrow> (uheap \<times> uint list) option" where
  "uop_run [] st = Some st"
| "uop_run (x # xs) st = Option.bind (uop_step x st) (uop_run xs)"

fun uop_ok :: "uop \<Rightarrow> bool" where
  "uop_ok (Malloc grant nbytes) \<longleftrightarrow> bounded grant \<and> unat nbytes \<le> 2 ^ 30"
| "uop_ok (Free b) \<longleftrightarrow> True"

definition disjoint_blocks :: "uheap \<Rightarrow> uint list \<Rightarrow> bool" where
  "disjoint_blocks s hs \<longleftrightarrow> sorted_wrt (\<lambda>a b. bytes_of s a \<inter> bytes_of s b = {}) hs"

definition live_ok :: "uheap \<Rightarrow> uint list \<Rightarrow> uint list \<Rightarrow> bool" where
  "live_ok s bs hs \<longleftrightarrow> uheap_ok s bs \<and> (freep s = 0 \<longrightarrow> hs = []) \<and> (\<forall>h \<in> set hs. held s bs h) \<and> disjoint_blocks s hs"

lemma held_stays:
  assumes "held s bs h" "untouched X s s'" "X \<inter> bytes_of s h = {}" "base s' = base s" "brk s \<le> brk s'" "free_bytes s' bs' \<subseteq> X"
  shows "held s' bs' h" "bytes_of s' h = bytes_of s h"
proof -
  have "h \<noteq> base s" "unat h \<notin> X" using assms(1,3) header_held [OF assms(1)] by (auto simp: held_def)
  then have "hsize s' h = hsize s h" using assms(2) by (simp add: untouched_def)
  then have u: "upper s' h = upper s h" "hsize s' h = hsize s h" by (auto simp: upper_def)
  then show b: "bytes_of s' h = bytes_of s h" by (simp add: bytes_of_def)
  show "held s' bs' h" using assms u b by (auto simp: held_def word_le_nat_alt)
qed

lemma disjoint_cong: "(\<And>h. h \<in> set hs \<Longrightarrow> bytes_of s' h = bytes_of s h) \<Longrightarrow> disjoint_blocks s' hs = disjoint_blocks s hs"
  unfolding disjoint_blocks_def by (induction hs) auto

lemma disjoint_remove1:
  "disjoint_blocks s hs \<Longrightarrow> b \<in> set hs \<Longrightarrow> disjoint_blocks s (remove1 b hs) \<and> (\<forall>h \<in> set (remove1 b hs). bytes_of s b \<inter> bytes_of s h = {})"
  unfolding disjoint_blocks_def by (induction hs) (auto dest: notin_set_remove1)

lemma step_malloc:
  assumes "live_ok s bs hs" "bounded grant" "unat nbytes \<le> 2 ^ 30"
  shows "\<exists>s' bs' hs'. uop_step (Malloc grant nbytes) (s, hs) = Some (s', hs') \<and> live_ok s' bs' hs'"
proof -
  have l: "uheap_ok s bs" "\<And>h. h \<in> set hs \<Longrightarrow> held s bs h" "disjoint_blocks s hs" using assms(1) by (auto simp: live_ok_def)
  obtain r bs' where m: "malloc grant nbytes s = Some r" "allocated s bs nbytes r bs'" using malloc_ok [OF l(1) assms(2,3)] by blast
  let ?X = "free_bytes s bs \<union> {unat (brk s) ..< unat (brk (snd r))}"
  have a: "freep (snd r) \<noteq> 0" "uheap_ok (snd r) bs'" "base (snd r) = base s" "brk s \<le> brk (snd r)" "untouched ?X s (snd r)"
    "free_bytes (snd r) bs' \<subseteq> ?X" using m(2) by (auto simp: allocated_def untouched_def split: if_splits)
  have X: "?X \<inter> bytes_of s h = {}" if "h \<in> set hs" for h using l(2) [OF that] by (auto simp: held_def bytes_of_def)
  have k: "held (snd r) bs' h" "bytes_of (snd r) h = bytes_of s h" if "h \<in> set hs" for h
    using held_stays [OF l(2) [OF that] a(5) X [OF that] a(3,4,6)] by auto
  have d: "disjoint_blocks (snd r) hs" using disjoint_cong [OF k(2)] l(3) by simp
  have live: "live_ok (snd r) bs' (if fst r = 0 then hs else (fst r - 8) # hs)"
  proof (cases "fst r = 0")
    case True
    then show ?thesis using a k(1) d by (simp add: live_ok_def)
  next
    case False
    then have "held (snd r) bs' (fst r - 8)" "bytes_of (snd r) (fst r - 8) \<subseteq> ?X" using m(2) by (auto simp: allocated_def)
    moreover from this(2) have "\<forall>h \<in> set hs. bytes_of (snd r) (fst r - 8) \<inter> bytes_of (snd r) h = {}" using X k(2) by blast
    ultimately show ?thesis using False a k(1) d by (simp add: live_ok_def disjoint_blocks_def)
  qed
  moreover have "uop_step (Malloc grant nbytes) (s, hs) = Some (snd r, if fst r = 0 then hs else (fst r - 8) # hs)"
    using m(1) by (simp add: case_prod_unfold)
  ultimately show ?thesis by blast
qed

lemma step_free:
  assumes "live_ok s bs hs"
  shows "\<exists>s' bs' hs'. uop_step (Free b) (s, hs) = Some (s', hs') \<and> live_ok s' bs' hs'"
proof (cases "b \<in> set hs")
  case True
  have l: "heap_ok s bs" "unat (brk s) \<le> 2 ^ 31" "\<And>h. h \<in> set hs \<Longrightarrow> held s bs h" "disjoint_blocks s hs"
    using assms True by (auto simp: live_ok_def uheap_ok_def split: if_splits)
  let ?X = "free_bytes s bs \<union> bytes_of s b"
  obtain s' bs' where f: "free (b + 8) s = Some s'" "heap_ok s' bs'" "free_bytes s' bs' = ?X" "brk s' = brk s" "base s' = base s"
    "untouched ?X s s'" using free_ok [OF l(1), of "b + 8"] l(3) [OF True] by auto
  have r: "disjoint_blocks s (remove1 b hs)" "\<forall>h \<in> set (remove1 b hs). bytes_of s b \<inter> bytes_of s h = {}"
    using disjoint_remove1 [OF l(4) True] by auto
  have k: "held s' bs' h" "bytes_of s' h = bytes_of s h" if h: "h \<in> set (remove1 b hs)" for h
  proof -
    have "held s bs h" using l(3) notin_set_remove1 h by metis
    moreover from this have "?X \<inter> bytes_of s h = {}" using r(2) h by (auto simp: held_def)
    ultimately show "held s' bs' h" "bytes_of s' h = bytes_of s h" using held_stays [OF _ f(6), of bs h bs'] f(3-5) by simp_all
  qed
  then have "live_ok s' bs' (remove1 b hs)"
    using f l(2) heap_ok_nonzero [OF f(2)] disjoint_cong [OF k(2)] r(1) by (simp add: live_ok_def uheap_ok_def)
  then show ?thesis using True f(1) by auto
qed (use assms in auto)

lemma uop_run_ok:
  "live_ok s bs hs \<Longrightarrow> \<forall>x \<in> set xs. uop_ok x \<Longrightarrow> \<exists>s' bs' hs'. uop_run xs (s, hs) = Some (s', hs') \<and> live_ok s' bs' hs'"
proof (induction xs arbitrary: s bs hs)
  case (Cons x xs)
  have "\<exists>s1 bs1 hs1. uop_step x (s, hs) = Some (s1, hs1) \<and> live_ok s1 bs1 hs1"
  proof (cases x)
    case (Malloc grant nbytes)
    have "bounded grant" "unat nbytes \<le> 2 ^ 30" using Cons.prems(2) Malloc by simp_all
    then show ?thesis unfolding Malloc by (rule step_malloc [OF Cons.prems(1)])
  next
    case (Free b)
    show ?thesis unfolding Free by (rule step_free [OF Cons.prems(1)])
  qed
  then obtain s1 bs1 hs1 where x: "uop_step x (s, hs) = Some (s1, hs1)" "live_ok s1 bs1 hs1" by blast
  then show ?case using Cons.IH [OF x(2)] Cons.prems(2) by simp
qed auto

text \<open>The bound on the requests is needed: the units of a very large one wrap around, and it gets a block that is all header.\<close>

lemma units_wrap: "units 0xFFFFFFFF = 1" "units 0xFFFFFFFA = 1"
  by (simp_all add: units_def)

section \<open>Properties\<close>

definition demo_uheap :: uheap where
  "demo_uheap = \<lparr>hptr = \<lambda>_. 0, hsize = \<lambda>_. 0, freep = 0, base = 2048, brk = 4096\<rparr>"

definition two_gigabytes :: "uint \<Rightarrow> bool" where
  "two_gigabytes z \<longleftrightarrow> z \<le> 0x80000000"

lemma demo_uheap_ok: "uheap_ok demo_uheap []" "bounded two_gigabytes" "live_ok demo_uheap [] []"
  by (auto simp: uheap_ok_def demo_uheap_def bounded_def two_gigabytes_def word_le_nat_alt live_ok_def disjoint_blocks_def)





end
