(* ===== verification/Mkfs.thy ===== *)
theory Mkfs
  imports FsRead
begin

text \<open>
  The program that makes the file system image on the host (\<^verbatim>\<open>mkfs.c\<close>).  The image is a file of sectors: reading behind
  its end fails, writing there makes it longer.  The failures of the host's own disk are left out.  A buffer of which
  \<^verbatim>\<open>wsect\<close> takes 512 bytes although it is smaller has bytes behind it that are arguments of the model.
\<close>

section \<open>Byte order\<close>

text \<open>On a little-endian host, which reads the word \<^verbatim>\<open>y\<close> back from the bytes it was given.\<close>

definition xshort :: "ushort \<Rightarrow> ushort" where
  "xshort x = get_u16 ((\<lambda>_. 0)(0 := ucast x, 1 := ucast (drop_bit 8 x))) 0"

definition xint :: "uint \<Rightarrow> uint" where
  "xint x = get_u32 ((\<lambda>_. 0)(0 := ucast x, 1 := ucast (drop_bit 8 x), 2 := ucast (drop_bit 16 x), 3 := ucast (drop_bit 24 x))) 0"

section \<open>Sectors and inodes\<close>

record mkfs =
  img :: "uint \<Rightarrow> bytes"
  nsect :: uint
  jblocks :: uint
  freeblock :: uint
  usedblocks :: uint
  freeinode :: uint

definition ninodes :: uint where "ninodes = 200"

definition wsect :: "uint \<Rightarrow> bytes \<Rightarrow> mkfs \<Rightarrow> mkfs" where
  "wsect sec buf s = s\<lparr>img := (img s)(sec := buf), nsect := max (nsect s) (sec + 1)\<rparr>"

definition rsect :: "uint \<Rightarrow> mkfs \<Rightarrow> bytes outcome" where
  "rsect sec s = (if sec < nsect s then Ret (img s sec) else Panic ''read'')"

definition i2b :: "uint \<Rightarrow> mkfs \<Rightarrow> uint" where
  "i2b inum s = inum div IPB + 2 + jblocks s"

definition winode :: "uint \<Rightarrow> dinode \<Rightarrow> mkfs \<Rightarrow> mkfs outcome" where
  "winode inum ip s =
     (let bn = i2b inum s in
      obind (rsect bn s) (\<lambda>buf. Ret (wsect bn (put_dinode buf (dinode_off inum) ip) s)))"

definition rinode :: "uint \<Rightarrow> mkfs \<Rightarrow> dinode outcome" where
  "rinode inum s = obind (rsect (i2b inum s) s) (\<lambda>buf. Ret (get_dinode buf (dinode_off inum)))"

definition ialloc :: "ushort \<Rightarrow> mkfs \<Rightarrow> (uint \<times> mkfs) outcome" where
  "ialloc type s =
     (let inum = freeinode s;
        din = \<lparr>d_type = xshort type, d_major = 0, d_minor = 0, d_nlink = xshort 1, d_size = xint 0, d_addrs = (\<lambda>_. 0)\<rparr>
      in obind (winode inum din (s\<lparr>freeinode := inum + 1\<rparr>)) (\<lambda>s1. Ret (inum, s1)))"

section \<open>The journal and the bitmap\<close>

text \<open>\<^verbatim>\<open>struct jsblock\<close> at the front of the bytes \<open>stack\<close> that follow it.\<close>

definition jsb_bytes :: "uint \<Rightarrow> uint \<Rightarrow> uint \<Rightarrow> uint \<Rightarrow> bytes \<Rightarrow> bytes" where
  "jsb_bytes sz head tail stamp stack = put_u32 (put_u32 (put_u32 (put_u32 stack 0 sz) 4 head) 8 tail) 12 stamp"

definition jinit :: "bytes \<Rightarrow> mkfs \<Rightarrow> mkfs" where
  "jinit stack s = wsect 2 (jsb_bytes (xint (jblocks s - 1)) (xint 3) (xint 3) (xint 0) stack) s"

definition bpj1 :: bytes where
  "bpj1 i = [0x42, 0x50, 0x4A, 0x31] ! (i mod 4)"

definition jtest :: "bytes \<Rightarrow> bytes \<Rightarrow> mkfs \<Rightarrow> mkfs" where
  "jtest stack1 stack2 s =
     (let s1 = wsect 2 (jsb_bytes (xint (jblocks s - 1)) (xint 3) (xint 8) (xint 0) stack1) s;
        trans = put_u32 (put_u32 stack2 0 (xint 555)) 4 (xint 5);
        trans1 = fold (\<lambda>k d. put_u32 d (8 + 4 * k) (xint (freeblock s + of_nat k + 1))) [0 ..< 5] trans;
        s2 = wsect 3 trans1 s1
      in fold (\<lambda>b. wsect b bpj1) [4, 5, 6, 7, 8] s2)"

definition mk_balloc :: "uint \<Rightarrow> mkfs \<Rightarrow> mkfs outcome" where
  "mk_balloc used s =
     (if unat used > 4096 then Fault ''balloc: buf''
      else Ret (wsect (ninodes div IPB + jblocks s + 3) (fold mark_used [0 ..< unat used] (\<lambda>_. 0)) s))"

section \<open>Appending to a file\<close>

definition take_free :: "mkfs \<Rightarrow> mkfs" where
  "take_free s = s\<lparr>freeblock := freeblock s + 1, usedblocks := usedblocks s + 1\<rparr>"

text \<open>Entry \<open>k\<close> of an indirect block, and entry \<open>k\<close> of the inode; a missing one gets the next free block.\<close>

definition indirect_entry :: "uint \<Rightarrow> nat \<Rightarrow> mkfs \<Rightarrow> (uint \<times> mkfs) outcome" where
  "indirect_entry sec k s =
     obind (rsect sec s) (\<lambda>indirect.
       if get_u32 indirect (4 * k) = 0 then
         (let indirect1 = put_u32 indirect (4 * k) (xint (freeblock s)) in
          Ret (xint (get_u32 indirect1 (4 * k)), wsect sec indirect1 (take_free s)))
       else Ret (xint (get_u32 indirect (4 * k)), s))"

definition inode_entry :: "nat \<Rightarrow> dinode \<Rightarrow> mkfs \<Rightarrow> dinode \<times> mkfs" where
  "inode_entry k din s =
     (if xint (d_addrs din k) = 0 then (din\<lparr>d_addrs := (d_addrs din)(k := xint (freeblock s))\<rparr>, take_free s) else (din, s))"

definition iappend_block :: "uint \<Rightarrow> dinode \<Rightarrow> mkfs \<Rightarrow> (uint \<times> dinode \<times> mkfs) outcome" where
  "iappend_block fbn din s =
     (if fbn < NDIRECT then
        (let (din1, s1) = inode_entry (unat fbn) din s in Ret (xint (d_addrs din1 (unat fbn)), din1, s1))
      else
        (let (din1, s1) = inode_entry INDIRECT din s in
         obind (indirect_entry (xint (d_addrs din1 INDIRECT)) (unat ((fbn - NDIRECT) div 128)) s1) (\<lambda>(sect, s2).
         obind (indirect_entry sect (unat ((fbn - NDIRECT) mod 128)) s2) (\<lambda>(x, s3).
         Ret (x, din1, s3)))))"

lemma room_left: "unat ((off div 512 + 1) * 512 - off :: uint) = 512 - unat off mod 512"
proof -
  have "off div 512 * 512 = off - off mod 512" by (rule minus_mod_eq_div_mult [symmetric])
  then have e: "(off div 512 + 1) * 512 - off = 512 - off mod 512" unfolding distrib_right by simp
  have "off mod 512 \<le> 512" by (simp add: word_le_nat_alt unat_mod less_imp_le)
  then show ?thesis unfolding e by (simp add: unat_sub unat_mod)
qed

function iappend_loop :: "uint \<Rightarrow> uchar list \<Rightarrow> dinode \<Rightarrow> mkfs \<Rightarrow> (uint \<times> dinode \<times> mkfs) outcome" where
  "iappend_loop off p din s =
     (if p = [] then Ret (off, din, s)
      else
        (let fbn = off div 512 in
         if \<not> fbn < MAXFILE then Panic ''assert''
         else
           obind (iappend_block fbn din s) (\<lambda>(x, din1, s1).
             let n1 = min (length p) (unat ((fbn + 1) * 512 - off)) in
             obind (rsect x s1) (\<lambda>buf.
               iappend_loop (off + of_nat n1) (drop n1 p) din1 (wsect x (put_bytes (unat (off - fbn * 512)) (take n1 p) buf) s1)))))"
  by pat_completeness auto
termination
proof (relation "measure (\<lambda>(off, p, din, s). length p)", goal_cases)
  case (2 off p)
  then show ?case using room_left [of off] by auto
qed simp

declare iappend_loop.simps [simp del]

definition iappend :: "uint \<Rightarrow> uchar list \<Rightarrow> mkfs \<Rightarrow> mkfs outcome" where
  "iappend inum p s =
     obind (rinode inum s) (\<lambda>din.
     obind (iappend_loop (xint (d_size din)) p din s) (\<lambda>(off, din1, s1).
     winode inum (din1\<lparr>d_size := xint off\<rparr>) s1))"

section \<open>main\<close>

text \<open>A file of the host: its name and the pieces in which \<^verbatim>\<open>read\<close> returns it, if it can be opened.\<close>

type_synonym hostfile = "uchar list \<times> uchar list list option"

primrec append_pieces :: "uint \<Rightarrow> uchar list list \<Rightarrow> mkfs \<Rightarrow> mkfs outcome" where
  "append_pieces inum [] s = Ret s"
| "append_pieces inum (p # ps) s = obind (iappend inum p s) (append_pieces inum ps)"

definition link_root :: "uint \<Rightarrow> uint \<Rightarrow> uchar list \<Rightarrow> mkfs \<Rightarrow> mkfs outcome" where
  "link_root rootino inum name s = iappend rootino (dirent_bytes \<lparr>de_inum = xshort (ucast inum), de_name = pad_name name\<rparr>) s"

definition skip_underscore :: "uchar list \<Rightarrow> uchar list" where
  "skip_underscore name = (if name \<noteq> [] \<and> hd name = 95 then tl name else name)"

fun add_file :: "uint \<Rightarrow> hostfile \<Rightarrow> mkfs \<Rightarrow> mkfs outcome" where
  "add_file rootino (name, contents) s =
     (if SLASH \<in> set name then Panic ''assert''
      else (case contents of
        None \<Rightarrow> Panic ''open''
      | Some pieces \<Rightarrow>
          obind (ialloc T_FILE s) (\<lambda>(inum, s1).
          obind (link_root rootino inum (skip_underscore name) s1) (append_pieces inum pieces))))"

primrec add_files :: "uint \<Rightarrow> hostfile list \<Rightarrow> mkfs \<Rightarrow> mkfs outcome" where
  "add_files rootino [] s = Ret s"
| "add_files rootino (f # fs) s = obind (add_file rootino f s) (add_files rootino fs)"

definition fix_root :: "uint \<Rightarrow> mkfs \<Rightarrow> mkfs outcome" where
  "fix_root rootino s =
     obind (rinode rootino s) (\<lambda>din.
       let off = xint (d_size din); off1 = (off div BSIZE + 1) * BSIZE in
       winode rootino (din\<lparr>d_size := xint off1\<rparr>) s)"

definition mkfs_layout :: "uint \<Rightarrow> bytes \<Rightarrow> mkfs" where
  "mkfs_layout sz globals =
     (let bitblocks = sz div (512 * 8) + 1;
        used = ninodes div IPB + 3 + bitblocks + NJB;
        nblocks = sz - used;
        s = \<lparr>img = (\<lambda>_ _. 0), nsect = 0, jblocks = NJB, freeblock = used, usedblocks = used, freeinode = 1\<rparr>;
        s1 = fold (\<lambda>i. wsect (of_nat i) (\<lambda>_. 0)) [0 ..< unat (nblocks + used)] s
      in wsect 1 (put_u32 (put_u32 (put_u32 globals 0 (xint sz)) 4 (xint nblocks)) 8 (xint ninodes)) s1)"

definition mkfs_main :: "bytes \<Rightarrow> bytes \<Rightarrow> int \<Rightarrow> bool \<Rightarrow> hostfile list \<Rightarrow> mkfs outcome" where
  "mkfs_main globals stack kb_fs_size opened files =
     (if kb_fs_size < 1 then Panic ''usage''
      else if \<not> kb_fs_size \<le> 32767 then Panic ''assert''
      else if \<not> opened then Panic ''open''
      else
        (let s = jinit stack (mkfs_layout (of_int (kb_fs_size * 1024 div 512)) globals) in
         obind (ialloc T_DIR s) (\<lambda>(rootino, s1).
         if rootino \<noteq> 1 then Panic ''assert''
         else
           obind (link_root rootino rootino [46] s1) (\<lambda>s2.
           obind (link_root rootino rootino [46, 46] s2) (\<lambda>s3.
           obind (add_files rootino files s3) (\<lambda>s4.
           obind (fix_root rootino s4) (\<lambda>s5.
           mk_balloc (usedblocks s5) s5)))))))"

end
