(* ===== verification/MkfsImage.thy ===== *)
theory MkfsImage
  imports Mkfs
begin

text \<open>
  The image that \<^verbatim>\<open>mkfs\<close> writes.  The blocks of all the files form a forest of pointers in which no block occurs twice;
  the program only ever sets one missing pointer to a fresh block or fills a data block.
\<close>

section \<open>Pointers\<close>

text \<open>The blocks of a file, the block that holds the pointer to each and its place there.\<close>

datatype blk = Dat nat | Ind | Ind2 nat

fun parent :: "blk \<Rightarrow> blk option" where
  "parent (Dat n) = (if n < 12 then None else Some (Ind2 ((n - 12) div 128)))"
| "parent Ind = None"
| "parent (Ind2 j) = Some Ind"

fun slot :: "blk \<Rightarrow> nat" where
  "slot (Dat n) = (if n < 12 then n else (n - 12) mod 128)"
| "slot Ind = 12"
| "slot (Ind2 j) = j"

fun baddr :: "(uint \<Rightarrow> bytes) \<Rightarrow> (nat \<Rightarrow> uint) \<Rightarrow> blk \<Rightarrow> uint" where
  "baddr m a (Dat n) = (if n < 12 then a n else get_u32 (m (get_u32 (m (a 12)) (4 * ((n - 12) div 128)))) (4 * ((n - 12) mod 128)))"
| "baddr m a Ind = a 12"
| "baddr m a (Ind2 j) = get_u32 (m (a 12)) (4 * j)"

lemma baddr_parent: "baddr m a t = (case parent t of None \<Rightarrow> a (slot t) | Some p \<Rightarrow> get_u32 (m (baddr m a p)) (4 * slot t))"
  by (cases t) auto

declare baddr.simps [simp del]

lemma slot_inj: "parent t = parent u \<Longrightarrow> slot t = slot u \<Longrightarrow> t = u"
proof (cases t; cases u)
  fix n k assume h: "parent t = parent u" "slot t = slot u" "t = Dat n" "u = Dat k"
  show "t = u"
  proof (cases "n < 12 \<or> k < 12")
    case False
    then have "(n - 12) div 128 = (k - 12) div 128" "(n - 12) mod 128 = (k - 12) mod 128" using h by auto
    then have "n - 12 = k - 12" by (metis div_mult_mod_eq)
    then have "n = k" using False by linarith
    then show ?thesis using h by simp
  qed (use h in \<open>auto split: if_splits\<close>)
qed (auto split: if_splits)

lemma parent_induct [case_names step]:
  assumes "\<And>t. (\<And>p. parent t = Some p \<Longrightarrow> P p) \<Longrightarrow> P t"
  shows "P t"
proof -
  have i: "P Ind" by (rule assms) simp
  have j: "P (Ind2 k)" for k by (rule assms) (use i in simp)
  show ?thesis by (rule assms) (use i j in \<open>cases t; auto split: if_splits\<close>)
qed

section \<open>Forests\<close>

text \<open>
  \<open>m\<close> is the image, \<open>A i\<close> the addresses in inode \<open>i\<close>, and \<open>L\<close> the blocks in use.  They are the blocks from \<open>lo\<close> to \<open>hi\<close>, each
  under one pointer; the pointers that are not in use are 0, and the blocks from \<open>hi\<close> on are blank.
\<close>

definition linked :: "(nat \<times> blk) set \<Rightarrow> nat \<Rightarrow> blk \<Rightarrow> bool" where
  "linked L i t \<longleftrightarrow> (case parent t of None \<Rightarrow> True | Some p \<Rightarrow> (i, p) \<in> L)"

definition forest :: "(uint \<Rightarrow> bytes) \<Rightarrow> (nat \<Rightarrow> nat \<Rightarrow> uint) \<Rightarrow> (nat \<times> blk) set \<Rightarrow> nat \<Rightarrow> nat \<Rightarrow> bool" where
  "forest m A L lo hi \<longleftrightarrow> 0 < lo
     \<and> (\<forall>(i, t) \<in> L. linked L i t \<and> lo \<le> unat (baddr m (A i) t) \<and> unat (baddr m (A i) t) < hi)
     \<and> inj_on (\<lambda>(i, t). baddr m (A i) t) L
     \<and> (\<forall>b. hi \<le> unat b \<longrightarrow> m b = (\<lambda>_. 0))
     \<and> (\<forall>i t. (i, t) \<notin> L \<longrightarrow> linked L i t \<longrightarrow> baddr m (A i) t = 0)
     \<and> finite L \<and> hi = lo + card L"

definition set_addr :: "blk \<Rightarrow> uint \<Rightarrow> (nat \<Rightarrow> uint) \<Rightarrow> nat \<Rightarrow> uint" where
  "set_addr t v a = (case parent t of None \<Rightarrow> a(slot t := v) | Some p \<Rightarrow> a)"

definition set_entry :: "blk \<Rightarrow> uint \<Rightarrow> (nat \<Rightarrow> uint) \<Rightarrow> (uint \<Rightarrow> bytes) \<Rightarrow> uint \<Rightarrow> bytes" where
  "set_entry t v a m = (case parent t of None \<Rightarrow> m | Some p \<Rightarrow> m(baddr m a p := put_u32 (m (baddr m a p)) (4 * slot t) v))"

lemma forest_linked: "forest m A L lo hi \<Longrightarrow> (i, t) \<in> L \<Longrightarrow> linked L i t"
  by (auto simp: forest_def)

lemma forest_range: "forest m A L lo hi \<Longrightarrow> (i, t) \<in> L \<Longrightarrow> lo \<le> unat (baddr m (A i) t) \<and> unat (baddr m (A i) t) < hi"
  by (auto simp: forest_def)

lemma forest_inj: "forest m A L lo hi \<Longrightarrow> (i, t) \<in> L \<Longrightarrow> (j, u) \<in> L \<Longrightarrow> baddr m (A i) t = baddr m (A j) u \<Longrightarrow> i = j \<and> t = u"
  by (force simp: forest_def inj_on_def)

lemma forest_blank: "forest m A L lo hi \<Longrightarrow> (i, t) \<notin> L \<Longrightarrow> linked L i t \<Longrightarrow> baddr m (A i) t = 0"
  by (auto simp: forest_def)

lemma linked_parent: "linked L i t \<Longrightarrow> parent t = Some p \<Longrightarrow> (i, p) \<in> L"
  by (simp add: linked_def)

lemma get_u32_zero [simp]: "get_u32 (\<lambda>_. 0) k = 0"
  by (simp add: get_u32_def)

text \<open>Setting one pointer leaves the others alone.\<close>

lemma set_keeps:
  assumes "forest m A L lo hi" "linked L c t" "linked L i u" "(i, u) \<noteq> (c, t)" "(c, t) \<notin> L"
  shows "baddr (set_entry t v (A c) m) ((A(c := set_addr t v (A c))) i) u = baddr m (A i) u"
  using assms(3,4)
proof (induction u rule: parent_induct)
  case (step u)
  let ?m = "set_entry t v (A c) m" and ?A = "A(c := set_addr t v (A c))"
  show ?case
  proof (cases "parent u")
    case None
    then have b: "baddr m' a u = a (slot u)" for m' a by (subst baddr_parent) simp
    show ?thesis
    proof (cases "i = c \<and> parent t = None")
      case True
      then have "slot t \<noteq> slot u" using slot_inj [of t u] None step.prems(2) by auto
      then show ?thesis using True b by (simp add: set_addr_def)
    qed (auto simp: b set_addr_def split: option.split)
  next
    case (Some p)
    have p: "(i, p) \<in> L" using step.prems(1) Some by (rule linked_parent)
    have same: "baddr ?m (?A i) p = baddr m (A i) p"
      using step.IH [OF Some] forest_linked [OF assms(1) p] p assms(5) by metis
    have "get_u32 (?m (baddr m (A i) p)) (4 * slot u) = get_u32 (m (baddr m (A i) p)) (4 * slot u)"
    proof (cases "parent t")
      case t: (Some q)
      have q: "(c, q) \<in> L" using assms(2) t by (rule linked_parent)
      show ?thesis
      proof (cases "baddr m (A i) p = baddr m (A c) q")
        case True
        then have "i = c" "p = q" using forest_inj [OF assms(1) p q] by auto
        then have "slot t \<noteq> slot u" using slot_inj [of t u] Some t step.prems(2) by auto
        then have "get_u32 (put_u32 d (4 * slot t) v) (4 * slot u) = get_u32 d (4 * slot u)" for d by (intro get_put_u32_other) linarith
        then show ?thesis using True t by (simp add: set_entry_def)
      qed (simp add: set_entry_def t)
    qed (simp add: set_entry_def)
    then show ?thesis using same Some by (subst (1 2) baddr_parent) simp
  qed
qed

lemma set_there:
  assumes "forest m A L lo hi" "linked L c t" "(c, t) \<notin> L"
  shows "baddr (set_entry t v (A c) m) (set_addr t v (A c)) t = v"
proof (cases "parent t")
  case None
  then show ?thesis by (subst baddr_parent) (simp add: set_addr_def)
next
  case (Some p)
  have p: "(c, p) \<in> L" using assms(2) Some by (rule linked_parent)
  have "baddr (set_entry t v (A c) m) (set_addr t v (A c)) p = baddr m (A c) p"
    using set_keeps [OF assms(1,2) forest_linked [OF assms(1) p] _ assms(3), of v] p assms(3) by auto
  then show ?thesis using Some by (subst baddr_parent) (simp add: set_entry_def)
qed

lemma set_entry_outside:
  "forest m A L lo hi \<Longrightarrow> linked L c t \<Longrightarrow> \<forall>p. (c, p) \<in> L \<longrightarrow> parent t = Some p \<longrightarrow> b \<noteq> baddr m (A c) p \<Longrightarrow> set_entry t v (A c) m b = m b"
  by (auto simp: set_entry_def linked_def split: option.splits)

lemma forest_set:
  assumes "forest m A L lo hi" "linked L c t" "(c, t) \<notin> L" "hi < 2 ^ 32"
  shows "forest (set_entry t (of_nat hi) (A c) m) (A(c := set_addr t (of_nat hi) (A c))) (insert (c, t) L) lo (hi + 1)"
proof -
  let ?v = "of_nat hi :: uint"
  let ?m = "set_entry t ?v (A c) m" and ?A = "A(c := set_addr t ?v (A c))" and ?L = "insert (c, t) L"
  have v: "unat ?v = hi" using assms(4) by (simp add: unat_of_nat)
  have keep: "baddr ?m (?A i) u = baddr m (A i) u" if "linked L i u" "(i, u) \<noteq> (c, t)" for i u
    using set_keeps [OF assms(1,2) that assms(3)] .
  have there: "baddr ?m (?A c) t = ?v" using set_there [OF assms(1-3)] by simp
  have lk: "linked ?L i u" if "linked L i u" for i u using that by (auto simp: linked_def split: option.splits)
  have old: "baddr ?m (?A i) u = baddr m (A i) u" if "(i, u) \<in> L" for i u using forest_linked [OF assms(1) that] that assms(3) by (intro keep) auto
  have r: "linked ?L i u \<and> lo \<le> unat (baddr ?m (?A i) u) \<and> unat (baddr ?m (?A i) u) < hi + 1" if "(i, u) \<in> ?L" for i u
  proof (cases "(i, u) \<in> L")
    case True
    then show ?thesis using lk forest_linked [OF assms(1) True] forest_range [OF assms(1) True] unfolding old [OF True] by simp
  next
    case False
    then have "i = c" "u = t" using that by auto
    moreover have "lo \<le> hi" using assms(1) by (simp add: forest_def)
    ultimately show ?thesis using lk [OF assms(2)] there v by simp
  qed
  have inj: "inj_on (\<lambda>(i, t). baddr ?m (?A i) t) ?L"
  proof -
    have e: "\<forall>x \<in> L. (\<lambda>(i, t). baddr ?m (?A i) t) x = (\<lambda>(i, t). baddr m (A i) t) x" using old by (auto simp del: fun_upd_apply)
    then have "inj_on (\<lambda>(i, t). baddr ?m (?A i) t) L" using assms(1) unfolding forest_def by (subst inj_on_cong) auto
    moreover have "?v \<noteq> baddr ?m (?A i) u" if "(i, u) \<in> L" for i u
      using forest_range [OF assms(1) that] old [OF that] v by (metis less_irrefl)
    ultimately show ?thesis using there assms(3) by (auto simp: inj_on_insert simp del: fun_upd_apply)
  qed
  have z: "?m b = (\<lambda>_. 0)" if "hi + 1 \<le> unat b" for b
  proof -
    have "b \<noteq> baddr m (A c) p" if "(c, p) \<in> L" for p using forest_range [OF assms(1) that] \<open>hi + 1 \<le> unat b\<close> by auto
    then show ?thesis using set_entry_outside [OF assms(1,2)] that assms(1) by (auto simp: forest_def)
  qed
  have bl: "baddr ?m (?A i) u = 0" if "(i, u) \<notin> ?L" "linked ?L i u" for i u
  proof (cases "linked L i u")
    case True
    moreover have "(i, u) \<noteq> (c, t)" "(i, u) \<notin> L" using that(1) by auto
    ultimately show ?thesis using keep [of i u] forest_blank [OF assms(1)] by simp
  next
    case False
    then have u: "parent u = Some t" "i = c" using that(2) by (auto simp: linked_def split: option.splits)
    have "?v \<noteq> baddr m (A c) p" if "(c, p) \<in> L" for p using forest_range [OF assms(1) that] v by auto
    then have "?m ?v = (\<lambda>_. 0)" using set_entry_outside [OF assms(1,2)] assms(1) v by (auto simp: forest_def)
    then show ?thesis using u there by (subst baddr_parent) simp
  qed
  have "\<forall>(i, u) \<in> ?L. linked ?L i u \<and> lo \<le> unat (baddr ?m (?A i) u) \<and> unat (baddr ?m (?A i) u) < hi + 1"
    by (intro ballI, clarify) (rule r)
  moreover have "0 < lo" "finite ?L" "hi + 1 = lo + card ?L" using assms(1,3) by (auto simp: forest_def)
  ultimately show ?thesis unfolding forest_def using inj z bl by blast
qed

text \<open>The data of the files is not part of the forest, and the sectors below \<open>lo\<close> neither.\<close>

lemma data_keeps:
  assumes "forest m A L lo hi" "\<And>i p u. (i, p) \<in> L \<Longrightarrow> parent u = Some p \<Longrightarrow> m' (baddr m (A i) p) = m (baddr m (A i) p)" "linked L i u"
  shows "baddr m' (A i) u = baddr m (A i) u"
  using assms(3)
proof (induction u rule: parent_induct)
  case (step u)
  show ?case
  proof (cases "parent u")
    case (Some p)
    have p: "(i, p) \<in> L" using step.prems Some by (rule linked_parent)
    then have "baddr m' (A i) p = baddr m (A i) p" using step.IH [OF Some] forest_linked [OF assms(1)] by blast
    then show ?thesis using assms(2) [OF p Some] Some by (subst (1 2) baddr_parent) simp
  qed (subst (1 2) baddr_parent, simp)
qed

lemma forest_data:
  assumes "forest m A L lo hi" "\<And>i p u. (i, p) \<in> L \<Longrightarrow> parent u = Some p \<Longrightarrow> m' (baddr m (A i) p) = m (baddr m (A i) p)"
    and "\<And>b. hi \<le> unat b \<Longrightarrow> m' b = m b"
  shows "forest m' A L lo hi"
proof -
  have k: "linked L i u \<Longrightarrow> baddr m' (A i) u = baddr m (A i) u" for i u using data_keeps [OF assms(1,2)] .
  have "inj_on (\<lambda>(i, t). baddr m' (A i) t) L = inj_on (\<lambda>(i, t). baddr m (A i) t) L"
    using k forest_linked [OF assms(1)] by (intro inj_on_cong) auto
  moreover have "\<forall>(i, t) \<in> L. linked L i t \<and> lo \<le> unat (baddr m' (A i) t) \<and> unat (baddr m' (A i) t) < hi"
    using k forest_linked [OF assms(1)] forest_range [OF assms(1)] by auto
  ultimately show ?thesis using assms k unfolding forest_def by auto
qed

lemma forest_addrs:
  assumes "forest m A L lo hi" "\<And>i k. k < NADDRS \<Longrightarrow> B i k = A i k"
  shows "forest m B L lo hi"
proof -
  have e: "baddr m (B i) t = baddr m (A i) t" for i t using assms(2) by (cases t) (auto simp: NADDRS_def baddr.simps)
  show ?thesis using assms(1) unfolding forest_def e .
qed

section \<open>Pointers in the program\<close>

lemma xint_id [simp]: "xint x = x"
  using get_put_u32_same [of "\<lambda>_. 0" 0 x] by (simp add: xint_def put_u32_def numeral_2_eq_2)

lemma xshort_id [simp]: "xshort x = x"
  using get_put_u16_same [of "\<lambda>_. 0" 0 x] by (simp add: xshort_def put_u16_def)

definition disk_ok :: "mkfs \<Rightarrow> (nat \<Rightarrow> nat \<Rightarrow> uint) \<Rightarrow> (nat \<times> blk) set \<Rightarrow> nat \<Rightarrow> bool" where
  "disk_ok s A L lo \<longleftrightarrow> forest (img s) A L lo (unat (freeblock s)) \<and> usedblocks s = freeblock s"

text \<open>What a step from \<open>s\<close> to \<open>s'\<close> leaves alone when it changes at most the pointers and the blocks that are not in \<open>L\<close>.\<close>

definition spared :: "nat \<Rightarrow> (nat \<times> blk) set \<Rightarrow> mkfs \<Rightarrow> (nat \<Rightarrow> nat \<Rightarrow> uint) \<Rightarrow> mkfs \<Rightarrow> (nat \<Rightarrow> nat \<Rightarrow> uint) \<Rightarrow> bool" where
  "spared lo L s A s' A' \<longleftrightarrow> nsect s' = nsect s \<and> jblocks s' = jblocks s \<and> freeinode s' = freeinode s
     \<and> (\<forall>b. unat b < lo \<longrightarrow> img s' b = img s b)
     \<and> (\<forall>(i, t) \<in> L. baddr (img s') (A' i) t = baddr (img s) (A i) t)
     \<and> (\<forall>i n. (i, Dat n) \<in> L \<longrightarrow> img s' (baddr (img s) (A i) (Dat n)) = img s (baddr (img s) (A i) (Dat n)))"

lemma spared_refl [simp]: "spared lo L s A s A"
  by (auto simp: spared_def)

lemma spared_mono:
  assumes "spared lo L s A s' A'" "K \<subseteq> L" "\<And>i t. (i, t) \<in> K \<Longrightarrow> B i = A i \<and> B' i = A' i"
  shows "spared lo K s B s' B'"
proof -
  have "baddr (img s') (B' i) t = baddr (img s) (B i) t" if "(i, t) \<in> K" for i t
    using assms(1,2) assms(3) [OF that] that unfolding spared_def by auto
  moreover have "img s' (baddr (img s) (B i) (Dat n)) = img s (baddr (img s) (B i) (Dat n))" if "(i, Dat n) \<in> K" for i n
    using assms(1,2) assms(3) [OF that] that unfolding spared_def by auto
  ultimately show ?thesis using assms(1) by (auto simp: spared_def)
qed

lemma spared_trans:
  assumes "spared lo L s A s1 A1" "spared lo L1 s1 A1 s2 A2" "L \<subseteq> L1"
  shows "spared lo L s A s2 A2"
proof -
  have "baddr (img s1) (A1 i) t = baddr (img s) (A i) t" "baddr (img s2) (A2 i) t = baddr (img s1) (A1 i) t" if "(i, t) \<in> L" for i t
    using assms that unfolding spared_def by blast+
  moreover have "img s2 (baddr (img s1) (A1 i) (Dat n)) = img s1 (baddr (img s1) (A1 i) (Dat n))" if "(i, Dat n) \<in> L" for i n
    using assms(2,3) that unfolding spared_def by blast
  ultimately show ?thesis using assms(1,2) by (auto simp: spared_def)
qed

lemma free_pointer:
  assumes "disk_ok s A L lo" "linked L c t" "(c, t) \<notin> L" "unat (freeblock s) < unat (nsect s)"
    and "s1 = (take_free s)\<lparr>img := set_entry t (freeblock s) (A c) (img s)\<rparr>" "A1 = A(c := set_addr t (freeblock s) (A c))"
  shows "disk_ok s1 A1 (insert (c, t) L) lo" "spared lo L s A s1 A1" "img s1 (freeblock s) = (\<lambda>_. 0)"
proof -
  let ?hi = "unat (freeblock s)"
  have f: "forest (img s) A L lo ?hi" using assms(1) by (simp add: disk_ok_def)
  have hi: "?hi + 1 < 2 ^ 32" using assms(4) unsigned_less [of "nsect s", where ?'a = nat] by simp
  then have hi1: "unat (freeblock s1) = ?hi + 1" using unat_add_uint [of "freeblock s" 1] by (simp add: assms(5) take_free_def)
  have "forest (img s1) A1 (insert (c, t) L) lo (?hi + 1)" using forest_set [OF f assms(2,3)] hi by (simp add: assms(5,6))
  then show "disk_ok s1 A1 (insert (c, t) L) lo"
    using hi1 assms(1) by (simp add: disk_ok_def) (simp add: assms(5) take_free_def disk_ok_def)
  have "freeblock s \<noteq> baddr (img s) (A c) p" if "(c, p) \<in> L" for p using forest_range [OF f that] by auto
  then have "img s1 (freeblock s) = img s (freeblock s)" using set_entry_outside [OF f assms(2)] by (simp add: assms(5))
  then show "img s1 (freeblock s) = (\<lambda>_. 0)" using f by (simp add: forest_def)
  have "baddr (img s1) (A1 i) u = baddr (img s) (A i) u" if u: "(i, u) \<in> L" for i u
  proof -
    have "(i, u) \<noteq> (c, t)" using u assms(3) by blast
    then show ?thesis using set_keeps [OF f assms(2) forest_linked [OF f u] _ assms(3), of "freeblock s"] unfolding assms(5,6) by simp
  qed
  moreover have same: "img s1 b = img s b" if b: "unat b < lo \<or> (\<exists>i n. (i, Dat n) \<in> L \<and> b = baddr (img s) (A i) (Dat n))" for b
  proof -
    have "b \<noteq> baddr (img s) (A c) p" if p: "(c, p) \<in> L" "parent t = Some p" for p
    proof
      assume e: "b = baddr (img s) (A c) p"
      then have "\<not> unat b < lo" using forest_range [OF f p(1)] by simp
      then obtain i n where "(i, Dat n) \<in> L" "b = baddr (img s) (A i) (Dat n)" using b by blast
      then have "p = Dat n" using forest_inj [OF f p(1)] e by metis
      then show False using p(2) by (cases t) (auto split: if_splits)
    qed
    then show ?thesis using set_entry_outside [OF f assms(2)] by (simp add: assms(5))
  qed
  moreover have "img s1 (baddr (img s) (A i) (Dat n)) = img s (baddr (img s) (A i) (Dat n))" if "(i, Dat n) \<in> L" for i n
    using same that by blast
  ultimately show "spared lo L s A s1 A1" by (auto simp: spared_def assms(5) take_free_def)
qed

lemma pointer_there:
  assumes "disk_ok s A L lo" "linked L c t"
  shows "baddr (img s) (A c) t = 0 \<longleftrightarrow> (c, t) \<notin> L"
proof -
  have f: "forest (img s) A L lo (unat (freeblock s))" using assms(1) by (simp add: disk_ok_def)
  have "0 < lo" using f by (simp add: forest_def)
  then show ?thesis using forest_range [OF f] forest_blank [OF f _ assms(2)] by force
qed

lemma inode_entry_ok:
  assumes "disk_ok s (A(c := d_addrs din)) L lo" "parent t = None" "lo + card (insert (c, t) L) \<le> unat (nsect s)"
  shows "\<exists>a s1. inode_entry (slot t) din s = (din\<lparr>d_addrs := a\<rparr>, s1) \<and> disk_ok s1 (A(c := a)) (insert (c, t) L) lo
    \<and> spared lo L s (A(c := d_addrs din)) s1 (A(c := a)) \<and> ((c, t) \<notin> L \<longrightarrow> img s1 (baddr (img s1) a t) = (\<lambda>_. 0))"
proof -
  have l: "linked L c t" using assms(2) by (simp add: linked_def)
  have b: "baddr m a t = a (slot t)" for m a using assms(2) by (subst baddr_parent) simp
  have h: "finite L" "unat (freeblock s) = lo + card L" using assms(1) by (auto simp: disk_ok_def forest_def)
  show ?thesis
  proof (cases "(c, t) \<in> L")
    case True
    then have "d_addrs din (slot t) \<noteq> 0" using pointer_there [OF assms(1) l] by (simp add: b)
    then show ?thesis using True assms(1)
      by (intro exI [of _ "d_addrs din"] exI [of _ s]) (simp add: inode_entry_def insert_absorb)
  next
    case False
    then have z: "d_addrs din (slot t) = 0" using pointer_there [OF assms(1) l] by (simp add: b)
    let ?a = "(d_addrs din)(slot t := freeblock s)"
    have e: "set_addr t v a = a(slot t := v)" "set_entry t v a m = m" for v a m using assms(2) by (auto simp: set_addr_def set_entry_def)
    have "unat (freeblock s) < unat (nsect s)" using h False assms(3) by simp
    then have "disk_ok (take_free s) (A(c := ?a)) (insert (c, t) L) lo" "spared lo L s (A(c := d_addrs din)) (take_free s) (A(c := ?a))"
      "img (take_free s) (freeblock s) = (\<lambda>_. 0)"
      using free_pointer [OF assms(1) l False, of "take_free s" "A(c := ?a)"] by (auto simp: e take_free_def)
    then show ?thesis using z by (intro exI [of _ ?a] exI [of _ "take_free s"]) (simp add: inode_entry_def b)
  qed
qed

lemma indirect_entry_ok:
  assumes "disk_ok s A L lo" "parent t = Some p" "(c, p) \<in> L" "lo + card (insert (c, t) L) \<le> unat (nsect s)"
  shows "\<exists>s1. indirect_entry (baddr (img s) (A c) p) (slot t) s = Ret (baddr (img s1) (A c) t, s1)
    \<and> disk_ok s1 A (insert (c, t) L) lo \<and> spared lo L s A s1 A \<and> ((c, t) \<notin> L \<longrightarrow> img s1 (baddr (img s1) (A c) t) = (\<lambda>_. 0))"
proof -
  let ?sec = "baddr (img s) (A c) p"
  have f: "forest (img s) A L lo (unat (freeblock s))" using assms(1) by (simp add: disk_ok_def)
  have l: "linked L c t" using assms(2,3) by (simp add: linked_def)
  have b: "baddr m a t = get_u32 (m (baddr m a p)) (4 * slot t)" for m a using assms(2) by (subst baddr_parent) simp
  have h: "finite L" "unat (freeblock s) = lo + card L" using f by (auto simp: forest_def)
  then have "lo + card L \<le> unat (nsect s)" using assms(4) card_insert_le [of L "(c, t)"] by linarith
  then have sec: "?sec < nsect s" using forest_range [OF f assms(3)] h by (simp add: word_less_nat_alt)
  then have n: "max (nsect s) (?sec + 1) = nsect s" using inc_le [OF sec] by simp
  show ?thesis
  proof (cases "(c, t) \<in> L")
    case True
    then have "baddr (img s) (A c) t \<noteq> 0" using pointer_there [OF assms(1) l] by simp
    then show ?thesis using True assms(1) sec
      by (intro exI [of _ s]) (simp add: indirect_entry_def rsect_def b insert_absorb)
  next
    case False
    then have z: "get_u32 (img s ?sec) (4 * slot t) = 0" using pointer_there [OF assms(1) l] by (simp add: b)
    let ?s1 = "(take_free s)\<lparr>img := set_entry t (freeblock s) (A c) (img s)\<rparr>"
    have e: "set_addr t v a = a" "A(c := A c) = A" for v a using assms(2) by (auto simp: set_addr_def)
    have w: "wsect ?sec (put_u32 (img s ?sec) (4 * slot t) (freeblock s)) (take_free s) = ?s1"
      using assms(2) n by (simp add: wsect_def set_entry_def take_free_def)
    have "unat (freeblock s) < unat (nsect s)" using h False assms(4) by simp
    then have r: "disk_ok ?s1 A (insert (c, t) L) lo" "spared lo L s A ?s1 A" "img ?s1 (freeblock s) = (\<lambda>_. 0)"
      using free_pointer [OF assms(1) l False, of ?s1 A] by (auto simp: e)
    have "baddr (img ?s1) (A c) t = freeblock s" using set_there [OF f l False, of "freeblock s"] by (simp add: e)
    then show ?thesis using z sec w r by (intro exI [of _ ?s1]) (simp add: indirect_entry_def rsect_def Let_def)
  qed
qed

section \<open>Appending\<close>

text \<open>The blocks on the way to block \<open>n\<close> of a file, and all the blocks of a file of \<open>k\<close> bytes.\<close>

definition path :: "nat \<Rightarrow> blk set" where
  "path n = (if n < 12 then {Dat n} else {Ind, Ind2 ((n - 12) div 128), Dat n})"

definition need :: "nat \<Rightarrow> blk set" where
  "need k = (\<Union>n < (k + 511) div 512. path n)"

lemma path_self [simp]: "Dat n \<in> path n"
  by (simp add: path_def)

lemma spared_nsect: "spared lo L s A s' A' \<Longrightarrow> nsect s' = nsect s"
  by (simp add: spared_def)

lemma disk_finite: "disk_ok s A L lo \<Longrightarrow> finite L"
  by (simp add: disk_ok_def forest_def)

lemma iappend_block_ok:
  assumes "disk_ok s (A(c := d_addrs din)) L lo" "n < 16396" "lo + card (L \<union> Pair c ` path n) \<le> unat (nsect s)"
  shows "\<exists>a s1. iappend_block (of_nat n) din s = Ret (baddr (img s1) a (Dat n), din\<lparr>d_addrs := a\<rparr>, s1)
    \<and> disk_ok s1 (A(c := a)) (L \<union> Pair c ` path n) lo \<and> spared lo L s (A(c := d_addrs din)) s1 (A(c := a))
    \<and> ((c, Dat n) \<notin> L \<longrightarrow> img s1 (baddr (img s1) a (Dat n)) = (\<lambda>_. 0))"
proof -
  have un: "unat (of_nat n :: uint) = n" using assms(2) by (simp add: unat_of_nat)
  have fin: "finite (L \<union> Pair c ` path n)" using disk_finite [OF assms(1)] by (simp add: path_def)
  have room: "lo + card K \<le> unat (nsect s)" if "K \<subseteq> L \<union> Pair c ` path n" for K
    using card_mono [OF fin that] assms(3) by simp
  show ?thesis
  proof (cases "n < 12")
    case True
    obtain a s1 where "inode_entry n din s = (din\<lparr>d_addrs := a\<rparr>, s1)" "disk_ok s1 (A(c := a)) (insert (c, Dat n) L) lo"
      "spared lo L s (A(c := d_addrs din)) s1 (A(c := a))" "(c, Dat n) \<notin> L \<longrightarrow> img s1 (baddr (img s1) a (Dat n)) = (\<lambda>_. 0)"
      using inode_entry_ok [OF assms(1), of "Dat n"] True room by (auto simp: path_def)
    moreover have "(of_nat n :: uint) < NDIRECT" using True un by (simp add: word_less_nat_alt NDIRECT_def)
    ultimately show ?thesis using True un by (auto simp: iappend_block_def path_def baddr.simps)
  next
    case False
    let ?j = "(n - 12) div 128" and ?k = "(n - 12) mod 128"
    have lt: "\<not> (of_nat n :: uint) < NDIRECT" using False un by (simp add: word_less_nat_alt NDIRECT_def)
    have "unat (of_nat n - NDIRECT :: uint) = n - 12" using False un by (subst unat_sub) (auto simp: NDIRECT_def word_le_nat_alt)
    then have jk: "unat ((of_nat n - NDIRECT :: uint) div 128) = ?j" "unat ((of_nat n - NDIRECT :: uint) mod 128) = ?k"
      by (simp_all add: unat_div unat_mod)
    obtain a s1 where s1: "inode_entry 12 din s = (din\<lparr>d_addrs := a\<rparr>, s1)" "disk_ok s1 (A(c := a)) (insert (c, Ind) L) lo"
      "spared lo L s (A(c := d_addrs din)) s1 (A(c := a))"
      using inode_entry_ok [OF assms(1), of Ind] room [of "insert (c, Ind) L"] False by (auto simp: path_def)
    obtain s2 where s2: "indirect_entry (baddr (img s1) a Ind) ?j s1 = Ret (baddr (img s2) a (Ind2 ?j), s2)"
      "disk_ok s2 (A(c := a)) (insert (c, Ind2 ?j) (insert (c, Ind) L)) lo" "spared lo (insert (c, Ind) L) s1 (A(c := a)) s2 (A(c := a))"
      using indirect_entry_ok [OF s1(2), of "Ind2 ?j" Ind c] room [of "insert (c, Ind2 ?j) (insert (c, Ind) L)"] False spared_nsect [OF s1(3)]
      by (auto simp: path_def)
    obtain s3 where s3: "indirect_entry (baddr (img s2) a (Ind2 ?j)) ?k s2 = Ret (baddr (img s3) a (Dat n), s3)"
      "disk_ok s3 (A(c := a)) (insert (c, Dat n) (insert (c, Ind2 ?j) (insert (c, Ind) L))) lo"
      "spared lo (insert (c, Ind2 ?j) (insert (c, Ind) L)) s2 (A(c := a)) s3 (A(c := a))"
      "(c, Dat n) \<notin> L \<longrightarrow> img s3 (baddr (img s3) a (Dat n)) = (\<lambda>_. 0)"
      using indirect_entry_ok [OF s2(2), of "Dat n" "Ind2 ?j" c] room [of "insert (c, Dat n) (insert (c, Ind2 ?j) (insert (c, Ind) L))"]
        False spared_nsect [OF s1(3)] spared_nsect [OF s2(3)] by (auto simp: path_def)
    have "iappend_block (of_nat n) din s = Ret (baddr (img s3) a (Dat n), din\<lparr>d_addrs := a\<rparr>, s3)"
      using lt jk s1(1) s2(1) s3(1) by (simp add: iappend_block_def INDIRECT_def baddr.simps)
    moreover have "L \<union> Pair c ` path n = insert (c, Dat n) (insert (c, Ind2 ?j) (insert (c, Ind) L))" using False by (auto simp: path_def)
    moreover have "spared lo L s (A(c := d_addrs din)) s3 (A(c := a))"
      using spared_trans [OF s1(3) spared_trans [OF s2(3) s3(3)]] by blast
    ultimately show ?thesis using s3(2,4) by auto
  qed
qed

text \<open>The bytes of a file.\<close>

definition fbyte :: "mkfs \<Rightarrow> (nat \<Rightarrow> uint) \<Rightarrow> nat \<Rightarrow> uchar" where
  "fbyte s a k = img s (baddr (img s) a (Dat (k div 512))) (k mod 512)"

text \<open>A file holds the bytes \<open>cs\<close>, and zeros in the rest of its last block.\<close>

definition pad :: "nat \<Rightarrow> nat" where
  "pad k = 512 * ((k + 511) div 512)"

definition holds :: "mkfs \<Rightarrow> (nat \<Rightarrow> uint) \<Rightarrow> uchar list \<Rightarrow> bool" where
  "holds s a cs \<longleftrightarrow> (\<forall>k < pad (length cs). fbyte s a k = (if k < length cs then cs ! k else 0))"

lemma holds_cong: "holds s a cs \<Longrightarrow> (\<And>k. k < pad (length cs) \<Longrightarrow> fbyte s' a' k = fbyte s a k) \<Longrightarrow> holds s' a' cs"
  by (simp add: holds_def)

lemma pad_le: "k \<le> pad k"
  unfolding pad_def by linarith

lemma fbyte_spared:
  assumes "spared lo L s A s' A'" "(i, Dat (k div 512)) \<in> L"
  shows "fbyte s' (A' i) k = fbyte s (A i) k"
proof -
  have "baddr (img s') (A' i) (Dat (k div 512)) = baddr (img s) (A i) (Dat (k div 512))" using assms by (auto simp: spared_def)
  then show ?thesis using assms by (simp add: fbyte_def spared_def)
qed

text \<open>Filling part of a data block.\<close>

lemma parent_not_data: "parent u = Some p \<Longrightarrow> p \<noteq> Dat n"
  by (cases u) (auto split: if_splits)

lemma fill_block:
  assumes "disk_ok s A L lo" "(c, Dat n) \<in> L" "unat (freeblock s) \<le> unat (nsect s)"
    and "x = baddr (img s) (A c) (Dat n)" "s1 = wsect x d s"
  shows "disk_ok s1 A L lo" "spared lo (L - {(c, Dat n)}) s A s1 A" "baddr (img s1) (A i) u = baddr (img s) (A i) u \<or> \<not> linked L i u" "x < nsect s"
proof -
  have f: "forest (img s) A L lo (unat (freeblock s))" using assms(1) by (simp add: disk_ok_def)
  have r: "lo \<le> unat x" "unat x < unat (freeblock s)" using forest_range [OF f assms(2)] assms(4) by auto
  then show lt: "x < nsect s" using assms(3) by (simp add: word_less_nat_alt)
  then have s1: "img s1 = (img s)(x := d)" "nsect s1 = nsect s" "freeblock s1 = freeblock s" "usedblocks s1 = usedblocks s"
    "jblocks s1 = jblocks s" "freeinode s1 = freeinode s"
    using inc_le [OF lt] by (auto simp: assms(5) wsect_def)
  have ne: "baddr (img s) (A i) p \<noteq> x" if "(i, p) \<in> L" "(i, p) \<noteq> (c, Dat n)" for i p
    using forest_inj [OF f that(1) assms(2)] that(2) assms(4) by auto
  have p: "img s1 (baddr (img s) (A i) p) = img s (baddr (img s) (A i) p)" if "(i, p) \<in> L" "parent u = Some p" for i p u
    using ne [OF that(1)] parent_not_data [OF that(2)] s1(1) by auto
  have k: "baddr (img s1) (A i) u = baddr (img s) (A i) u" if "linked L i u" for i u
    by (rule data_keeps [OF f p that])
  then show "baddr (img s1) (A i) u = baddr (img s) (A i) u \<or> \<not> linked L i u" by blast
  have "forest (img s1) A L lo (unat (freeblock s))" using r s1(1) by (intro forest_data [OF f p]) auto
  then show "disk_ok s1 A L lo" using assms(1) s1 by (simp add: disk_ok_def)
  show "spared lo (L - {(c, Dat n)}) s A s1 A"
    using s1 r k forest_linked [OF f] ne by (auto simp: spared_def)
qed

lemma need_step:
  assumes "n1 \<le> 512 - off mod 512" "0 < n1"
  shows "need (off + n1) = need off \<union> path (off div 512)"
proof -
  obtain n r where o: "off = 512 * n + r" "r < 512" "off div 512 = n" "off mod 512 = r"
    using mult_div_mod_eq [of 512 off] mod_less_divisor [of 512 off] by force
  have "n1 + r \<le> 512" using assms(1) o by simp
  then have "(off + n1 + 511) div 512 = n + 1" using o(1) assms(2) by (intro div_nat_eqI) auto
  moreover have "(off + 511) div 512 = (if r = 0 then n else n + 1)" using o(1,2) by (intro div_nat_eqI) auto
  ultimately show ?thesis using o(3) by (auto simp: need_def lessThan_Suc)
qed

lemma need_mono: "k \<le> l \<Longrightarrow> need k \<subseteq> need l"
  unfolding need_def by (intro UN_mono) (auto intro!: div_le_mono elim!: order.strict_trans2)

lemma need_dat: "k < pad len \<Longrightarrow> Dat (k div 512) \<in> need len"
  unfolding need_def pad_def by (rule UN_I [of "k div 512"]) (auto simp: path_self mult.commute intro: less_mult_imp_div_less)

lemma pad_step:
  assumes "n1 \<le> 512 - off mod 512" "0 < n1"
  shows "pad (off + n1) = 512 * (off div 512) + 512" "off mod 512 = 0 \<Longrightarrow> pad off = off" "off mod 512 \<noteq> 0 \<Longrightarrow> pad off = 512 * (off div 512) + 512"
proof -
  obtain n r where o: "off = 512 * n + r" "r < 512" "off div 512 = n" "off mod 512 = r"
    using mult_div_mod_eq [of 512 off] mod_less_divisor [of 512 off] by force
  have "n1 + r \<le> 512" using assms(1) o by simp
  then have "(off + n1 + 511) div 512 = n + 1" using o(1) assms(2) by (intro div_nat_eqI) auto
  then show "pad (off + n1) = 512 * (off div 512) + 512" using o(3) by (simp add: pad_def)
  have e: "(off + 511) div 512 = (if r = 0 then n else n + 1)" using o(1,2) by (intro div_nat_eqI) auto
  show "off mod 512 = 0 \<Longrightarrow> pad off = off" "off mod 512 \<noteq> 0 \<Longrightarrow> pad off = 512 * (off div 512) + 512" using e o by (auto simp: pad_def)
qed

lemma finite_need [simp]: "finite (need k)"
  by (simp add: need_def path_def)

lemma need_not_next: "off mod 512 = 0 \<Longrightarrow> Dat (off div 512) \<notin> need off"
proof
  assume o: "off mod 512 = 0" "Dat (off div 512) \<in> need off"
  then obtain n where "n < (off + 511) div 512" "Dat (off div 512) \<in> path n" by (auto simp: need_def)
  moreover have "pad off = off" using pad_step(2) [of 1 off] o(1) by simp
  then have "(off + 511) div 512 = off div 512" by (auto simp: pad_def)
  ultimately show False by (auto simp: path_def split: if_splits)
qed

lemma append_step:
  assumes "disk_ok s (A(c := d_addrs din)) L lo" "\<forall>t. (c, t) \<in> L \<longleftrightarrow> t \<in> need off" "0 < length p" "off < 16396 * 512"
    and "n1 = min (length p) (512 - off mod 512)" "lo + card (L \<union> Pair c ` need (off + n1)) \<le> unat (nsect s)"
    and "holds s (d_addrs din) cs" "length cs = off"
  shows "\<exists>a s1 x. iappend_block (of_nat (off div 512)) din s = Ret (x, din\<lparr>d_addrs := a\<rparr>, s1) \<and> x < nsect s1
    \<and> (let s2 = wsect x (put_bytes (off mod 512) (take n1 p) (img s1 x)) s1 in
       disk_ok s2 (A(c := a)) (L \<union> Pair c ` need (off + n1)) lo \<and> spared lo {z \<in> L. fst z \<noteq> c} s A s2 A
       \<and> holds s2 a (cs @ take n1 p))"
proof -
  let ?n = "off div 512" and ?L = "L \<union> Pair c ` need (off + n1)"
  have n1: "0 < n1" "n1 \<le> 512 - off mod 512" "n1 \<le> length p" using assms(3,5) by (auto simp: mod_less_divisor)
  have nd: "need (off + n1) = need off \<union> path ?n" using need_step [OF n1(2,1)] .
  then have L: "?L = L \<union> Pair c ` path ?n" using assms(2) by auto
  have "?n < 16396" using assms(4) by (simp add: less_mult_imp_div_less)
  then obtain a s1 where b: "iappend_block (of_nat ?n) din s = Ret (baddr (img s1) a (Dat ?n), din\<lparr>d_addrs := a\<rparr>, s1)"
    "disk_ok s1 (A(c := a)) ?L lo" "spared lo L s (A(c := d_addrs din)) s1 (A(c := a))"
    "(c, Dat ?n) \<notin> L \<longrightarrow> img s1 (baddr (img s1) a (Dat ?n)) = (\<lambda>_. 0)"
    using iappend_block_ok [OF assms(1), of ?n] assms(6) L by auto
  let ?x = "baddr (img s1) a (Dat ?n)"
  let ?s2 = "wsect ?x (put_bytes (off mod 512) (take n1 p) (img s1 ?x)) s1"
  have in_L: "(c, Dat ?n) \<in> ?L" unfolding nd by auto
  have "unat (freeblock s1) \<le> unat (nsect s1)" using b(2) assms(6) spared_nsect [OF b(3)] by (simp add: disk_ok_def forest_def)
  note w = fill_block [OF b(2) in_L this, of ?x ?s2]
  have x: "?x = baddr (img s1) ((A(c := a)) c) (Dat ?n)" by simp
  have f2: "disk_ok ?s2 (A(c := a)) ?L lo" "spared lo (?L - {(c, Dat ?n)}) s1 (A(c := a)) ?s2 (A(c := a))" "?x < nsect s1"
    using w [OF x refl] by blast+
  have f1: "forest (img s1) (A(c := a)) ?L lo (unat (freeblock s1))" using b(2) by (simp add: disk_ok_def)
  have same: "baddr (img ?s2) a u = baddr (img s1) a u" if "(c, u) \<in> ?L" for u
    using w(3) [OF x refl, of c u] forest_linked [OF f1 that] by auto
  have dif: "baddr (img s1) a (Dat n) \<noteq> ?x" if "(c, Dat n) \<in> ?L" "n \<noteq> ?n" for n
    using forest_inj [OF f1 that(1) in_L] that(2) by auto
  have old: "fbyte s1 a k = (if k < off then cs ! k else 0)" if "k < pad off" for k
    using fbyte_spared [OF b(3), of c k] assms(2,7,8) need_dat [OF that] that by (auto simp: holds_def)
  have "fbyte ?s2 a k = (if k < off + n1 then (cs @ take n1 p) ! k else 0)" if k: "k < pad (off + n1)" for k
  proof -
    have inL: "(c, Dat (k div 512)) \<in> ?L" using need_dat [OF k] by auto
    show ?thesis
    proof (cases "k div 512 = ?n")
      case True
      then have m: "fbyte ?s2 a k = put_bytes (off mod 512) (take n1 p) (img s1 ?x) (k mod 512)"
        using same [OF inL] by (simp add: fbyte_def wsect_def)
      have e: "k = 512 * ?n + k mod 512" "off = 512 * ?n + off mod 512" using True by (metis mult_div_mod_eq)+
      have keep: "fbyte ?s2 a k = fbyte s1 a k" if "k mod 512 < off mod 512 \<or> off mod 512 + n1 \<le> k mod 512"
        using m True that by (auto simp: put_bytes_def fbyte_def)
      consider "k < off" | d where "k = off + d" "d < n1" | "off + n1 \<le> k"
        by (metis add_less_cancel_left le_Suc_ex not_less)
      then show ?thesis
      proof cases
        case 1
        then have "k mod 512 < off mod 512" using e by linarith
        then show ?thesis using keep old [of k] 1 pad_le [of off] assms(8) by (simp add: nth_append)
      next
        case (2 d)
        then have "k mod 512 = off mod 512 + d" using e by linarith
        then have "fbyte ?s2 a k = p ! d" unfolding m using 2(2) n1(3) by (simp add: put_bytes_def)
        then show ?thesis using 2 n1(3) assms(8) by (simp add: nth_append)
      next
        case 3
        then have "off mod 512 + n1 \<le> k mod 512" using e by linarith
        then have "fbyte ?s2 a k = fbyte s1 a k" using keep by blast
        also have "\<dots> = 0"
        proof (cases "off mod 512 = 0")
          case o: True
          then have "(c, Dat ?n) \<notin> L" using assms(2) need_not_next [OF o] by simp
          then have "img s1 ?x = (\<lambda>_. 0)" using b(4) by simp
          then show ?thesis using True by (simp add: fbyte_def)
        next
          case False
          then have "k < pad off" using k pad_step [OF n1(2,1)] by simp
          then show ?thesis using old 3 by simp
        qed
        finally show ?thesis using 3 by simp
      qed
    next
      case False
      have lt: "k < off"
      proof (rule ccontr)
        assume "\<not> k < off"
        then have "?n \<le> k div 512" by (simp add: div_le_mono)
        moreover have "k div 512 < ?n + 1" using k pad_step(1) [OF n1(2,1)] by (intro less_mult_imp_div_less) (simp add: algebra_simps)
        ultimately show False using False by simp
      qed
      have "fbyte ?s2 a k = fbyte s1 a k" using same [OF inL] dif [OF inL False] by (simp add: fbyte_def wsect_def)
      then show ?thesis using old [of k] lt pad_le [of off] assms(8) by (simp add: nth_append)
    qed
  qed
  then have "holds ?s2 a (cs @ take n1 p)" using n1(3) assms(8) by (simp add: holds_def)
  moreover have "spared lo {z \<in> L. fst z \<noteq> c} s A ?s2 A"
  proof -
    have "spared lo {z \<in> L. fst z \<noteq> c} s A s1 A" by (rule spared_mono [OF b(3)]) auto
    moreover have "spared lo {z \<in> L. fst z \<noteq> c} s1 A ?s2 A" by (rule spared_mono [OF f2(2)]) auto
    ultimately show ?thesis by (rule spared_trans) simp
  qed
  ultimately show ?thesis using b(1) f2 by (auto simp: Let_def)
qed

lemma of_nat_div_512: "n < 2 ^ 32 \<Longrightarrow> (of_nat n :: uint) div 512 = of_nat (n div 512)"
proof (rule unsigned_word_eqI)
  assume n: "n < 2 ^ 32"
  then have "n div 512 < 2 ^ 32" by (simp add: less_mult_imp_div_less)
  then show "unat ((of_nat n :: uint) div 512) = unat (of_nat (n div 512) :: uint)" using n by (simp add: unat_div unat_of_nat)
qed

lemma iappend_loop_ok:
  assumes "disk_ok s (A(c := d_addrs din)) L lo" "\<forall>t. (c, t) \<in> L \<longleftrightarrow> t \<in> need off" "off + length p \<le> 16396 * 512"
    and "holds s (d_addrs din) cs" "length cs = off" "lo + card (L \<union> Pair c ` need (off + length p)) \<le> unat (nsect s)"
  shows "\<exists>a s'. iappend_loop (of_nat off) p din s = Ret (of_nat (off + length p), din\<lparr>d_addrs := a\<rparr>, s')
    \<and> disk_ok s' (A(c := a)) (L \<union> Pair c ` need (off + length p)) lo \<and> spared lo {z \<in> L. fst z \<noteq> c} s A s' A
    \<and> holds s' a (cs @ p)"
  using assms
proof (induction "length p" arbitrary: off p din s L cs rule: less_induct)
  case less
  show ?case
  proof (cases "p = []")
    case True
    then have "L \<union> Pair c ` need (off + length p) = L" using less.prems(2) by auto
    then show ?thesis using True less.prems(1,4)
      by (intro exI [of _ "d_addrs din"] exI [of _ s]) (simp add: iappend_loop.simps)
  next
    case False
    define n1 where "n1 = min (length p) (512 - off mod 512)"
    let ?L = "L \<union> Pair c ` need (off + n1)"
    have n1: "0 < n1" "n1 \<le> length p" "n1 \<le> 512 - off mod 512" using False by (auto simp: n1_def mod_less_divisor)
    have lt: "off < 16396 * 512" using less.prems(3) False by (cases p) auto
    have fin: "finite (L \<union> Pair c ` need (off + length p))" using disk_finite [OF less.prems(1)] by simp
    have sub: "?L \<subseteq> L \<union> Pair c ` need (off + length p)" using need_mono [of "off + n1" "off + length p"] n1(2) by auto
    then have room: "lo + card ?L \<le> unat (nsect s)" using card_mono [OF fin] less.prems(6) by (meson add_left_mono le_trans)
    obtain a s1 x where b: "iappend_block (of_nat (off div 512)) din s = Ret (x, din\<lparr>d_addrs := a\<rparr>, s1)" "x < nsect s1"
      and s2: "disk_ok (wsect x (put_bytes (off mod 512) (take n1 p) (img s1 x)) s1) (A(c := a)) ?L lo"
        "spared lo {z \<in> L. fst z \<noteq> c} s A (wsect x (put_bytes (off mod 512) (take n1 p) (img s1 x)) s1) A"
        "holds (wsect x (put_bytes (off mod 512) (take n1 p) (img s1 x)) s1) a (cs @ take n1 p)"
      using append_step [OF less.prems(1,2) _ lt n1_def room less.prems(4,5)] False by (auto simp: Let_def)
    let ?s2 = "wsect x (put_bytes (off mod 512) (take n1 p) (img s1 x)) s1"
    have L2: "?L \<union> Pair c ` need (off + length p) = L \<union> Pair c ` need (off + length p)" using sub by auto
    have own: "\<forall>t. (c, t) \<in> ?L \<longleftrightarrow> t \<in> need (off + n1)" using less.prems(2) need_mono [of off "off + n1"] by auto
    have "\<exists>a' s'. iappend_loop (of_nat (off + n1)) (drop n1 p) (din\<lparr>d_addrs := a\<rparr>) ?s2
        = Ret (of_nat (off + n1 + length (drop n1 p)), din\<lparr>d_addrs := a, d_addrs := a'\<rparr>, s')
      \<and> disk_ok s' (A(c := a')) (?L \<union> Pair c ` need (off + n1 + length (drop n1 p))) lo \<and> spared lo {z \<in> ?L. fst z \<noteq> c} ?s2 A s' A
      \<and> holds s' a' ((cs @ take n1 p) @ drop n1 p)"
      using n1 False less.prems(3,5,6) s2(1,3) spared_nsect [OF s2(2)] L2 own by (intro less.hyps) auto
    then obtain a' s' where r: "iappend_loop (of_nat (off + n1)) (drop n1 p) (din\<lparr>d_addrs := a\<rparr>) ?s2
        = Ret (of_nat (off + length p), din\<lparr>d_addrs := a'\<rparr>, s')"
      "disk_ok s' (A(c := a')) (L \<union> Pair c ` need (off + length p)) lo" "spared lo {z \<in> ?L. fst z \<noteq> c} ?s2 A s' A"
      "holds s' a' (cs @ p)"
      using n1(2) L2 by auto
    have u: "unat (of_nat (off div 512) :: uint) = off div 512" "off div 512 < 16396"
      using lt less_mult_imp_div_less [OF lt] by (auto simp: unat_of_nat)
    have w: "(of_nat off :: uint) div 512 = of_nat (off div 512)" "unat (of_nat off :: uint) = off"
      using of_nat_div_512 [of off] lt by (simp_all add: unat_of_nat)
    have "of_nat off - of_nat (off div 512) * 512 = (of_nat (off - off div 512 * 512) :: uint)"
      using div_times_less_eq_dividend [of off 512] by (simp add: of_nat_diff)
    then have "of_nat off - of_nat (off div 512) * 512 = (of_nat (off mod 512) :: uint)" by (simp add: minus_div_mult_eq_mod)
    moreover have "off mod 512 < 2 ^ 32" by (rule less_trans [of _ 512]) simp_all
    ultimately have fbn: "(of_nat (off div 512) :: uint) < MAXFILE" "unat (of_nat off - of_nat (off div 512) * 512 :: uint) = off mod 512"
      using u by (auto simp: word_less_nat_alt fs_h_defs unat_of_nat)
    have n1w: "min (length p) (unat ((of_nat (off div 512) + 1) * 512 - of_nat off :: uint)) = n1"
      using room_left [of "of_nat off"] w by (simp add: n1_def)
    have "iappend_loop (of_nat off) p din s = iappend_loop (of_nat (off + n1)) (drop n1 p) (din\<lparr>d_addrs := a\<rparr>) ?s2"
      using False b fbn n1w unfolding w(1) [symmetric] by (subst iappend_loop.simps) (simp add: Let_def rsect_def w(1))
    moreover have "spared lo {z \<in> L. fst z \<noteq> c} s A s' A" using spared_trans [OF s2(2) r(3)] by blast
    ultimately show ?thesis using r by auto
  qed
qed

section \<open>The file system\<close>

definition din_of :: "mkfs \<Rightarrow> nat \<Rightarrow> dinode" where
  "din_of s i = get_dinode (img s (IBLOCK (of_nat i))) (dinode_off (of_nat i))"

definition addrs_of :: "mkfs \<Rightarrow> nat \<Rightarrow> nat \<Rightarrow> uint" where
  "addrs_of s i = (\<lambda>k. if i < 200 \<and> k < NADDRS then d_addrs (din_of s i) k else 0)"

text \<open>The types and the contents of the files, inode 1 first, and the blocks that they take.\<close>

type_synonym files = "(ushort \<times> uchar list) list"

definition tree :: "files \<Rightarrow> (nat \<times> blk) set" where
  "tree fs = (\<Union>i < length fs. Pair (i + 1) ` need (length (snd (fs ! i))))"

definition file_at :: "mkfs \<Rightarrow> nat \<Rightarrow> ushort \<times> uchar list \<Rightarrow> bool" where
  "file_at s i f \<longleftrightarrow> d_type (din_of s i) = fst f \<and> d_nlink (din_of s i) = 1 \<and> d_size (din_of s i) = of_nat (length (snd f))
     \<and> length (snd f) \<le> 16396 * 512 \<and> holds s (addrs_of s i) (snd f)"

definition fs_inv :: "(uint \<Rightarrow> bytes) \<Rightarrow> nat \<Rightarrow> files \<Rightarrow> mkfs \<Rightarrow> bool" where
  "fs_inv low lo fs s \<longleftrightarrow> jblocks s = NJB \<and> freeinode s = of_nat (length fs + 1) \<and> length fs < 200 \<and> 228 \<le> lo
     \<and> 228 \<le> unat (nsect s) \<and> disk_ok s (addrs_of s) (tree fs) lo \<and> (\<forall>i < length fs. file_at s (i + 1) (fs ! i))
     \<and> (\<forall>b. unat b < 203 \<longrightarrow> img s b = low b)"

lemma tree_in: "i < length fs \<Longrightarrow> Pair (i + 1) ` need (length (snd (fs ! i))) \<subseteq> tree fs"
  by (auto simp: tree_def)

lemma tree_in_iff: "(i + 1, t) \<in> tree fs \<longleftrightarrow> i < length fs \<and> t \<in> need (length (snd (fs ! i)))"
  by (auto simp: tree_def)

lemma tree_range: "(i, t) \<in> tree fs \<Longrightarrow> 0 < i \<and> i \<le> length fs"
  by (auto simp: tree_def)

lemma IBLOCK_nat: "i < 200 \<Longrightarrow> unat (IBLOCK (of_nat i)) = i div 8 + 203"
proof -
  assume "i < 200"
  then have "unat (of_nat i div IPB :: uint) = i div 8" "i div 8 < 25" by (auto simp: unat_div IPB_def unat_of_nat)
  then have "unat (of_nat i div IPB + 203 :: uint) = i div 8 + 203" by (subst unat_add_uint) auto
  then show ?thesis by (simp add: IBLOCK_def NJB_def add.commute)
qed

lemma i2b_IBLOCK: "jblocks s = NJB \<Longrightarrow> i2b inum s = IBLOCK inum"
  by (simp add: i2b_def IBLOCK_def)

text \<open>A write to a sector below \<open>lo\<close> leaves the files alone.\<close>

lemma low_write:
  assumes "disk_ok s A L lo" "unat b < lo" "s1 = wsect b d s"
  shows "disk_ok s1 A L lo" "Pair i ` need (length cs) \<subseteq> L \<Longrightarrow> holds s (A i) cs \<Longrightarrow> holds s1 (A i) cs"
proof -
  have f: "forest (img s) A L lo (unat (freeblock s))" using assms(1) by (simp add: disk_ok_def)
  have s1: "img s1 = (img s)(b := d)" "freeblock s1 = freeblock s" "usedblocks s1 = usedblocks s" by (auto simp: assms(3) wsect_def)
  have ne: "img s1 (baddr (img s) (A i) p) = img s (baddr (img s) (A i) p)" if "(i, p) \<in> L" for i p
    using forest_range [OF f that] assms(2) s1(1) by auto
  have "lo \<le> unat (freeblock s)" using f by (simp add: forest_def)
  then have "forest (img s1) A L lo (unat (freeblock s))" using assms(2) s1(1) by (intro forest_data [OF f ne]) auto
  then show "disk_ok s1 A L lo" using assms(1) s1 by (simp add: disk_ok_def)
  have k: "baddr (img s1) (A i) u = baddr (img s) (A i) u" if "(i, u) \<in> L" for u
    using data_keeps [OF f ne forest_linked [OF f that]] .
  assume sub: "Pair i ` need (length cs) \<subseteq> L" and h: "holds s (A i) cs"
  have "fbyte s1 (A i) k = fbyte s (A i) k" if "k < pad (length cs)" for k
  proof -
    have "(i, Dat (k div 512)) \<in> L" using need_dat [OF that] sub by blast
    then show ?thesis using ne k by (simp add: fbyte_def)
  qed
  then show "holds s1 (A i) cs" using holds_cong [OF h] by blast
qed

text \<open>What writing an inode does to the inodes.\<close>

definition same_dinode :: "dinode \<Rightarrow> dinode \<Rightarrow> bool" where
  "same_dinode d e \<longleftrightarrow> d_type d = d_type e \<and> d_nlink d = d_nlink e \<and> d_size d = d_size e \<and> (\<forall>k < NADDRS. d_addrs d k = d_addrs e k)"

lemma IBLOCK_of_nat_inj: "i < 200 \<Longrightarrow> j < 200 \<Longrightarrow> (of_nat i :: uint) = of_nat j \<longleftrightarrow> i = j"
proof
  assume h: "i < 200" "j < 200" "(of_nat i :: uint) = of_nat j"
  have "unat (of_nat i :: uint) = i" "unat (of_nat j :: uint) = j" using h(1,2) by (simp_all add: unat_of_nat)
  then show "i = j" using h(3) by metis
qed simp

lemma winode_ok:
  assumes "jblocks s = NJB" "228 \<le> unat (nsect s)" "i < 200"
  shows "\<exists>d. winode (of_nat i) ip s = Ret (wsect (IBLOCK (of_nat i)) d s)
    \<and> nsect (wsect (IBLOCK (of_nat i)) d s) = nsect s
    \<and> same_dinode (din_of (wsect (IBLOCK (of_nat i)) d s) i) ip
    \<and> (\<forall>j < 200. j \<noteq> i \<longrightarrow> same_dinode (din_of (wsect (IBLOCK (of_nat i)) d s) j) (din_of s j))"
proof -
  let ?b = "IBLOCK (of_nat i)"
  let ?d = "put_dinode (img s ?b) (dinode_off (of_nat i)) ip"
  let ?s1 = "wsect ?b ?d s"
  have b: "unat ?b < 228" using IBLOCK_nat [OF assms(3)] assms(3) by simp
  then have lt: "?b < nsect s" using assms(2) by (simp add: word_less_nat_alt)
  have w: "winode (of_nat i) ip s = Ret ?s1" using lt by (simp add: winode_def i2b_IBLOCK [OF assms(1)] rsect_def Let_def)
  have n: "nsect ?s1 = nsect s" using inc_le [OF lt] by (simp add: wsect_def)
  have self: "same_dinode (din_of ?s1 i) ip" by (simp add: same_dinode_def din_of_def wsect_def get_put_dinode)
  have "same_dinode (din_of ?s1 j) (din_of s j)" if "j < 200" "j \<noteq> i" for j
  proof (cases "IBLOCK (of_nat j) = ?b")
    case True
    have "(of_nat j :: uint) \<noteq> of_nat i" using that assms(3) IBLOCK_of_nat_inj by simp
    then have o: "dinode_off (of_nat j) + 64 \<le> dinode_off (of_nat i) \<or> dinode_off (of_nat i) + 64 \<le> dinode_off (of_nat j)"
      using dinode_off_inj [OF True] by simp
    have "\<forall>k. dinode_off (of_nat j) \<le> k \<and> k < dinode_off (of_nat j) + 64 \<longrightarrow> ?d k = img s ?b k"
      using o by (auto intro!: put_dinode_outside)
    then have "load_dinode (get_dinode ?d (dinode_off (of_nat j))) e = load_dinode (get_dinode (img s ?b) (dinode_off (of_nat j))) e" for e
      by (rule get_dinode_cong)
    note l = this
    show ?thesis using arg_cong [OF l [of undefined], of i_type] arg_cong [OF l [of undefined], of i_nlink] arg_cong [OF l [of undefined], of i_size]
        fun_cong [OF arg_cong [OF l [of undefined], of i_addrs]] True
      by (auto simp: same_dinode_def din_of_def wsect_def load_dinode_def split: if_splits) metis
  qed (simp add: din_of_def wsect_def same_dinode_def)
  then show ?thesis using w n self by blast
qed

lemma holds_addrs: "\<forall>k < NADDRS. a k = b k \<Longrightarrow> holds s a cs = holds s b cs"
proof -
  assume "\<forall>k < NADDRS. a k = b k"
  then have "baddr m a t = baddr m b t" for m t by (cases t) (auto simp: NADDRS_def baddr.simps)
  then show ?thesis by (simp add: holds_def fbyte_def)
qed

text \<open>Writing an inode whose addresses are those of the forest.\<close>

lemma store_inode:
  assumes "jblocks s = NJB" "228 \<le> unat (nsect s)" "i < 200" "228 \<le> lo" "disk_ok s A L lo"
    and "\<And>k. k < NADDRS \<Longrightarrow> d_addrs ip k = A i k" "\<And>j k. j \<noteq> i \<Longrightarrow> k < NADDRS \<Longrightarrow> addrs_of s j k = A j k"
  shows "\<exists>s1. winode (of_nat i) ip s = Ret s1 \<and> nsect s1 = nsect s \<and> jblocks s1 = jblocks s \<and> freeinode s1 = freeinode s
    \<and> disk_ok s1 (addrs_of s1) L lo \<and> same_dinode (din_of s1 i) ip \<and> (\<forall>j < 200. j \<noteq> i \<longrightarrow> same_dinode (din_of s1 j) (din_of s j))
    \<and> (\<forall>j cs. Pair j ` need (length cs) \<subseteq> L \<longrightarrow> holds s (A j) cs \<longrightarrow> holds s1 (addrs_of s1 j) cs)
    \<and> (\<forall>b. unat b < 203 \<longrightarrow> img s1 b = img s b) \<and> freeblock s1 = freeblock s"
proof -
  let ?b = "IBLOCK (of_nat i)"
  obtain d where w: "winode (of_nat i) ip s = Ret (wsect ?b d s)" "nsect (wsect ?b d s) = nsect s"
    "same_dinode (din_of (wsect ?b d s) i) ip" "\<forall>j < 200. j \<noteq> i \<longrightarrow> same_dinode (din_of (wsect ?b d s) j) (din_of s j)"
    using winode_ok [OF assms(1-3), of ip] by blast
  let ?s1 = "wsect ?b d s"
  have b: "203 \<le> unat ?b" "unat ?b < lo" using IBLOCK_nat [OF assms(3)] assms(3,4) by auto
  note low = low_write [OF assms(5) b(2), of ?s1 d, OF refl]
  have A: "addrs_of ?s1 j k = A j k" if "k < NADDRS" for j k
  proof (cases "j = i")
    case True
    then show ?thesis using w(3) assms(3) that assms(6) [OF that] by (simp add: addrs_of_def same_dinode_def)
  next
    case False
    then have "addrs_of ?s1 j k = addrs_of s j k" using w(4) that by (auto simp: addrs_of_def same_dinode_def)
    then show ?thesis using assms(7) [OF False that] by simp
  qed
  have "disk_ok ?s1 (addrs_of ?s1) L lo" using low(1) forest_addrs [OF _ A] by (simp add: disk_ok_def)
  moreover have "holds ?s1 (addrs_of ?s1 j) cs" if "Pair j ` need (length cs) \<subseteq> L" "holds s (A j) cs" for j cs
    using holds_addrs [of "addrs_of ?s1 j" "A j" ?s1 cs] A low(2) [OF that] by simp
  ultimately show ?thesis using w b(1) by (intro exI [of _ ?s1]) (auto simp: wsect_def)
qed

lemma need_0 [simp]: "need 0 = {}"
  by (simp add: need_def)

lemma tree_snoc [simp]: "tree (fs @ [(ty, [])]) = tree fs"
proof -
  have "(\<Union>i < length fs. Pair (i + 1) ` need (length (snd ((fs @ [(ty, [])]) ! i)))) = tree fs"
    unfolding tree_def by (intro SUP_cong) (auto simp: nth_append)
  then show ?thesis by (simp add: tree_def lessThan_Suc)
qed

lemma file_at_same:
  "file_at s i f \<Longrightarrow> same_dinode (din_of s1 i) (din_of s i) \<Longrightarrow> holds s1 (addrs_of s1 i) (snd f) \<Longrightarrow> file_at s1 i f"
  by (auto simp: file_at_def same_dinode_def)

lemma unused_addrs:
  assumes "disk_ok s (addrs_of s) (tree fs) lo" "length fs < i" "k < NADDRS"
  shows "addrs_of s i k = 0"
proof -
  have f: "forest (img s) (addrs_of s) (tree fs) lo (unat (freeblock s))" using assms(1) by (simp add: disk_ok_def)
  define t where "t = (if k < 12 then Dat k else Ind)"
  have t: "parent t = None" "slot t = k" using assms(3) by (auto simp: t_def NADDRS_def)
  have "baddr (img s) (addrs_of s i) t = 0"
    using forest_blank [OF f, of i t] tree_range [of i t fs] assms(2) t(1) by (auto simp: linked_def)
  then show ?thesis using t by (subst (asm) baddr_parent) simp
qed

lemma ialloc_ok:
  assumes "fs_inv low lo fs s" "length fs < 199"
  shows "\<exists>s1. ialloc ty s = Ret (of_nat (length fs + 1), s1) \<and> fs_inv low lo (fs @ [(ty, [])]) s1 \<and> nsect s1 = nsect s"
proof -
  let ?i = "length fs + 1" and ?s = "s\<lparr>freeinode := freeinode s + 1\<rparr>"
  let ?ip = "\<lparr>d_type = ty, d_major = 0, d_minor = 0, d_nlink = 1, d_size = 0, d_addrs = (\<lambda>_. 0)\<rparr> :: dinode"
  have inv: "jblocks s = NJB" "freeinode s = of_nat ?i" "228 \<le> lo" "228 \<le> unat (nsect s)" "disk_ok s (addrs_of s) (tree fs) lo"
    "\<And>j. j < length fs \<Longrightarrow> file_at s (j + 1) (fs ! j)" "\<forall>b. unat b < 203 \<longrightarrow> img s b = low b"
    using assms(1) by (auto simp: fs_inv_def)
  have e: "din_of ?s = din_of s" "addrs_of ?s = addrs_of s" "holds ?s = holds s" "disk_ok ?s = disk_ok s"
    by (auto simp: din_of_def addrs_of_def holds_def fbyte_def disk_ok_def fun_eq_iff)
  have "\<exists>s1. winode (of_nat ?i) ?ip ?s = Ret s1 \<and> nsect s1 = nsect ?s \<and> jblocks s1 = jblocks ?s \<and> freeinode s1 = freeinode ?s
    \<and> disk_ok s1 (addrs_of s1) (tree fs) lo \<and> same_dinode (din_of s1 ?i) ?ip
    \<and> (\<forall>j < 200. j \<noteq> ?i \<longrightarrow> same_dinode (din_of s1 j) (din_of ?s j))
    \<and> (\<forall>j cs. Pair j ` need (length cs) \<subseteq> tree fs \<longrightarrow> holds ?s (addrs_of s j) cs \<longrightarrow> holds s1 (addrs_of s1 j) cs)
    \<and> (\<forall>b. unat b < 203 \<longrightarrow> img s1 b = img ?s b) \<and> freeblock s1 = freeblock ?s"
    using inv assms(2) e unused_addrs [OF inv(5), of ?i] by (intro store_inode) auto
  then obtain s1 where s1: "winode (of_nat ?i) ?ip ?s = Ret s1" "nsect s1 = nsect s" "jblocks s1 = jblocks s" "freeinode s1 = freeinode s + 1"
    "disk_ok s1 (addrs_of s1) (tree fs) lo" "same_dinode (din_of s1 ?i) ?ip" "\<forall>j < 200. j \<noteq> ?i \<longrightarrow> same_dinode (din_of s1 j) (din_of s j)"
    "\<forall>j cs. Pair j ` need (length cs) \<subseteq> tree fs \<longrightarrow> holds s (addrs_of s j) cs \<longrightarrow> holds s1 (addrs_of s1 j) cs"
    "\<forall>b. unat b < 203 \<longrightarrow> img s1 b = img s b" unfolding e by auto
  have "file_at s1 (j + 1) (fs ! j)" if "j < length fs" for j
    using file_at_same [OF inv(6) [OF that]] s1(7,8) tree_in [OF that] inv(6) [OF that] that assms(2) by (auto simp: file_at_def)
  moreover have "file_at s1 ?i (ty, [])" using s1(6) by (simp add: file_at_def same_dinode_def holds_def pad_def)
  ultimately have "\<forall>j < length (fs @ [(ty, [])]). file_at s1 (j + 1) ((fs @ [(ty, [])]) ! j)" by (auto simp: nth_append less_Suc_eq)
  then have "fs_inv low lo (fs @ [(ty, [])]) s1" using inv s1 assms(2) by (auto simp: fs_inv_def)
  moreover have "ialloc ty s = Ret (of_nat ?i, s1)" using s1(1) inv(2) by (simp add: ialloc_def)
  ultimately show ?thesis using s1(2) by blast
qed

definition append_to :: "nat \<Rightarrow> uchar list \<Rightarrow> files \<Rightarrow> files" where
  "append_to i p fs = fs[i := (fst (fs ! i), snd (fs ! i) @ p)]"

lemma length_append_to [simp]: "length (append_to i p fs) = length fs"
  by (simp add: append_to_def)

lemma tree_append_to:
  assumes "i < length fs"
  shows "tree (append_to i p fs) = tree fs \<union> Pair (i + 1) ` need (length (snd (fs ! i)) + length p)"
proof (rule set_eqI, clarify)
  fix j t
  have m: "need (length (snd (fs ! i))) \<subseteq> need (length (snd (fs ! i)) + length p)" by (rule need_mono) simp
  show "(j, t) \<in> tree (append_to i p fs) \<longleftrightarrow> (j, t) \<in> tree fs \<union> Pair (i + 1) ` need (length (snd (fs ! i)) + length p)"
  proof (cases j)
    case 0
    then show ?thesis using tree_range by fastforce
  next
    case (Suc l)
    then show ?thesis using tree_in_iff [of l t] m assms by (cases "l = i") (auto simp: append_to_def)
  qed
qed

lemma holds_spared:
  assumes "spared lo L s A s' A'" "Pair i ` need (length cs) \<subseteq> L" "holds s (A i) cs"
  shows "holds s' (A' i) cs"
proof (rule holds_cong [OF assms(3)])
  fix k assume "k < pad (length cs)"
  then have "(i, Dat (k div 512)) \<in> L" using assms(2) need_dat by blast
  then show "fbyte s' (A' i) k = fbyte s (A i) k" using fbyte_spared [OF assms(1)] by blast
qed

lemma din_low:
  "\<forall>b. unat b < lo \<longrightarrow> img s' b = img s b \<Longrightarrow> 228 \<le> lo \<Longrightarrow> i < 200 \<Longrightarrow> din_of s' i = din_of s i"
  using IBLOCK_nat [of i] by (simp add: din_of_def)

lemma iappend_ok:
  assumes "fs_inv low lo fs s" "i < length fs" "length (snd (fs ! i)) + length p \<le> 16396 * 512"
    and "lo + card (tree (append_to i p fs)) \<le> unat (nsect s)"
  shows "\<exists>s1. iappend (of_nat (i + 1)) p s = Ret s1 \<and> fs_inv low lo (append_to i p fs) s1 \<and> nsect s1 = nsect s"
proof -
  let ?c = "i + 1" and ?off = "length (snd (fs ! i))" and ?L = "tree (append_to i p fs)"
  let ?din = "din_of s ?c" and ?A = "addrs_of s"
  have inv: "jblocks s = NJB" "freeinode s = of_nat (length fs + 1)" "length fs < 200" "228 \<le> lo" "228 \<le> unat (nsect s)"
    "disk_ok s ?A (tree fs) lo" "\<And>j. j < length fs \<Longrightarrow> file_at s (j + 1) (fs ! j)" "\<forall>b. unat b < 203 \<longrightarrow> img s b = low b"
    using assms(1) by (auto simp: fs_inv_def)
  have c: "?c < 200" using inv(3) assms(2) by simp
  have L: "?L = tree fs \<union> Pair ?c ` need (?off + length p)" using tree_append_to [OF assms(2)] .
  have din: "d_size ?din = of_nat ?off" "holds s (?A ?c) (snd (fs ! i))" "d_type ?din = fst (fs ! i)" "d_nlink ?din = 1"
    using inv(7) [OF assms(2)] by (auto simp: file_at_def)
  have Ac: "?A ?c k = d_addrs ?din k" if "k < NADDRS" for k using c that by (simp add: addrs_of_def)
  have d0: "disk_ok s (?A(?c := d_addrs ?din)) (tree fs) lo"
    using inv(6) forest_addrs [of "img s" ?A "tree fs" lo _ "?A(?c := d_addrs ?din)"] Ac by (simp add: disk_ok_def)
  have hold: "holds s (d_addrs ?din) (snd (fs ! i))" using holds_addrs [of "?A ?c" "d_addrs ?din"] Ac din(2) by simp
  have own: "\<forall>t. (?c, t) \<in> tree fs \<longleftrightarrow> t \<in> need ?off" using tree_in_iff assms(2) by simp
  obtain a s1 where s1: "iappend_loop (of_nat ?off) p ?din s = Ret (of_nat (?off + length p), ?din\<lparr>d_addrs := a\<rparr>, s1)"
    "disk_ok s1 (?A(?c := a)) ?L lo" "spared lo {z \<in> tree fs. fst z \<noteq> ?c} s ?A s1 ?A"
    "holds s1 a (snd (fs ! i) @ p)"
    using iappend_loop_ok [OF d0 own assms(3) hold refl] assms(4) L by auto
  have k: "nsect s1 = nsect s" "jblocks s1 = NJB" "freeinode s1 = freeinode s" "\<forall>b. unat b < lo \<longrightarrow> img s1 b = img s b"
    using s1(3) inv(1) by (auto simp: spared_def)
  have dins: "din_of s1 j = din_of s j" if "j < 200" for j using din_low [OF k(4) inv(4) that] .
  have As: "addrs_of s1 = ?A" using dins by (auto simp: addrs_of_def fun_eq_iff)
  let ?ip = "?din\<lparr>d_addrs := a, d_size := of_nat (?off + length p)\<rparr>"
  have "\<exists>s2. winode (of_nat ?c) ?ip s1 = Ret s2 \<and> nsect s2 = nsect s1 \<and> jblocks s2 = jblocks s1 \<and> freeinode s2 = freeinode s1
    \<and> disk_ok s2 (addrs_of s2) ?L lo \<and> same_dinode (din_of s2 ?c) ?ip \<and> (\<forall>j < 200. j \<noteq> ?c \<longrightarrow> same_dinode (din_of s2 j) (din_of s1 j))
    \<and> (\<forall>j cs. Pair j ` need (length cs) \<subseteq> ?L \<longrightarrow> holds s1 ((?A(?c := a)) j) cs \<longrightarrow> holds s2 (addrs_of s2 j) cs)
    \<and> (\<forall>b. unat b < 203 \<longrightarrow> img s2 b = img s1 b) \<and> freeblock s2 = freeblock s1"
    using k inv(4,5) c As by (intro store_inode [OF _ _ _ _ s1(2)]) auto
  then obtain s2 where s2: "winode (of_nat ?c) ?ip s1 = Ret s2" "nsect s2 = nsect s" "jblocks s2 = NJB" "freeinode s2 = freeinode s"
    "disk_ok s2 (addrs_of s2) ?L lo" "same_dinode (din_of s2 ?c) ?ip" "\<forall>j < 200. j \<noteq> ?c \<longrightarrow> same_dinode (din_of s2 j) (din_of s1 j)"
    "\<forall>j cs. Pair j ` need (length cs) \<subseteq> ?L \<longrightarrow> holds s1 ((?A(?c := a)) j) cs \<longrightarrow> holds s2 (addrs_of s2 j) cs"
    "\<forall>b. unat b < 203 \<longrightarrow> img s2 b = img s b" using k inv(4) by auto
  have "holds s2 (addrs_of s2 ?c) (snd (fs ! i) @ p)" using s2(8) [rule_format, of ?c] L s1(4) by auto
  then have new: "file_at s2 ?c (append_to i p fs ! i)"
    using s2(6) din assms(2,3) by (simp add: file_at_def same_dinode_def append_to_def)
  have other: "file_at s2 (j + 1) (fs ! j)" if j: "j < length fs" "j \<noteq> i" for j
  proof (rule file_at_same [OF inv(7) [OF j(1)]])
    have t: "Pair (j + 1) ` need (length (snd (fs ! j))) \<subseteq> tree fs" using tree_in [OF j(1)] .
    then have sub: "Pair (j + 1) ` need (length (snd (fs ! j))) \<subseteq> ?L" unfolding L by blast
    have "holds s (?A (j + 1)) (snd (fs ! j))" using inv(7) [OF j(1)] by (simp add: file_at_def)
    then have "holds s1 (?A (j + 1)) (snd (fs ! j))" using t j(2) by (intro holds_spared [OF s1(3)]) auto
    then show "holds s2 (addrs_of s2 (j + 1)) (snd (fs ! j))" using s2(8) [rule_format, OF sub] j(2) by simp
    show "same_dinode (din_of s2 (j + 1)) (din_of s (j + 1))" using s2(7) dins j inv(3) by auto
  qed
  have "file_at s2 (j + 1) (append_to i p fs ! j)" if "j < length fs" for j
    using new other [OF that] by (cases "j = i") (auto simp: append_to_def)
  then have "fs_inv low lo (append_to i p fs) s2" using inv s2 by (simp add: fs_inv_def)
  moreover have "rinode (of_nat ?c) s = Ret ?din"
    using c inv(1,5) IBLOCK_nat [OF c] by (simp add: rinode_def i2b_IBLOCK rsect_def word_less_nat_alt din_of_def)
  then have "iappend (of_nat ?c) p s = Ret s2" using s1(1) s2(1) din(1) by (simp add: iappend_def)
  ultimately show ?thesis using s2(2) by blast
qed

end
