(* ===== verification/MkfsFiles.thy ===== *)
theory MkfsFiles
  imports MkfsImage
begin

text \<open>
  What the whole of \<^verbatim>\<open>mkfs\<close> makes of a list of files, and what the kernel reads from the image.
\<close>

section \<open>Adding files\<close>

definition files_le :: "files \<Rightarrow> files \<Rightarrow> bool" where
  "files_le fs gs \<longleftrightarrow> length fs \<le> length gs \<and> (\<forall>i < length fs. length (snd (fs ! i)) \<le> length (snd (gs ! i)))"

definition fits_disk :: "nat \<Rightarrow> nat \<Rightarrow> files \<Rightarrow> bool" where
  "fits_disk lo n fs \<longleftrightarrow> length fs < 200 \<and> (\<forall>f \<in> set fs. length (snd f) \<le> 16396 * 512) \<and> lo + card (tree fs) \<le> n"

lemma files_le_refl [simp]: "files_le fs fs"
  by (simp add: files_le_def)

lemma files_le_trans: "files_le fs gs \<Longrightarrow> files_le gs hs \<Longrightarrow> files_le fs hs"
  by (auto simp: files_le_def intro: le_trans)

lemma files_le_append: "files_le fs (append_to i p fs)" "files_le fs (fs @ gs)"
proof -
  have "length (snd (fs ! j)) \<le> length (snd (append_to i p fs ! j))" if "j < length fs" for j
    using that by (cases "j = i") (auto simp: append_to_def)
  then show "files_le fs (append_to i p fs)" by (simp add: files_le_def)
qed (auto simp: files_le_def nth_append)

lemma finite_tree [simp]: "finite (tree fs)"
  by (simp add: tree_def)

lemma tree_mono: "files_le fs gs \<Longrightarrow> tree fs \<subseteq> tree gs"
proof
  fix x assume le: "files_le fs gs" and x: "x \<in> tree fs"
  obtain j t where p: "x = (j, t)" by (cases x)
  then obtain i where i: "j = i + 1" using tree_range [of j t fs] x by (cases j) auto
  then have "i < length fs" "t \<in> need (length (snd (fs ! i)))" using x p tree_in_iff by auto
  then have "i < length gs" "t \<in> need (length (snd (gs ! i)))" using le need_mono unfolding files_le_def by (auto dest: subsetD)
  then show "x \<in> tree gs" using p i tree_in_iff by simp
qed

lemma fits_disk_mono: "fits_disk lo n gs \<Longrightarrow> files_le fs gs \<Longrightarrow> fits_disk lo n fs"
proof -
  assume f: "fits_disk lo n gs" and le: "files_le fs gs"
  have "card (tree fs) \<le> card (tree gs)" using tree_mono [OF le] by (intro card_mono) auto
  moreover have "length (snd f) \<le> 16396 * 512" if mem: "f \<in> set fs" for f
  proof -
    obtain i where i: "i < length fs" "f = fs ! i" using mem by (metis in_set_conv_nth)
    then have "length (snd f) \<le> length (snd (gs ! i))" "gs ! i \<in> set gs" using le by (auto simp: files_le_def)
    then show ?thesis using f by (auto simp: fits_disk_def intro: le_trans)
  qed
  ultimately show ?thesis using f le by (auto simp: fits_disk_def files_le_def)
qed

lemma append_to_append: "i < length fs \<Longrightarrow> append_to i q (append_to i p fs) = append_to i (p @ q) fs"
  by (simp add: append_to_def)

lemma append_to_Nil [simp]: "append_to i [] fs = fs"
  by (simp add: append_to_def)

lemma append_fits:
  assumes "fs_inv low lo fs s" "i < length fs" "fits_disk lo (unat (nsect s)) (append_to i p fs)"
  shows "\<exists>s1. iappend (of_nat (i + 1)) p s = Ret s1 \<and> fs_inv low lo (append_to i p fs) s1 \<and> nsect s1 = nsect s"
proof -
  have "append_to i p fs ! i \<in> set (append_to i p fs)" using assms(2) by (intro nth_mem) simp
  then have "length (snd (fs ! i)) + length p \<le> 16396 * 512" using assms(2,3) by (fastforce simp: fits_disk_def append_to_def)
  then show ?thesis using iappend_ok [OF assms(1,2)] assms(3) by (simp add: fits_disk_def)
qed

lemma append_pieces_ok:
  assumes "fs_inv low lo fs s" "i < length fs" "fits_disk lo (unat (nsect s)) (append_to i (concat ps) fs)"
  shows "\<exists>s1. append_pieces (of_nat (i + 1)) ps s = Ret s1 \<and> fs_inv low lo (append_to i (concat ps) fs) s1 \<and> nsect s1 = nsect s"
  using assms
proof (induction ps arbitrary: fs s)
  case (Cons p ps)
  let ?f1 = "append_to i p fs"
  have e: "append_to i (concat (p # ps)) fs = append_to i (concat ps) ?f1" using Cons.prems(2) by (simp add: append_to_append)
  have "fits_disk lo (unat (nsect s)) ?f1" using fits_disk_mono [OF Cons.prems(3)] files_le_append(1) unfolding e by blast
  then obtain s1 where s1: "iappend (of_nat (i + 1)) p s = Ret s1" "fs_inv low lo ?f1 s1" "nsect s1 = nsect s"
    using append_fits [OF Cons.prems(1,2)] by blast
  show ?case using Cons.IH [OF s1(2)] Cons.prems(2,3) s1 unfolding e by auto
qed simp

text \<open>The entries of the root directory, and the files that the program has made after a list of files of the host.\<close>

definition entry :: "nat \<Rightarrow> uchar list \<Rightarrow> uchar list" where
  "entry inum name = dirent_bytes \<lparr>de_inum = ucast (of_nat inum :: uint), de_name = pad_name name\<rparr>"

fun files_with :: "hostfile list \<Rightarrow> files \<Rightarrow> files" where
  "files_with [] fs = fs"
| "files_with ((name, contents) # hs) fs = files_with hs
     (append_to (length fs) (concat (the contents)) (append_to 0 (entry (length fs + 1) (skip_underscore name)) (fs @ [(T_FILE, [])])))"

definition host_ok :: "hostfile \<Rightarrow> bool" where
  "host_ok h \<longleftrightarrow> SLASH \<notin> set (fst h) \<and> snd h \<noteq> None"

lemma files_with_le: "files_le fs (files_with hs fs)"
proof (induction hs fs rule: files_with.induct)
  case (2 name contents hs fs)
  have "files_le fs (fs @ [(T_FILE, [])])" by (rule files_le_append)
  then show ?case using files_le_trans 2 files_le_append(1) unfolding files_with.simps by blast
qed simp

lemma link_root_entry: "link_root rootino (of_nat inum) name s = iappend rootino (entry inum name) s"
  by (simp add: link_root_def entry_def)

lemma add_file_ok:
  assumes "fs_inv low lo fs s" "fs \<noteq> []" "host_ok (name, contents)" "fits_disk lo (unat (nsect s)) (files_with [(name, contents)] fs)"
  shows "\<exists>s1. add_file 1 (name, contents) s = Ret s1 \<and> fs_inv low lo (files_with [(name, contents)] fs) s1 \<and> nsect s1 = nsect s"
proof -
  let ?f1 = "fs @ [(T_FILE, [])]"
  let ?e = "entry (length fs + 1) (skip_underscore name)"
  let ?f2 = "append_to 0 ?e ?f1"
  obtain ps where c: "contents = Some ps" "SLASH \<notin> set name" using assms(3) by (auto simp: host_ok_def)
  have w: "files_with [(name, contents)] fs = append_to (length fs) (concat ps) ?f2" using c by simp
  have f2: "fits_disk lo (unat (nsect s)) ?f2" using fits_disk_mono [OF assms(4)] files_le_append(1) unfolding w by blast
  then have "length fs < 199" by (simp add: fits_disk_def)
  then obtain s1 where s1: "ialloc T_FILE s = Ret (of_nat (length fs + 1), s1)" "fs_inv low lo ?f1 s1" "nsect s1 = nsect s"
    using ialloc_ok [OF assms(1)] by blast
  obtain s2 where s2: "iappend (of_nat (0 + 1)) ?e s1 = Ret s2" "fs_inv low lo ?f2 s2" "nsect s2 = nsect s1"
    using append_fits [OF s1(2), of 0 ?e] f2 s1(3) by auto
  obtain s3 where "append_pieces (of_nat (length fs + 1)) ps s2 = Ret s3" "fs_inv low lo (append_to (length fs) (concat ps) ?f2) s3" "nsect s3 = nsect s2"
    using append_pieces_ok [OF s2(2), of "length fs" ps] assms(4) s1(3) s2(3) unfolding w by auto
  then show ?thesis using c s1 s2 link_root_entry [of 1 "length fs + 1" "skip_underscore name" s1] unfolding w by auto
qed

lemma files_with_Cons: "files_with (h # hs) fs = files_with hs (files_with [h] fs)"
  by (cases h) simp

lemma add_files_ok:
  assumes "fs_inv low lo fs s" "fs \<noteq> []" "\<forall>h \<in> set hs. host_ok h" "fits_disk lo (unat (nsect s)) (files_with hs fs)"
  shows "\<exists>s1. add_files 1 hs s = Ret s1 \<and> fs_inv low lo (files_with hs fs) s1 \<and> nsect s1 = nsect s"
  using assms
proof (induction hs arbitrary: fs s)
  case (Cons h hs)
  obtain name contents where h: "h = (name, contents)" by (cases h)
  let ?f1 = "files_with [h] fs"
  have e: "files_with (h # hs) fs = files_with hs ?f1" by (rule files_with_Cons)
  have le: "files_le ?f1 (files_with hs ?f1)" "files_le fs ?f1" by (rule files_with_le)+
  have "host_ok (name, contents)" using Cons.prems(3) h by simp
  moreover have "fits_disk lo (unat (nsect s)) ?f1" using fits_disk_mono [OF _ le(1)] Cons.prems(4) unfolding e by blast
  ultimately obtain s1 where s1: "add_file 1 h s = Ret s1" "fs_inv low lo ?f1 s1" "nsect s1 = nsect s"
    using add_file_ok [OF Cons.prems(1,2), of name contents] unfolding h by blast
  have "?f1 \<noteq> []" using le(2) Cons.prems(2) by (auto simp: files_le_def)
  then show ?case using Cons.IH [OF s1(2)] Cons.prems(3,4) s1 unfolding e by auto
qed simp

text \<open>In closed form: the root directory has an entry for every file, and the files follow in order.\<close>

fun entries :: "nat \<Rightarrow> hostfile list \<Rightarrow> uchar list" where
  "entries n [] = []"
| "entries n (h # hs) = entry n (skip_underscore (fst h)) @ entries (n + 1) hs"

lemma files_with_form:
  "files_with hs ((ty, d) # fs) = (ty, d @ entries (length fs + 2) hs) # fs @ map (\<lambda>h. (T_FILE, concat (the (snd h)))) hs"
proof (induction hs arbitrary: d fs)
  case (Cons h hs)
  obtain name contents where "h = (name, contents)" by (cases h)
  then show ?case using Cons [of "d @ entry (length fs + 2) (skip_underscore name)" "fs @ [(T_FILE, concat (the contents))]"]
    by (simp add: append_to_def list_update_append numeral_2_eq_2)
qed simp

section \<open>The empty file system\<close>

lemma zero_sectors:
  assumes "img s = (\<lambda>_ _. 0)" "nsect s = 0" "n < 2 ^ 32"
  shows "fold (\<lambda>i. wsect (of_nat i) (\<lambda>_. 0)) [0 ..< n] s = s\<lparr>nsect := of_nat n\<rparr>"
  using assms(3)
proof (induction n)
  case (Suc n)
  have u: "unat (of_nat n :: uint) = n" "unat (of_nat (Suc n) :: uint) = Suc n" using Suc.prems by (simp_all add: unat_of_nat del: of_nat_Suc)
  then have "(of_nat n :: uint) \<le> of_nat n + 1" by (simp add: word_le_nat_alt add.commute)
  moreover have "(\<lambda>_ _. 0)(of_nat n := (\<lambda>_. 0)) = ((\<lambda>_ _. 0) :: uint \<Rightarrow> bytes)" by auto
  moreover have "s\<lparr>img := (\<lambda>_ _. 0), nsect := v\<rparr> = s\<lparr>nsect := v\<rparr>" for v using assms(1) by (cases s) simp
  ultimately show ?case using Suc assms(1) by (simp add: wsect_def max_def add.commute)
qed (use assms(2) in simp)

definition first_free :: "nat \<Rightarrow> nat" where
  "first_free n = n div 4096 + 230"

definition boot_block :: "nat \<Rightarrow> bytes \<Rightarrow> bytes" where
  "boot_block n globals = put_u32 (put_u32 (put_u32 globals 0 (of_nat n)) 4 (of_nat n - of_nat (first_free n))) 8 200"

definition blank_fs :: "nat \<Rightarrow> bytes \<Rightarrow> bytes \<Rightarrow> mkfs" where
  "blank_fs n globals stack = \<lparr>img = (\<lambda>_ _. 0)(1 := boot_block n globals, 2 := jsb_bytes 200 3 3 0 stack), nsect = of_nat n,
     jblocks = NJB, freeblock = of_nat (first_free n), usedblocks = of_nat (first_free n), freeinode = 1\<rparr>"

lemma layout_blank:
  assumes "3 \<le> n" "n < 2 ^ 16"
  shows "jinit stack (mkfs_layout (of_nat n) globals) = blank_fs n globals stack"
proof -
  let ?sz = "of_nat n :: uint"
  have u: "unat ?sz = n" using assms(2) by (simp add: unat_of_nat)
  have d: "?sz div 4096 = of_nat (n div 4096)"
  proof (rule unsigned_word_eqI)
    have "n div 4096 < 2 ^ 32" using assms(2) by (simp add: less_mult_imp_div_less)
    then show "unat (?sz div 4096) = unat (of_nat (n div 4096) :: uint)" using u by (simp add: unat_div unat_of_nat)
  qed
  have used: "ninodes div IPB + 3 + (?sz div (512 * 8) + 1) + NJB = of_nat (first_free n)"
    by (simp add: ninodes_def IPB_def NJB_def first_free_def d)
  have le: "(2 :: uint) \<le> ?sz" "(3 :: uint) \<le> ?sz" using u assms(1) by (simp_all add: word_le_nat_alt)
  have m: "max ?sz (1 + 1) = ?sz" "max ?sz (2 + 1) = ?sz" using le by (auto simp: max_def)
  show ?thesis
    unfolding mkfs_layout_def Let_def used jinit_def
    using assms(2) u m by (simp add: zero_sectors wsect_def blank_fs_def boot_block_def ninodes_def NJB_def jsb_bytes_def)
qed

lemma blank_inv:
  assumes "first_free n \<le> n" "n < 2 ^ 16"
  shows "fs_inv (img (blank_fs n globals stack)) (first_free n) [] (blank_fs n globals stack)"
proof -
  let ?s = "blank_fs n globals stack"
  have u: "unat (nsect ?s) = n" "unat (freeblock ?s) = first_free n" using assms by (auto simp: blank_fs_def unat_of_nat)
  have z: "img ?s b = (\<lambda>_. 0)" if "2 < unat b" for b using that by (auto simp: blank_fs_def)
  have "addrs_of ?s i k = 0" for i k
  proof (cases "i < 200")
    case True
    have "2 < unat (IBLOCK (of_nat i))" using IBLOCK_nat [OF True] by simp
    then have "img ?s (IBLOCK (of_nat i)) = (\<lambda>_. 0)" by (rule z)
    then show ?thesis by (simp add: addrs_of_def din_of_def get_dinode_def)
  qed (simp add: addrs_of_def)
  then have a: "addrs_of ?s = (\<lambda>_ _. 0)" by (intro ext)
  have "baddr (img ?s) (\<lambda>_. 0) t = 0" if "linked {} i t" for i t
    using that by (subst baddr_parent) (auto simp: linked_def split: option.splits)
  moreover have "230 \<le> first_free n" by (simp add: first_free_def)
  ultimately have "disk_ok ?s (addrs_of ?s) (tree []) (first_free n)"
    using u z unfolding disk_ok_def forest_def a by (auto simp: tree_def) (simp add: blank_fs_def)
  then show ?thesis using u assms \<open>230 \<le> first_free n\<close> by (simp add: fs_inv_def) (simp add: blank_fs_def)
qed

section \<open>The bitmap\<close>

lemma bit_used_mark: "bit_used (mark_used c d) b \<longleftrightarrow> b = c \<or> bit_used d b"
proof -
  have bit: "bit_used e k \<longleftrightarrow> bit (e (k div 8)) (k mod 8)" for e k
  proof -
    have "k mod 8 < 8" by simp
    then show ?thesis unfolding bit_used_def and_exp_eq_0_iff_not_bit push_bit_of_1 by simp
  qed
  have "k mod 8 < LENGTH(8)" for k :: nat by simp
  moreover have "b = c" if "b div 8 = c div 8" "b mod 8 = c mod 8" using that by (metis div_mult_mod_eq)
  ultimately show ?thesis unfolding bit mark_used_def by (auto simp: bit_or_iff bit_exp_iff)
qed

lemma bit_used_fold: "bit_used (fold mark_used cs d) b \<longleftrightarrow> b \<in> set cs \<or> bit_used d b"
  by (induction cs arbitrary: d) (auto simp: bit_used_mark)

section \<open>The whole program\<close>

definition made :: "hostfile list \<Rightarrow> files" where
  "made files = (T_DIR, entry 1 [46] @ entry 1 [46, 46] @ entries 2 files) # map (\<lambda>h. (T_FILE, concat (the (snd h)))) files"

definition root_size :: "files \<Rightarrow> nat" where
  "root_size fs = (length (snd (fs ! 0)) div 512 + 1) * 512"

text \<open>
  The image of a file system with the files \<open>fs\<close>, the root directory first, on a disk of \<open>n\<close> blocks: the two superblocks, the
  forest of blocks, the inodes with their contents, and the bitmap.
\<close>

definition fs_image :: "nat \<Rightarrow> files \<Rightarrow> mkfs \<Rightarrow> bool" where
  "fs_image n fs s \<longleftrightarrow>
     superblock_of (img s 1) = \<lparr>sb_size = of_nat n, sb_nblocks = of_nat (n - first_free n), sb_ninodes = 200\<rparr>
     \<and> jsb_size (img s 2) = 200 \<and> jsb_head (img s 2) = 3 \<and> jsb_tail (img s 2) = 3
     \<and> length fs < 200 \<and> forest (img s) (addrs_of s) (tree fs) (first_free n) (unat (freeblock s)) \<and> unat (freeblock s) \<le> n
     \<and> (\<forall>i. 0 < i \<longrightarrow> i < length fs \<longrightarrow> file_at s (i + 1) (fs ! i))
     \<and> d_type (din_of s 1) = T_DIR \<and> d_nlink (din_of s 1) = 1 \<and> d_size (din_of s 1) = of_nat (root_size fs) \<and> holds s (addrs_of s 1) (snd (fs ! 0))
     \<and> (\<forall>b < 4096. bit_used (img s (BBLOCK (of_nat b) 200)) b \<longleftrightarrow> b < unat (freeblock s))"

lemma fix_root_ok:
  assumes "fs_inv low lo fs s" "fs \<noteq> []"
  shows "\<exists>s1. fix_root 1 s = Ret s1 \<and> nsect s1 = nsect s \<and> jblocks s1 = NJB \<and> freeblock s1 = freeblock s
    \<and> disk_ok s1 (addrs_of s1) (tree fs) lo \<and> (\<forall>i. 0 < i \<longrightarrow> i < length fs \<longrightarrow> file_at s1 (i + 1) (fs ! i))
    \<and> d_type (din_of s1 1) = fst (fs ! 0) \<and> d_nlink (din_of s1 1) = 1 \<and> d_size (din_of s1 1) = of_nat (root_size fs)
    \<and> holds s1 (addrs_of s1 1) (snd (fs ! 0)) \<and> (\<forall>b. unat b < 203 \<longrightarrow> img s1 b = low b)"
proof -
  let ?din = "din_of s 1" and ?len = "length (snd (fs ! 0))"
  let ?ip = "?din\<lparr>d_size := of_nat (root_size fs)\<rparr>"
  have inv: "jblocks s = NJB" "length fs < 200" "228 \<le> lo" "228 \<le> unat (nsect s)" "disk_ok s (addrs_of s) (tree fs) lo"
    "\<And>j. j < length fs \<Longrightarrow> file_at s (j + 1) (fs ! j)" "\<forall>b. unat b < 203 \<longrightarrow> img s b = low b"
    using assms(1) by (auto simp: fs_inv_def)
  have f0: "file_at s 1 (fs ! 0)" using inv(6) [of 0] assms(2) by simp
  have a1: "d_addrs ?ip k = addrs_of s 1 k" if "k < NADDRS" for k using that by (simp add: addrs_of_def)
  have "\<exists>s1. winode (of_nat 1) ?ip s = Ret s1 \<and> nsect s1 = nsect s \<and> jblocks s1 = jblocks s \<and> freeinode s1 = freeinode s
    \<and> disk_ok s1 (addrs_of s1) (tree fs) lo \<and> same_dinode (din_of s1 1) ?ip \<and> (\<forall>j < 200. j \<noteq> 1 \<longrightarrow> same_dinode (din_of s1 j) (din_of s j))
    \<and> (\<forall>j cs. Pair j ` need (length cs) \<subseteq> tree fs \<longrightarrow> holds s (addrs_of s j) cs \<longrightarrow> holds s1 (addrs_of s1 j) cs)
    \<and> (\<forall>b. unat b < 203 \<longrightarrow> img s1 b = img s b) \<and> freeblock s1 = freeblock s"
    using inv a1 by (intro store_inode) auto
  then obtain s1 where s1: "winode 1 ?ip s = Ret s1" "nsect s1 = nsect s" "jblocks s1 = NJB" "freeblock s1 = freeblock s"
    "disk_ok s1 (addrs_of s1) (tree fs) lo" "same_dinode (din_of s1 1) ?ip" "\<forall>j < 200. j \<noteq> 1 \<longrightarrow> same_dinode (din_of s1 j) (din_of s j)"
    "\<forall>j cs. Pair j ` need (length cs) \<subseteq> tree fs \<longrightarrow> holds s (addrs_of s j) cs \<longrightarrow> holds s1 (addrs_of s1 j) cs"
    "\<forall>b. unat b < 203 \<longrightarrow> img s1 b = low b" using inv by auto
  have hold: "holds s1 (addrs_of s1 (j + 1)) (snd (fs ! j))" if "j < length fs" for j
    using s1(8) [rule_format, OF tree_in [OF that]] inv(6) [OF that] by (simp add: file_at_def)
  have "file_at s1 (j + 1) (fs ! j)" if "0 < j" "j < length fs" for j
    using file_at_same [OF inv(6) [OF that(2)]] s1(7) hold [OF that(2)] that inv(2) by auto
  moreover have "rinode 1 s = Ret ?din"
    using inv(1,4) IBLOCK_nat [of 1] by (simp add: rinode_def i2b_IBLOCK rsect_def word_less_nat_alt din_of_def)
  moreover have "(of_nat ?len div BSIZE + 1) * BSIZE = (of_nat (root_size fs) :: uint)"
    using of_nat_div_512 [of ?len] f0 by (simp add: file_at_def BSIZE_def root_size_def)
  then have "fix_root 1 s = Ret s1" using \<open>rinode 1 s = _\<close> s1(1) f0 by (simp add: fix_root_def file_at_def Let_def)
  ultimately show ?thesis using s1 hold [of 0] assms(2) f0 by (auto simp: same_dinode_def file_at_def)
qed

lemma mk_balloc_ok:
  assumes "228 < lo" "lo \<noteq> 229" "disk_ok s (addrs_of s) (tree fs) lo" "jblocks s = NJB" "unat (freeblock s) \<le> 4096" "229 < unat (nsect s)"
  shows "\<exists>s1. mk_balloc (usedblocks s) s = Ret s1 \<and> disk_ok s1 (addrs_of s1) (tree fs) lo \<and> freeblock s1 = freeblock s
    \<and> din_of s1 1 = din_of s 1 \<and> (\<forall>i < 200. din_of s1 i = din_of s i) \<and> (\<forall>b. unat b < 203 \<longrightarrow> img s1 b = img s b)
    \<and> (\<forall>i < length fs. holds s (addrs_of s (i + 1)) (snd (fs ! i)) \<longrightarrow> holds s1 (addrs_of s1 (i + 1)) (snd (fs ! i)))
    \<and> (\<forall>b < 4096. bit_used (img s1 (BBLOCK (of_nat b) 200)) b \<longleftrightarrow> b < unat (freeblock s))"
proof -
  have used: "usedblocks s = freeblock s" using assms(3) by (simp add: disk_ok_def)
  let ?bm = "fold mark_used [0 ..< unat (freeblock s)] (\<lambda>_. 0)"
  let ?s1 = "wsect 229 ?bm s"
  have b: "mk_balloc (usedblocks s) s = Ret ?s1" using assms(4,5) used by (simp add: mk_balloc_def ninodes_def IPB_def NJB_def)
  note low = low_write [OF assms(3), of 229 ?s1 ?bm]
  have din: "din_of ?s1 i = din_of s i" if "i < 200" for i
  proof -
    have "unat (IBLOCK (of_nat i)) < 228" using IBLOCK_nat [OF that] that by simp
    then have "IBLOCK (of_nat i) \<noteq> 229" by auto
    then show ?thesis by (simp add: din_of_def wsect_def)
  qed
  then have A: "addrs_of ?s1 = addrs_of s" by (auto simp: addrs_of_def fun_eq_iff)
  have "holds ?s1 (addrs_of s (i + 1)) (snd (fs ! i))" if "i < length fs" "holds s (addrs_of s (i + 1)) (snd (fs ! i))" for i
    using low(2) [OF _ _ tree_in [OF that(1)] that(2)] assms(1,2) by simp
  moreover have "BBLOCK (of_nat b) 200 = 229" if "b < 4096" for b
  proof -
    have "unat (of_nat b div BPB :: uint) = 0" using that by (simp add: unat_div BPB_def unat_of_nat)
    then have "(of_nat b :: uint) div BPB = 0" by (simp add: unat_eq_0)
    then show ?thesis by (simp add: BBLOCK_def IPB_def NJB_def)
  qed
  moreover have "bit_used ?bm b \<longleftrightarrow> b < unat (freeblock s)" for b by (auto simp: bit_used_fold) (simp add: bit_used_def)
  ultimately show ?thesis using b low(1) assms(1,2) din A by (intro exI [of _ ?s1]) (auto simp: wsect_def)
qed

lemma made_with: "files_with files [(T_DIR, entry 1 [46] @ entry 1 [46, 46])] = made files"
  using files_with_form [of files T_DIR "entry 1 [46] @ entry 1 [46, 46]" "[]"] by (simp add: made_def numeral_2_eq_2)

lemma mkfs_main_ok:
  assumes "1 \<le> kb" "kb \<le> 32767" "n = nat (2 * kb)" "\<forall>h \<in> set files. host_ok h"
    and "fits_disk (first_free n) n (made files)" "first_free n + card (tree (made files)) \<le> 4096"
  shows "\<exists>s. mkfs_main globals stack kb True files = Ret s \<and> fs_image n (made files) s"
proof -
  let ?lo = "first_free n" and ?low = "img (blank_fs n globals stack)" and ?root = "entry 1 [46] @ entry 1 [46, 46]"
  have n: "n < 2 ^ 16" "?lo \<le> n" "230 \<le> ?lo" using assms(2,3,5) by (auto simp: fits_disk_def first_free_def)
  have kb: "of_int (kb * 1024 div 512) = (of_nat n :: uint)"
  proof -
    have "kb * 1024 div 512 = int n" using assms(1,3) by simp
    then show ?thesis by simp
  qed
  have layout: "jinit stack (mkfs_layout (of_nat n) globals) = blank_fs n globals stack" using layout_blank n by simp
  let ?s = "blank_fs n globals stack"
  have i0: "fs_inv ?low ?lo [] ?s" using blank_inv n by simp
  have ns: "unat (nsect ?s) = n" using n(1) by (simp add: blank_fs_def unat_of_nat)
  have fit: "fits_disk ?lo n fs" if "files_le fs [(T_DIR, ?root)]" for fs
    using fits_disk_mono [OF assms(5)] files_le_trans [OF that] files_with_le [of "[(T_DIR, ?root)]" files] unfolding made_with by blast
  obtain s1 where s1: "ialloc T_DIR ?s = Ret (1, s1)" "fs_inv ?low ?lo [(T_DIR, [])] s1" "nsect s1 = nsect ?s"
    using ialloc_ok [OF i0, of T_DIR] by auto
  obtain s2 where s2: "iappend 1 (entry 1 [46]) s1 = Ret s2" "fs_inv ?low ?lo [(T_DIR, entry 1 [46])] s2" "nsect s2 = nsect ?s"
    using append_fits [OF s1(2), of 0 "entry 1 [46]"] fit [of "[(T_DIR, entry 1 [46])]"] s1(3) ns by (auto simp: append_to_def files_le_def)
  obtain s3 where s3: "iappend 1 (entry 1 [46, 46]) s2 = Ret s3" "fs_inv ?low ?lo [(T_DIR, ?root)] s3" "nsect s3 = nsect ?s"
    using append_fits [OF s2(2), of 0 "entry 1 [46, 46]"] fit [of "[(T_DIR, ?root)]"] s2(3) ns by (auto simp: append_to_def files_le_def)
  obtain s4 where s4: "add_files 1 files s3 = Ret s4" "fs_inv ?low ?lo (made files) s4" "nsect s4 = nsect ?s"
    using add_files_ok [OF s3(2) _ assms(4)] assms(5) s3(3) ns unfolding made_with by auto
  have ne: "made files \<noteq> []" "fst (made files ! 0) = T_DIR" by (auto simp: made_def)
  obtain s5 where s5: "fix_root 1 s4 = Ret s5" "nsect s5 = nsect s4" "jblocks s5 = NJB"
    "disk_ok s5 (addrs_of s5) (tree (made files)) ?lo" "\<forall>i. 0 < i \<longrightarrow> i < length (made files) \<longrightarrow> file_at s5 (i + 1) (made files ! i)"
    "d_type (din_of s5 1) = T_DIR" "d_nlink (din_of s5 1) = 1" "d_size (din_of s5 1) = of_nat (root_size (made files))"
    "holds s5 (addrs_of s5 1) (snd (made files ! 0))" "\<forall>b. unat b < 203 \<longrightarrow> img s5 b = ?low b"
    using fix_root_ok [OF s4(2) ne(1)] ne(2) by auto
  have fb: "unat (freeblock s5) = ?lo + card (tree (made files))" using s5(4) by (simp add: disk_ok_def forest_def)
  obtain s6 where s6: "mk_balloc (usedblocks s5) s5 = Ret s6" "disk_ok s6 (addrs_of s6) (tree (made files)) ?lo" "freeblock s6 = freeblock s5"
    "\<forall>i < 200. din_of s6 i = din_of s5 i" "\<forall>b. unat b < 203 \<longrightarrow> img s6 b = img s5 b"
    "\<forall>i < length (made files). holds s5 (addrs_of s5 (i + 1)) (snd (made files ! i)) \<longrightarrow> holds s6 (addrs_of s6 (i + 1)) (snd (made files ! i))"
    "\<forall>b < 4096. bit_used (img s6 (BBLOCK (of_nat b) 200)) b \<longleftrightarrow> b < unat (freeblock s5)"
    using mk_balloc_ok [of ?lo s5 "made files"] s5(2-4) s4(3) ns n fb assms(6) by auto
  have len: "length (made files) < 200" using assms(5) by (simp add: fits_disk_def)
  have main: "mkfs_main globals stack kb True files = Ret s6"
    unfolding mkfs_main_def kb layout
    using assms(1,2) s1(1) s2(1) s3(1) s4(1) s5(1) s6(1) link_root_entry [of 1 1] by simp
  have "file_at s6 (i + 1) (made files ! i)" if i: "0 < i" "i < length (made files)" for i
  proof -
    have "file_at s5 (i + 1) (made files ! i)" using s5(5) i by blast
    moreover from this have "holds s6 (addrs_of s6 (i + 1)) (snd (made files ! i))" using s6(6) i by (simp add: file_at_def)
    ultimately show ?thesis using s6(4) i len by (simp add: file_at_def)
  qed
  moreover have "holds s6 (addrs_of s6 1) (snd (made files ! 0))" using s6(6) [rule_format, of 0] s5(9) ne(1) by simp
  moreover have "img s6 1 = ?low 1" "img s6 2 = ?low 2" using s6(5) s5(10) by simp_all
  then have "superblock_of (img s6 1) = \<lparr>sb_size = of_nat n, sb_nblocks = of_nat (n - ?lo), sb_ninodes = 200\<rparr>"
      "jsb_size (img s6 2) = 200" "jsb_head (img s6 2) = 3" "jsb_tail (img s6 2) = 3"
    using n(2) by (simp_all add: blank_fs_def boot_block_def superblock_of_def jsb_bytes_def jsb_size_def jsb_head_def jsb_tail_def of_nat_diff)
  moreover have "forest (img s6) (addrs_of s6) (tree (made files)) ?lo (unat (freeblock s6))" using s6(2) by (simp add: disk_ok_def)
  moreover have "unat (freeblock s6) \<le> n" using fb s6(3) assms(5) by (simp add: fits_disk_def)
  ultimately have "fs_image n (made files) s6" using s5(6-8) s6(3,4,7) len by (simp add: fs_image_def)
  then show ?thesis using main by blast
qed

section \<open>The kernel on the image\<close>

text \<open>An inode as \<^verbatim>\<open>ilock\<close> loads it from the disk, and the blocks that \<^verbatim>\<open>bmap\<close> finds for it.\<close>

definition on_disk :: "mkfs \<Rightarrow> nat \<Rightarrow> uint \<Rightarrow> (blkid \<Rightarrow> bytes) \<Rightarrow> bool" where
  "on_disk m n dev dk \<longleftrightarrow> (\<forall>b. unat b < n \<longrightarrow> dk (blkno dev b) = img m b)"

definition loaded_from :: "(blkid \<Rightarrow> bytes) \<Rightarrow> uint \<Rightarrow> nat \<Rightarrow> inode \<Rightarrow> bool" where
  "loaded_from dk dev i ip \<longleftrightarrow> i_dev ip = dev
     \<and> (\<exists>j. ip = load_dinode (get_dinode (dk (blkno dev (IBLOCK (of_nat i)))) (dinode_off (of_nat i))) j)"

lemma loaded_fields:
  assumes "on_disk m n dev dk" "228 \<le> n" "i < 200" "loaded_from dk dev i ip"
  shows "i_dev ip = dev" "i_type ip = d_type (din_of m i)" "i_size ip = d_size (din_of m i)" "k < NADDRS \<Longrightarrow> i_addrs ip k = addrs_of m i k"
proof -
  have "unat (IBLOCK (of_nat i)) < n" using IBLOCK_nat [OF assms(3)] assms(2,3) by simp
  then have "dk (blkno dev (IBLOCK (of_nat i))) = img m (IBLOCK (of_nat i))" using assms(1) by (simp add: on_disk_def)
  then obtain j where "i_dev ip = dev" "ip = load_dinode (din_of m i) j" using assms(4) by (auto simp: loaded_from_def din_of_def)
  then show "i_dev ip = dev" "i_type ip = d_type (din_of m i)" "i_size ip = d_size (din_of m i)" "k < NADDRS \<Longrightarrow> i_addrs ip k = addrs_of m i k"
    using assms(3) by (auto simp: load_dinode_def addrs_of_def)
qed

lemma need_path: "n < (k + 511) div 512 \<Longrightarrow> path n \<subseteq> need k"
  by (auto simp: need_def)

lemma file_addr_baddr:
  assumes "on_disk m n dev dk" "228 \<le> n" "i < 200" "loaded_from dk dev i ip" "forest (img m) (addrs_of m) L lo hi" "hi \<le> n"
    and "Pair i ` path (unat bn) \<subseteq> L"
  shows "file_addr ip dk bn = baddr (img m) (addrs_of m i) (Dat (unat bn))"
proof -
  note f = loaded_fields [OF assms(1-4)]
  have pos: "baddr (img m) (addrs_of m i) t \<noteq> 0" "dk (blkno dev (baddr (img m) (addrs_of m i) t)) = img m (baddr (img m) (addrs_of m i) t)"
    if "(i, t) \<in> L" for t
    using forest_range [OF assms(5) that] assms(1,5,6) by (auto simp: on_disk_def forest_def)
  show ?thesis
  proof (cases "unat bn < 12")
    case True
    then have "bn < NDIRECT" by (simp add: word_less_nat_alt NDIRECT_def)
    then show ?thesis using True f(4) by (simp add: file_addr_def baddr.simps NADDRS_def)
  next
    case False
    let ?j = "(unat bn - 12) div 128" and ?k = "(unat bn - 12) mod 128"
    have nd: "\<not> bn < NDIRECT" using False by (simp add: word_less_nat_alt NDIRECT_def)
    then have "unat (bn - NDIRECT) = unat bn - 12" by (subst unat_sub) (auto simp: NDIRECT_def not_less)
    then have jk: "unat ((bn - NDIRECT) div 128) = ?j" "unat ((bn - NDIRECT) mod 128) = ?k" by (simp_all add: unat_div unat_mod)
    have in1: "(i, Ind) \<in> L" and in2: "(i, Ind2 ?j) \<in> L" using assms(7) False by (auto simp: path_def)
    have a12: "i_addrs ip INDIRECT = baddr (img m) (addrs_of m i) Ind" using f(4) [of INDIRECT] by (simp add: INDIRECT_def NADDRS_def baddr.simps)
    have e1: "ind_entry dev dk (baddr (img m) (addrs_of m i) Ind) ?j = baddr (img m) (addrs_of m i) (Ind2 ?j)"
      using pos(2) [OF in1] by (simp add: ind_entry_def baddr.simps)
    have e2: "ind_entry dev dk (baddr (img m) (addrs_of m i) (Ind2 ?j)) ?k = baddr (img m) (addrs_of m i) (Dat (unat bn))"
      using pos(2) [OF in2] False by (simp add: ind_entry_def baddr.simps)
    show ?thesis using nd jk pos(1) [OF in1] pos(1) [OF in2] by (simp add: file_addr_def a12 f(1) e1 e2 Let_def)
  qed
qed

lemma image_file:
  assumes "on_disk m n dev dk" "228 \<le> n" "i < 200" "loaded_from dk dev i ip" "forest (img m) (addrs_of m) L lo hi" "hi \<le> n"
    and "Pair i ` need (length cs) \<subseteq> L" "file_at m i (ty, cs)"
  shows "i_size ip = of_nat (length cs)" "i_type ip = ty" "unat (i_size ip) = length cs" "file_whole ip dk"
    "map (file_byte ip dk) [0 ..< length cs] = cs"
proof -
  note f = loaded_fields [OF assms(1-4)]
  have len: "length cs \<le> 16396 * 512" "holds m (addrs_of m i) cs" using assms(8) by (auto simp: file_at_def)
  show sz: "i_size ip = of_nat (length cs)" "i_type ip = ty" using f assms(8) by (auto simp: file_at_def)
  then show u: "unat (i_size ip) = length cs" using len(1) by (simp add: unat_of_nat)
  have addr: "file_addr ip dk bn = baddr (img m) (addrs_of m i) (Dat (unat bn))" "(i, Dat (unat bn)) \<in> L" if "512 * unat bn < length cs" for bn
  proof -
    have "unat bn < (length cs + 511) div 512" using that by linarith
    then have "Pair i ` path (unat bn) \<subseteq> L" using need_path assms(7) by blast
    then show "file_addr ip dk bn = baddr (img m) (addrs_of m i) (Dat (unat bn))" "(i, Dat (unat bn)) \<in> L"
      using file_addr_baddr [OF assms(1-6)] by auto
  qed
  have "0 < lo" using assms(5) by (simp add: forest_def)
  then show "file_whole ip dk" unfolding file_whole_def u using len(1) addr forest_range [OF assms(5)] by fastforce
  show "map (file_byte ip dk) [0 ..< length cs] = cs"
  proof (rule nth_equalityI)
    fix k assume "k < length (map (file_byte ip dk) [0 ..< length cs])"
    then have k: "k < length cs" by simp
    let ?bn = "of_nat (k div 512) :: uint"
    have "k div 512 < 16396" using k len(1) by (intro less_mult_imp_div_less) simp
    then have ub: "unat ?bn = k div 512" by (simp add: unat_of_nat)
    then have bn: "512 * unat ?bn < length cs" using k by (metis le_less_trans times_div_less_eq_dividend)
    note a = addr [OF bn, unfolded ub]
    have "dk (blkno dev (baddr (img m) (addrs_of m i) (Dat (k div 512)))) = img m (baddr (img m) (addrs_of m i) (Dat (k div 512)))"
      using forest_range [OF assms(5) a(2)] assms(1,6) by (simp add: on_disk_def)
    then have "file_byte ip dk k = fbyte m (addrs_of m i) k" using a(1) f(1) by (simp add: file_byte_def fbyte_def)
    also have "\<dots> = cs ! k" using len(2) k pad_le [of "length cs"] by (simp add: holds_def)
    finally show "map (file_byte ip dk) [0 ..< length cs] ! k = cs ! k" using k by simp
  qed simp
qed

text \<open>
  The size of the root directory is rounded up by a whole block even when it is a number of whole blocks; the last block is then
  missing.
\<close>

lemma root_block_missing:
  assumes "fs_image n fs m" "fs \<noteq> []" "length (snd (fs ! 0)) = 512 * k" "k < 12"
  shows "d_size (din_of m 1) = of_nat (512 * (k + 1))" "d_addrs (din_of m 1) k = 0"
proof -
  show "d_size (din_of m 1) = of_nat (512 * (k + 1))" using assms(1,3) by (simp add: fs_image_def root_size_def)
  have f: "forest (img m) (addrs_of m) (tree fs) (first_free n) (unat (freeblock m))" using assms(1) by (simp add: fs_image_def)
  have "(0 + 1, Dat k) \<notin> tree fs" using tree_in_iff [of 0 "Dat k" fs] need_not_next [of "512 * k"] assms(3) by simp
  then have "baddr (img m) (addrs_of m 1) (Dat k) = 0" using forest_blank [OF f, of 1 "Dat k"] assms(4) by (simp add: linked_def)
  then show "d_addrs (din_of m 1) k = 0" using assms(4) by (simp add: baddr.simps addrs_of_def NADDRS_def)
qed

lemma read_made_file:
  assumes "fs_image n (made files) m" "230 \<le> n" "on_disk m n dev (disk s)" "i < length files" "c = concat (the (snd (files ! i)))"
    and "loaded_from (disk s) dev (i + 2) (icache s ip)" "file_ready ip s"
  shows "\<exists>s'. readi dv ip 0 (of_nat (length c)) s = Ret (int (length c), c, s') \<and> disk s' = disk s \<and> icache s' = icache s"
proof -
  have im: "length (made files) < 200" "forest (img m) (addrs_of m) (tree (made files)) (first_free n) (unat (freeblock m))"
    "unat (freeblock m) \<le> n" "\<forall>j. 0 < j \<longrightarrow> j < length (made files) \<longrightarrow> file_at m (j + 1) (made files ! j)"
    using assms(1) by (auto simp: fs_image_def)
  have j: "i + 1 < length (made files)" "made files ! (i + 1) = (T_FILE, c)" using assms(4,5) by (auto simp: made_def)
  have fa: "file_at m (i + 2) (T_FILE, c)" using im(4) [rule_format, of "i + 1"] j by simp
  have tr: "Pair (i + 2) ` need (length c) \<subseteq> tree (made files)" using tree_in [OF j(1)] j(2) by simp
  have i2: "i + 2 < 200" using j(1) im(1) by simp
  have n: "228 \<le> n" using assms(2) by simp
  note img_f = image_file [OF assms(3) n i2 assms(6) im(2,3) tr fa]
  have len: "unat (of_nat (length c) :: uint) = length c" using fa by (simp add: file_at_def unat_of_nat)
  have lt: "length c < 2 ^ 32" using fa by (simp add: file_at_def)
  have "i_type (icache s ip) \<noteq> T_DEV" using img_f(2) by (simp add: T_FILE_def T_DEV_def)
  then obtain s' where "readi dv ip 0 (of_nat (length c)) s
      = Ret (int (length c), map (file_byte (icache s ip) (disk s)) [0 ..< length c], s')" "icache s' = icache s" "disk s' = disk s"
    using readi_whole [OF assms(7) img_f(4), of 0 "of_nat (length c)" dv] img_f(3) len lt by (auto simp: Let_def)
  then show ?thesis using img_f(5) by auto
qed

section \<open>Properties\<close>

lemma length_entry [simp]: "length (entry n name) = 16"
  by (simp add: entry_def dirent_bytes_def pad_name_def DIRSIZ_def)

definition demo_host :: "hostfile list" where
  "demo_host = [([95, 97], Some [[1, 2], [3]])]"

lemma demo_made: "made demo_host = [(T_DIR, entry 1 [46] @ entry 1 [46, 46] @ entry 2 [97]), (T_FILE, [1, 2, 3])]"
  by (simp add: made_def demo_host_def skip_underscore_def)

lemma demo_fits: "fits_disk (first_free 300) 300 (made demo_host)" "first_free 300 + card (tree (made demo_host)) \<le> 4096"
  "\<forall>h \<in> set demo_host. host_ok h"
proof -
  have n: "need 48 = {Dat 0}" "need 3 = {Dat 0}" by (auto simp: need_def path_def)
  have "tree (made demo_host) = {(1, Dat 0), (2, Dat 0)}"
    unfolding demo_made by (auto simp: tree_def n n(2) [unfolded numeral_3_eq_3] lessThan_Suc numeral_2_eq_2)
  then have "card (tree (made demo_host)) = 2" by simp
  then show "fits_disk (first_free 300) 300 (made demo_host)" "first_free 300 + card (tree (made demo_host)) \<le> 4096"
    by (auto simp: fits_disk_def first_free_def demo_made)
  show "\<forall>h \<in> set demo_host. host_ok h" by (simp add: demo_host_def host_ok_def SLASH_def)
qed

text \<open>
  C38: \<^verbatim>\<open>mkfs\<close> given files that fit makes a complete file system: the two superblocks, inodes that hold exactly the bytes of the files
  with zeros behind them, a root directory with their names, blocks that no two pointers share, and a bitmap in which exactly the
  blocks below the first free one are taken.
\<close>

theorem mkfs_makes_image:
  assumes "1 \<le> kb" "kb \<le> 32767" "n = nat (2 * kb)" "\<forall>h \<in> set files. host_ok h"
    and "fits_disk (first_free n) n (made files)" "first_free n + card (tree (made files)) \<le> 4096"
  shows "\<exists>s. mkfs_main globals stack kb True files = Ret s \<and> fs_image n (made files) s"
  using mkfs_main_ok [OF assms] .

theorem mkfs_makes_image_witness:
  "\<exists>s. mkfs_main (\<lambda>_. 7) (\<lambda>_. 9) 150 True demo_host = Ret s \<and> fs_image 300 (made demo_host) s"
  using mkfs_makes_image [of 150 300 demo_host "\<lambda>_. 7" "\<lambda>_. 9"] demo_fits by simp

text \<open>
  C39: what \<^verbatim>\<open>mkfs\<close> wrote the kernel reads: with the image in the disk and the inode of a file loaded from it, \<^verbatim>\<open>readi\<close> returns the bytes
  of the file of the host, through direct and indirect blocks.
\<close>

theorem mkfs_readi_roundtrip:
  assumes "1 \<le> kb" "kb \<le> 32767" "n = nat (2 * kb)" "\<forall>h \<in> set files. host_ok h"
    and "fits_disk (first_free n) n (made files)" "first_free n + card (tree (made files)) \<le> 4096"
    and "mkfs_main globals stack kb True files = Ret m" "on_disk m n dev (disk s)" "i < length files" "c = concat (the (snd (files ! i)))"
    and "loaded_from (disk s) dev (i + 2) (icache s ip)" "file_ready ip s"
  shows "\<exists>s'. readi dv ip 0 (of_nat (length c)) s = Ret (int (length c), c, s') \<and> disk s' = disk s \<and> icache s' = icache s"
proof -
  have "fs_image n (made files) m" using mkfs_main_ok [OF assms(1-6), of globals stack] assms(7) by simp
  moreover have "230 \<le> n" using assms(5) by (auto simp: fits_disk_def first_free_def)
  ultimately show ?thesis using assms(8-12) by (rule read_made_file)
qed

text \<open>A kernel that has just started, on the image in disk 0.\<close>

definition demo_mounted :: "mkfs \<Rightarrow> fs_state" where
  "demo_mounted m = bio_state.extend (demo_boot (\<lambda>(d, b). img m b))
     \<lparr>icache = (\<lambda>k. load_dinode (din_of m 2) (demo_inode\<lparr>i_dev := 0\<rparr>))\<rparr>"

lemma demo_mounted_fields:
  "icache (demo_mounted m) k = load_dinode (din_of m 2) (demo_inode\<lparr>i_dev := 0\<rparr>)" "disk (demo_mounted m) = (\<lambda>(d, b). img m b)"
  "lru (demo_mounted m) = [7, 6, 5, 4, 3, 2, 1, 0]" "b_flags (bufs (demo_mounted m) b) = {}" "ide_idle (demo_mounted m)"
  using demo_init(3) [of "\<lambda>(d, b). img m b"] demo_lru [of "\<lambda>(d, b). img m b"]
  by (simp_all add: demo_mounted_def bio_state.extend_def ide_idle_def demo_boot_def)

lemma demo_mounted_ok:
  "on_disk m 300 0 (disk (demo_mounted m))" "loaded_from (disk (demo_mounted m)) 0 2 (icache (demo_mounted m) 5)" "file_ready 5 (demo_mounted m)"
proof -
  have small: "b AND 0x0fffffff = b" if "unat b < 300" for b :: uint
    using that and_sector_mask [of b] by (simp add: word_less_nat_alt)
  show "on_disk m 300 0 (disk (demo_mounted m))" using small by (simp add: on_disk_def demo_mounted_fields blkno_def)
  show "loaded_from (disk (demo_mounted m)) 0 2 (icache (demo_mounted m) 5)"
    by (auto simp: loaded_from_def demo_mounted_fields load_dinode_def din_of_def blkno_def IBLOCK_def IPB_def NJB_def)
  show "file_ready 5 (demo_mounted m)"
    by (auto simp: file_ready_def quiet_def locked_def demo_mounted_fields cache_inv_def active_def load_dinode_def)
qed

theorem mkfs_readi_roundtrip_witness:
  "\<exists>m s'. mkfs_main (\<lambda>_. 7) (\<lambda>_. 9) 150 True demo_host = Ret m \<and> readi no_devices 5 0 3 (demo_mounted m) = Ret (3, [1, 2, 3], s')"
proof -
  obtain m where m: "mkfs_main (\<lambda>_. 7) (\<lambda>_. 9) 150 True demo_host = Ret m"
    using mkfs_main_ok [of 150 300 demo_host "\<lambda>_. 7" "\<lambda>_. 9"] demo_fits by auto
  have "\<exists>s'. readi no_devices 5 0 (of_nat (length [1, 2, 3 :: uchar])) (demo_mounted m) = Ret (int (length [1, 2, 3 :: uchar]), [1, 2, 3], s')
      \<and> disk s' = disk (demo_mounted m) \<and> icache s' = icache (demo_mounted m)"
    using demo_mounted_ok [of m] demo_fits m
    by (intro mkfs_readi_roundtrip [of 150 300 demo_host "\<lambda>_. 7" "\<lambda>_. 9" m 0 _ 0]) (auto simp: demo_host_def numeral_2_eq_2)
  then show ?thesis using m by auto
qed

end
