(* ===== verification/Machine.thy ===== *)
theory Machine
  imports Syscall
begin

text \<open>
  The interrupt hardware: the two 8259A controllers (\<^verbatim>\<open>picirq.c\<close>), the I/O APIC (\<^verbatim>\<open>ioapic.c\<close>), the local APIC of a processor (\<^verbatim>\<open>lapic.c\<close>) and
  the interval timer (\<^verbatim>\<open>timer.c\<close>).  What the code does to a chip is the sequence of its writes to ports and registers; the I/O APIC
  has an index and a data register that give access to a table.
\<close>

section \<open>State\<close>

text \<open>
  \<open>outs\<close> are the bytes written to ports, the oldest first, and \<open>apic_writes\<close> the words written to the registers of the local APIC.
  \<open>apic_reg\<close> is what reading one of them returns.  The warm reset vector is two words at address \<open>0x467\<close>.
\<close>

record machine =
  irqmask :: ushort
  outs :: "(uint \<times> uchar) list"
  ismp :: bool
  ioapic_id :: uchar
  io_table :: "uint \<Rightarrow> uint"
  lapic :: uint
  apic_reg :: "uint \<Rightarrow> uint"
  apic_writes :: "(uint \<times> uint) list"
  reset_vector :: "ushort \<times> ushort"

definition outb :: "uint \<Rightarrow> uchar \<Rightarrow> machine \<Rightarrow> machine" where
  "outb p v s = s\<lparr>outs := outs s @ [(p, v)]\<rparr>"

section \<open>picirq.c\<close>

definition IO_PIC1 :: uint where "IO_PIC1 = 0x20"
definition IO_PIC2 :: uint where "IO_PIC2 = 0xA0"
definition IRQ_SLAVE :: nat where "IRQ_SLAVE = 2"

definition irqmask_initial :: ushort where
  "irqmask_initial = 0xFFFF AND NOT (push_bit IRQ_SLAVE 1)"

definition pic_setmask :: "ushort \<Rightarrow> machine \<Rightarrow> machine" where
  "pic_setmask msk s = outb (IO_PIC2 + 1) (ucast (drop_bit 8 msk)) (outb (IO_PIC1 + 1) (ucast msk) (s\<lparr>irqmask := msk\<rparr>))"

definition pic_enable :: "nat \<Rightarrow> machine \<Rightarrow> machine" where
  "pic_enable irq s = pic_setmask (irqmask s AND NOT (push_bit irq 1)) s"

definition pic_init :: "machine \<Rightarrow> machine" where
  "pic_init s =
     (let s1 = fold (\<lambda>(p, v). outb p v)
        [(IO_PIC1 + 1, 0xFF), (IO_PIC2 + 1, 0xFF),
         (IO_PIC1, 0x11), (IO_PIC1 + 1, ucast IRQ_OFFSET), (IO_PIC1 + 1, push_bit IRQ_SLAVE 1), (IO_PIC1 + 1, 0x3),
         (IO_PIC2, 0x11), (IO_PIC2 + 1, ucast (IRQ_OFFSET + 8)), (IO_PIC2 + 1, of_nat IRQ_SLAVE), (IO_PIC2 + 1, 0x3),
         (IO_PIC1, 0x68), (IO_PIC1, 0x0a), (IO_PIC2, 0x68), (IO_PIC2, 0x0a)] s
      in if irqmask s1 \<noteq> 0xFFFF then pic_setmask (irqmask s1) s1 else s1)"

section \<open>timer.c\<close>

definition IO_TIMER1 :: uint where "IO_TIMER1 = 0x40"
definition TIMER_FREQ :: int where "TIMER_FREQ = 1193182"
definition TIMER_DIV :: "int \<Rightarrow> int" where "TIMER_DIV x = (TIMER_FREQ + x div 2) div x"

definition timer_init :: "machine \<Rightarrow> machine" where
  "timer_init s =
     pic_enable (unat IRQ_TIMER)
       (outb IO_TIMER1 (of_int (TIMER_DIV 100 div 256))
         (outb IO_TIMER1 (of_int (TIMER_DIV 100 mod 256))
           (outb (IO_TIMER1 + 3) (0x00 OR 0x04 OR 0x30) s)))"

section \<open>ioapic.c\<close>

definition REG_ID :: uint where "REG_ID = 0"
definition REG_VER :: uint where "REG_VER = 1"
definition REG_TABLE :: uint where "REG_TABLE = 0x10"
definition INT_DISABLED :: uint where "INT_DISABLED = 0x00010000"

definition ioapic_read :: "uint \<Rightarrow> machine \<Rightarrow> uint" where
  "ioapic_read r s = io_table s r"

definition ioapic_write :: "uint \<Rightarrow> uint \<Rightarrow> machine \<Rightarrow> machine" where
  "ioapic_write r v s = s\<lparr>io_table := (io_table s)(r := v)\<rparr>"

definition ioapic_init :: "machine \<Rightarrow> machine" where
  "ioapic_init s =
     (if \<not> ismp s then s
      else
        (let maxintr = unat (drop_bit 16 (ioapic_read REG_VER s) AND 0xFF) in
         fold (\<lambda>i s. ioapic_write (REG_TABLE + 2 * of_nat i + 1) 0
             (ioapic_write (REG_TABLE + 2 * of_nat i) (INT_DISABLED OR (IRQ_OFFSET + of_nat i)) s)) [0 ..< maxintr + 1] s))"

definition ioapic_enable :: "nat \<Rightarrow> uint \<Rightarrow> machine \<Rightarrow> machine" where
  "ioapic_enable irq cpunum s =
     (if \<not> ismp s then s
      else ioapic_write (REG_TABLE + 2 * of_nat irq + 1) (push_bit 24 cpunum)
        (ioapic_write (REG_TABLE + 2 * of_nat irq) (IRQ_OFFSET + of_nat irq) s))"

section \<open>lapic.c\<close>

text \<open>Register numbers are offsets divided by four.\<close>

definition APIC_ID :: uint where "APIC_ID = 0x20 div 4"
definition APIC_VER :: uint where "APIC_VER = 0x30 div 4"
definition TPR :: uint where "TPR = 0x80 div 4"
definition EOI :: uint where "EOI = 0xB0 div 4"
definition SVR :: uint where "SVR = 0xF0 div 4"
definition ESR :: uint where "ESR = 0x280 div 4"
definition ICRLO :: uint where "ICRLO = 0x300 div 4"
definition ICRHI :: uint where "ICRHI = 0x310 div 4"
definition TIMER :: uint where "TIMER = 0x320 div 4"
definition PCINT :: uint where "PCINT = 0x340 div 4"
definition LINT0 :: uint where "LINT0 = 0x350 div 4"
definition LINT1 :: uint where "LINT1 = 0x360 div 4"
definition APIC_ERROR :: uint where "APIC_ERROR = 0x370 div 4"
definition TICR :: uint where "TICR = 0x380 div 4"
definition TDCR :: uint where "TDCR = 0x3E0 div 4"
definition ENABLE :: uint where "ENABLE = 0x100"
definition INIT :: uint where "INIT = 0x500"
definition STARTUP :: uint where "STARTUP = 0x600"
definition DELIVS :: uint where "DELIVS = 0x1000"
definition ASSERT :: uint where "ASSERT = 0x4000"
definition LEVEL :: uint where "LEVEL = 0x8000"
definition BCAST :: uint where "BCAST = 0x80000"
definition PERIODIC :: uint where "PERIODIC = 0x20000"
definition MASKED :: uint where "MASKED = 0x10000"
definition IRQ_ERROR :: uint where "IRQ_ERROR = 19"

definition lapicw :: "uint \<Rightarrow> uint \<Rightarrow> machine \<Rightarrow> machine" where
  "lapicw r v s = s\<lparr>apic_writes := apic_writes s @ [(r, v)]\<rparr>"

definition lapicws :: "(uint \<times> uint) list \<Rightarrow> machine \<Rightarrow> machine" where
  "lapicws rvs s = fold (\<lambda>(r, v). lapicw r v) rvs s"

text \<open>While the delivery status stays set the processor spins.\<close>

definition lapic_init :: "machine \<Rightarrow> machine outcome" where
  "lapic_init s =
     (if lapic s = 0 then Ret s
      else
        (let s1 = lapicws
           ([(SVR, ENABLE OR (IRQ_OFFSET + IRQ_SPURIOUS)), (TDCR, 0xB), (TIMER, PERIODIC OR (IRQ_OFFSET + IRQ_TIMER)), (TICR, 10000000),
             (LINT0, MASKED), (LINT1, MASKED)]
            @ (if drop_bit 16 (apic_reg s APIC_VER) AND 0xFF \<ge> 4 then [(PCINT, MASKED)] else [])
            @ [(APIC_ERROR, IRQ_OFFSET + IRQ_ERROR), (ESR, 0), (ESR, 0), (EOI, 0), (ICRHI, 0), (ICRLO, BCAST OR INIT OR LEVEL)]) s
         in if apic_reg s1 ICRLO AND DELIVS \<noteq> 0 then Blocked ''lapic_init'' else Ret (lapicw TPR 0 s1)))"

definition cpu_id :: "machine \<Rightarrow> uint" where
  "cpu_id s = (if lapic s \<noteq> 0 then drop_bit 24 (apic_reg s APIC_ID) else 0)"

definition lapic_eoi :: "machine \<Rightarrow> machine" where
  "lapic_eoi s = (if lapic s \<noteq> 0 then lapicw EOI 0 s else s)"

definition IO_RTC :: uint where "IO_RTC = 0x70"

definition lapic_startap :: "uchar \<Rightarrow> uint \<Rightarrow> machine \<Rightarrow> machine" where
  "lapic_startap apicid addr s =
     (let s1 = (outb (IO_RTC + 1) 0x0A (outb IO_RTC 0xF s))\<lparr>reset_vector := (0, ucast (drop_bit 4 addr))\<rparr>;
        dest = push_bit 24 (ucast apicid)
      in lapicws
           [(ICRHI, dest), (ICRLO, INIT OR LEVEL OR ASSERT), (ICRLO, INIT OR LEVEL),
            (ICRHI, dest), (ICRLO, STARTUP OR drop_bit 12 addr), (ICRHI, dest), (ICRLO, STARTUP OR drop_bit 12 addr)] s1)"

section \<open>What the controllers were told\<close>

text \<open>The byte that was last written to a port.\<close>

definition last_out :: "uint \<Rightarrow> machine \<Rightarrow> uchar option" where
  "last_out p s = map_of (rev (outs s)) p"

lemma last_out_outb [simp]: "last_out p (outb q v s) = (if p = q then Some v else last_out p s)"
  by (simp add: last_out_def outb_def)

lemma last_out_irqmask [simp]: "last_out p (s\<lparr>irqmask := v\<rparr>) = last_out p s"
  by (simp add: last_out_def)

lemma outb_fields [simp]: "irqmask (outb p v s) = irqmask s" "ismp (outb p v s) = ismp s" "io_table (outb p v s) = io_table s"
  by (simp_all add: outb_def)

text \<open>The mask that the kernel keeps is the one in the two controllers.\<close>

definition mask_told :: "machine \<Rightarrow> bool" where
  "mask_told s \<longleftrightarrow> last_out (IO_PIC1 + 1) s = Some (ucast (irqmask s)) \<and> last_out (IO_PIC2 + 1) s = Some (ucast (drop_bit 8 (irqmask s)))"

lemma pic_setmask_told: "mask_told (pic_setmask msk s)" "irqmask (pic_setmask msk s) = msk"
proof -
  show "irqmask (pic_setmask msk s) = msk" by (simp add: pic_setmask_def)
  then show "mask_told (pic_setmask msk s)" by (simp add: mask_told_def) (simp add: pic_setmask_def IO_PIC1_def IO_PIC2_def)
qed

lemma pic_init_mask: "irqmask s \<noteq> 0xFFFF \<Longrightarrow> irqmask (pic_init s) = irqmask s \<and> mask_told (pic_init s)"
  using pic_setmask_told by (simp add: pic_init_def Let_def)

lemma irqmask_initial_bits: "k < 16 \<Longrightarrow> bit irqmask_initial k \<longleftrightarrow> k \<noteq> IRQ_SLAVE"
proof -
  have m: "(0xFFFF :: ushort) = mask 16" by (simp add: mask_eq_exp_minus_1)
  show "k < 16 \<Longrightarrow> ?thesis" unfolding irqmask_initial_def m by (auto simp: bit_and_iff bit_mask_iff bit_not_iff bit_exp_iff)
qed

lemma pic_enable_bits: "k < 16 \<Longrightarrow> bit (irqmask (pic_enable irq s)) k \<longleftrightarrow> bit (irqmask s) k \<and> k \<noteq> irq"
  unfolding pic_enable_def pic_setmask_told(2) by (auto simp: bit_and_iff bit_not_iff bit_exp_iff)

lemma pic_enable_told: "mask_told (pic_enable irq s)"
  by (simp add: pic_enable_def pic_setmask_told)

lemma pic_enable_all:
  "mask_told s \<Longrightarrow> mask_told (fold pic_enable irqs s)"
  "k < 16 \<Longrightarrow> bit (irqmask (fold pic_enable irqs s)) k \<longleftrightarrow> bit (irqmask s) k \<and> k \<notin> set irqs"
  by (induction irqs arbitrary: s) (auto simp: pic_enable_told pic_enable_bits)

text \<open>
  After the controllers have been set up and some lines enabled, exactly these lines and the one of the second controller are
  open, and both controllers know it.
\<close>

lemma pic_open_lines:
  assumes "irqmask s = irqmask_initial" "k < 16" "s1 = fold pic_enable irqs (pic_init s)"
  shows "mask_told s1" "bit (irqmask s1) k \<longleftrightarrow> k \<noteq> IRQ_SLAVE \<and> k \<notin> set irqs"
proof -
  have "irqmask_initial \<noteq> 0xFFFF" by (simp add: irqmask_initial_def IRQ_SLAVE_def)
  then have i: "irqmask (pic_init s) = irqmask_initial" "mask_told (pic_init s)" using pic_init_mask [of s] assms(1) by auto
  show "mask_told s1" "bit (irqmask s1) k \<longleftrightarrow> k \<noteq> IRQ_SLAVE \<and> k \<notin> set irqs"
    using pic_enable_all(1) [OF i(2), of irqs] pic_enable_all(2) [OF assms(2)] i(1) irqmask_initial_bits [OF assms(2)] by (simp_all add: assms(3))
qed

text \<open>The timer runs at the frequency that is nearest to a hundred interrupts a second.\<close>

lemma timer_divisor: "TIMER_DIV 100 = 11932" "last_out 0x43 (timer_init s) = Some 0x34" "last_out 0x40 (timer_init s) = Some 46"
  by (simp_all add: TIMER_DIV_def TIMER_FREQ_def timer_init_def pic_enable_def pic_setmask_def IO_TIMER1_def IO_PIC1_def IO_PIC2_def)

section \<open>Routing of interrupts\<close>

text \<open>The two registers of an entry of the redirection table.\<close>

definition low_reg :: "nat \<Rightarrow> uint" where "low_reg i = REG_TABLE + 2 * of_nat i"
definition high_reg :: "nat \<Rightarrow> uint" where "high_reg i = REG_TABLE + 2 * of_nat i + 1"

lemma reg_number: "i < 256 \<Longrightarrow> unat (low_reg i) = 16 + 2 * i" "i < 256 \<Longrightarrow> unat (high_reg i) = 17 + 2 * i"
proof -
  assume i: "i < 256"
  have "unat (2 * of_nat i :: uint) = 2 * i" using i by (simp add: unat_word_ariths unat_of_nat)
  then show l: "unat (low_reg i) = 16 + 2 * i" using i unat_add_uint [of REG_TABLE "2 * of_nat i"] by (simp add: low_reg_def REG_TABLE_def)
  then show "unat (high_reg i) = 17 + 2 * i" using i unat_add_uint [of "low_reg i" 1] by (simp add: high_reg_def low_reg_def)
qed

lemma regs_distinct:
  "i < 256 \<Longrightarrow> j < 256 \<Longrightarrow> low_reg i = low_reg j \<longleftrightarrow> i = j" "i < 256 \<Longrightarrow> j < 256 \<Longrightarrow> high_reg i = high_reg j \<longleftrightarrow> i = j"
  "i < 256 \<Longrightarrow> j < 256 \<Longrightarrow> low_reg i \<noteq> high_reg j"
proof -
  assume ij: "i < 256" "j < 256"
  note n = reg_number [OF ij(1)] reg_number [OF ij(2)]
  show "low_reg i = low_reg j \<longleftrightarrow> i = j" "high_reg i = high_reg j \<longleftrightarrow> i = j" using n by (metis add_left_cancel mult_left_cancel zero_neq_numeral)+
  show "low_reg i \<noteq> high_reg j"
  proof
    assume "low_reg i = high_reg j"
    then have "16 + 2 * i = 17 + 2 * j" using n by metis
    then show False by presburger
  qed
qed

definition entries_off :: "nat \<Rightarrow> (uint \<Rightarrow> uint) \<Rightarrow> bool" where
  "entries_off n t \<longleftrightarrow> (\<forall>i < n. t (low_reg i) = INT_DISABLED OR (IRQ_OFFSET + of_nat i) \<and> t (high_reg i) = 0)"

lemma ioapic_init_off:
  assumes "ismp s" "n = unat (drop_bit 16 (io_table s REG_VER) AND 0xFF) + 1"
  shows "entries_off n (io_table (ioapic_init s))" "ismp (ioapic_init s)"
proof -
  let ?f = "\<lambda>i s. ioapic_write (REG_TABLE + 2 * of_nat i + 1) 0 (ioapic_write (REG_TABLE + 2 * of_nat i) (INT_DISABLED OR (IRQ_OFFSET + of_nat i)) s)"
  have f: "?f i t = t\<lparr>io_table := (io_table t)(low_reg i := INT_DISABLED OR (IRQ_OFFSET + of_nat i), high_reg i := 0)\<rparr>" for i t
    by (simp add: ioapic_write_def low_reg_def high_reg_def)
  have "unat (drop_bit 16 (io_table s REG_VER) AND 0xFF :: uint) \<le> unat (0xFF :: uint)"
    unfolding word_le_nat_alt [symmetric] by (rule word_and_le1)
  then have n: "n \<le> 256" using assms(2) by simp
  have "entries_off k (io_table (fold ?f [0 ..< k] s)) \<and> ismp (fold ?f [0 ..< k] s)" if "k \<le> 256" for k
    using that
  proof (induction k)
    case 0
    then show ?case using assms(1) by (simp add: entries_off_def)
  next
    case (Suc k)
    then have d: "low_reg i \<noteq> high_reg k" "high_reg i \<noteq> low_reg k" "i < k \<Longrightarrow> low_reg i \<noteq> low_reg k" "i < k \<Longrightarrow> high_reg i \<noteq> high_reg k"
      if "i < Suc k" for i using regs_distinct [of i k] regs_distinct(3) [of k i] that by auto
    show ?case using Suc d unfolding f by (auto simp: entries_off_def less_Suc_eq)
  qed
  moreover have "ioapic_init s = fold ?f [0 ..< n] s" using assms by (simp add: ioapic_init_def ioapic_read_def Let_def)
  ultimately show "entries_off n (io_table (ioapic_init s))" "ismp (ioapic_init s)" using n by auto
qed

text \<open>Enabling a line routes it to one processor, with the vector that the trap handler expects, and changes no other line.\<close>

lemma ioapic_enable_routes:
  assumes "ismp s" "irq < 256" "i < 256"
  shows "io_table (ioapic_enable irq c s) (low_reg i) = (if i = irq then IRQ_OFFSET + of_nat irq else io_table s (low_reg i))"
    "io_table (ioapic_enable irq c s) (high_reg i) = (if i = irq then push_bit 24 c else io_table s (high_reg i))"
proof -
  have e: "io_table (ioapic_enable irq c s) = (io_table s)(low_reg irq := IRQ_OFFSET + of_nat irq, high_reg irq := push_bit 24 c)"
    using assms(1) by (simp add: ioapic_enable_def ioapic_write_def low_reg_def high_reg_def)
  show "io_table (ioapic_enable irq c s) (low_reg i) = (if i = irq then IRQ_OFFSET + of_nat irq else io_table s (low_reg i))"
    "io_table (ioapic_enable irq c s) (high_reg i) = (if i = irq then push_bit 24 c else io_table s (high_reg i))"
    using regs_distinct [OF assms(3,2)] regs_distinct(3) [OF assms(2,3)] unfolding e by auto
qed

text \<open>A processor is started by an INIT and two STARTUP messages, all to it alone, with the page of the code as vector.\<close>

lemma lapic_startap_messages:
  "\<forall>(r, v) \<in> set (drop (length (apic_writes s)) (apic_writes (lapic_startap a addr s))). r = ICRHI \<longrightarrow> v = push_bit 24 (ucast a)"
  "apic_writes (lapic_startap a addr s) ! (length (apic_writes s) + 6) = (ICRLO, STARTUP OR drop_bit 12 addr)"
  "apic_writes (lapic_startap a addr s) ! (length (apic_writes s) + 4) = (ICRLO, STARTUP OR drop_bit 12 addr)"
  by (auto simp: lapic_startap_def lapicws_def lapicw_def outb_def Let_def nth_append ICRHI_def ICRLO_def)

end
