(* ===== verification/Mp.thy ===== *)
theory Mp
  imports Machine
begin

text \<open>
  How the kernel finds its processors (\<^verbatim>\<open>mp.c\<close>, \<^verbatim>\<open>mp.h\<close>): the search of memory for the floating pointer of the multiprocessor
  specification, the check of the configuration table and the walk through its entries.  \<open>m\<close> is the physical memory.
\<close>

section \<open>The search\<close>

definition mp_sum :: "uint \<Rightarrow> nat \<Rightarrow> (uint \<Rightarrow> uchar) \<Rightarrow> uchar" where
  "mp_sum addr len m = of_int (sum_list (map (\<lambda>i. uint (m (addr + of_nat i))) [0 ..< len]))"

definition sig_at :: "uint \<Rightarrow> uchar list \<Rightarrow> (uint \<Rightarrow> uchar) \<Rightarrow> bool" where
  "sig_at p cs m \<longleftrightarrow> map (\<lambda>i. m (p + of_nat i)) [0 ..< length cs] = cs"

definition mem_u16 :: "uint \<Rightarrow> (uint \<Rightarrow> uchar) \<Rightarrow> ushort" where
  "mem_u16 p m = get_u16 (\<lambda>i. m (p + of_nat i)) 0"

definition mem_u32 :: "uint \<Rightarrow> (uint \<Rightarrow> uchar) \<Rightarrow> uint" where
  "mem_u32 p m = get_u32 (\<lambda>i. m (p + of_nat i)) 0"

text \<open>The bytes of \<^verbatim>\<open>_MP_\<close> and of \<^verbatim>\<open>PCMP\<close>, and the sizes of the structures.\<close>

definition MP_SIG :: "uchar list" where "MP_SIG = [0x5F, 0x4D, 0x50, 0x5F]"
definition PCMP_SIG :: "uchar list" where "PCMP_SIG = [0x50, 0x43, 0x4D, 0x50]"
definition sizeof_mp :: nat where "sizeof_mp = 16"
definition sizeof_mpconf :: uint where "sizeof_mpconf = 44"
definition sizeof_mpproc :: uint where "sizeof_mpproc = 20"
definition sizeof_mpioapic :: uint where "sizeof_mpioapic = 8"

definition is_mp :: "uint \<Rightarrow> (uint \<Rightarrow> uchar) \<Rightarrow> bool" where
  "is_mp p m \<longleftrightarrow> sig_at p MP_SIG m \<and> mp_sum p sizeof_mp m = 0"

text \<open>The null pointer is the result of a search that fails.\<close>

partial_function (option) mp_search_loop :: "uint \<Rightarrow> uint \<Rightarrow> (uint \<Rightarrow> uchar) \<Rightarrow> uint option" where
  "mp_search_loop p e m =
     (if p < e then if is_mp p m then Some p else mp_search_loop (p + of_nat sizeof_mp) e m
      else Some 0)"

definition mp_search1 :: "uint \<Rightarrow> uint \<Rightarrow> (uint \<Rightarrow> uchar) \<Rightarrow> uint option" where
  "mp_search1 addr len m = mp_search_loop addr (addr + len) m"

definition mp_search :: "(uint \<Rightarrow> uchar) \<Rightarrow> uint option" where
  "mp_search m =
     (let ebda = push_bit 4 (push_bit 8 (ucast (m 0x40F)) OR ucast (m 0x40E));
        base = (push_bit 8 (ucast (m 0x414)) OR ucast (m 0x413)) * 1024
      in Option.bind (if ebda \<noteq> 0 then mp_search1 ebda 1024 m else mp_search1 (base - 1024) 1024 m) (\<lambda>mp.
           if mp \<noteq> 0 then Some mp else mp_search1 0xF0000 0x10000 m))"

definition mp_config :: "(uint \<Rightarrow> uchar) \<Rightarrow> (uint \<times> uint) option option" where
  "mp_config m =
     Option.bind (mp_search m) (\<lambda>mp.
       let conf = mem_u32 (mp + 4) m in
       if mp = 0 \<or> conf = 0 then Some None
       else if \<not> sig_at conf PCMP_SIG m then Some None
       else if m (conf + 6) \<noteq> 1 \<and> m (conf + 6) \<noteq> 4 then Some None
       else if mp_sum conf (unat (mem_u16 (conf + 4) m)) m \<noteq> 0 then Some None
       else Some (Some (mp, conf)))"

section \<open>The configuration table\<close>

record mp_machine = machine +
  apicids :: "nat \<Rightarrow> uchar"
  ncpu :: nat
  bcpu :: nat

definition MPBOOT :: uchar where "MPBOOT = 2"
definition MPPROC :: uchar where "MPPROC = 0"
definition MPBUS :: uchar where "MPBUS = 1"
definition MPIOAPIC :: uchar where "MPIOAPIC = 2"
definition MPIOINTR :: uchar where "MPIOINTR = 3"
definition MPLINTR :: uchar where "MPLINTR = 4"

definition mp_bcpu :: "mp_machine \<Rightarrow> nat" where
  "mp_bcpu s = bcpu s"

text \<open>\<^verbatim>\<open>case MPPROC\<close>; the array has room for \<open>NCPU\<close> processors.\<close>

definition add_cpu :: "uchar \<Rightarrow> uchar \<Rightarrow> mp_machine \<Rightarrow> mp_machine outcome" where
  "add_cpu apicid flags s =
     (if NCPU \<le> ncpu s then Fault ''cpus''
      else Ret (s\<lparr>apicids := (apicids s)(ncpu s := apicid), bcpu := (if flags AND MPBOOT \<noteq> 0 then ncpu s else bcpu s), ncpu := ncpu s + 1\<rparr>))"

partial_function (option) mp_entries :: "uint \<Rightarrow> uint \<Rightarrow> (uint \<Rightarrow> uchar) \<Rightarrow> mp_machine \<Rightarrow> mp_machine outcome option" where
  "mp_entries p e m s =
     (if p < e then
        if m p = MPPROC then
          (case add_cpu (m (p + 1)) (m (p + 3)) s of
             Ret s1 \<Rightarrow> mp_entries (p + sizeof_mpproc) e m s1
           | Panic x \<Rightarrow> Some (Panic x) | Blocked x \<Rightarrow> Some (Blocked x) | Fault x \<Rightarrow> Some (Fault x))
        else if m p = MPIOAPIC then mp_entries (p + sizeof_mpioapic) e m (s\<lparr>ioapic_id := m (p + 1)\<rparr>)
        else if m p = MPBUS \<or> m p = MPIOINTR \<or> m p = MPLINTR then mp_entries (p + 8) e m s
        else Some (Panic ''mp_init'')
      else Some (Ret s))"

text \<open>\<open>imcr\<close> is what the port \<open>0x23\<close> reads.\<close>

definition mask_imcr :: "uchar \<Rightarrow> mp_machine \<Rightarrow> mp_machine" where
  "mask_imcr imcr s = s\<lparr>outs := outs s @ [(0x22, 0x70), (0x23, imcr OR 1)]\<rparr>"

definition mp_init :: "uchar \<Rightarrow> (uint \<Rightarrow> uchar) \<Rightarrow> mp_machine \<Rightarrow> mp_machine outcome option" where
  "mp_init imcr m s =
     (let s1 = s\<lparr>bcpu := ncpu s\<rparr> in
      Option.bind (mp_config m) (\<lambda>c.
        case c of
          None \<Rightarrow> Some (Ret s1)
        | Some (mp, conf) \<Rightarrow>
            Option.bind
              (mp_entries (conf + sizeof_mpconf) (conf + ucast (mem_u16 (conf + 4) m)) m (s1\<lparr>ismp := True, lapic := mem_u32 (conf + 36) m\<rparr>))
              (\<lambda>r. Some (obind r (\<lambda>s2. Ret (if m (mp + 12) \<noteq> 0 then mask_imcr imcr s2 else s2))))))"

section \<open>The search ends\<close>

lemma mp_search_loop_ends:
  assumes "unat e \<le> 2 ^ 31"
  shows "\<exists>r. mp_search_loop p e m = Some r \<and> (r = 0 \<or> p \<le> r \<and> r < e \<and> is_mp r m)"
  using assms
proof (induction "unat e - unat p" arbitrary: p rule: less_induct)
  case less
  show ?case
  proof (cases "p < e \<and> \<not> is_mp p m")
    case True
    then have lt: "unat p < unat e" by (simp add: word_less_nat_alt)
    have q: "unat (p + 16) = unat p + 16" using lt less.prems by (subst unat_add_uint) auto
    then have le: "p \<le> p + 16" by (simp add: word_le_nat_alt)
    obtain r where "mp_search_loop (p + 16) e m = Some r" "r = 0 \<or> p + 16 \<le> r \<and> r < e \<and> is_mp r m"
      using less.hyps [of "p + 16"] lt q less.prems by fastforce
    then show ?thesis using True le by (subst mp_search_loop.simps) (auto simp: sizeof_mp_def)
  next
    case False
    then show ?thesis by (subst mp_search_loop.simps) auto
  qed
qed

lemma mp_search1_ends:
  assumes "unat addr + unat len \<le> 2 ^ 31"
  shows "\<exists>r. mp_search1 addr len m = Some r \<and> (r = 0 \<or> is_mp r m)"
  using mp_search_loop_ends [of "addr + len" addr m] unat_add_uint [of addr len] assms by (fastforce simp: mp_search1_def)

lemma two_bytes_bound: "unat (push_bit 8 (ucast a) OR ucast b :: uint) < 2 ^ 16" for a b :: uchar
proof -
  have ab: "uint a < 2 ^ 8" "uint b < 2 ^ 8" using uint_lt2p [of a] uint_lt2p [of b] by simp_all
  have a: "uint (push_bit 8 (ucast a :: uint)) = uint a * 2 ^ 8"
    using ab(1) by (simp add: push_bit_eq_mult uint_word_ariths unsigned_ucast_eq take_bit_eq_mod)
  have b: "uint (ucast b :: uint) = uint b" using ab(2) by (simp add: unsigned_ucast_eq take_bit_eq_mod)
  have "uint a * 2 ^ 8 OR uint b < 2 ^ 16" using ab by (intro OR_upper) auto
  then have "uint (push_bit 8 (ucast a) OR ucast b :: uint) < 2 ^ 16" unfolding unsigned_or_eq a b .
  then show ?thesis by (metis unat_eq_nat_uint nat_less_iff of_nat_numeral of_nat_power uint_ge_0)
qed

lemma unat_times_uint: "unat a * unat b < 2 ^ 32 \<Longrightarrow> unat (a * b) = unat a * unat b" for a b :: uint
  by (simp add: unat_word_ariths)

text \<open>Whatever the memory holds the search ends, with a floating pointer whose signature and checksum are right or with none.\<close>

lemma mp_search_ends: "\<exists>r. mp_search m = Some r \<and> (r = 0 \<or> is_mp r m)"
proof -
  define w where "w = (push_bit 8 (ucast (m 0x40F)) OR ucast (m 0x40E) :: uint)"
  define b where "b = (push_bit 8 (ucast (m 0x414)) OR ucast (m 0x413) :: uint)"
  have lt: "unat w < 2 ^ 16" "unat b < 2 ^ 16" unfolding w_def b_def by (rule two_bytes_bound)+
  have loop: "\<exists>r. mp_search_loop p e m = Some r \<and> (r = 0 \<or> is_mp r m)" if "unat e \<le> 2 ^ 31" for p e
    using mp_search_loop_ends [OF that, of p m] by blast
  have w16: "unat (push_bit 4 w) = unat w * 16"
    using lt unat_times_uint [of w 16] by (simp add: push_bit_eq_mult)
  have "unat (push_bit 4 w + 1024) \<le> 2 ^ 31"
    using w16 lt unat_add_uint [of "push_bit 4 w" 1024] by simp
  then have 1: "\<exists>r. mp_search1 (push_bit 4 w) 1024 m = Some r \<and> (r = 0 \<or> is_mp r m)"
    unfolding mp_search1_def by (rule loop)
  have "unat (b * 1024) \<le> 2 ^ 31"
    using lt unat_times_uint [of b 1024] by simp
  then have 2: "\<exists>r. mp_search1 (b * 1024 - 1024) 1024 m = Some r \<and> (r = 0 \<or> is_mp r m)"
    unfolding mp_search1_def using loop [of "b * 1024 - 1024 + 1024"] by simp
  have 3: "\<exists>r. mp_search1 0xF0000 0x10000 m = Some r \<and> (r = 0 \<or> is_mp r m)"
    unfolding mp_search1_def by (rule loop) simp
  obtain r where "(if push_bit 4 w \<noteq> 0 then mp_search1 (push_bit 4 w) 1024 m else mp_search1 (b * 1024 - 1024) 1024 m) = Some r"
    "r = 0 \<or> is_mp r m"
    using 1 2 by (cases "push_bit 4 w = 0") auto
  then show ?thesis using 3 unfolding mp_search_def Let_def w_def [symmetric] b_def [symmetric] by (cases "r = 0") simp_all
qed

section \<open>The entries\<close>

text \<open>A table as a list of entries, and what the walk makes of each.\<close>

datatype mpentry = EProc uchar uchar | EIoapic uchar | EOther uchar

fun entry_at :: "uint \<Rightarrow> (uint \<Rightarrow> uchar) \<Rightarrow> mpentry \<Rightarrow> bool" where
  "entry_at p m (EProc apicid flags) \<longleftrightarrow> m p = MPPROC \<and> m (p + 1) = apicid \<and> m (p + 3) = flags"
| "entry_at p m (EIoapic i) \<longleftrightarrow> m p = MPIOAPIC \<and> m (p + 1) = i"
| "entry_at p m (EOther k) \<longleftrightarrow> m p = k \<and> k \<in> {MPBUS, MPIOINTR, MPLINTR}"

fun entry_size :: "mpentry \<Rightarrow> nat" where
  "entry_size (EProc _ _) = 20"
| "entry_size _ = 8"

fun table_at :: "uint \<Rightarrow> (uint \<Rightarrow> uchar) \<Rightarrow> mpentry list \<Rightarrow> bool" where
  "table_at p m [] \<longleftrightarrow> True"
| "table_at p m (x # xs) \<longleftrightarrow> entry_at p m x \<and> table_at (p + of_nat (entry_size x)) m xs"

fun note_entry :: "mpentry \<Rightarrow> mp_machine \<Rightarrow> mp_machine" where
  "note_entry (EProc apicid flags) s =
     s\<lparr>apicids := (apicids s)(ncpu s := apicid), bcpu := (if flags AND MPBOOT \<noteq> 0 then ncpu s else bcpu s), ncpu := ncpu s + 1\<rparr>"
| "note_entry (EIoapic i) s = s\<lparr>ioapic_id := i\<rparr>"
| "note_entry (EOther _) s = s"

definition procs :: "mpentry list \<Rightarrow> uchar list" where
  "procs es = concat (map (\<lambda>x. case x of EProc a _ \<Rightarrow> [a] | _ \<Rightarrow> []) es)"

lemmas mp_types = MPPROC_def MPBUS_def MPIOAPIC_def MPIOINTR_def MPLINTR_def

text \<open>The walk ends and has noted the entries one after the other, when there are not more processors than the array has room for.\<close>

lemma mp_entries_table:
  assumes "table_at p m es" "unat e = unat p + sum_list (map entry_size es)" "ncpu s + length (procs es) \<le> NCPU"
  shows "mp_entries p e m s = Some (Ret (fold note_entry es s))"
  using assms
proof (induction es arbitrary: p s)
  case Nil
  then have "\<not> p < e" by (simp add: word_less_nat_alt)
  then show ?case by (subst mp_entries.simps) simp
next
  case (Cons x xs)
  let ?q = "p + of_nat (entry_size x)"
  have sz: "entry_size x = 20 \<or> entry_size x = 8" by (cases x) auto
  have e: "unat e < 2 ^ 32" using unsigned_less [of e, where ?'a = nat] by simp
  have lt: "p < e" using Cons.prems(2) sz by (auto simp: word_less_nat_alt)
  have "unat (of_nat (entry_size x) :: uint) = entry_size x" using sz by auto
  then have "unat ?q = unat p + entry_size x" using Cons.prems(2) e by (subst unat_add_uint) auto
  then have q: "unat e = unat ?q + sum_list (map entry_size xs)" using Cons.prems(2) by simp
  have t: "entry_at p m x" "table_at ?q m xs" using Cons.prems(1) by auto
  have ih: "ncpu s1 + length (procs xs) \<le> NCPU \<Longrightarrow> mp_entries ?q e m s1 = Some (Ret (fold note_entry xs s1))" for s1
    using Cons.IH [OF t(2) q] .
  show ?case
  proof (cases x)
    case (EProc a f)
    then have n: "ncpu s + 1 + length (procs xs) \<le> NCPU" using Cons.prems(3) by (simp add: procs_def)
    show ?thesis using lt t(1) EProc ih [of "note_entry x s"] n
      by (subst mp_entries.simps) (simp add: add_cpu_def sizeof_mpproc_def)
  next
    case (EIoapic i)
    then have n: "ncpu s + length (procs xs) \<le> NCPU" using Cons.prems(3) by (simp add: procs_def)
    show ?thesis using lt t(1) EIoapic ih [of "note_entry x s"] n
      by (subst mp_entries.simps) (simp add: sizeof_mpioapic_def mp_types)
  next
    case (EOther k)
    then have n: "ncpu s + length (procs xs) \<le> NCPU" using Cons.prems(3) by (simp add: procs_def)
    have "m p \<noteq> MPPROC" "m p \<noteq> MPIOAPIC" "m p = MPBUS \<or> m p = MPIOINTR \<or> m p = MPLINTR" using t(1) EOther by (auto simp: mp_types)
    then show ?thesis using lt EOther ih [of s] n by (subst mp_entries.simps) simp
  qed
qed

text \<open>One processor more and the walk writes behind the array.\<close>

lemma mp_entries_overflow:
  assumes "m p = MPPROC" "p < e" "ncpu s = NCPU"
  shows "mp_entries p e m s = Some (Fault ''cpus'')"
  using assms by (subst mp_entries.simps) (simp add: add_cpu_def)

text \<open>A processor of the table has its identifier at its position of \<open>cpus\<close>, and \<open>ncpu\<close> counts them.\<close>

lemma noted_cpus:
  "ncpu (fold note_entry es s) = ncpu s + length (procs es)"
  "k < length (procs es) \<Longrightarrow> apicids (fold note_entry es s) (ncpu s + k) = procs es ! k"
  "k < ncpu s \<Longrightarrow> apicids (fold note_entry es s) k = apicids s k"
proof (induction es arbitrary: s k)
  case (Cons x es)
  { case 1 show ?case using Cons(1) [of "note_entry x s"] by (cases x) (auto simp: procs_def) }
  { case 2
    show ?case
    proof (cases x)
      case (EProc a f)
      then show ?thesis using 2 Cons(2) [of "k - 1" "note_entry x s"] Cons(3) [of "ncpu s" "note_entry x s"]
        by (cases k) (auto simp: procs_def)
    qed (use 2 Cons(2) [of k "note_entry x s"] in \<open>auto simp: procs_def\<close>) }
  { case 3 then show ?case using Cons(3) [of k "note_entry x s"] by (cases x) auto }
qed (auto simp: procs_def)

end
