(* ===== verification/Bootmain.thy ===== *)
theory Bootmain
  imports Exec
begin

text \<open>
  The C half of the boot loader (\<^verbatim>\<open>bootmain.c\<close>): it reads the kernel, an ELF image that starts at sector 1 of the disk, and jumps to its entry
  point.  The state is the physical memory; the disk is drive 0 behind the same registers that the IDE driver uses.
\<close>

section \<open>The loader\<close>

type_synonym pmem = "uint \<Rightarrow> uchar"

definition SECTSIZE :: uint where "SECTSIZE = 512"

definition readsect_ports :: "uint \<Rightarrow> (uint \<times> uint) list" where
  "readsect_ports offset =
     [(0x1F2, 1), (0x1F3, offset AND 0xFF), (0x1F4, drop_bit 8 offset AND 0xFF), (0x1F5, drop_bit 16 offset AND 0xFF),
      (0x1F6, (drop_bit 24 offset OR 0xE0) AND 0xFF), (0x1F7, 0x20)]"

definition readsect :: "(blkid \<Rightarrow> bytes) \<Rightarrow> uint \<Rightarrow> uint \<Rightarrow> pmem \<Rightarrow> pmem" where
  "readsect dk dst offset m =
     (\<lambda>a. if unat (a - dst) < 512 then dk (ide_decode (readsect_ports offset)) (unat (a - dst)) else m a)"

partial_function (option) readseg_loop :: "(blkid \<Rightarrow> bytes) \<Rightarrow> uint \<Rightarrow> uint \<Rightarrow> uint \<Rightarrow> pmem \<Rightarrow> pmem option" where
  "readseg_loop dk va eva offset m =
     (if va < eva then readseg_loop dk (va + SECTSIZE) eva (offset + 1) (readsect dk va offset m) else Some m)"

definition readseg :: "(blkid \<Rightarrow> bytes) \<Rightarrow> uint \<Rightarrow> uint \<Rightarrow> uint \<Rightarrow> pmem \<Rightarrow> pmem option" where
  "readseg dk va count offset m =
     readseg_loop dk (va AND NOT (SECTSIZE - 1)) (va + count) (offset div SECTSIZE + 1) m"

definition struct_at :: "uint \<Rightarrow> pmem \<Rightarrow> bytes" where
  "struct_at p m = (\<lambda>i. m (p + of_nat i))"

partial_function (option) load_segments :: "(blkid \<Rightarrow> bytes) \<Rightarrow> uint \<Rightarrow> uint \<Rightarrow> pmem \<Rightarrow> pmem option" where
  "load_segments dk ph eph m =
     (if ph < eph then
        Option.bind (readseg dk (ph_va (get_proghdr (struct_at ph m)) AND 0xFFFFFF) (ph_memsz (get_proghdr (struct_at ph m)))
            (ph_offset (get_proghdr (struct_at ph m))) m)
          (load_segments dk (ph + 32) eph)
      else Some m)"

text \<open>The loader jumps to an address, or stops at \<^verbatim>\<open>bad\<close>.\<close>

datatype boot = Jump uint pmem | Bad pmem

definition bootmain :: "(blkid \<Rightarrow> bytes) \<Rightarrow> pmem \<Rightarrow> boot option" where
  "bootmain dk m =
     (let elf = 0x10000 in
      Option.bind (readseg dk elf (SECTSIZE * 8) 0 m) (\<lambda>m1.
        if e_magic (get_elfhdr (struct_at elf m1)) \<noteq> ELF_MAGIC then Some (Bad m1)
        else
          (let ph = elf + e_phoff (get_elfhdr (struct_at elf m1)); eph = ph + 32 * ucast (e_phnum (get_elfhdr (struct_at elf m1))) in
           Option.bind (load_segments dk ph eph m1) (\<lambda>m2.
             Some (Jump (e_entry (get_elfhdr (struct_at elf m2)) AND 0xFFFFFF) m2)))))"

section \<open>Sectors\<close>

definition kernel_image :: "(blkid \<Rightarrow> bytes) \<Rightarrow> nat \<Rightarrow> uchar" where
  "kernel_image dk j = dk (0, of_nat (j div 512 + 1)) (j mod 512)"

lemma ide_decode_readsect:
  assumes "unat offset < 2 ^ 28"
  shows "ide_decode (readsect_ports offset) = (0, offset)"
proof -
  have t: "take_bit 28 offset = offset"
    using assms by (metis take_bit_nat_eq_self_iff unsigned_take_bit_eq unsigned_word_eqI)
  have hi: "\<not> bit offset n" if "28 \<le> n" for n using t that by (metis bit_take_bit_iff not_le)
  have p: "port_val (readsect_ports offset) 0x1f3 = offset AND 0xff"
    "port_val (readsect_ports offset) 0x1f4 = drop_bit 8 offset AND 0xff"
    "port_val (readsect_ports offset) 0x1f5 = drop_bit 16 offset AND 0xff"
    "port_val (readsect_ports offset) 0x1f6 = (drop_bit 24 offset OR 0xE0) AND 0xFF"
    by (simp_all add: port_val_def readsect_ports_def)
  have masks: "(0xff :: uint) = mask 8" "(0x0f :: uint) = mask 4" "(1 :: uint) = mask 1" "(0xe0 :: uint) = push_bit 5 (mask 3)"
    by (simp_all add: mask_eq_exp_minus_1 push_bit_eq_mult)
  have "fst (ide_decode (readsect_ports offset)) = 0"
    unfolding ide_decode_def p fst_conv masks by (rule bit_word_eqI) (auto simp: bit_simps hi)
  moreover have "snd (ide_decode (readsect_ports offset)) = offset"
  proof (rule bit_word_eqI)
    fix n assume n: "n < LENGTH(32)"
    then consider "n < 8" | "8 \<le> n" "n < 16" | "16 \<le> n" "n < 24" | "24 \<le> n" "n < 28" | "28 \<le> n" "n < 32"
      by fastforce
    then show "bit (snd (ide_decode (readsect_ports offset))) n = bit offset n"
      unfolding ide_decode_def p snd_conv masks
      by cases (use n hi in \<open>auto simp: bit_simps\<close>)
  qed
  ultimately show ?thesis by (simp add: prod_eq_iff)
qed

lemma unat_diff_below:
  fixes a p :: uint
  assumes "unat p + 512 \<le> 2 ^ 32"
  shows "unat (a - p) < 512 \<longleftrightarrow> unat p \<le> unat a \<and> unat a < unat p + 512"
  using assms by (auto simp: unat_sub_if' word_size)

lemma readseg_loop_eq:
  assumes "unat va + 512 * n < 2 ^ 32" "unat eva \<le> unat va + 512 * n" "n \<noteq> 0 \<Longrightarrow> unat va + 512 * (n - 1) < unat eva"
    "unat offset + n \<le> 2 ^ 28"
  shows "readseg_loop dk va eva offset m =
    Some (\<lambda>a. if unat va \<le> unat a \<and> unat a < unat va + 512 * n
      then dk (0, offset + of_nat ((unat a - unat va) div 512)) ((unat a - unat va) mod 512) else m a)"
  using assms
proof (induction n arbitrary: va offset m)
  case 0
  then have "\<not> va < eva" by (simp add: word_less_nat_alt)
  then show ?case by (subst readseg_loop.simps) (auto simp: fun_eq_iff)
next
  case (Suc n)
  have v: "unat (va + 512) = unat va + 512" using Suc.prems(1) by (subst unat_add_uint) auto
  have o: "unat (offset + 1) = unat offset + 1" using Suc.prems(4) by (subst unat_add_uint) auto
  have lt: "va < eva" using Suc.prems(3) by (simp add: word_less_nat_alt)
  have dec: "ide_decode (readsect_ports offset) = (0, offset)" using Suc.prems(4) by (intro ide_decode_readsect) simp
  let ?m = "readsect dk va offset m"
  have "readseg_loop dk va eva offset m = readseg_loop dk (va + 512) eva (offset + 1) ?m"
    using lt by (subst readseg_loop.simps) (simp add: SECTSIZE_def)
  also have "\<dots> = Some (\<lambda>a. if unat va + 512 \<le> unat a \<and> unat a < unat va + 512 + 512 * n
      then dk (0, offset + 1 + of_nat ((unat a - (unat va + 512)) div 512)) ((unat a - (unat va + 512)) mod 512) else ?m a)"
    using Suc.prems by (subst Suc.IH) (auto simp: v o)
  also have "\<dots> = Some (\<lambda>a. if unat va \<le> unat a \<and> unat a < unat va + 512 * Suc n
      then dk (0, offset + of_nat ((unat a - unat va) div 512)) ((unat a - unat va) mod 512) else m a)"
  proof (rule arg_cong [where f = Some], rule ext)
    fix a :: uint
    consider (below) "unat a < unat va" | (here) "unat va \<le> unat a" "unat a < unat va + 512" | (later) "unat va + 512 \<le> unat a" by linarith
    then show "(if unat va + 512 \<le> unat a \<and> unat a < unat va + 512 + 512 * n
        then dk (0, offset + 1 + of_nat ((unat a - (unat va + 512)) div 512)) ((unat a - (unat va + 512)) mod 512) else ?m a) =
      (if unat va \<le> unat a \<and> unat a < unat va + 512 * Suc n
        then dk (0, offset + of_nat ((unat a - unat va) div 512)) ((unat a - unat va) mod 512) else m a)"
    proof cases
      case later
      then obtain d where d: "unat a = unat va + 512 + d" using le_Suc_ex by blast
      then have "(unat a - unat va) div 512 = Suc (d div 512)" "(unat a - unat va) mod 512 = d mod 512" by auto
      moreover have "?m a = m a" using later unat_diff_below [of va a] Suc.prems(1) by (simp add: readsect_def)
      ultimately show ?thesis using d by (auto simp: algebra_simps)
    next
      case here
      then have "?m a = dk (0, offset) (unat a - unat va)"
        using unat_diff_below [of va a] Suc.prems(1) by (simp add: readsect_def dec unat_sub_if')
      then show ?thesis using here by auto
    next
      case below
      then have "?m a = m a" using unat_diff_below [of va a] Suc.prems(1) by (simp add: readsect_def)
      then show ?thesis using below by auto
    qed
  qed
  finally show ?case .
qed

section \<open>Segments\<close>

text \<open>The sectors that \<open>readseg\<close> fills, from \<open>seg_lo\<close> up to \<open>seg_hi\<close>; they hold the bytes asked for when the address and the offset agree
  within a sector.\<close>

definition seg_lo :: "uint \<Rightarrow> nat" where
  "seg_lo va = unat va - unat va mod 512"

definition seg_sectors :: "uint \<Rightarrow> uint \<Rightarrow> nat" where
  "seg_sectors va count = (if seg_lo va < unat va + unat count then (unat va mod 512 + unat count + 511) div 512 else 0)"

definition seg_hi :: "uint \<Rightarrow> uint \<Rightarrow> nat" where
  "seg_hi va count = seg_lo va + 512 * seg_sectors va count"

definition seg_fits :: "uint \<Rightarrow> uint \<Rightarrow> uint \<Rightarrow> bool" where
  "seg_fits va count offset \<longleftrightarrow>
     seg_hi va count < 2 ^ 32 \<and> unat va mod 512 = unat offset mod 512 \<and> unat offset div 512 + 1 + seg_sectors va count \<le> 2 ^ 28"

lemma unat_round_sector: "unat (va AND NOT (SECTSIZE - 1)) = seg_lo va"
proof -
  have m: "SECTSIZE - 1 = mask 9" by (simp add: SECTSIZE_def mask_eq_exp_minus_1)
  have "va AND NOT (mask 9) = push_bit 9 (drop_bit 9 va)"
    by (rule bit_word_eqI) (auto simp: bit_simps)
  then have "va AND NOT (SECTSIZE - 1) = va div 512 * 512" by (simp add: m push_bit_eq_mult drop_bit_eq_div)
  moreover have "unat va div 512 * 512 < 2 ^ 32"
    using unsigned_less [of va, where ?'a = nat] div_times_less_eq_dividend [of "unat va" 512] by (simp del: div_times_less_eq_dividend)
  ultimately show ?thesis by (simp add: unat_word_ariths unat_div seg_lo_def minus_mod_eq_div_mult)
qed

lemma sector_div: "(a + k) div 512 = a div 512 + (a mod 512 + k) div 512" for a k :: nat
proof -
  have "a + k = (a mod 512 + k) + a div 512 * 512" by simp
  then have "(a + k) div 512 = ((a mod 512 + k) + a div 512 * 512) div 512" by (rule arg_cong)
  also have "\<dots> = a div 512 + (a mod 512 + k) div 512" by (rule div_mult_self1) simp
  finally show ?thesis .
qed

lemma seg_covers: "unat va + unat count \<le> seg_hi va count"
proof -
  have "unat va mod 512 + unat count \<le> 512 * seg_sectors va count" by (auto simp: seg_sectors_def seg_lo_def)
  moreover have "unat va = seg_lo va + unat va mod 512" by (simp add: seg_lo_def)
  ultimately show ?thesis by (simp add: seg_hi_def)
qed

lemma readseg_correct:
  assumes "seg_fits va count offset"
  shows "\<exists>m'. readseg dk va count offset m = Some m' \<and>
    (\<forall>k < unat count. m' (va + of_nat k) = kernel_image dk (unat offset + k)) \<and>
    (\<forall>a. unat a < seg_lo va \<or> seg_hi va count \<le> unat a \<longrightarrow> m' a = m a)"
proof -
  let ?n = "seg_sectors va count" and ?r = "unat va mod 512" and ?va = "va AND NOT (SECTSIZE - 1)"
  note f = assms [unfolded seg_fits_def seg_hi_def]
  have r: "unat va = seg_lo va + ?r" "?r < 512" by (simp_all add: seg_lo_def)
  have n: "?r + unat count \<le> 512 * ?n" by (auto simp: seg_sectors_def seg_lo_def)
  then have bound: "unat va + unat count < 2 ^ 32" using f r by linarith
  then have e: "unat (va + count) = unat va + unat count" by (simp add: unat_add_uint)
  have o: "unat (offset div SECTSIZE + 1) = unat offset div 512 + 1"
    using f by (subst unat_add_uint) (auto simp: SECTSIZE_def unat_div)
  have last: "?n \<noteq> 0 \<Longrightarrow> seg_lo va + 512 * (?n - 1) < unat va + unat count"
    using r by (auto simp: seg_sectors_def seg_lo_def split: if_splits)
  define m' where "m' = (\<lambda>a. if seg_lo va \<le> unat a \<and> unat a < seg_lo va + 512 * ?n
      then dk (0, offset div SECTSIZE + 1 + of_nat ((unat a - seg_lo va) div 512)) ((unat a - seg_lo va) mod 512) else m a)"
  have 1: "readseg dk va count offset m = Some m'"
    unfolding readseg_def m'_def using readseg_loop_eq [of ?va ?n "va + count" "offset div SECTSIZE + 1" dk m, unfolded unat_round_sector e o] f n r last
    by simp
  have 2: "m' (va + of_nat k) = kernel_image dk (unat offset + k)" if k: "k < unat count" for k
  proof -
    have "unat (of_nat k :: uint) = k" using k unsigned_less [of count, where ?'a = nat] by (simp add: unat_of_nat take_bit_nat_eq_self)
    then have a: "unat (va + of_nat k) = unat va + k" using bound k by (subst unat_add_uint) auto
    have d: "unat va + k - seg_lo va = unat offset mod 512 + k" using r f by simp
    have "(of_nat (unat (offset div SECTSIZE + 1)) :: uint) = offset div SECTSIZE + 1" by simp
    then have o': "offset div SECTSIZE + 1 = of_nat (unat offset div 512 + 1)" unfolding o by (rule sym)
    have q: "unat offset div 512 + 1 + (unat offset mod 512 + k) div 512 = (unat offset + k) div 512 + 1"
      using sector_div [of "unat offset" k] by simp
    have s: "offset div SECTSIZE + 1 + of_nat ((unat offset mod 512 + k) div 512) = (of_nat ((unat offset + k) div 512 + 1) :: uint)"
      unfolding o' of_nat_add [symmetric] q ..
    show ?thesis using n k r(1) by (simp add: m'_def a d s kernel_image_def mod_simps)
  qed
  have 3: "m' a = m a" if "unat a < seg_lo va \<or> seg_hi va count \<le> unat a" for a
    using that by (auto simp: m'_def seg_hi_def)
  show ?thesis using 1 2 3 by blast
qed

section \<open>The kernel in memory\<close>

definition seg_va :: "proghdr \<Rightarrow> uint" where
  "seg_va h = ph_va h AND 0xFFFFFF"

definition in_memory :: "(blkid \<Rightarrow> bytes) \<Rightarrow> proghdr \<Rightarrow> pmem \<Rightarrow> bool" where
  "in_memory dk h m \<longleftrightarrow> (\<forall>k < unat (ph_memsz h). m (seg_va h + of_nat k) = kernel_image dk (unat (ph_offset h) + k))"

text \<open>A segment that can be in_memory does not reach into the page at \<open>0x10000\<close> with the headers, and a later segment does not reach into an earlier one.\<close>

definition loadable :: "proghdr \<Rightarrow> bool" where
  "loadable h \<longleftrightarrow> seg_fits (seg_va h) (ph_memsz h) (ph_offset h) \<and>
     (seg_hi (seg_va h) (ph_memsz h) \<le> 0x10000 \<or> 0x11000 \<le> seg_lo (seg_va h))"

definition spares :: "proghdr \<Rightarrow> proghdr \<Rightarrow> bool" where
  "spares h g \<longleftrightarrow> unat (seg_va g) + unat (ph_memsz g) \<le> seg_lo (seg_va h) \<or> seg_hi (seg_va h) (ph_memsz h) \<le> unat (seg_va g)"

fun in_order :: "proghdr list \<Rightarrow> bool" where
  "in_order [] \<longleftrightarrow> True"
| "in_order (g # hs) \<longleftrightarrow> (\<forall>h \<in> set hs. spares h g) \<and> in_order hs"

fun headers_at :: "uint \<Rightarrow> pmem \<Rightarrow> proghdr list \<Rightarrow> bool" where
  "headers_at p m [] \<longleftrightarrow> True"
| "headers_at p m (h # hs) \<longleftrightarrow> get_proghdr (struct_at p m) = h \<and> headers_at (p + 32) m hs"

definition same_page :: "pmem \<Rightarrow> pmem \<Rightarrow> bool" where
  "same_page m m' \<longleftrightarrow> (\<forall>a. 0x10000 \<le> unat a \<and> unat a < 0x11000 \<longrightarrow> m' a = m a)"

lemma get_proghdr_cong: "(\<And>i. i < 32 \<Longrightarrow> d i = d' i) \<Longrightarrow> get_proghdr d = get_proghdr d'"
  by (simp add: get_proghdr_def get_u32_def)

lemma get_elfhdr_cong: "(\<And>i. i < 52 \<Longrightarrow> d i = d' i) \<Longrightarrow> get_elfhdr d = get_elfhdr d'"
  by (simp add: get_elfhdr_def get_u32_def get_u16_def)

lemma struct_at_page:
  assumes "same_page m m'" "0x10000 \<le> unat p" "unat p + i < 0x11000"
  shows "struct_at p m' i = struct_at p m i"
proof -
  have "unat (of_nat i :: uint) = i" using assms(3) by (simp add: unat_of_nat take_bit_nat_eq_self)
  then have "unat (p + of_nat i) = unat p + i" using assms(3) by (subst unat_add_uint) auto
  then show ?thesis using assms by (simp add: struct_at_def same_page_def)
qed

lemma headers_at_page:
  assumes "same_page m m'" "0x10000 \<le> unat p" "unat p + 32 * length hs \<le> 0x11000" "headers_at p m hs"
  shows "headers_at p m' hs"
  using assms(2-)
proof (induction hs arbitrary: p)
  case (Cons h hs)
  have u: "unat (p + 32) = unat p + 32" using Cons.prems(2) by (subst unat_add_uint) auto
  have "get_proghdr (struct_at p m') = get_proghdr (struct_at p m)"
    using Cons.prems(1,2) assms(1) by (intro get_proghdr_cong struct_at_page) auto
  moreover have "headers_at (p + 32) m' hs" using Cons.prems u by (intro Cons.IH) auto
  ultimately show ?case using Cons.prems(3) by simp
qed simp

lemma spared_byte:
  assumes "loadable g" "spares h g" "k < unat (ph_memsz g)"
  shows "unat (seg_va g + of_nat k) < seg_lo (seg_va h) \<or> seg_hi (seg_va h) (ph_memsz h) \<le> unat (seg_va g + of_nat k)"
proof -
  have "unat (seg_va g) + unat (ph_memsz g) \<le> seg_hi (seg_va g) (ph_memsz g)"
    using seg_covers [of "seg_va g" "ph_memsz g"] .
  then have b: "unat (seg_va g) + unat (ph_memsz g) < 2 ^ 32" using assms(1) by (simp add: loadable_def seg_fits_def)
  then have "unat (of_nat k :: uint) = k" using assms(3) by (simp add: unat_of_nat take_bit_nat_eq_self)
  then have "unat (seg_va g + of_nat k) = unat (seg_va g) + k" using b assms(3) by (subst unat_add_uint) auto
  then show ?thesis using assms(2,3) by (auto simp: spares_def)
qed

lemma load_segments_correct:
  assumes "headers_at ph m hs" "0x10000 \<le> unat ph" "unat ph + 32 * length hs \<le> 0x11000"
    "unat eph = unat ph + 32 * length hs" "\<forall>h \<in> set hs. loadable h" "in_order hs"
  shows "\<exists>m'. load_segments dk ph eph m = Some m' \<and> (\<forall>h \<in> set hs. in_memory dk h m') \<and> same_page m m' \<and>
    (\<forall>a. (\<forall>h \<in> set hs. unat a < seg_lo (seg_va h) \<or> seg_hi (seg_va h) (ph_memsz h) \<le> unat a) \<longrightarrow> m' a = m a)"
  using assms
proof (induction hs arbitrary: ph m)
  case Nil
  then have "\<not> ph < eph" by (simp add: word_less_nat_alt)
  then show ?case by (subst load_segments.simps) (simp add: same_page_def)
next
  case (Cons g hs)
  have g: "get_proghdr (struct_at ph m) = g" "loadable g" using Cons.prems by auto
  have u: "unat (ph + 32) = unat ph + 32" using Cons.prems(3) by (subst unat_add_uint) auto
  have lt: "ph < eph" using Cons.prems(4) by (simp add: word_less_nat_alt)
  obtain m1 where m1: "readseg dk (seg_va g) (ph_memsz g) (ph_offset g) m = Some m1" "in_memory dk g m1"
    "\<forall>a. unat a < seg_lo (seg_va g) \<or> seg_hi (seg_va g) (ph_memsz g) \<le> unat a \<longrightarrow> m1 a = m a"
    using readseg_correct [of "seg_va g" "ph_memsz g" "ph_offset g" dk m] g(2) unfolding loadable_def in_memory_def by blast
  have p1: "same_page m m1" using g(2) m1(3) unfolding same_page_def loadable_def by force
  have h: "headers_at (ph + 32) m hs" "0x10000 \<le> unat (ph + 32)" "unat (ph + 32) + 32 * length hs \<le> 0x11000"
    "unat eph = unat (ph + 32) + 32 * length hs" "\<forall>h \<in> set hs. loadable h" "in_order hs"
    using Cons.prems unfolding u by simp_all
  note h1 = headers_at_page [OF p1 h(2,3,1)]
  obtain m2 where m2: "load_segments dk (ph + 32) eph m1 = Some m2" "\<forall>h \<in> set hs. in_memory dk h m2" "same_page m1 m2"
    "\<forall>a. (\<forall>h \<in> set hs. unat a < seg_lo (seg_va h) \<or> seg_hi (seg_va h) (ph_memsz h) \<le> unat a) \<longrightarrow> m2 a = m1 a"
    using Cons.IH [OF h1 h(2-)] by blast
  have step: "load_segments dk ph eph m = Some m2"
    using lt g(1) m1(1) m2(1) by (subst load_segments.simps) (simp add: seg_va_def)
  have keep: "m2 (seg_va g + of_nat k) = m1 (seg_va g + of_nat k)" if k: "k < unat (ph_memsz g)" for k
    using m2(4) [rule_format, OF spared_byte [OF _ _ k]] Cons.prems(5,6) by auto
  have "in_memory dk g m2" using m1(2) keep by (simp add: in_memory_def)
  moreover have "same_page m m2" using p1 m2(3) by (simp add: same_page_def)
  ultimately show ?case using step m1(3) m2(2,4) by auto
qed

text \<open>The headers of the kernel as they are on the disk.\<close>

definition kernel_elf :: "(blkid \<Rightarrow> bytes) \<Rightarrow> elfhdr" where
  "kernel_elf dk = get_elfhdr (kernel_image dk)"

definition kernel_segments :: "(blkid \<Rightarrow> bytes) \<Rightarrow> proghdr list" where
  "kernel_segments dk =
     map (\<lambda>i. get_proghdr (\<lambda>k. kernel_image dk (unat (e_phoff (kernel_elf dk)) + 32 * i + k))) [0 ..< unat (e_phnum (kernel_elf dk))]"

lemma first_page_read:
  "\<exists>m1. readseg dk 0x10000 (SECTSIZE * 8) 0 m = Some m1 \<and> (\<forall>k < 4096. struct_at 0x10000 m1 k = kernel_image dk k)"
proof -
  have "seg_fits 0x10000 4096 0" by (simp add: seg_fits_def seg_hi_def seg_lo_def seg_sectors_def)
  then show ?thesis using readseg_correct [of "0x10000" 4096 0 dk m] by (auto simp: SECTSIZE_def struct_at_def)
qed

lemma headers_read:
  assumes page: "\<forall>k < 4096. struct_at 0x10000 m k = kernel_image dk k" and "q + 32 * n \<le> 4096"
  shows "headers_at (0x10000 + of_nat q) m (map (\<lambda>i. get_proghdr (\<lambda>k. kernel_image dk (q + 32 * i + k))) [0 ..< n])"
  using assms(2)
proof (induction n arbitrary: q)
  case (Suc n)
  have "get_proghdr (struct_at (0x10000 + of_nat q) m) = get_proghdr (\<lambda>k. kernel_image dk (q + k))"
  proof (rule get_proghdr_cong)
    fix k :: nat assume k: "k < 32"
    have "struct_at (0x10000 + of_nat q) m k = struct_at 0x10000 m (q + k)" by (simp add: struct_at_def algebra_simps)
    then show "struct_at (0x10000 + of_nat q) m k = kernel_image dk (q + k)" using page k Suc.prems by simp
  qed
  moreover have "headers_at (0x10000 + of_nat (q + 32)) m (map (\<lambda>i. get_proghdr (\<lambda>k. kernel_image dk (q + 32 + 32 * i + k))) [0 ..< n])"
    using Suc.prems by (intro Suc.IH) simp
  moreover have "map (\<lambda>i. get_proghdr (\<lambda>k. kernel_image dk (q + 32 * i + k))) [0 ..< Suc n] =
      get_proghdr (\<lambda>k. kernel_image dk (q + k)) # map (\<lambda>i. get_proghdr (\<lambda>k. kernel_image dk (q + 32 + 32 * i + k))) [0 ..< n]"
    by (simp add: map_upt_Suc algebra_simps del: upt_Suc)
  ultimately show ?case by (simp add: algebra_simps del: upt_Suc)
qed simp

lemma kernel_in_memory:
  assumes magic: "e_magic (kernel_elf dk) = ELF_MAGIC"
    and fits: "unat (e_phoff (kernel_elf dk)) + 32 * unat (e_phnum (kernel_elf dk)) \<le> 4096"
    and segs: "\<forall>h \<in> set (kernel_segments dk). loadable h" "in_order (kernel_segments dk)"
  shows "\<exists>m'. bootmain dk m = Some (Jump (e_entry (kernel_elf dk) AND 0xFFFFFF) m') \<and> (\<forall>h \<in> set (kernel_segments dk). in_memory dk h m')"
proof -
  let ?e = "kernel_elf dk"
  obtain m1 where m1: "readseg dk 0x10000 (SECTSIZE * 8) 0 m = Some m1" "\<forall>k < 4096. struct_at 0x10000 m1 k = kernel_image dk k"
    using first_page_read by blast
  have e1: "get_elfhdr (struct_at 0x10000 m1) = ?e"
    unfolding kernel_elf_def using m1(2) by (intro get_elfhdr_cong) simp
  let ?ph = "0x10000 + e_phoff ?e" and ?n = "unat (e_phnum ?e)"
  let ?eph = "?ph + 32 * ucast (e_phnum ?e)"
  have ph: "unat ?ph = 0x10000 + unat (e_phoff ?e)" using fits by (subst unat_add_uint) auto
  have n: "unat (ucast (e_phnum ?e) :: uint) = ?n"
    using unsigned_less [of "e_phnum ?e", where ?'a = nat] by (simp add: unsigned_ucast_eq take_bit_nat_eq_self)
  have "unat (32 * ucast (e_phnum ?e) :: uint) = 32 * ?n" using fits by (simp add: unat_word_ariths n)
  then have eph: "unat ?eph = unat ?ph + 32 * length (kernel_segments dk)"
    using fits ph by (subst unat_add_uint) (auto simp: kernel_segments_def)
  have "headers_at ?ph m1 (kernel_segments dk)"
    using headers_read [OF m1(2) fits] by (simp add: kernel_segments_def)
  then obtain m2 where m2: "load_segments dk ?ph ?eph m1 = Some m2" "\<forall>h \<in> set (kernel_segments dk). in_memory dk h m2" "same_page m1 m2"
    using load_segments_correct [OF _ _ _ eph segs, of m1 dk] ph fits by (auto simp: kernel_segments_def)
  have "get_elfhdr (struct_at 0x10000 m2) = get_elfhdr (struct_at 0x10000 m1)"
    using m2(3) by (intro get_elfhdr_cong struct_at_page) auto
  then show ?thesis using m1(1) e1 m2(1,2) magic by (simp add: bootmain_def Let_def)
qed

text \<open>
  C40: the boot loader starts the kernel.  When the image on the disk has the magic number, its program headers lie in the first page
  and its segments can be loaded, \<open>bootmain\<close> ends with a jump to the entry point of the image, and the memory then holds every byte of
  every segment.
\<close>

theorem bootmain_starts_kernel:
  assumes "e_magic (kernel_elf dk) = ELF_MAGIC"
    and "unat (e_phoff (kernel_elf dk)) + 32 * unat (e_phnum (kernel_elf dk)) \<le> 4096"
    and "\<forall>h \<in> set (kernel_segments dk). loadable h" "in_order (kernel_segments dk)"
  shows "\<exists>m'. bootmain dk m = Some (Jump (e_entry (kernel_elf dk) AND 0xFFFFFF) m') \<and> (\<forall>h \<in> set (kernel_segments dk). in_memory dk h m')"
  using kernel_in_memory [OF assms] .

text \<open>A kernel with one segment of 600 bytes, at \<open>0x1200\<close> of the image and \<open>0x100000\<close> of the memory.\<close>

definition demo_kernel_header :: "uchar list" where
  "demo_kernel_header =
     [0x7F, 0x45, 0x4C, 0x46] @ replicate 20 0 @ [0x10, 0, 0x10, 0, 52, 0, 0, 0] @ replicate 12 0 @ [1, 0] @ replicate 6 0 @
     [1, 0, 0, 0, 0, 0x12, 0, 0, 0, 0, 0x10, 0, 0, 0, 0, 0, 0x58, 2, 0, 0, 0x58, 2, 0, 0] @ replicate 8 0"

definition demo_kernel_disk :: "blkid \<Rightarrow> bytes" where
  "demo_kernel_disk b i = (if snd b = 1 \<and> i < 84 then demo_kernel_header ! i else ucast (snd b))"

lemma demo_kernel_elf:
  "e_magic (kernel_elf demo_kernel_disk) = ELF_MAGIC" "e_phoff (kernel_elf demo_kernel_disk) = 52"
  "e_phnum (kernel_elf demo_kernel_disk) = 1" "e_entry (kernel_elf demo_kernel_disk) = 0x100010"
  by (simp_all add: kernel_elf_def get_elfhdr_def get_u32_def get_u16_def kernel_image_def demo_kernel_disk_def demo_kernel_header_def
      ELF_MAGIC_def push_bit_eq_mult nth_append)

lemma demo_kernel_segments:
  "kernel_segments demo_kernel_disk =
     [\<lparr>ph_type = 1, ph_offset = 0x1200, ph_va = 0x100000, ph_pa = 0, ph_filesz = 600, ph_memsz = 600, ph_flags = 0, ph_align = 0\<rparr>]"
  by (simp add: kernel_segments_def demo_kernel_elf get_proghdr_def get_u32_def kernel_image_def demo_kernel_disk_def demo_kernel_header_def
      push_bit_eq_mult nth_append)

theorem bootmain_starts_kernel_witness:
  "\<exists>m'. bootmain demo_kernel_disk (\<lambda>_. 0) = Some (Jump 0x100010 m') \<and> m' 0x100257 = 0x0B"
proof -
  have "\<forall>h \<in> set (kernel_segments demo_kernel_disk). loadable h" "in_order (kernel_segments demo_kernel_disk)"
    by (simp_all add: demo_kernel_segments loadable_def seg_va_def seg_fits_def seg_hi_def seg_lo_def seg_sectors_def)
  then obtain m' where m': "bootmain demo_kernel_disk (\<lambda>_. 0) = Some (Jump (0x100010 AND 0xFFFFFF) m')"
      "\<forall>h \<in> set (kernel_segments demo_kernel_disk). in_memory demo_kernel_disk h m'"
    using bootmain_starts_kernel [of demo_kernel_disk "\<lambda>_. 0"] by (auto simp: demo_kernel_elf)
  have "m' (0x100000 + of_nat 599) = kernel_image demo_kernel_disk (0x1200 + 599)"
    using m'(2) by (simp add: demo_kernel_segments in_memory_def seg_va_def del: of_nat_numeral)
  then show ?thesis using m'(1) by (simp add: kernel_image_def demo_kernel_disk_def)
qed

end
