(* ===== verification/Wc.thy ===== *)
theory Wc
  imports Printf
begin

text \<open>
  The programs \<^verbatim>\<open>cat.c\<close> and \<^verbatim>\<open>wc.c\<close>.  What the calls of \<^verbatim>\<open>read\<close> return is a list of pieces, at most 512 bytes each and none of them empty, and then
  the end of the file or an error.  The result is what the program writes to descriptor 1, and whether it has called \<^verbatim>\<open>exit\<close>.
\<close>

section \<open>The programs\<close>

record input_file =
  pieces :: "uchar list list"
  read_error :: bool

definition msg :: "string \<Rightarrow> uchar list" where
  "msg s = map of_char s"

fun cat_loop :: "uchar list list \<Rightarrow> uchar list" where
  "cat_loop [] = []"
| "cat_loop (b # bs) = b @ cat_loop bs"

definition cat :: "input_file \<Rightarrow> uchar list \<times> bool" where
  "cat f = (if read_error f then (cat_loop (pieces f) @ msg ''cat: read error'' @ [10], True) else (cat_loop (pieces f), False))"

fun each_file :: "(uchar list \<Rightarrow> input_file \<Rightarrow> uchar list \<times> bool) \<Rightarrow> (uchar list \<Rightarrow> input_file option) \<Rightarrow> uchar list list \<Rightarrow> uchar list" where
  "each_file work fopen [] = []"
| "each_file work fopen (a # as) =
     (case fopen a of
        None \<Rightarrow> msg ''cat: cannot open '' @ a @ [10]
      | Some f \<Rightarrow> (case work a f of (out, exited) \<Rightarrow> if exited then out else out @ each_file work fopen as))"

definition cat_main :: "input_file \<Rightarrow> (uchar list \<Rightarrow> input_file option) \<Rightarrow> uchar list list \<Rightarrow> uchar list" where
  "cat_main stdin fopen args = (if args = [] then fst (cat stdin) else each_file (\<lambda>_. cat) fopen args)"

text \<open>\<^verbatim>\<open>strchr\<close> on \<open>white\<close> does not find a zero byte, which is therefore part of a word.\<close>

definition white :: "uchar list" where
  "white = [32, 13, 9, 10, 11]"

record wcount =
  wc_l :: uint
  wc_w :: uint
  wc_c :: uint
  inword :: bool

definition wc_byte :: "uchar \<Rightarrow> wcount \<Rightarrow> wcount" where
  "wc_byte b s =
     (let s1 = s\<lparr>wc_c := wc_c s + 1, wc_l := (if b = 10 then wc_l s + 1 else wc_l s)\<rparr> in
      if b \<in> set white then s1\<lparr>inword := False\<rparr>
      else if \<not> inword s1 then s1\<lparr>wc_w := wc_w s1 + 1, inword := True\<rparr>
      else s1)"

fun wc_loop :: "uchar list list \<Rightarrow> wcount \<Rightarrow> wcount" where
  "wc_loop [] s = s"
| "wc_loop (b # bs) s = wc_loop bs (fold wc_byte b s)"

definition wc :: "uchar list \<Rightarrow> input_file \<Rightarrow> uchar list \<times> bool" where
  "wc nm f =
     (let s = wc_loop (pieces f) \<lparr>wc_l = 0, wc_w = 0, wc_c = 0, inword = False\<rparr> in
      if read_error f then (msg ''wc: read error'' @ [10], True)
      else (printint (wc_l s) 10 True @ [32] @ printint (wc_w s) 10 True @ [32] @ printint (wc_c s) 10 True @ [32] @ nm @ [10], False))"

definition wc_main :: "input_file \<Rightarrow> (uchar list \<Rightarrow> input_file option) \<Rightarrow> uchar list list \<Rightarrow> uchar list" where
  "wc_main stdin fopen args = (if args = [] then fst (wc [] stdin) else each_file wc fopen args)"

section \<open>What they print\<close>

lemma cat_copies: "cat_loop bs = concat bs"
  by (induction bs) auto

text \<open>A word begins at a byte that is not white and follows none or a white one.\<close>

fun words_from :: "bool \<Rightarrow> uchar list \<Rightarrow> nat" where
  "words_from inside [] = 0"
| "words_from inside (b # bs) =
     (if b \<in> set white then words_from False bs else (if inside then 0 else 1) + words_from True bs)"

lemma wc_byte_fold:
  "wc_l (fold wc_byte bs s) = wc_l s + of_nat (count_list bs 10)"
  "wc_w (fold wc_byte bs s) = wc_w s + of_nat (words_from (inword s) bs)"
  "wc_c (fold wc_byte bs s) = wc_c s + of_nat (length bs)"
  by (induction bs arbitrary: s) (auto simp: wc_byte_def white_def Let_def)

lemma wc_loop_fold: "wc_loop bs s = fold wc_byte (concat bs) s"
  by (induction bs arbitrary: s) auto

text \<open>Words are the maximal runs of bytes that are not white; splitting at the white bytes gives the same count.\<close>

function wc_words :: "uchar list \<Rightarrow> uchar list list" where
  "wc_words bs =
     (let rest = dropWhile (\<lambda>b. b \<in> set white) bs in
      if rest = [] then [] else takeWhile (\<lambda>b. b \<notin> set white) rest # wc_words (dropWhile (\<lambda>b. b \<notin> set white) rest))"
  by auto
termination
proof (relation "measure length", goal_cases)
  case (2 bs rest)
  then obtain x xs where r: "dropWhile (\<lambda>b. b \<in> set white) bs = x # xs" by (metis neq_Nil_conv)
  then have x: "x \<notin> set white" using hd_dropWhile [of "\<lambda>b. b \<in> set white" bs] by simp
  have "length (dropWhile (\<lambda>b. b \<notin> set white) (x # xs)) \<le> length xs" using x by (simp add: length_dropWhile_le)
  moreover have "length (x # xs) \<le> length bs" using length_dropWhile_le [of "\<lambda>b. b \<in> set white" bs] by (simp add: r)
  ultimately show ?case using 2(1) r by simp
qed simp

declare wc_words.simps [simp del]

lemma words_from_skip:
  "words_from False bs = words_from False (dropWhile (\<lambda>b. b \<in> set white) bs)"
  "words_from True bs = words_from False (dropWhile (\<lambda>b. b \<notin> set white) bs)"
  by (induction bs) auto

lemma words_from_wc_words: "words_from False bs = length (wc_words bs)"
proof (induction bs rule: wc_words.induct)
  case (1 bs)
  let ?rest = "dropWhile (\<lambda>b. b \<in> set white) bs"
  show ?case
  proof (cases ?rest)
    case Nil
    then have "words_from False bs = 0" by (subst words_from_skip(1)) (simp only: Nil words_from.simps)
    moreover have "wc_words bs = []" by (subst wc_words.simps) (simp only: Nil Let_def refl if_True)
    ultimately show ?thesis by simp
  next
    case (Cons x xs)
    then have x: "x \<notin> set white" using hd_dropWhile [of "\<lambda>b. b \<in> set white" bs] by simp
    have "words_from False bs = 1 + words_from False (dropWhile (\<lambda>b. b \<notin> set white) xs)"
      using x words_from_skip(2) [of xs] by (subst words_from_skip(1)) (simp add: Cons)
    then show ?thesis using 1 [OF refl] x by (subst wc_words.simps) (simp add: Cons)
  qed
qed

text \<open>The numbers that \<^verbatim>\<open>wc\<close> prints are those of the whole file, however \<^verbatim>\<open>read\<close> cuts it into pieces.\<close>

lemma wc_counts:
  assumes "\<not> read_error f"
  shows "wc nm f =
    (printint (of_nat (count_list (concat (pieces f)) 10)) 10 True @ [32] @ printint (of_nat (length (wc_words (concat (pieces f))))) 10 True @ [32] @
     printint (of_nat (length (concat (pieces f)))) 10 True @ [32] @ nm @ [10], False)"
  using assms by (simp add: wc_def wc_loop_fold wc_byte_fold words_from_wc_words)

end
