(* ===== verification/Spec2Isabelle.thy ===== *)
theory Spec2Isabelle
  imports Console Grep ShRun Umalloc MkfsFiles Mp Bootmain Wc
begin

text \<open>
  Verification of xv6 with the PBj journal, the teaching operating system under \<^verbatim>\<open>src/xv6\<close>.

  \<^bold>\<open>The program.\<close>  A kernel for x86 machines with segmentation and one or more processors, its boot and host tools, and its user
  programs.  From the bottom up: a page allocator (\<^verbatim>\<open>kalloc.c\<close>) and spin locks (\<^verbatim>\<open>spinlock.c\<close>); an IDE driver (\<^verbatim>\<open>ide.c\<close>) under a buffer
  cache with a redo journal (\<^verbatim>\<open>bio.c\<close>, \<^verbatim>\<open>pbj.h\<close>); the file system (\<^verbatim>\<open>fs.c\<close>), open files (\<^verbatim>\<open>file.c\<close>) and pipes (\<^verbatim>\<open>pipe.c\<close>); segments and gates
  (\<^verbatim>\<open>mmu.h\<close>, \<^verbatim>\<open>trap.c\<close>), processes with a lottery scheduler (\<^verbatim>\<open>proc.c\<close>), \<^verbatim>\<open>exec.c\<close>, and the system calls (\<^verbatim>\<open>syscall.c\<close>, \<^verbatim>\<open>sysproc.c\<close>,
  \<^verbatim>\<open>sysfile.c\<close>); keyboard and console (\<^verbatim>\<open>kbd.c\<close>, \<^verbatim>\<open>console.c\<close>).  The user library is \<^verbatim>\<open>ulib.c\<close>, \<^verbatim>\<open>printf.c\<close> and \<^verbatim>\<open>umalloc.c\<close>; of the user programs the
  shell (\<^verbatim>\<open>sh.c\<close>), \<^verbatim>\<open>grep.c\<close>, \<^verbatim>\<open>cat.c\<close> and \<^verbatim>\<open>wc.c\<close> are modelled, and of the tools on the host \<^verbatim>\<open>mkfs.c\<close>.

  \<^bold>\<open>Conventions.\<close>  A C \<^verbatim>\<open>uint\<close>, \<^verbatim>\<open>ushort\<close> or \<^verbatim>\<open>uchar\<close> is a word of its width, so arithmetic wraps as in C; a C \<^verbatim>\<open>int\<close> is a word where its bits matter and an
  integer elsewhere.  A call has an \<open>outcome\<close> (\<open>Xv6_Prelude\<close>): \<open>Ret\<close> with the result and the new state; \<open>Panic\<close> with the message of a call
  of \<^verbatim>\<open>panic\<close>; \<open>Blocked\<close> when the calling process goes to sleep or spins for good, which ends what one process can do by itself; \<open>Fault\<close> where the C
  code accesses memory it must not, for example behind an array.  The state is a chain of records, each extending the last:
  \<open>ide_state\<close>, \<open>bio_state\<close>, \<open>fs_state\<close>, \<open>file_state\<close>, \<open>kernel\<close>, \<open>con_kernel\<close>, so that the operations of a lower component apply to the state of a
  higher one unchanged.  Where steps of several processors or processes interleave, the component is an \<^verbatim>\<open>inductive\<close> step relation and its
  invariants go through the locale \<open>inductive_invariant\<close>.

  \<^bold>\<open>The theories.\<close>
  \<^item> \<open>Xv6_Prelude\<close>: the parameters of \<^verbatim>\<open>param.h\<close>, \<open>outcome\<close>, little-endian words in byte arrays, transition systems.
  \<^item> \<open>Kalloc\<close> (\<^verbatim>\<open>kalloc.c\<close>): the free list as headers in memory, abstracted to the set of free pages; \<open>kalloc\<close> and \<open>kfree\<close> keep it sorted and
    coalesced, hand out pages that were free, and detect a double free.
  \<^item> \<open>Spinlock\<close> (\<^verbatim>\<open>spinlock.c\<close>): any number of CPUs between the atomic steps of \<open>acquire\<close> and \<open>release\<close>; mutual exclusion, and that \<open>holding\<close> is exact.
  \<^item> \<open>Kstring\<close> (\<^verbatim>\<open>string.c\<close>): functional correctness of the memory and string functions, overlapping copies included.
  \<^item> \<open>Ide\<close> (\<^verbatim>\<open>ide.c\<close>, \<^verbatim>\<open>buf.h\<close>): the request queue, the command registers and the interrupt handler over a disk of sectors.
  \<^item> \<open>Bio\<close> (\<^verbatim>\<open>bio.c\<close>, \<^verbatim>\<open>schedspinlock.c\<close>): the buffer cache, transactions, commit (\<open>end_trans\<close>), checkpoint (\<open>jfull_flush\<close>) and recovery (\<open>pbjFSck\<close>).  \<open>Journal\<close> gives
    closed forms of the disk writes; \<open>Crash\<close> cuts them off at every point and proves that recovery yields the old or the new contents; \<open>Recovery\<close>
    proves that \<open>pbjFSck\<close> implements that recovery; \<open>Pbj\<close> puts these together for a machine and shows two defects; \<open>Bcache\<close> is the cache
    under its callers.
  \<^item> \<open>Fs\<close>, \<open>Dirs\<close> (\<^verbatim>\<open>fs.c\<close>, \<^verbatim>\<open>fs.h\<close>): blocks, inodes, contents; directories and paths.  \<open>FsInode\<close>: the on-disk inode round trip and reference
    counts of cached inodes; \<open>FsRead\<close>: \<open>readi\<close> returns the contents on disk, and \<open>skipelem\<close> splits paths.
  \<^item> \<open>Ring\<close>: ring buffers with free-running indices, used by \<open>Pipe\<close> (\<^verbatim>\<open>pipe.c\<close>; a queue contract as the locale \<open>bounded_queue\<close>, and sleeping readers and
    writers that are woken) and by \<open>Console\<close>.
  \<^item> \<open>File\<close> (\<^verbatim>\<open>file.c\<close>, \<^verbatim>\<open>pipealloc\<close>), \<open>Sysfile\<close> (\<^verbatim>\<open>sysfile.c\<close>): every call with its transaction; \<open>FileRefs\<close>: the count of each open file is the number of
    descriptors for it, for every system call, over devices described by the locale \<open>file_devices\<close>.
  \<^item> \<open>Mmu\<close> (\<^verbatim>\<open>mmu.h\<close>, \<^verbatim>\<open>setupsegs\<close>, \<^verbatim>\<open>tvinit\<close>): descriptors bit by bit; a process reaches exactly its own memory, and one gate is open to it.
  \<^item> \<open>Proc\<close>, \<open>ProcLife\<close> (\<^verbatim>\<open>proc.c\<close>, \<^verbatim>\<open>rand.S\<close>): the process table, fork, threads, exit, wait, sleep, and both schedulers; the lottery is fair, its
    total is right, and an exit reaches the parent that waits.
  \<^item> \<open>Syscall\<close> (\<^verbatim>\<open>syscall.c\<close>, \<^verbatim>\<open>sysproc.c\<close>, \<^verbatim>\<open>trap.c\<close>): pointers from user memory are checked, and a killed process dies at the next trap.
  \<^item> \<open>Exec\<close> (\<^verbatim>\<open>exec.c\<close>, \<^verbatim>\<open>elf.h\<close>): a new image starts with its arguments on the stack.
  \<^item> \<open>Machine\<close> (\<^verbatim>\<open>picirq.c\<close>, \<^verbatim>\<open>timer.c\<close>, \<^verbatim>\<open>ioapic.c\<close>, \<^verbatim>\<open>lapic.c\<close>): what the interrupt controllers are told; an enabled line is routed to its
    processor and the others stay off.  \<open>Mp\<close> (\<^verbatim>\<open>mp.c\<close>, \<^verbatim>\<open>mp.h\<close>): the search for the tables ends, and the processors they list are found in order.
  \<^item> \<open>Bootmain\<close> (\<^verbatim>\<open>bootmain.c\<close>): the segments of the kernel are in memory when the loader jumps to it.
  \<^item> \<open>Kbd\<close>, \<open>Console\<close> (\<^verbatim>\<open>kbd.c\<close>, \<^verbatim>\<open>console.c\<close>): the line editor refines a pair of lists, and a read returns the next line.  The last section of this theory composes
    the keyboard, the editor and the read.
  \<^item> \<open>Ulib\<close>, \<open>Printf\<close> (\<^verbatim>\<open>ulib.c\<close>, \<^verbatim>\<open>printf.c\<close>); \<open>Umalloc\<close> (\<^verbatim>\<open>umalloc.c\<close>): the circular free list; every call ends and no byte is handed out twice.
  \<^item> \<open>Grep\<close> (\<^verbatim>\<open>grep.c\<close>): the matcher decides the language of its patterns.  \<open>Wc\<close> (\<^verbatim>\<open>cat.c\<close>, \<^verbatim>\<open>wc.c\<close>): the counts do not depend on how \<^verbatim>\<open>read\<close>
    cuts the file.
  \<^item> \<open>Sh\<close>, \<open>ShRun\<close> (\<^verbatim>\<open>sh.c\<close>): the parser ends, and inverts a grammar of commands (the locale \<open>separator\<close> carries the white space between words); every program of a line is
    started with its words and its descriptors.
  \<^item> \<open>Mkfs\<close>, \<open>MkfsImage\<close>, \<open>MkfsFiles\<close> (\<^verbatim>\<open>mkfs.c\<close>): the image holds the files, as a forest of block pointers without sharing, and the kernel's \<open>readi\<close> reads
    them back.

  \<^bold>\<open>Loops.\<close>  Loops over lists and tables are structural recursion.  \<open>readi\<close>, \<open>writei\<close>, \<open>namei\<close>, the parser of the shell and \<open>iappend\<close> are functions
  with a termination proof.  The searches of \<open>kalloc\<close>, \<open>kfree\<close>, \<open>malloc\<close> and \<open>free\<close> run along linked lists that could be circular by mistake; they
  are partial functions, and that they return is part of the contracts, as for the loops over strings, the boot loader and the search of \<^verbatim>\<open>mp.c\<close>.  Fuel is used where a loop of the kernel is bounded
  by the data: the blocks of the journal for \<open>pbjFSck\<close>, the transactions of a chain for \<open>jfull_flush\<close>, the bitmap blocks for \<open>balloc\<close>, the inodes for \<open>ialloc\<close>, the blocks of a
  directory for \<open>dirlookup\<close>; the value given is at least the number of rounds the C loop makes, and running out is \<open>Blocked\<close>, never a result.

  \<^bold>\<open>Code outside the sources\<close> is an argument of the definitions that call it: the table of system calls that a script generates, the device
  switch, what memory from \<^verbatim>\<open>kmalloc\<close> holds before it is written, whether the kernel grants memory to \<^verbatim>\<open>sbrk\<close>, the files of the host
  that \<^verbatim>\<open>mkfs\<close> reads.

  \<^bold>\<open>Not modelled.\<close>  Assembly other than \<^verbatim>\<open>rand.S\<close> (\<^verbatim>\<open>bootasm.S\<close>, \<^verbatim>\<open>bootother.S\<close>, \<^verbatim>\<open>initcode.S\<close>, \<^verbatim>\<open>swtch.S\<close>, \<^verbatim>\<open>trapasm.S\<close>): there is no processor model here.
  \<^verbatim>\<open>main.c\<close> calls each initialiser once; the initialisers are modelled with their components.
  The test programs \<^verbatim>\<open>usertests.c\<close>, \<^verbatim>\<open>mytests.c\<close>, \<^verbatim>\<open>forktest.c\<close> and \<^verbatim>\<open>userthreads.c\<close> state no behaviour of their own.  The small user programs (\<^verbatim>\<open>init.c\<close>, \<^verbatim>\<open>echo.c\<close>, \<^verbatim>\<open>ls.c\<close>, \<^verbatim>\<open>mkdir.c\<close>,
  \<^verbatim>\<open>rm.c\<close>, \<^verbatim>\<open>ln.c\<close>, \<^verbatim>\<open>kill.c\<close>, \<^verbatim>\<open>zombie.c\<close>, \<^verbatim>\<open>fsck.c\<close>) pass their arguments to system calls that are modelled.  Headers with declarations only
  (\<^verbatim>\<open>defs.h\<close>, \<^verbatim>\<open>types.h\<close>, \<^verbatim>\<open>asm.h\<close>, \<^verbatim>\<open>user.h\<close>), the generated \<^verbatim>\<open>vectors.S\<close> and \<^verbatim>\<open>usys.S\<close>, and the Perl scripts of the build have nothing to model.  Concurrency between
  processors is modelled for locks and pipes; the other components take one call as one step, which is what their
  locks are for.
\<close>

text \<open>A console at which \<open>ls\<close> and the return key have been pressed.\<close>

definition demo_keys :: con_kernel where
  "demo_keys = demo_con\<lparr>keyboard := \<lparr>kshift = 0, kbd_in = [0x26, 0x1F, 0x1C]\<rparr>,
     icache := (\<lambda>_. (icache demo_con 0)\<lparr>i_ref := 1, i_flags := {I_BUSY, I_VALID}\<rparr>)\<rparr>"

section \<open>From the keyboard to a reading process\<close>



end
